(* ===== verification/Prelude.thy ===== *)
theory Prelude
  imports Main "HOL-Library.Word"
begin

unbundle bit_operations_syntax

text \<open>
  What every component shares: the machine integer types, the ways a run of the C code
  can end without a value (as values of a sum type), the sequencing of fallible steps,
  and the one loop shape the look-up functions of \<open>stmap.c\<close> and \<open>utils.c\<close> have
  (scan an array, stop at the first element a test accepts).
\<close>

section \<open>Machine integers\<close>

type_synonym u8 = "8 word"
type_synonym u16 = "16 word"
type_synonym u32 = "32 word"
type_synonym u64 = "64 word"

section \<open>Ways to fail\<close>

text \<open>
  \<open>Errx s\<close> is \<open>errx(1, s, ...)\<close>: the process prints \<open>s\<close> and exits. The others are the
  places where the C code has no defined behaviour, or aborts, for the given input:
  a read or write of an unmapped address, a \<open>NULL\<close> pointer that is dereferenced, an array
  index outside the array, a pointer used after \<open>realloc\<close> moved the object, \<open>free\<close> of a
  value that is no pointer of the allocator, a failed \<open>assert\<close>, and a loop that spent its
  fuel.
\<close>

datatype error =
    Errx string
  | Segfault u64
  | NullDeref
  | OutOfBounds
  | UseAfterFree
  | BadFree
  | AssertFail
  | NoReturn

type_synonym 'a res = "error + 'a"

text \<open>The results that mean ``the code stopped with a message''.\<close>

definition is_exit :: "'a res \<Rightarrow> bool" where
  "is_exit r = (case r of Inl (Errx _) \<Rightarrow> True | _ \<Rightarrow> False)"

section \<open>Sequencing\<close>

definition bind_res :: "'a res \<Rightarrow> ('a \<Rightarrow> 'b res) \<Rightarrow> 'b res" where
  "bind_res r f = (case r of Inl e \<Rightarrow> Inl e | Inr x \<Rightarrow> f x)"

definition deref :: "'a option \<Rightarrow> 'a res" where
  "deref p = (case p of None \<Rightarrow> Inl NullDeref | Some x \<Rightarrow> Inr x)"

definition index_at :: "'a list \<Rightarrow> nat \<Rightarrow> 'a res" where
  "index_at xs i = (if i < length xs then Inr (xs ! i) else Inl OutOfBounds)"

definition update_at :: "'a list \<Rightarrow> nat \<Rightarrow> 'a \<Rightarrow> 'a list res" where
  "update_at xs i x = (if i < length xs then Inr (xs[i := x]) else Inl OutOfBounds)"

definition or_errx :: "'a option \<Rightarrow> string \<Rightarrow> 'a res" where
  "or_errx p msg = (case p of None \<Rightarrow> Inl (Errx msg) | Some x \<Rightarrow> Inr x)"

text \<open>
  The loop \<open>for (i = 0; i < n; ++i) if (test) return &a[i]; return NULL;\<close>, whose test may
  itself fail.
\<close>

fun find_res :: "('a \<Rightarrow> bool res) \<Rightarrow> 'a list \<Rightarrow> 'a option res" where
  "find_res p [] = Inr None"
| "find_res p (x # xs) = bind_res (p x) (\<lambda>b. if b then Inr (Some x) else find_res p xs)"

text \<open>
  The same loop when the body computes what is returned, as the nested loops of \<open>utils.c\<close>
  do: \<open>None\<close> goes on to the next element, \<open>Some y\<close> returns \<open>y\<close>.
\<close>

fun find_map_res :: "('a \<Rightarrow> 'b option res) \<Rightarrow> 'a list \<Rightarrow> 'b option res" where
  "find_map_res f [] = Inr None"
| "find_map_res f (x # xs) =
     bind_res (f x) (\<lambda>r. case r of None \<Rightarrow> find_map_res f xs | Some y \<Rightarrow> Inr (Some y))"

text \<open>A fallible function on every element of a list.\<close>

fun map_res :: "('a \<Rightarrow> 'b res) \<Rightarrow> 'a list \<Rightarrow> 'b list res" where
  "map_res f [] = Inr []"
| "map_res f (x # xs) = bind_res (f x) (\<lambda>y. bind_res (map_res f xs) (\<lambda>ys. Inr (y # ys)))"

text \<open>The loop that runs a fallible body on each element and threads a state.\<close>

fun fold_res :: "('a \<Rightarrow> 's \<Rightarrow> 's res) \<Rightarrow> 'a list \<Rightarrow> 's \<Rightarrow> 's res" where
  "fold_res f [] s = Inr s"
| "fold_res f (x # xs) s = bind_res (f x s) (fold_res f xs)"

section \<open>Lemmas\<close>

lemma bind_res_simps [simp]:
  "bind_res (Inl e) f = Inl e"
  "bind_res (Inr x) f = f x"
  by (simp_all add: bind_res_def)

lemma bind_res_Inr_iff:
  "bind_res r f = Inr y \<longleftrightarrow> (\<exists>x. r = Inr x \<and> f x = Inr y)"
  by (cases r) auto

lemma bind_res_InrE:
  assumes "bind_res r f = Inr y"
  obtains x where "r = Inr x" and "f x = Inr y"
  using assms by (cases r) auto

lemma bind_res_Inl_iff:
  "bind_res r f = Inl e \<longleftrightarrow> r = Inl e \<or> (\<exists>x. r = Inr x \<and> f x = Inl e)"
  by (cases r) auto

lemma bind_res_assoc: "bind_res (bind_res r f) g = bind_res r (\<lambda>x. bind_res (f x) g)"
  by (cases r) auto

lemma bind_res_return [simp]: "bind_res r Inr = r"
  by (cases r) auto

lemma bind_res_cong [fundef_cong]:
  "r = r' \<Longrightarrow> (\<And>x. r' = Inr x \<Longrightarrow> f x = g x) \<Longrightarrow> bind_res r f = bind_res r' g"
  by (cases r') auto

lemma deref_simps [simp]: "deref None = Inl NullDeref" "deref (Some x) = Inr x"
  by (simp_all add: deref_def)

lemma deref_Inr_iff [simp]: "deref p = Inr x \<longleftrightarrow> p = Some x"
  by (cases p) auto

lemma or_errx_simps [simp]: "or_errx None msg = Inl (Errx msg)" "or_errx (Some x) msg = Inr x"
  by (simp_all add: or_errx_def)

lemma or_errx_Inr_iff [simp]: "or_errx p msg = Inr x \<longleftrightarrow> p = Some x"
  by (cases p) auto

lemma index_at_Inr_iff: "index_at xs i = Inr x \<longleftrightarrow> i < length xs \<and> x = xs ! i"
  by (auto simp: index_at_def)

lemma index_at_less [simp]: "i < length xs \<Longrightarrow> index_at xs i = Inr (xs ! i)"
  by (simp add: index_at_def)

lemma update_at_Inr_iff: "update_at xs i x = Inr ys \<longleftrightarrow> i < length xs \<and> ys = xs[i := x]"
  by (auto simp: update_at_def)

lemma update_at_less [simp]: "i < length xs \<Longrightarrow> update_at xs i x = Inr (xs[i := x])"
  by (simp add: update_at_def)

lemma find_res_append:
  "find_res p (xs @ ys) =
     bind_res (find_res p xs) (\<lambda>r. case r of None \<Rightarrow> find_res p ys | Some x \<Rightarrow> Inr (Some x))"
  by (induction xs) (auto simp: bind_res_def split: sum.splits)

lemma find_res_SomeD:
  "find_res p xs = Inr (Some x) \<Longrightarrow>
     \<exists>ys zs. xs = ys @ x # zs \<and> p x = Inr True \<and> (\<forall>y \<in> set ys. p y = Inr False)"
proof (induction xs)
  case Nil
  then show ?case by simp
next
  case (Cons a xs)
  from Cons.prems obtain b where b: "p a = Inr b"
    and rest: "(if b then Inr (Some a) else find_res p xs) = Inr (Some x)"
    by (auto simp: bind_res_Inr_iff)
  show ?case
  proof (cases b)
    case True
    with b rest have "a # xs = [] @ x # xs" "p x = Inr True" by auto
    then show ?thesis by fastforce
  next
    case False
    with rest Cons.IH obtain ys zs where
      "xs = ys @ x # zs" "p x = Inr True" "\<forall>y \<in> set ys. p y = Inr False" by auto
    with b False have "a # xs = (a # ys) @ x # zs" "p x = Inr True"
      "\<forall>y \<in> set (a # ys). p y = Inr False" by auto
    then show ?thesis by blast
  qed
qed

lemma find_res_None_iff: "find_res p xs = Inr None \<longleftrightarrow> (\<forall>x \<in> set xs. p x = Inr False)"
  by (induction xs) (auto simp: bind_res_Inr_iff)

lemma find_res_pure: "find_res (\<lambda>x. Inr (q x)) xs = Inr (find q xs)"
  by (induction xs) auto

lemma find_res_cong:
  "(\<And>x. x \<in> set xs \<Longrightarrow> p x = q x) \<Longrightarrow> find_res p xs = find_res q xs"
  by (induction xs) (auto simp: bind_res_def split: sum.split)

text \<open>The search by index, as the loops of \<open>stmap.c\<close> are written.\<close>

lemma find_res_upt:
  "find_res p [k..<n] = Inr (Some i) \<Longrightarrow>
     k \<le> i \<and> i < n \<and> p i = Inr True \<and> (\<forall>j. k \<le> j \<longrightarrow> j < i \<longrightarrow> p j = Inr False)"
proof (induction "n - k" arbitrary: k)
  case 0
  then show ?case by simp
next
  case (Suc d)
  then have k: "k < n" by simp
  with Suc.prems obtain b where b: "p k = Inr b"
    and r: "(if b then Inr (Some k) else find_res p [Suc k..<n]) = Inr (Some i)"
    by (auto simp: upt_rec [of k] bind_res_Inr_iff)
  show ?case
  proof (cases b)
    case True
    with b r k show ?thesis by auto
  next
    case False
    with r Suc.hyps(2) have ih: "Suc k \<le> i \<and> i < n \<and> p i = Inr True \<and>
        (\<forall>j. Suc k \<le> j \<longrightarrow> j < i \<longrightarrow> p j = Inr False)"
      by (intro Suc.hyps(1)) auto
    have "p j = Inr False" if "k \<le> j" "j < i" for j
      using that ih b False by (cases "j = k") auto
    with ih show ?thesis by auto
  qed
qed

lemma find_map_index:
  "length xs = n \<Longrightarrow> map_option (\<lambda>i. xs ! i) (find (\<lambda>i. q (xs ! i)) [0..<n]) = find q xs"
proof (induction xs arbitrary: n)
  case Nil
  then show ?case by simp
next
  case (Cons x xs)
  have f: "find g (map Suc is) = map_option Suc (find (\<lambda>i. g (Suc i)) is)" for g :: "nat \<Rightarrow> bool" and "is"
    by (induction "is") auto
  from Cons.prems have n: "n = Suc (length xs)" by simp
  have "[0..<n] = 0 # map Suc [0..<length xs]"
    unfolding n by (simp only: upt_conv_Cons map_Suc_upt zero_less_Suc)
  then show ?case using Cons.IH [of "length xs"]
    by (auto simp: f option.map_comp comp_def)
qed

lemma map_res_Inr_iff:
  "map_res f xs = Inr ys \<longleftrightarrow> list_all2 (\<lambda>x y. f x = Inr y) xs ys"
proof (induction xs arbitrary: ys)
  case Nil
  then show ?case by (cases ys) auto
next
  case (Cons x xs)
  then show ?case by (cases ys) (auto simp: bind_res_Inr_iff)
qed

text \<open>
  A search whose body reads an element and decides on what it read is a search in the list
  of what all the reads give.
\<close>

lemma find_map_res_read:
  assumes "map_res f xs = Inr ys"
  shows "find_map_res (\<lambda>x. bind_res (f x) g) xs = find_map_res g ys"
  using assms
proof (induction xs arbitrary: ys)
  case Nil
  then show ?case by simp
next
  case (Cons x xs)
  then obtain y zs where "f x = Inr y" "map_res f xs = Inr zs" "ys = y # zs"
    by (auto simp: bind_res_Inr_iff)
  with Cons.IH show ?case by (simp add: bind_res_def split: sum.split option.split)
qed

lemma find_map_res_append:
  "find_map_res f (xs @ ys) =
     bind_res (find_map_res f xs) (\<lambda>r. case r of None \<Rightarrow> find_map_res f ys | Some y \<Rightarrow> Inr (Some y))"
  by (induction xs) (auto simp: bind_res_def split: sum.split option.split)

lemma find_map_res_concat:
  "find_map_res (find_map_res f) xss = find_map_res f (concat xss)"
  by (induction xss) (auto simp: find_map_res_append)

lemma find_map_res_cong:
  "(\<And>x. x \<in> set xs \<Longrightarrow> f x = g x) \<Longrightarrow> find_map_res f xs = find_map_res g xs"
  by (induction xs) (auto simp: bind_res_def split: sum.split option.split)

lemma find_map_res_pure:
  "find_map_res (\<lambda>x. Inr (if q x then Some (h x) else None)) xs = Inr (map_option h (find q xs))"
  by (induction xs) auto

lemma find_map_res_find:
  "find_map_res (\<lambda>x. bind_res (p x) (\<lambda>b. Inr (if b then Some (h x) else None))) xs =
     bind_res (find_res p xs) (\<lambda>r. Inr (map_option h r))"
  by (induction xs) (auto simp: bind_res_def split: sum.split option.split)

lemma fold_res_append:
  "fold_res f (xs @ ys) s = bind_res (fold_res f xs s) (fold_res f ys)"
  by (induction xs arbitrary: s) (auto simp: bind_res_def split: sum.split)

lemma fold_res_invariant:
  assumes "fold_res f xs s = Inr t" and "P s"
    and "\<And>x u v. x \<in> set xs \<Longrightarrow> P u \<Longrightarrow> f x u = Inr v \<Longrightarrow> P v"
  shows "P t"
  using assms
proof (induction xs arbitrary: s)
  case Nil
  then show ?case by simp
next
  case (Cons x xs)
  from Cons.prems(1) obtain u where u: "f x s = Inr u" "fold_res f xs u = Inr t"
    by (auto simp: bind_res_Inr_iff)
  have "P u" using Cons.prems(2,3) u(1) by auto
  with u(2) Cons.prems(3) show ?case by (intro Cons.IH) auto
qed

text \<open>A loop over distinct indices whose body replaces the element at its index.\<close>

lemma fold_res_update:
  assumes "fold_res step is (xs, m) = Inr (ys, m')" and "distinct is"
    and "\<And>i xs m ys m'. i \<in> set is \<Longrightarrow> step i (xs, m) = Inr (ys, m') \<Longrightarrow>
      i < length xs \<and> (\<exists>y. ys = xs[i := y] \<and> R (xs ! i) y)"
  shows "length ys = length xs \<and> (\<forall>i \<in> set is. i < length xs \<and> R (xs ! i) (ys ! i)) \<and>
    (\<forall>i. i \<notin> set is \<longrightarrow> ys ! i = xs ! i)"
  using assms
proof (induction "is" arbitrary: xs m)
  case Nil
  then show ?case by simp
next
  case (Cons i "is")
  from Cons.prems(1) obtain zs n where z: "step i (xs, m) = Inr (zs, n)"
    and r: "fold_res step is (zs, n) = Inr (ys, m')"
    by (auto simp: bind_res_Inr_iff)
  from Cons.prems(3) [OF _ z] obtain y where i: "i < length xs" and y: "zs = xs[i := y]" "R (xs ! i) y"
    by auto
  have ih: "length ys = length zs \<and> (\<forall>i \<in> set is. i < length zs \<and> R (zs ! i) (ys ! i)) \<and>
      (\<forall>i. i \<notin> set is \<longrightarrow> ys ! i = zs ! i)"
    using r Cons.prems(2,3) by (intro Cons.IH) auto
  have "i \<notin> set is" using Cons.prems(2) by simp
  then have "zs ! j = xs ! j" if "j \<in> set is" for j
    using that y(1) by (cases "j = i") auto
  with ih i y \<open>i \<notin> set is\<close> show ?case by auto
qed

lemma find_Some_split:
  "find q xs = Some x \<longleftrightarrow>
     (\<exists>ys zs. xs = ys @ x # zs \<and> q x \<and> (\<forall>y \<in> set ys. \<not> q y))"
proof
  assume "find q xs = Some x"
  then have "find_res (\<lambda>x. Inr (q x)) xs = Inr (Some x)" by (simp add: find_res_pure)
  then show "\<exists>ys zs. xs = ys @ x # zs \<and> q x \<and> (\<forall>y \<in> set ys. \<not> q y)"
    using find_res_SomeD by fastforce
next
  assume "\<exists>ys zs. xs = ys @ x # zs \<and> q x \<and> (\<forall>y \<in> set ys. \<not> q y)"
  then obtain ys zs where "xs = ys @ x # zs" "q x" "\<forall>y \<in> set ys. \<not> q y" by blast
  then show "find q xs = Some x"
    by (induction ys arbitrary: xs) auto
qed

lemma find_SomeD: "find q xs = Some x \<Longrightarrow> x \<in> set xs \<and> q x"
  by (auto simp: find_Some_split)

subsection \<open>Words as addresses\<close>

text \<open>Distances from a base: sums of a base and a small offset compare as the offsets do.\<close>

lemma unat_of_nat_u64: "n < 2 ^ 64 \<Longrightarrow> unat (of_nat n :: u64) = n"
  by (simp add: unat_of_nat take_bit_eq_mod)

lemma unat_u64_less: "unat (a :: u64) < 2 ^ 64"
proof -
  have "unat a < 2 ^ LENGTH(64)" by (rule unsigned_less)
  then show ?thesis by simp
qed

lemma unat_diff_base:
  fixes b :: u64
  assumes "y \<le> x" and "x < 2 ^ 64"
  shows "unat ((b + of_nat x) - (b + of_nat y)) = x - y"
proof -
  have "(b + of_nat x) - (b + of_nat y) = (of_nat (x - y) :: u64)"
    using assms(1) by simp
  then show ?thesis using assms by (simp only: unat_of_nat_u64)
qed

lemma unat_diff_base_neg:
  fixes b :: u64
  assumes "x < y" and "y < 2 ^ 64"
  shows "unat ((b + of_nat x) - (b + of_nat y)) = 2 ^ 64 - (y - x)"
proof -
  have "(b + of_nat x) - (b + of_nat y) = of_nat x - (of_nat y :: u64)" by simp
  moreover have "unat (of_nat x - (of_nat y :: u64)) = 2 ^ 64 - (y - x)"
    using assms unat_of_nat_u64 [of x] unat_of_nat_u64 [of y]
    by (simp only: unat_sub_if') auto
  ultimately show ?thesis by simp
qed

end
