(* ===== verification/Memory.thy ===== *)
theory Memory
  imports Prelude
begin

unbundle bit_operations_syntax

text \<open>
  The byte-addressed address space of the process: what \<open>memcpy\<close>, \<open>memset\<close> and the
  \<open>*(uint64_t *)p\<close> accesses of \<open>stmap.c\<close>, \<open>call_stack_state.c\<close> and \<open>guard.c\<close> read and
  write. An address that is not mapped has no byte; an access that touches one is the
  error \<open>Segfault\<close>. Multi-byte values are little-endian (x86-64).

  The locale \<open>cell_store\<close> states what the code relies on when it fills a stack with saved
  base pointers and return addresses: a cell reads back what was written to it last, and a
  write leaves the cells apart from it alone. It is interpreted on 64-bit cells and on byte
  regions. The locale \<open>byte_codec\<close> is the contract of a fixed-width binary layout (a C
  struct that is filled by \<open>memcpy\<close>), with the layout of an array of such structs derived
  from it once.
\<close>

type_synonym mem = "u64 \<Rightarrow> u8 option"

section \<open>Little-endian words\<close>

fun to_bytes :: "nat \<Rightarrow> 'a::len word \<Rightarrow> u8 list" where
  "to_bytes 0 w = []"
| "to_bytes (Suc n) w = ucast w # to_bytes n (drop_bit 8 w)"

fun from_bytes :: "u8 list \<Rightarrow> 'a::len word" where
  "from_bytes [] = 0"
| "from_bytes (b # bs) = ucast b OR push_bit 8 (from_bytes bs)"

section \<open>Access to memory\<close>

definition mapped :: "mem \<Rightarrow> u64 \<Rightarrow> nat \<Rightarrow> bool" where
  "mapped m a n = list_all (\<lambda>i. m (a + of_nat i) \<noteq> None) [0..<n]"

definition load_bytes :: "mem \<Rightarrow> u64 \<Rightarrow> nat \<Rightarrow> u8 list res" where
  "load_bytes m a n =
     (if mapped m a n then Inr (map (\<lambda>i. the (m (a + of_nat i))) [0..<n])
      else Inl (Segfault a))"

text \<open>The memory after the bytes \<open>bs\<close> are put at address \<open>a\<close>.\<close>

definition poke :: "mem \<Rightarrow> u64 \<Rightarrow> u8 list \<Rightarrow> mem" where
  "poke m a bs = (\<lambda>x. if unat (x - a) < length bs then Some (bs ! unat (x - a)) else m x)"

definition store_bytes :: "mem \<Rightarrow> u64 \<Rightarrow> u8 list \<Rightarrow> mem res" where
  "store_bytes m a bs =
     (if mapped m a (length bs) then Inr (poke m a bs) else Inl (Segfault a))"

definition load_u16 :: "mem \<Rightarrow> u64 \<Rightarrow> u16 res" where
  "load_u16 m a = bind_res (load_bytes m a 2) (\<lambda>bs. Inr (from_bytes bs))"

definition load_u64 :: "mem \<Rightarrow> u64 \<Rightarrow> u64 res" where
  "load_u64 m a = bind_res (load_bytes m a 8) (\<lambda>bs. Inr (from_bytes bs))"

definition store_u64 :: "mem \<Rightarrow> u64 \<Rightarrow> u64 \<Rightarrow> mem res" where
  "store_u64 m a v = store_bytes m a (to_bytes 8 v)"

text \<open>\<open>memcpy(dst, src, n)\<close> and \<open>memset(dst, c, n)\<close>.\<close>

definition memcpy :: "mem \<Rightarrow> u64 \<Rightarrow> u64 \<Rightarrow> nat \<Rightarrow> mem res" where
  "memcpy m dst src n = bind_res (load_bytes m src n) (store_bytes m dst)"

definition memset :: "mem \<Rightarrow> u64 \<Rightarrow> u8 \<Rightarrow> nat \<Rightarrow> mem res" where
  "memset m dst c n = store_bytes m dst (replicate n c)"

text \<open>Two regions that share no address.\<close>

definition apart :: "u64 \<Rightarrow> nat \<Rightarrow> u64 \<Rightarrow> nat \<Rightarrow> bool" where
  "apart a n b k \<longleftrightarrow> n \<le> unat (b - a) \<and> k \<le> unat (a - b)"

text \<open>Memory holds the bytes \<open>bs\<close> from address \<open>a\<close> on.\<close>

definition holds :: "mem \<Rightarrow> u64 \<Rightarrow> u8 list \<Rightarrow> bool" where
  "holds m a bs \<longleftrightarrow> load_bytes m a (length bs) = Inr bs"

section \<open>Arrays of fixed-width elements\<close>

fun decode_array :: "nat \<Rightarrow> (u8 list \<Rightarrow> 'a) \<Rightarrow> nat \<Rightarrow> u8 list \<Rightarrow> 'a list" where
  "decode_array w dec 0 bs = []"
| "decode_array w dec (Suc n) bs = dec (take w bs) # decode_array w dec n (drop w bs)"

text \<open>The \<open>memcpy\<close> of \<open>n\<close> structs of \<open>w\<close> bytes into an array of structs.\<close>

definition load_array :: "nat \<Rightarrow> (u8 list \<Rightarrow> 'a) \<Rightarrow> mem \<Rightarrow> u64 \<Rightarrow> nat \<Rightarrow> 'a list res" where
  "load_array w dec m a n =
     bind_res (load_bytes m a (w * n)) (\<lambda>bs. Inr (decode_array w dec n bs))"

section \<open>Lemmas on bytes\<close>

lemma length_to_bytes [simp]: "length (to_bytes n w) = n"
  by (induction n arbitrary: w) auto

lemma from_to_bytes: "from_bytes (to_bytes n w) = take_bit (8 * n) w"
proof (induction n arbitrary: w)
  case 0
  then show ?case by simp
next
  case (Suc n)
  show ?case
    by (rule bit_word_eqI) (auto simp: Suc bit_simps)
qed

lemma from_to_bytes_u64 [simp]: "from_bytes (to_bytes 8 (w :: u64)) = w"
  by (simp add: from_to_bytes take_bit_word_eq_self)

lemma from_to_bytes_u32 [simp]: "from_bytes (to_bytes 4 (w :: u32)) = w"
  by (simp add: from_to_bytes take_bit_word_eq_self)

lemma from_to_bytes_u16 [simp]: "from_bytes (to_bytes 2 (w :: u16)) = w"
  by (simp add: from_to_bytes take_bit_word_eq_self)

lemma from_to_bytes_u8 [simp]: "from_bytes (to_bytes 1 (w :: u8)) = w"
  by (simp add: from_to_bytes take_bit_word_eq_self del: One_nat_def)

lemma length_decode_array [simp]: "length (decode_array w dec n bs) = n"
  by (induction n arbitrary: bs) auto

section \<open>Lemmas on memory\<close>

lemma mapped_iff: "mapped m a n \<longleftrightarrow> (\<forall>i<n. m (a + of_nat i) \<noteq> None)"
  by (auto simp: mapped_def list_all_iff)

lemma mapped_mono: "mapped m a n \<Longrightarrow> k \<le> n \<Longrightarrow> mapped m a k"
  by (auto simp: mapped_iff)

lemma mapped_at: "mapped m a n \<Longrightarrow> i < n \<Longrightarrow> m (a + of_nat i) \<noteq> None"
  by (auto simp: mapped_iff)

lemma addr_add: "a + of_nat d + of_nat i = (a :: u64) + of_nat (d + i)"
  by simp

lemma mapped_sub:
  assumes "mapped m a n" and "d + k \<le> n"
  shows "mapped m (a + of_nat d) k"
  unfolding mapped_iff addr_add using assms by (intro allI impI mapped_at) auto

lemma mapped_append:
  "mapped m a (n + k) \<longleftrightarrow> mapped m a n \<and> mapped m (a + of_nat n) k"
proof
  assume "mapped m a (n + k)"
  then show "mapped m a n \<and> mapped m (a + of_nat n) k"
    by (simp add: mapped_mono mapped_sub)
next
  assume r: "mapped m a n \<and> mapped m (a + of_nat n) k"
  have "m (a + of_nat i) \<noteq> None" if "i < n + k" for i
  proof (cases "i < n")
    case True
    with r show ?thesis by (intro mapped_at) auto
  next
    case False
    then have "m (a + of_nat n + of_nat (i - n)) \<noteq> None"
      using that r by (intro mapped_at) auto
    then show ?thesis using False unfolding addr_add by simp
  qed
  then show "mapped m a (n + k)" by (simp add: mapped_iff)
qed

lemma load_bytes_InrD: "load_bytes m a n = Inr bs \<Longrightarrow> mapped m a n \<and> length bs = n"
  by (auto simp: load_bytes_def split: if_splits)

lemma load_bytes_mapped: "mapped m a n \<Longrightarrow> \<exists>bs. load_bytes m a n = Inr bs \<and> length bs = n"
  by (simp add: load_bytes_def)

lemma holds_nil [simp]: "holds m a []"
  by (simp add: holds_def load_bytes_def mapped_def)

lemma holds_iff: "holds m a bs \<longleftrightarrow> (\<forall>i<length bs. m (a + of_nat i) = Some (bs ! i))"
proof
  assume h: "holds m a bs"
  show "\<forall>i<length bs. m (a + of_nat i) = Some (bs ! i)"
  proof (intro allI impI)
    fix i assume i: "i < length bs"
    from h have m: "mapped m a (length bs)"
      and e: "map (\<lambda>i. the (m (a + of_nat i))) [0..<length bs] = bs"
      by (auto simp: holds_def load_bytes_def split: if_splits)
    from arg_cong [OF e, of "\<lambda>l. l ! i"] i have "the (m (a + of_nat i)) = bs ! i"
      by simp
    with mapped_at [OF m i] show "m (a + of_nat i) = Some (bs ! i)" by auto
  qed
next
  assume h: "\<forall>i<length bs. m (a + of_nat i) = Some (bs ! i)"
  then have "mapped m a (length bs)" by (simp add: mapped_iff)
  moreover have "map (\<lambda>i. the (m (a + of_nat i))) [0..<length bs] = bs"
    using h by (intro nth_equalityI) auto
  ultimately show "holds m a bs" by (simp add: holds_def load_bytes_def)
qed

lemma holds_at: "holds m a bs \<Longrightarrow> i < length bs \<Longrightarrow> m (a + of_nat i) = Some (bs ! i)"
  by (simp only: holds_iff)

lemma holds_append:
  "holds m a (xs @ ys) \<longleftrightarrow> holds m a xs \<and> holds m (a + of_nat (length xs)) ys"
proof
  assume h: "holds m a (xs @ ys)"
  have "m (a + of_nat i) = Some (xs ! i)" if "i < length xs" for i
    using holds_at [OF h, of i] that by (simp add: nth_append)
  moreover have "m (a + of_nat (length xs) + of_nat i) = Some (ys ! i)" if "i < length ys" for i
    using holds_at [OF h, of "length xs + i"] that unfolding addr_add by (simp add: nth_append)
  ultimately show "holds m a xs \<and> holds m (a + of_nat (length xs)) ys"
    by (simp add: holds_iff)
next
  assume h: "holds m a xs \<and> holds m (a + of_nat (length xs)) ys"
  have "m (a + of_nat i) = Some ((xs @ ys) ! i)" if i: "i < length (xs @ ys)" for i
  proof (cases "i < length xs")
    case True
    with h holds_at [of m a xs i] show ?thesis by (simp add: nth_append)
  next
    case False
    then have "m (a + of_nat (length xs) + of_nat (i - length xs)) = Some (ys ! (i - length xs))"
      using h i by (intro holds_at) auto
    then show ?thesis using False unfolding addr_add by (simp add: nth_append)
  qed
  then show "holds m a (xs @ ys)" by (simp add: holds_iff)
qed

lemma holds_load: "holds m a bs \<Longrightarrow> n = length bs \<Longrightarrow> load_bytes m a n = Inr bs"
  by (simp add: holds_def)

lemma holds_load_u64: "holds m a (to_bytes 8 w) \<Longrightarrow> load_u64 m a = Inr w"
  by (simp add: load_u64_def holds_def)

lemma holds_load_u16: "holds m a (to_bytes 2 w) \<Longrightarrow> load_u16 m a = Inr w"
  by (simp add: load_u16_def holds_def)

lemma load_u64_InrE:
  assumes "load_u64 m a = Inr v"
  shows "mapped m a 8"
  using assms by (auto simp: load_u64_def bind_res_Inr_iff dest: load_bytes_InrD)

subsection \<open>Reading after writing\<close>

lemma poke_mapped [simp]: "mapped m b k \<Longrightarrow> mapped (poke m a bs) b k"
  by (auto simp: mapped_iff poke_def)

lemma poke_same:
  assumes "length bs \<le> 2 ^ 64"
  shows "holds (poke m a bs) a bs"
proof -
  have "poke m a bs (a + of_nat i) = Some (bs ! i)" if "i < length bs" for i
    using that assms by (simp add: poke_def unat_of_nat_u64)
  then show ?thesis by (simp add: holds_iff)
qed

lemma apart_sym: "apart a n b k \<longleftrightarrow> apart b k a n"
  by (auto simp: apart_def)

lemma apart_mono: "apart a n b k \<Longrightarrow> n' \<le> n \<Longrightarrow> k' \<le> k \<Longrightarrow> apart a n' b k'"
  by (auto simp: apart_def)

lemma apart_outside:
  assumes "apart a n b k" and "i < k"
  shows "n \<le> unat (b + of_nat i - a)"
proof -
  have k: "k \<le> unat (a - b)" and n: "n \<le> unat (b - a)"
    using assms(1) by (auto simp: apart_def)
  have ne: "a \<noteq> b" using assms(2) k by auto
  have sum: "unat (b - a) + unat (a - b) = 2 ^ 64"
    using ne unat_u64_less [of a] unat_u64_less [of b]
    by (auto simp: unat_sub_if' word_unat_eq_iff)
  have i: "i < 2 ^ 64" using assms(2) k unat_u64_less [of "a - b"] by simp
  have "unat (b - a) + i < 2 ^ 64" using sum assms(2) k by linarith
  then have "unat ((b - a) + of_nat i) = unat (b - a) + i"
    using i unat_of_nat_u64 [OF i] by (simp add: unat_word_ariths)
  then show ?thesis using n by (simp add: algebra_simps)
qed

lemma poke_other:
  "apart a (length bs) b k \<Longrightarrow> i < k \<Longrightarrow> poke m a bs (b + of_nat i) = m (b + of_nat i)"
  using apart_outside [of a "length bs" b k i] by (simp add: poke_def)

lemma mapped_poke_other:
  "apart a (length bs) b k \<Longrightarrow> mapped (poke m a bs) b k = mapped m b k"
  by (auto simp: mapped_iff poke_other)

lemma load_bytes_poke_other:
  "apart a (length bs) b k \<Longrightarrow> load_bytes (poke m a bs) b k = load_bytes m b k"
  by (auto simp: load_bytes_def mapped_poke_other poke_other)

lemma store_bytes_InrD: "store_bytes m a bs = Inr m' \<Longrightarrow> m' = poke m a bs \<and> mapped m a (length bs)"
  by (auto simp: store_bytes_def split: if_splits)

lemma store_bytes_mapped: "mapped m a (length bs) \<Longrightarrow> store_bytes m a bs = Inr (poke m a bs)"
  by (simp add: store_bytes_def)

lemma mapped_poke_iff:
  assumes "mapped m a (length bs)"
  shows "mapped (poke m a bs) b k \<longleftrightarrow> mapped m b k"
proof -
  have "poke m a bs x = None \<longleftrightarrow> m x = None" for x
  proof (cases "unat (x - a) < length bs")
    case True
    with assms have "m (a + of_nat (unat (x - a))) \<noteq> None" unfolding mapped_iff by blast
    with True show ?thesis by (simp add: poke_def)
  next
    case False
    then show ?thesis by (simp add: poke_def)
  qed
  then show ?thesis by (simp add: mapped_iff)
qed

lemma mapped_store_bytes: "store_bytes m a bs = Inr m' \<Longrightarrow> mapped m' b k = mapped m b k"
  by (auto dest!: store_bytes_InrD simp: mapped_poke_iff)

lemma mapped_store_u64: "store_u64 m a v = Inr m' \<Longrightarrow> mapped m' b k = mapped m b k"
  by (simp add: store_u64_def mapped_store_bytes)

lemma store_u64_InrD:
  "store_u64 m a v = Inr m' \<Longrightarrow> m' = poke m a (to_bytes 8 v) \<and> mapped m a 8"
  by (auto simp: store_u64_def dest: store_bytes_InrD)

lemma store_u64_mapped: "mapped m a 8 \<Longrightarrow> store_u64 m a v = Inr (poke m a (to_bytes 8 v))"
  by (simp add: store_u64_def store_bytes_mapped)

lemma load_u64_poke_same [simp]: "load_u64 (poke m a (to_bytes 8 v)) a = Inr v"
  by (rule holds_load_u64) (rule poke_same, simp)

lemma load_u64_poke_other:
  "apart a (length bs) b 8 \<Longrightarrow> load_u64 (poke m a bs) b = load_u64 m b"
  by (simp add: load_u64_def load_bytes_poke_other)

text \<open>Regions that start at known distances from one base.\<close>

lemma apart_base:
  assumes "x + n \<le> y" and "y + k \<le> 2 ^ 64" and "0 < k" and "0 < n"
  shows "apart (b + of_nat x) n (b + of_nat y) k"
proof -
  have "unat ((b + of_nat y) - (b + of_nat x)) = y - x"
    using assms by (intro unat_diff_base) auto
  moreover have "unat ((b + of_nat x) - (b + of_nat y)) = 2 ^ 64 - (y - x)"
    using assms by (intro unat_diff_base_neg) auto
  ultimately show ?thesis using assms by (auto simp only: apart_def)
qed

text \<open>A part of a region is apart from what the region is apart from.\<close>

lemma apart_inside:
  assumes "apart a n b k" and "d + j \<le> n" and "0 < j"
  shows "apart (a + of_nat d) j b k"
proof -
  have n: "n \<le> unat (b - a)" using assms(1) by (simp add: apart_def)
  have d: "d < 2 ^ 64" "unat (of_nat d :: u64) = d"
    using n assms(2,3) unat_u64_less [of "b - a"] unat_of_nat_u64 [of d] by auto
  have eq: "b - (a + of_nat d) = (b - a) - of_nat d" by simp
  have "(of_nat d :: u64) \<le> b - a"
    using d n assms(2) by (simp add: word_le_nat_alt)
  then have "unat (b - (a + of_nat d)) = unat (b - a) - d"
    unfolding eq by (simp only: unat_sub d(2))
  moreover have "k \<le> unat (a + of_nat d - b)"
    using assms by (intro apart_outside [of b k a n]) (auto simp: apart_sym)
  ultimately show ?thesis using n assms(2,3) by (simp add: apart_def)
qed

subsection \<open>Moving a region\<close>

lemma load_bytes_sub:
  assumes "load_bytes m a n = Inr bs" and "d + k \<le> n"
  shows "load_bytes m (a + of_nat d) k = Inr (take k (drop d bs))"
proof -
  from assms(1) have m: "mapped m a n" and bs: "bs = map (\<lambda>i. the (m (a + of_nat i))) [0..<n]"
    by (auto simp: load_bytes_def split: if_splits)
  have "map (\<lambda>i. the (m (a + of_nat d + of_nat i))) [0..<k] = take k (drop d bs)"
    using assms(2) unfolding addr_add by (intro nth_equalityI) (auto simp: bs)
  then show ?thesis using mapped_sub [OF m assms(2)] by (simp add: load_bytes_def)
qed

lemma load_u64_sub:
  assumes "load_bytes m a n = Inr bs" and "d + 8 \<le> n"
  shows "load_u64 m (a + of_nat d) = Inr (from_bytes (take 8 (drop d bs)))"
  using load_bytes_sub [OF assms] by (simp add: load_u64_def)

lemma memcpy_load:
  assumes "memcpy m dst src n = Inr m'" and "n \<le> 2 ^ 64"
  shows "load_bytes m' dst n = load_bytes m src n"
    and "d + 8 \<le> n \<Longrightarrow> load_u64 m' (dst + of_nat d) = load_u64 m (src + of_nat d)"
    and "mapped m' b k = mapped m b k"
proof -
  from assms(1) obtain bs where bs: "load_bytes m src n = Inr bs" and w: "store_bytes m dst bs = Inr m'"
    by (auto simp: memcpy_def bind_res_Inr_iff)
  have len: "length bs = n" using bs by (auto dest: load_bytes_InrD)
  have "holds m' dst bs"
    using store_bytes_InrD [OF w] poke_same [of bs m dst] len assms(2) by simp
  then have d: "load_bytes m' dst n = Inr bs" by (simp add: holds_def len)
  with bs show "load_bytes m' dst n = load_bytes m src n" by simp
  show "d + 8 \<le> n \<Longrightarrow> load_u64 m' (dst + of_nat d) = load_u64 m (src + of_nat d)"
    using load_u64_sub [OF d] load_u64_sub [OF bs] by simp
  show "mapped m' b k = mapped m b k" using w by (rule mapped_store_bytes)
qed

lemma memcpy_defined: "mapped m src n \<Longrightarrow> mapped m dst n \<Longrightarrow> \<exists>m'. memcpy m dst src n = Inr m'"
  using load_bytes_mapped [of m src n] by (auto simp: memcpy_def store_bytes_mapped)

lemma memset_defined: "mapped m dst n \<Longrightarrow> \<exists>m'. memset m dst c n = Inr m'"
  by (simp add: memset_def store_bytes_mapped)

lemma memset_other: "memset m dst c n = Inr m' \<Longrightarrow> apart dst n b 8 \<Longrightarrow> load_u64 m' b = load_u64 m b"
  by (auto simp: memset_def dest!: store_bytes_InrD intro: load_u64_poke_other)

section \<open>Cells\<close>

locale cell_store =
  fixes rd :: "'s \<Rightarrow> 'a \<Rightarrow> 'v res"
    and wr :: "'s \<Rightarrow> 'a \<Rightarrow> 'v \<Rightarrow> 's res"
    and ok :: "'s \<Rightarrow> 'a \<Rightarrow> bool"
    and fits :: "'a \<Rightarrow> 'v \<Rightarrow> bool"
    and sep :: "'a \<Rightarrow> 'a \<Rightarrow> bool"
  assumes wr_defined: "ok s a \<Longrightarrow> fits a v \<Longrightarrow> \<exists>t. wr s a v = Inr t"
    and rd_wr_same: "fits a v \<Longrightarrow> wr s a v = Inr t \<Longrightarrow> rd t a = Inr v"
    and rd_wr_other: "fits a v \<Longrightarrow> wr s a v = Inr t \<Longrightarrow> sep a b \<Longrightarrow> rd t b = rd s b"
    and ok_wr: "wr s a v = Inr t \<Longrightarrow> ok t b = ok s b"
begin

text \<open>Writing a list of cells, first to last.\<close>

fun wr_all :: "('a \<times> 'v) list \<Rightarrow> 's \<Rightarrow> 's res" where
  "wr_all [] s = Inr s"
| "wr_all ((a, v) # cs) s = bind_res (wr s a v) (wr_all cs)"

lemma wr_all_defined:
  "(\<And>a v. (a, v) \<in> set cs \<Longrightarrow> ok s a \<and> fits a v) \<Longrightarrow> \<exists>t. wr_all cs s = Inr t"
proof (induction cs arbitrary: s)
  case Nil
  then show ?case by simp
next
  case (Cons c cs)
  obtain a v where c: "c = (a, v)" by (cases c)
  with Cons.prems [of a v] obtain u where u: "wr s a v = Inr u"
    using wr_defined by fastforce
  have "\<exists>t. wr_all cs u = Inr t"
    using Cons.prems u by (intro Cons.IH) (auto simp: ok_wr)
  with u c show ?case by simp
qed

lemma wr_all_ok: "wr_all cs s = Inr t \<Longrightarrow> ok t b = ok s b"
  by (induction cs s rule: wr_all.induct) (auto simp: bind_res_Inr_iff ok_wr)

lemma rd_wr_all_other:
  "wr_all cs s = Inr t \<Longrightarrow> (\<And>a v. (a, v) \<in> set cs \<Longrightarrow> fits a v \<and> sep a b) \<Longrightarrow> rd t b = rd s b"
proof (induction cs s rule: wr_all.induct)
  case (1 s)
  then show ?case by simp
next
  case (2 a v cs s)
  from "2.prems"(1) obtain u where u: "wr s a v = Inr u" "wr_all cs u = Inr t"
    by (auto simp: bind_res_Inr_iff)
  have "rd t b = rd u b" using u "2.prems"(2) by (intro "2.IH") auto
  also have "\<dots> = rd s b" using u(1) "2.prems"(2) [of a v] by (auto intro: rd_wr_other)
  finally show ?case .
qed

text \<open>Cells that are pairwise apart all read back what was written to them.\<close>

lemma rd_wr_all:
  assumes "wr_all cs s = Inr t" and "(b, w) \<in> set cs"
    and "\<And>a v. (a, v) \<in> set cs \<Longrightarrow> fits a v"
    and "sorted_wrt (\<lambda>c d. sep (fst d) (fst c)) cs"
  shows "rd t b = Inr w"
  using assms
proof (induction cs s rule: wr_all.induct)
  case (1 s)
  then show ?case by simp
next
  case (2 a v cs s)
  from "2.prems"(1) obtain u where u: "wr s a v = Inr u" "wr_all cs u = Inr t"
    by (auto simp: bind_res_Inr_iff)
  show ?case
  proof (cases "(b, w) \<in> set cs")
    case True
    with u "2.prems" show ?thesis by (intro "2.IH") auto
  next
    case False
    with "2.prems"(2) have eq: "b = a" "w = v" by auto
    have "rd t a = rd u a"
      using u(2) "2.prems"(3,4) by (intro rd_wr_all_other) fastforce+
    with u(1) eq "2.prems"(3) [of a v] show ?thesis by (auto intro: rd_wr_same)
  qed
qed

lemma wr_all_append: "wr_all (cs @ ds) s = bind_res (wr_all cs s) (wr_all ds)"
  by (induction cs s rule: wr_all.induct) (auto simp: bind_res_def split: sum.split)

text \<open>The same without an order: any two different cells are apart.\<close>

lemma rd_wr_all_set:
  assumes "wr_all cs s = Inr t" and "(b, w) \<in> set cs"
    and "\<And>a v. (a, v) \<in> set cs \<Longrightarrow> fits a v"
    and "\<And>c d. c \<in> set cs \<Longrightarrow> d \<in> set cs \<Longrightarrow> c \<noteq> d \<Longrightarrow> sep (fst c) (fst d)"
  shows "rd t b = Inr w"
  using assms
proof (induction cs s rule: wr_all.induct)
  case (1 s)
  then show ?case by simp
next
  case (2 a v cs s)
  from "2.prems"(1) obtain u where u: "wr s a v = Inr u" "wr_all cs u = Inr t"
    by (auto simp: bind_res_Inr_iff)
  show ?case
  proof (cases "(b, w) \<in> set cs")
    case True
    with u "2.prems" show ?thesis by (intro "2.IH") auto
  next
    case False
    with "2.prems"(2) have eq: "b = a" "w = v" by auto
    have "sep c a" if "(c, x) \<in> set cs" for c x
      using "2.prems"(4) [of "(c, x)" "(a, v)"] that False eq by auto
    then have "rd t a = rd u a"
      using u(2) "2.prems"(3) by (intro rd_wr_all_other) auto
    with u(1) eq "2.prems"(3) [of a v] show ?thesis by (auto intro: rd_wr_same)
  qed
qed

end

interpretation word_cells: cell_store load_u64 store_u64 "\<lambda>m a. mapped m a 8"
  "\<lambda>a v. True" "\<lambda>a b. apart a 8 b 8"
proof
  fix m t :: mem and a b :: u64 and v :: u64
  show "mapped m a 8 \<Longrightarrow> \<exists>t. store_u64 m a v = Inr t"
    by (simp add: store_u64_mapped)
  show "store_u64 m a v = Inr t \<Longrightarrow> load_u64 t a = Inr v"
    by (auto dest: store_u64_InrD)
  show "store_u64 m a v = Inr t \<Longrightarrow> apart a 8 b 8 \<Longrightarrow> load_u64 t b = load_u64 m b"
    by (auto dest!: store_u64_InrD intro: load_u64_poke_other)
  show "store_u64 m a v = Inr t \<Longrightarrow> mapped t b 8 = mapped m b 8"
    by (rule mapped_store_u64)
qed

lemma word_cells_mapped: "word_cells.wr_all cs m = Inr t \<Longrightarrow> mapped t a n = mapped m a n"
  by (induction cs m rule: word_cells.wr_all.induct) (auto simp: bind_res_Inr_iff mapped_store_u64)

interpretation region_cells: cell_store "\<lambda>m (a, n). load_bytes m a n"
  "\<lambda>m (a, n). store_bytes m a" "\<lambda>m (a, n). mapped m a n"
  "\<lambda>(a, n) bs. length bs = n \<and> n \<le> 2 ^ 64" "\<lambda>(a, n) (b, k). apart a n b k"
proof
  fix m t :: mem and c d :: "u64 \<times> nat" and bs :: "u8 list"
  obtain a n b k where c: "c = (a, n)" "d = (b, k)" by (cases c, cases d)
  show "(case c of (a, n) \<Rightarrow> mapped m a n) \<Longrightarrow>
      (case c of (a, n) \<Rightarrow> \<lambda>bs. length bs = n \<and> n \<le> 2 ^ 64) bs \<Longrightarrow>
      \<exists>t. (case c of (a, n) \<Rightarrow> store_bytes m a) bs = Inr t"
    by (auto simp: c store_bytes_mapped)
  show "(case c of (a, n) \<Rightarrow> \<lambda>bs. length bs = n \<and> n \<le> 2 ^ 64) bs \<Longrightarrow>
      (case c of (a, n) \<Rightarrow> store_bytes m a) bs = Inr t \<Longrightarrow>
      (case c of (a, n) \<Rightarrow> load_bytes t a n) = Inr bs"
    by (auto simp: c dest!: store_bytes_InrD intro!: holds_load poke_same)
  show "(case c of (a, n) \<Rightarrow> \<lambda>bs. length bs = n \<and> n \<le> 2 ^ 64) bs \<Longrightarrow>
      (case c of (a, n) \<Rightarrow> store_bytes m a) bs = Inr t \<Longrightarrow>
      (case c of (a, n) \<Rightarrow> \<lambda>(b, k). apart a n b k) d \<Longrightarrow>
      (case d of (a, n) \<Rightarrow> load_bytes t a n) = (case d of (a, n) \<Rightarrow> load_bytes m a n)"
    by (auto simp: c dest!: store_bytes_InrD intro!: load_bytes_poke_other)
  show "(case c of (a, n) \<Rightarrow> store_bytes m a) bs = Inr t \<Longrightarrow>
      (case d of (a, n) \<Rightarrow> mapped t a n) = (case d of (a, n) \<Rightarrow> mapped m a n)"
    by (auto simp: c mapped_store_bytes)
qed

lemma region_cells_mapped: "region_cells.wr_all cs m = Inr t \<Longrightarrow> mapped t a n = mapped m a n"
  by (induction cs m rule: region_cells.wr_all.induct) (auto simp: bind_res_Inr_iff mapped_store_bytes)

section \<open>Struct layouts\<close>

locale byte_codec =
  fixes enc :: "'a \<Rightarrow> u8 list" and dec :: "u8 list \<Rightarrow> 'a" and width :: nat
  assumes enc_width: "length (enc x) = width"
    and dec_enc: "dec (enc x) = x"
begin

lemma length_enc_all: "length (concat (map enc xs)) = width * length xs"
  by (induction xs) (auto simp: enc_width)

lemma decode_array_enc: "decode_array width dec (length xs) (concat (map enc xs)) = xs"
  by (induction xs) (auto simp: enc_width dec_enc)

lemma load_array_enc:
  "holds m a (concat (map enc xs)) \<Longrightarrow> load_array width dec m a (length xs) = Inr xs"
  by (simp add: load_array_def holds_load length_enc_all decode_array_enc)

end

interpretation u64_codec: byte_codec "to_bytes 8 :: u64 \<Rightarrow> u8 list" from_bytes 8
  by unfold_locales simp_all

lemma length_load_array: "load_array w dec m a n = Inr xs \<Longrightarrow> length xs = n"
  by (auto simp: load_array_def bind_res_Inr_iff)

end
