(* ===== verification/Stackmap.thy ===== *)
theory Stackmap
  imports Memory
begin

text \<open>
  The data of \<open>stmap.h\<close> and the parser \<open>stmap_create\<close> of \<open>stmap.c\<close>: the contents of the
  \<open>.llvm_stackmaps\<close> section as records, read from memory. A C array with its count is a
  list and the count; \<open>stmap_wf\<close> says that the two agree and that the \<open>index\<close> fields the
  parser adds are the positions. \<open>stmap_encode\<close> is the binary layout of the section
  (LLVM's stack map format, to which \<open>stmap.h\<close> points), against which the parser is
  verified.
\<close>

section \<open>The data\<close>

text \<open>\<open>location_type\<close>, with the values the \<open>kind\<close> byte of a location takes.\<close>

datatype location_type = REGISTER | DIRECT | INDIRECT | CONSTANT | CONST_INDEX

definition location_type_of :: "u8 \<Rightarrow> location_type option" where
  "location_type_of k =
     (if k = 1 then Some REGISTER else if k = 2 then Some DIRECT
      else if k = 3 then Some INDIRECT else if k = 4 then Some CONSTANT
      else if k = 5 then Some CONST_INDEX else None)"

record location =
  loc_kind :: u8
  loc_reserved :: u8
  loc_size :: u16
  loc_dwarf_reg_num :: u16
  loc_reserved2 :: u16
  loc_offset :: u32

record liveout =
  lo_dwarf_reg_num :: u16
  lo_reserved :: u8
  lo_size :: u8

record stack_map_record =
  patchpoint_id :: u64
  instr_offset :: u32
  rec_reserved :: u16
  num_locations :: u16
  locations :: "location list"
  num_liveouts :: u16
  liveouts :: "liveout list"
  rec_index :: u64

record stack_size_record =
  fun_addr :: u64
  stack_size :: u64
  record_count :: u64
  fun_index :: u64

record stack_map =
  version :: u8
  sm_reserved :: u8
  sm_reserved2 :: u16
  num_func :: u32
  num_const :: u32
  num_rec :: u32
  stk_size_records :: "stack_size_record list"
  constants :: "u64 list"
  stk_map_records :: "stack_map_record list"

record stack_map_pos =
  stk_size_record_index :: u32
  stk_map_record_index :: u32

section \<open>Structs in memory\<close>

text \<open>The field of a struct at an offset, little-endian.\<close>

definition field :: "nat \<Rightarrow> nat \<Rightarrow> u8 list \<Rightarrow> 'a::len word" where
  "field off w bs = from_bytes (take w (drop off bs))"

definition decode_location :: "u8 list \<Rightarrow> location" where
  "decode_location bs =
     \<lparr>loc_kind = field 0 1 bs, loc_reserved = field 1 1 bs, loc_size = field 2 2 bs,
      loc_dwarf_reg_num = field 4 2 bs, loc_reserved2 = field 6 2 bs, loc_offset = field 8 4 bs\<rparr>"

definition decode_liveout :: "u8 list \<Rightarrow> liveout" where
  "decode_liveout bs =
     \<lparr>lo_dwarf_reg_num = field 0 2 bs, lo_reserved = field 2 1 bs, lo_size = field 3 1 bs\<rparr>"

text \<open>The 24 bytes of the section; \<open>index\<close> is not among them.\<close>

definition decode_size_record :: "nat \<Rightarrow> u8 list \<Rightarrow> stack_size_record" where
  "decode_size_record i bs =
     \<lparr>fun_addr = field 0 8 bs, stack_size = field 8 8 bs, record_count = field 16 8 bs,
      fun_index = of_nat i\<rparr>"

section \<open>stmap_create\<close>

text \<open>
  The first loop: \<open>n\<close> more stack size records from \<open>addr\<close>, the next one with index \<open>i\<close>.
  Each loop returns the advanced \<open>addr\<close> with the array it filled.
\<close>

fun read_size_records :: "mem \<Rightarrow> u64 \<Rightarrow> nat \<Rightarrow> nat \<Rightarrow> (stack_size_record list \<times> u64) res" where
  "read_size_records m addr i 0 = Inr ([], addr)"
| "read_size_records m addr i (Suc n) =
     bind_res (load_bytes m addr 24) (\<lambda>bs.
     bind_res (read_size_records m (addr + 24) (Suc i) n) (\<lambda>(rs, addr').
     Inr (decode_size_record i bs # rs, addr')))"

text \<open>
  The body of the second loop: one stack map record, its locations and live-outs, with the
  paddings that keep 8-byte alignment skipped.
\<close>

definition read_map_record :: "mem \<Rightarrow> u64 \<Rightarrow> nat \<Rightarrow> (stack_map_record \<times> u64) res" where
  "read_map_record m addr i =
     bind_res (load_bytes m addr 16) (\<lambda>h.
     let nloc = field 14 2 h :: u16; addr = addr + 16 in
     bind_res (load_array 12 decode_location m addr (unat nloc)) (\<lambda>locs.
     let addr = addr + of_nat (unat nloc * 12);
         addr = (if (unat nloc * 12) mod 8 \<noteq> 0 then addr + 4 else addr);
         addr = addr + 2 in
     bind_res (load_u16 m addr) (\<lambda>nlo.
     let addr = addr + 2 in
     bind_res (load_array 4 decode_liveout m addr (unat nlo)) (\<lambda>los.
     let addr = addr + of_nat (4 * unat nlo);
         addr = (if (2 * 2 + 4 * unat nlo) mod 8 \<noteq> 0 then addr + 4 else addr) in
     Inr (\<lparr>patchpoint_id = field 0 8 h, instr_offset = field 8 4 h, rec_reserved = field 12 2 h,
           num_locations = nloc, locations = locs, num_liveouts = nlo, liveouts = los,
           rec_index = of_nat i\<rparr>, addr)))))"

fun read_map_records :: "mem \<Rightarrow> u64 \<Rightarrow> nat \<Rightarrow> nat \<Rightarrow> stack_map_record list res" where
  "read_map_records m addr i 0 = Inr []"
| "read_map_records m addr i (Suc n) =
     bind_res (read_map_record m addr i) (\<lambda>(r, addr').
     bind_res (read_map_records m addr' (Suc i) n) (\<lambda>rs. Inr (r # rs)))"

definition stmap_create :: "mem \<Rightarrow> u64 \<Rightarrow> stack_map res" where
  "stmap_create m start_addr =
     bind_res (load_bytes m start_addr 16) (\<lambda>h.
     let nfunc = field 4 4 h :: u32; nconst = field 8 4 h :: u32; nrec = field 12 4 h :: u32 in
     bind_res (read_size_records m (start_addr + 16) 0 (unat nfunc)) (\<lambda>(sizes, addr).
     bind_res (load_array 8 from_bytes m addr (unat nconst)) (\<lambda>consts.
     let addr = addr + of_nat (8 * unat nconst) in
     bind_res (read_map_records m addr 0 (unat nrec)) (\<lambda>recs.
     Inr \<lparr>version = field 0 1 h, sm_reserved = field 1 1 h, sm_reserved2 = field 2 2 h,
          num_func = nfunc, num_const = nconst, num_rec = nrec, stk_size_records = sizes,
          constants = consts, stk_map_records = recs\<rparr>))))"

section \<open>Well-formed stack maps\<close>

definition map_record_wf :: "nat \<Rightarrow> stack_map_record \<Rightarrow> bool" where
  "map_record_wf i r \<longleftrightarrow>
     length (locations r) = unat (num_locations r) \<and>
     length (liveouts r) = unat (num_liveouts r) \<and> rec_index r = of_nat i"

definition stmap_wf :: "stack_map \<Rightarrow> bool" where
  "stmap_wf sm \<longleftrightarrow>
     length (stk_size_records sm) = unat (num_func sm) \<and>
     length (constants sm) = unat (num_const sm) \<and>
     length (stk_map_records sm) = unat (num_rec sm) \<and>
     list_all (\<lambda>i. fun_index (stk_size_records sm ! i) = of_nat i) [0..<length (stk_size_records sm)] \<and>
     list_all (\<lambda>i. map_record_wf i (stk_map_records sm ! i)) [0..<length (stk_map_records sm)]"

section \<open>The layout of the section\<close>

definition encode_location :: "location \<Rightarrow> u8 list" where
  "encode_location l =
     to_bytes 1 (loc_kind l) @ to_bytes 1 (loc_reserved l) @ to_bytes 2 (loc_size l) @
     to_bytes 2 (loc_dwarf_reg_num l) @ to_bytes 2 (loc_reserved2 l) @ to_bytes 4 (loc_offset l)"

definition encode_liveout :: "liveout \<Rightarrow> u8 list" where
  "encode_liveout l =
     to_bytes 2 (lo_dwarf_reg_num l) @ to_bytes 1 (lo_reserved l) @ to_bytes 1 (lo_size l)"

definition encode_size_record :: "stack_size_record \<Rightarrow> u8 list" where
  "encode_size_record r =
     to_bytes 8 (fun_addr r) @ to_bytes 8 (stack_size r) @ to_bytes 8 (record_count r)"

text \<open>Padding up to the next multiple of 8 for a part of \<open>n\<close> bytes, \<open>n\<close> a multiple of 4.\<close>

definition align8 :: "nat \<Rightarrow> u8 list" where
  "align8 n = (if n mod 8 \<noteq> 0 then replicate 4 0 else [])"

definition encode_map_record :: "stack_map_record \<Rightarrow> u8 list" where
  "encode_map_record r =
     (to_bytes 8 (patchpoint_id r) @ to_bytes 4 (instr_offset r) @ to_bytes 2 (rec_reserved r) @
      to_bytes 2 (num_locations r)) @
     concat (map encode_location (locations r)) @ align8 (12 * length (locations r)) @
     replicate 2 0 @ to_bytes 2 (num_liveouts r) @
     concat (map encode_liveout (liveouts r)) @ align8 (4 + 4 * length (liveouts r))"

definition stmap_encode :: "stack_map \<Rightarrow> u8 list" where
  "stmap_encode sm =
     (to_bytes 1 (version sm) @ to_bytes 1 (sm_reserved sm) @ to_bytes 2 (sm_reserved2 sm) @
      to_bytes 4 (num_func sm) @ to_bytes 4 (num_const sm) @ to_bytes 4 (num_rec sm)) @
     concat (map encode_size_record (stk_size_records sm)) @
     concat (map (to_bytes 8) (constants sm)) @
     concat (map encode_map_record (stk_map_records sm))"

section \<open>The layouts are inverse to the decoders\<close>

interpretation location_codec: byte_codec encode_location decode_location 12
  by unfold_locales
    (simp_all add: encode_location_def decode_location_def field_def del: to_bytes.simps One_nat_def)

interpretation liveout_codec: byte_codec encode_liveout decode_liveout 4
  by unfold_locales
    (simp_all add: encode_liveout_def decode_liveout_def field_def del: to_bytes.simps One_nat_def)

lemma decode_encode_size_record:
  "decode_size_record i (encode_size_record r) = r\<lparr>fun_index := of_nat i\<rparr>"
  by (simp add: decode_size_record_def encode_size_record_def field_def)

lemma length_encode_size_record: "length (encode_size_record r) = 24"
  by (simp add: encode_size_record_def)

lemma read_size_records_encode:
  assumes "holds m a (concat (map encode_size_record rs))"
    and "\<And>k. k < length rs \<Longrightarrow> fun_index (rs ! k) = of_nat (i + k)"
  shows "read_size_records m a i (length rs) = Inr (rs, a + of_nat (24 * length rs))"
  using assms
proof (induction rs arbitrary: a i)
  case Nil
  then show ?case by simp
next
  case (Cons r rs)
  from Cons.prems(1) have h: "holds m a (encode_size_record r)"
    and t: "holds m (a + 24) (concat (map encode_size_record rs))"
    by (simp_all add: holds_append length_encode_size_record)
  have ix: "fun_index (rs ! k) = of_nat (Suc i + k)" if "k < length rs" for k
    using Cons.prems(2) [of "Suc k"] that by simp
  have hd: "fun_index r = of_nat i" using Cons.prems(2) [of 0] by simp
  have l: "load_bytes m a 24 = Inr (encode_size_record r)"
    using h by (rule holds_load) (simp add: length_encode_size_record)
  have "read_size_records m (a + 24) (Suc i) (length rs) = Inr (rs, a + 24 + of_nat (24 * length rs))"
    using t ix by (rule Cons.IH)
  then show ?case
    using hd by (simp add: l decode_encode_size_record algebra_simps)
qed

lemma read_map_record_encode:
  assumes h: "holds m a (encode_map_record r)" and wf: "map_record_wf i r"
  shows "read_map_record m a i = Inr (r, a + of_nat (length (encode_map_record r)))"
proof -
  define hd where "hd = to_bytes 8 (patchpoint_id r) @ to_bytes 4 (instr_offset r) @
    to_bytes 2 (rec_reserved r) @ to_bytes 2 (num_locations r)"
  define n where "n = unat (num_locations r)"
  define k where "k = unat (num_liveouts r)"
  have n: "length (locations r) = n" and k: "length (liveouts r) = k" and ix: "rec_index r = of_nat i"
    using wf by (simp_all add: map_record_wf_def n_def k_def)
  define a1 where "a1 = a + 16"
  define a3 where "a3 = (if (n * 12) mod 8 \<noteq> 0 then a1 + of_nat (n * 12) + 4 else a1 + of_nat (n * 12))"
  define a5 where "a5 = a3 + 2 + 2"
  have len: "length hd = 16" by (simp add: hd_def)
  have a3: "a1 + of_nat (12 * n) + of_nat (length (align8 (12 * n))) = a3"
    by (simp add: a3_def align8_def mult.commute)
  have a1: "a + of_nat 16 = a1" and two: "(of_nat 2 :: u64) = 2"
    by (simp_all add: a1_def)
  have parts: "holds m a hd" "holds m a1 (concat (map encode_location (locations r)))"
    "holds m (a3 + 2) (to_bytes 2 (num_liveouts r))"
    "holds m a5 (concat (map encode_liveout (liveouts r)))"
    using h [unfolded encode_map_record_def, folded hd_def]
    by (simp_all only: holds_append len a1 n location_codec.length_enc_all a3 length_replicate
      two length_to_bytes a5_def)
  have hdr: "load_bytes m a 16 = Inr hd" using parts(1) len by (simp add: holds_load)
  have locs: "load_array 12 decode_location m a1 n = Inr (locations r)"
    using location_codec.load_array_enc [OF parts(2)] n by simp
  have nlo: "load_u16 m (a3 + 2) = Inr (num_liveouts r)"
    using parts(3) by (rule holds_load_u16)
  have los: "load_array 4 decode_liveout m a5 k = Inr (liveouts r)"
    using liveout_codec.load_array_enc [OF parts(4)] k by simp
  have fields: "field 0 8 hd = patchpoint_id r" "field 8 4 hd = instr_offset r"
    "field 12 2 hd = rec_reserved r" "field 14 2 hd = num_locations r"
    by (simp_all add: hd_def field_def)
  define a7 where "a7 = (if (4 + 4 * k) mod 8 \<noteq> 0 then a5 + of_nat (4 * k) + 4 else a5 + of_nat (4 * k))"
  have "a7 = a + of_nat (length (encode_map_record r))"
    by (simp add: a7_def a5_def a3_def a1_def encode_map_record_def n k
      location_codec.length_enc_all liveout_codec.length_enc_all align8_def mult.commute add.assoc)
  moreover have "read_map_record m a i = Inr (r, a7)"
    unfolding read_map_record_def hdr Let_def
    by (simp only: bind_res_simps fields a1_def [symmetric] n_def [symmetric] locs
      a3_def [symmetric] nlo a5_def [symmetric] k_def [symmetric] los ix [symmetric])
       (simp add: a7_def)
  ultimately show ?thesis by simp
qed

lemma read_map_records_encode:
  assumes "holds m a (concat (map encode_map_record rs))"
    and "\<And>k. k < length rs \<Longrightarrow> map_record_wf (i + k) (rs ! k)"
  shows "read_map_records m a i (length rs) = Inr rs"
  using assms
proof (induction rs arbitrary: a i)
  case Nil
  then show ?case by simp
next
  case (Cons r rs)
  let ?a = "a + of_nat (length (encode_map_record r))"
  from Cons.prems(1) have h: "holds m a (encode_map_record r)"
    and t: "holds m ?a (concat (map encode_map_record rs))"
    by (simp_all add: holds_append)
  have "map_record_wf i r" using Cons.prems(2) [of 0] by simp
  with h have "read_map_record m a i = Inr (r, ?a)" by (rule read_map_record_encode)
  moreover have "read_map_records m ?a (Suc i) (length rs) = Inr rs"
    using t Cons.prems(2) [of "Suc _"] by (intro Cons.IH) auto
  ultimately show ?case by simp
qed

lemma stmap_create_encode:
  assumes h: "holds m a (stmap_encode sm)" and wf: "stmap_wf sm"
  shows "stmap_create m a = Inr sm"
proof -
  define hd where "hd = to_bytes 1 (version sm) @ to_bytes 1 (sm_reserved sm) @
    to_bytes 2 (sm_reserved2 sm) @ to_bytes 4 (num_func sm) @ to_bytes 4 (num_const sm) @
    to_bytes 4 (num_rec sm)"
  define nf where "nf = unat (num_func sm)"
  define nc where "nc = unat (num_const sm)"
  define nr where "nr = unat (num_rec sm)"
  have lens: "length (stk_size_records sm) = nf" "length (constants sm) = nc"
    "length (stk_map_records sm) = nr"
    using wf by (simp_all add: stmap_wf_def nf_def nc_def nr_def)
  have ls: "length (concat (map encode_size_record rs)) = 24 * length rs" for rs
    by (induction rs) (simp_all add: length_encode_size_record)
  have len: "length hd = 16" by (simp add: hd_def)
  define a1 where "a1 = a + 16"
  define a2 where "a2 = a1 + of_nat (24 * nf)"
  define a3 where "a3 = a2 + of_nat (8 * nc)"
  have a1: "a + of_nat 16 = a1" by (simp add: a1_def)
  have parts: "holds m a hd" "holds m a1 (concat (map encode_size_record (stk_size_records sm)))"
    "holds m a2 (concat (map (to_bytes 8) (constants sm)))"
    "holds m a3 (concat (map encode_map_record (stk_map_records sm)))"
    using h [unfolded stmap_encode_def, folded hd_def]
    by (simp_all only: holds_append len a1 ls lens u64_codec.length_enc_all a2_def a3_def)
  have hdr: "load_bytes m a 16 = Inr hd" using parts(1) len by (simp add: holds_load)
  have sizes: "read_size_records m a1 0 nf = Inr (stk_size_records sm, a2)"
    using read_size_records_encode [OF parts(2), of 0] wf lens
    by (simp add: stmap_wf_def list_all_iff a2_def)
  have pool: "load_array 8 from_bytes m a2 nc = Inr (constants sm)"
    using u64_codec.load_array_enc [OF parts(3)] lens by simp
  have recs: "read_map_records m a3 0 nr = Inr (stk_map_records sm)"
    using read_map_records_encode [OF parts(4), of 0] wf lens
    by (simp add: stmap_wf_def list_all_iff)
  have fields: "field 0 1 hd = version sm" "field 1 1 hd = sm_reserved sm"
    "field 2 2 hd = sm_reserved2 sm" "field 4 4 hd = num_func sm" "field 8 4 hd = num_const sm"
    "field 12 4 hd = num_rec sm"
    by (simp_all add: hd_def field_def del: to_bytes.simps One_nat_def)
  show ?thesis
    unfolding stmap_create_def hdr Let_def
    by (simp only: bind_res_simps fields a1_def [symmetric] nf_def [symmetric] sizes prod.case nc_def [symmetric]
      pool a3_def [symmetric] nr_def [symmetric] recs) simp
qed

section \<open>Every result of the parser is well formed\<close>

lemma read_size_records_wf:
  "read_size_records m a i n = Inr (rs, b) \<Longrightarrow>
     length rs = n \<and> (\<forall>k<length rs. fun_index (rs ! k) = of_nat (i + k))"
proof (induction m a i n arbitrary: rs b rule: read_size_records.induct)
  case (1 m a i)
  then show ?case by simp
next
  case (2 m a i n)
  from "2.prems" obtain bs rs' where l: "load_bytes m a 24 = Inr bs"
    and r: "read_size_records m (a + 24) (Suc i) n = Inr (rs', b)"
    and eq: "rs = decode_size_record i bs # rs'"
    by (auto simp: bind_res_Inr_iff)
  from "2.IH" [OF l r] eq show ?case
    by (auto simp: decode_size_record_def nth_Cons split: nat.split)
qed

lemma read_map_record_wf: "read_map_record m a i = Inr (r, b) \<Longrightarrow> map_record_wf i r"
  by (auto simp: read_map_record_def map_record_wf_def bind_res_Inr_iff Let_def
    dest!: length_load_array)

lemma read_map_records_wf:
  "read_map_records m a i n = Inr rs \<Longrightarrow>
     length rs = n \<and> (\<forall>k<length rs. map_record_wf (i + k) (rs ! k))"
proof (induction m a i n arbitrary: rs rule: read_map_records.induct)
  case (1 m a i)
  then show ?case by simp
next
  case (2 m a i n)
  from "2.prems" obtain r b rs' where l: "read_map_record m a i = Inr (r, b)"
    and t: "read_map_records m b (Suc i) n = Inr rs'" and eq: "rs = r # rs'"
    by (auto simp: bind_res_Inr_iff)
  from "2.IH" [OF l _ t] read_map_record_wf [OF l] eq show ?case
    by (auto simp: nth_Cons split: nat.split)
qed

lemma stmap_create_is_wf: "stmap_create m a = Inr sm \<Longrightarrow> stmap_wf sm"
  by (auto simp: stmap_create_def stmap_wf_def bind_res_Inr_iff Let_def list_all_iff
    dest!: length_load_array read_size_records_wf read_map_records_wf)

end
