(* ===== verification/Elf.thy ===== *)
theory Elf
  imports Stackmap
begin

text \<open>
  \<open>utils.c\<close>: the executable's own ELF file, mapped into memory, is searched for a section
  (\<open>get_addr\<close>) and for the bounds of the function at or around an address
  (\<open>get_sym_end\<close>, \<open>get_sym_start\<close>). The file is its bytes; a struct of \<open>elf.h\<close> is read
  at its ELF-64 offsets, and a read past the end of the file is \<open>Segfault\<close>. The system
  calls are the record \<open>os\<close>: what \<open>readlink("/proc/self/exe")\<close> gives and what a path
  holds.

  \<open>elf_symbols\<close> is the abstract view: the list of the (value, size) pairs of all symbol
  tables. The lemmas show that the nested loops of the code compute the look-ups
  \<open>sym_end_of\<close> and \<open>sym_start_of\<close> in that list. The locale \<open>symbol_bounds\<close> is what the
  call-stack code relies on: a start that was found bounds the address.
\<close>

section \<open>The operating system\<close>

record os =
  readlink_exe :: "string option"
  files :: "string \<Rightarrow> u8 list option"

definition get_binary_path :: "os \<Rightarrow> string res" where
  "get_binary_path os =
     bind_res (or_errx (readlink_exe os) ''Could not find the path of the executable.'')
       (\<lambda>target. Inr (take 511 target))"

text \<open>\<open>mmap\<close> of a file that cannot be opened gives \<open>MAP_FAILED\<close>, which is dereferenced.\<close>

definition get_elf_header :: "os \<Rightarrow> u8 list res" where
  "get_elf_header os =
     bind_res (get_binary_path os) (\<lambda>bin_name.
     case files os bin_name of None \<Rightarrow> Inl (Segfault (- 1)) | Some img \<Rightarrow> Inr img)"

definition free_header :: "os \<Rightarrow> unit res" where
  "free_header os = bind_res (get_binary_path os) (\<lambda>bin_name. Inr ())"

section \<open>Reading the image\<close>

definition img_field :: "u8 list \<Rightarrow> nat \<Rightarrow> nat \<Rightarrow> 'a::len word res" where
  "img_field img off w =
     (if off + w \<le> length img then Inr (field off w img) else Inl (Segfault (of_nat off)))"

definition e_shoff :: "u8 list \<Rightarrow> u64 res" where
  "e_shoff img = img_field img 40 8"

definition e_shnum :: "u8 list \<Rightarrow> u16 res" where
  "e_shnum img = img_field img 60 2"

definition e_shstrndx :: "u8 list \<Rightarrow> u16 res" where
  "e_shstrndx img = img_field img 62 2"

text \<open>The field at offset \<open>off\<close> of \<open>shdr[i]\<close> (64 bytes each) and of \<open>stab[k]\<close> (24 bytes).\<close>

definition shdr_field :: "u8 list \<Rightarrow> nat \<Rightarrow> nat \<Rightarrow> nat \<Rightarrow> 'a::len word res" where
  "shdr_field img i off w =
     bind_res (e_shoff img) (\<lambda>shoff. img_field img (unat shoff + 64 * i + off) w)"

definition sh_name :: "u8 list \<Rightarrow> nat \<Rightarrow> u32 res" where
  "sh_name img i = shdr_field img i 0 4"

definition sh_type :: "u8 list \<Rightarrow> nat \<Rightarrow> u32 res" where
  "sh_type img i = shdr_field img i 4 4"

definition sh_addr :: "u8 list \<Rightarrow> nat \<Rightarrow> u64 res" where
  "sh_addr img i = shdr_field img i 16 8"

definition sh_offset :: "u8 list \<Rightarrow> nat \<Rightarrow> u64 res" where
  "sh_offset img i = shdr_field img i 24 8"

definition sh_size :: "u8 list \<Rightarrow> nat \<Rightarrow> u64 res" where
  "sh_size img i = shdr_field img i 32 8"

definition st_value :: "u8 list \<Rightarrow> u64 \<Rightarrow> nat \<Rightarrow> u64 res" where
  "st_value img stab k = img_field img (unat stab + 24 * k + 8) 8"

definition st_size :: "u8 list \<Rightarrow> u64 \<Rightarrow> nat \<Rightarrow> u64 res" where
  "st_size img stab k = img_field img (unat stab + 24 * k + 16) 8"

text \<open>\<open>strcmp(s, p) == 0\<close> for a constant string \<open>s\<close> and the bytes from \<open>p\<close> on.\<close>

fun strcmp_eq :: "u8 list \<Rightarrow> u8 list \<Rightarrow> bool res" where
  "strcmp_eq s [] = Inl (Segfault 0)"
| "strcmp_eq [] (c # cs) = Inr (c = 0)"
| "strcmp_eq (x # xs) (c # cs) = (if x = c then strcmp_eq xs cs else Inr False)"

definition c_bytes :: "string \<Rightarrow> u8 list" where
  "c_bytes s = map of_char s"

text \<open>\<open>int symbol_count = shdr[i].sh_size / sizeof(Elf64_Sym)\<close>, as the loop bound.\<close>

definition symbol_count :: "u64 \<Rightarrow> nat" where
  "symbol_count sz = nat (sint (ucast (sz div 24) :: 32 word))"

section \<open>The searches\<close>

text \<open>\<open>get_addr\<close>: the address of a section, 0 (\<open>NULL\<close>) when there is none.\<close>

definition get_addr :: "os \<Rightarrow> string \<Rightarrow> string \<Rightarrow> u64 res" where
  "get_addr os bin_name section_name =
     bind_res (get_elf_header os) (\<lambda>img.
     bind_res (e_shstrndx img) (\<lambda>strndx.
     bind_res (sh_offset img (unat strndx)) (\<lambda>strtab.
     bind_res (e_shnum img) (\<lambda>shnum.
     bind_res (find_res
       (\<lambda>i. bind_res (sh_name img i) (\<lambda>nm.
              strcmp_eq (c_bytes section_name) (drop (unat strtab + unat nm) img)))
       [0..<unat shnum]) (\<lambda>hit.
     case hit of
       Some i \<Rightarrow> bind_res (sh_addr img i) (\<lambda>a. bind_res (free_header os) (\<lambda>_. Inr a))
     | None \<Rightarrow> bind_res (free_header os) (\<lambda>_. Inr 0))))))"

text \<open>
  What \<open>get_sym_end\<close> and \<open>get_sym_start\<close> share: the position of the string table, which they read
  and do not use, and the two nested loops: for each symbol table, for each of its symbols, test
  the symbol and return what the test gives.
\<close>

definition search_symbols :: "u8 list \<Rightarrow> (u64 \<Rightarrow> nat \<Rightarrow> u64 option res) \<Rightarrow> u64 option res" where
  "search_symbols img test =
     bind_res (e_shstrndx img) (\<lambda>strndx.
     bind_res (sh_offset img (unat strndx)) (\<lambda>strtab.
     bind_res (e_shnum img) (\<lambda>shnum.
     find_map_res (\<lambda>i.
       bind_res (sh_type img i) (\<lambda>ty.
       if ty = 2 then
         bind_res (sh_offset img i) (\<lambda>stab.
         bind_res (sh_size img i) (\<lambda>sz.
         find_map_res (test stab) [0..<symbol_count sz]))
       else Inr None))
     [0..<unat shnum])))"

definition get_sym_end :: "os \<Rightarrow> u64 \<Rightarrow> u64 res" where
  "get_sym_end os start_addr =
     bind_res (get_elf_header os) (\<lambda>img.
     bind_res (search_symbols img
       (\<lambda>stab k. bind_res (st_value img stab k) (\<lambda>v.
          if v = start_addr then
            bind_res (st_size img stab k) (\<lambda>s. Inr (Some (start_addr + s)))
          else Inr None))) (\<lambda>hit.
     bind_res (free_header os) (\<lambda>_.
     Inr (case hit of Some a \<Rightarrow> a | None \<Rightarrow> 0))))"

definition get_sym_start :: "os \<Rightarrow> u64 \<Rightarrow> u64 res" where
  "get_sym_start os addr =
     bind_res (get_elf_header os) (\<lambda>img.
     bind_res (search_symbols img
       (\<lambda>stab k. bind_res (st_value img stab k) (\<lambda>v.
          bind_res (get_sym_end os v) (\<lambda>end_addr.
          Inr (if v \<le> addr \<and> addr < end_addr then Some v else None))))) (\<lambda>hit.
     bind_res (free_header os) (\<lambda>_.
     Inr (case hit of Some a \<Rightarrow> a | None \<Rightarrow> 0))))"

section \<open>The abstract symbol table\<close>

text \<open>The symbols of section \<open>i\<close>: none when it is no symbol table. The header of the string table has to be there.\<close>

definition section_symbols :: "u8 list \<Rightarrow> nat \<Rightarrow> (u64 \<times> u64) list res" where
  "section_symbols img i =
     bind_res (sh_type img i) (\<lambda>ty.
     if ty = 2 then
       bind_res (sh_offset img i) (\<lambda>stab.
       bind_res (sh_size img i) (\<lambda>sz.
       map_res (\<lambda>k. bind_res (st_value img stab k) (\<lambda>v.
         bind_res (st_size img stab k) (\<lambda>s. Inr (v, s)))) [0..<symbol_count sz]))
     else Inr [])"

definition elf_symbols :: "u8 list \<Rightarrow> (u64 \<times> u64) list res" where
  "elf_symbols img =
     bind_res (e_shstrndx img) (\<lambda>strndx.
     bind_res (sh_offset img (unat strndx)) (\<lambda>strtab.
     bind_res (e_shnum img) (\<lambda>shnum.
     bind_res (map_res (section_symbols img) [0..<unat shnum]) (\<lambda>tabs. Inr (concat tabs)))))"

text \<open>The executable the process runs from has the symbols \<open>syms\<close>.\<close>

definition exe_symbols :: "os \<Rightarrow> (u64 \<times> u64) list res" where
  "exe_symbols os = bind_res (get_elf_header os) elf_symbols"

definition sym_end_of :: "(u64 \<times> u64) list \<Rightarrow> u64 \<Rightarrow> u64" where
  "sym_end_of syms a =
     (case find (\<lambda>(v, s). v = a) syms of Some (v, s) \<Rightarrow> a + s | None \<Rightarrow> 0)"

definition sym_start_of :: "(u64 \<times> u64) list \<Rightarrow> u64 \<Rightarrow> u64" where
  "sym_start_of syms a =
     (case find (\<lambda>(v, s). v \<le> a \<and> a < sym_end_of syms v) syms of
        Some (v, s) \<Rightarrow> v | None \<Rightarrow> 0)"

section \<open>The searches compute the look-ups\<close>

text \<open>
  A test on the position of a symbol that, for a symbol that can be read, is a test on its
  (value, size) pair.
\<close>

definition tests_pair :: "u8 list \<Rightarrow> (u64 \<Rightarrow> nat \<Rightarrow> u64 option res) \<Rightarrow> (u64 \<times> u64 \<Rightarrow> u64 option res) \<Rightarrow> bool" where
  "tests_pair img test t \<longleftrightarrow>
     (\<forall>stab k v s. st_value img stab k = Inr v \<longrightarrow> st_size img stab k = Inr s \<longrightarrow> test stab k = t (v, s))"

lemma find_map_res_list_all2:
  "list_all2 (\<lambda>x y. f x = g y) xs ys \<Longrightarrow> find_map_res f xs = find_map_res g ys"
  by (induction rule: list_all2_induct) (auto simp: bind_res_def split: sum.split option.split)

lemma section_symbols_search:
  assumes "section_symbols img i = Inr syms" and "tests_pair img test t"
  shows "bind_res (sh_type img i) (\<lambda>ty.
       if ty = 2 then
         bind_res (sh_offset img i) (\<lambda>stab.
         bind_res (sh_size img i) (\<lambda>sz.
         find_map_res (test stab) [0..<symbol_count sz]))
       else Inr None) = find_map_res t syms"
proof -
  from assms(1) obtain ty where ty: "sh_type img i = Inr ty"
    by (auto simp: section_symbols_def bind_res_Inr_iff)
  show ?thesis
  proof (cases "ty = 2")
    case False
    with assms ty show ?thesis by (simp add: section_symbols_def)
  next
    case True
    with assms(1) ty obtain stab sz where o: "sh_offset img i = Inr stab"
      and z: "sh_size img i = Inr sz"
      and m: "map_res (\<lambda>k. bind_res (st_value img stab k) (\<lambda>v.
         bind_res (st_size img stab k) (\<lambda>s. Inr (v, s)))) [0..<symbol_count sz] = Inr syms"
      by (auto simp: section_symbols_def bind_res_Inr_iff)
    from m have "list_all2 (\<lambda>k y. test stab k = t y) [0..<symbol_count sz] syms"
      unfolding map_res_Inr_iff
      by (rule list_all2_mono) (use assms(2) in \<open>auto simp: bind_res_Inr_iff tests_pair_def\<close>)
    then have "find_map_res (test stab) [0..<symbol_count sz] = find_map_res t syms"
      by (rule find_map_res_list_all2)
    with ty True o z show ?thesis by simp
  qed
qed

lemma search_symbols_list:
  assumes "elf_symbols img = Inr syms" and "tests_pair img test t"
  shows "search_symbols img test = find_map_res t syms"
proof -
  from assms(1) obtain x tab n tabs where strtab: "e_shstrndx img = Inr x" "sh_offset img (unat x) = Inr tab" and n: "e_shnum img = Inr n"
    and tabs: "map_res (section_symbols img) [0..<unat n] = Inr tabs" and syms: "syms = concat tabs"
    by (auto simp: elf_symbols_def bind_res_Inr_iff)
  have "search_symbols img test = find_map_res (find_map_res t) tabs"
    unfolding search_symbols_def strtab n bind_res_simps
    by (rule find_map_res_list_all2, rule list_all2_mono [OF tabs [unfolded map_res_Inr_iff]])
       (rule section_symbols_search [OF _ assms(2)])
  then show ?thesis by (simp add: find_map_res_concat syms)
qed

lemma free_header_ok: "get_elf_header os = Inr img \<Longrightarrow> free_header os = Inr ()"
  by (auto simp: get_elf_header_def free_header_def bind_res_Inr_iff)

lemma get_sym_end_list:
  assumes "exe_symbols os = Inr syms"
  shows "get_sym_end os a = Inr (sym_end_of syms a)"
proof -
  from assms obtain img where img: "get_elf_header os = Inr img" "elf_symbols img = Inr syms"
    by (auto simp: exe_symbols_def bind_res_Inr_iff)
  have "search_symbols img
       (\<lambda>stab k. bind_res (st_value img stab k) (\<lambda>v.
          if v = a then bind_res (st_size img stab k) (\<lambda>s. Inr (Some (a + s))) else Inr None)) =
    find_map_res (\<lambda>x. Inr (if fst x = a then Some (a + snd x) else None)) syms"
    by (rule search_symbols_list [OF img(2)]) (simp add: tests_pair_def)
  then show ?thesis using img(1) free_header_ok [OF img(1)]
    by (auto simp: get_sym_end_def sym_end_of_def find_map_res_pure case_prod_unfold
      split: option.split)
qed

lemma get_sym_start_list:
  assumes "exe_symbols os = Inr syms"
  shows "get_sym_start os a = Inr (sym_start_of syms a)"
proof -
  from assms obtain img where img: "get_elf_header os = Inr img" "elf_symbols img = Inr syms"
    by (auto simp: exe_symbols_def bind_res_Inr_iff)
  have "search_symbols img
       (\<lambda>stab k. bind_res (st_value img stab k) (\<lambda>v.
          bind_res (get_sym_end os v) (\<lambda>end_addr.
          Inr (if v \<le> a \<and> a < end_addr then Some v else None)))) =
    find_map_res (\<lambda>x. Inr (if fst x \<le> a \<and> a < sym_end_of syms (fst x) then Some (fst x) else None)) syms"
    by (rule search_symbols_list [OF img(2)]) (auto simp: tests_pair_def get_sym_end_list [OF assms])
  then show ?thesis using img(1) free_header_ok [OF img(1)]
    by (auto simp: get_sym_start_def sym_start_of_def find_map_res_pure case_prod_unfold
      split: option.split)
qed

text \<open>
  The end that \<open>get_sym_start\<close> tests a symbol with is that of the first symbol with its value. It
  is the symbol's own when symbols that start together have the same size.
\<close>

definition sizes_agree :: "(u64 \<times> u64) list \<Rightarrow> bool" where
  "sizes_agree syms \<longleftrightarrow> list_all (\<lambda>(v, s). sym_end_of syms v = v + s) syms"

lemma sym_start_own_range:
  assumes "sizes_agree syms"
  shows "sym_start_of syms a = (case find (\<lambda>(v, s). v \<le> a \<and> a < v + s) syms of Some (v, s) \<Rightarrow> v | None \<Rightarrow> 0)"
proof -
  have "find (\<lambda>(v, s). v \<le> a \<and> a < sym_end_of syms v) syms = find (\<lambda>(v, s). v \<le> a \<and> a < v + s) syms"
    using assms by (intro find_cong) (auto simp: sizes_agree_def list_all_iff)
  then show ?thesis by (simp add: sym_start_of_def)
qed

section \<open>The bounds the call-stack code relies on\<close>

locale symbol_bounds =
  fixes start_of :: "u64 \<Rightarrow> u64 res" and end_of :: "u64 \<Rightarrow> u64 res"
  assumes start_bounds: "start_of a = Inr s \<Longrightarrow> s \<noteq> 0 \<Longrightarrow>
      (\<exists>e. end_of s = Inr e \<and> s \<le> a \<and> a < e)"
begin

text \<open>The function at a found start passes the range test of the call-stack code.\<close>

lemma start_in_range:
  assumes "start_of a = Inr s" and "s \<noteq> 0" and "end_of s = Inr e"
  shows "s \<le> a \<and> a < e"
  using start_bounds [OF assms(1,2)] assms(3) by auto

lemma start_nonempty:
  assumes "start_of a = Inr s" and "s \<noteq> 0" and "end_of s = Inr e"
  shows "s < e"
  using start_in_range [OF assms] by (auto intro: order_le_less_trans)

end

lemma find_map_res_SomeD:
  "find_map_res f xs = Inr (Some a) \<Longrightarrow> \<exists>x \<in> set xs. f x = Inr (Some a)"
  by (induction xs) (auto simp: bind_res_Inr_iff split: option.splits)

lemma search_symbols_SomeD:
  assumes "search_symbols img test = Inr (Some a)"
  shows "\<exists>stab k. test stab k = Inr (Some a)"
proof -
  from assms obtain i where "bind_res (sh_type img i) (\<lambda>ty.
       if ty = 2 then
         bind_res (sh_offset img i) (\<lambda>stab.
         bind_res (sh_size img i) (\<lambda>sz.
         find_map_res (test stab) [0..<symbol_count sz]))
       else Inr None) = Inr (Some a)"
    by (auto simp: search_symbols_def bind_res_Inr_iff dest!: find_map_res_SomeD)
  then obtain stab n where "find_map_res (test stab) [0..<n] = Inr (Some a)"
    by (auto simp: bind_res_Inr_iff split: if_splits)
  then show ?thesis by (auto dest!: find_map_res_SomeD)
qed

interpretation exe: symbol_bounds "get_sym_start os" "get_sym_end os"
proof
  fix a s
  assume "get_sym_start os a = Inr s" and "s \<noteq> 0"
  then obtain img where "search_symbols img
       (\<lambda>stab k. bind_res (st_value img stab k) (\<lambda>v.
          bind_res (get_sym_end os v) (\<lambda>end_addr.
          Inr (if v \<le> a \<and> a < end_addr then Some v else None)))) = Inr (Some s)"
    by (auto simp: get_sym_start_def bind_res_Inr_iff split: option.splits)
  from search_symbols_SomeD [OF this]
  show "\<exists>e. get_sym_end os s = Inr e \<and> s \<le> a \<and> a < e"
    by (auto simp: bind_res_Inr_iff split: if_splits)
qed

end
