(* ===== verification/Lookup.thy ===== *)
theory Lookup
  imports Elf
begin

unbundle bit_operations_syntax

text \<open>
  The look-up functions of \<open>stmap.c\<close>. A pointer into the arrays of the stack map is the
  record it points to (\<open>None\<close> for \<open>NULL\<close>); the stack map is not written after
  \<open>stmap_create\<close>, and a record carries its own \<open>index\<close>. The loops over
  \<open>sm->num_rec\<close> records run over the indices of the record list.

  The abstract view is \<open>sites\<close>: every map record paired with the function it belongs to,
  where the functions come in the order of the size records, each as often as its
  \<open>record_count\<close> says. The lemmas show that each look-up is a search in that list, when
  the counts add up (\<open>counts_ok\<close>), which is what the locale \<open>site_search\<close> abstracts.
\<close>

section \<open>Reading past an object\<close>

text \<open>
  \<open>memcpy\<close> from an object of fewer bytes than are asked for (a location's 4-byte offset
  read as 8 bytes, say) continues into whatever the compiler or the allocator put behind
  it. Those bytes are a parameter.
\<close>

datatype object_end = PastOffset | PastRegisters | PastConstants | PastBlock | Unwritten

type_synonym slack = "object_end \<Rightarrow> nat \<Rightarrow> u8"

definition read_object :: "u8 list \<Rightarrow> (nat \<Rightarrow> u8) \<Rightarrow> nat \<Rightarrow> u8 list" where
  "read_object bs past n = take n bs @ map past [0..<n - length bs]"

section \<open>Records\<close>

definition stmap_get_map_record :: "stack_map \<Rightarrow> u64 \<Rightarrow> stack_map_record option" where
  "stmap_get_map_record sm ppid = find (\<lambda>r. patchpoint_id r = ppid) (stk_map_records sm)"

text \<open>The loop of \<open>stmap_get_size_record\<close>, with its \<open>record_count\<close> variable.\<close>

fun size_record_scan :: "stack_size_record list \<Rightarrow> u64 \<Rightarrow> u64 \<Rightarrow> stack_size_record option" where
  "size_record_scan [] rc idx = None"
| "size_record_scan (f # fs) rc idx =
     (if idx + 1 \<ge> rc \<and> idx + 1 < rc + record_count f then Some f
      else size_record_scan fs (rc + record_count f) idx)"

definition stmap_get_size_record :: "stack_map \<Rightarrow> u64 \<Rightarrow> stack_size_record option" where
  "stmap_get_size_record sm sm_rec_idx = size_record_scan (stk_size_records sm) 1 sm_rec_idx"

definition stmap_get_size_record_in_func :: "stack_map \<Rightarrow> u64 \<Rightarrow> stack_size_record option" where
  "stmap_get_size_record_in_func sm addr = find (\<lambda>f. fun_addr f = addr) (stk_size_records sm)"

definition site_addr :: "stack_size_record \<Rightarrow> stack_map_record \<Rightarrow> u64" where
  "site_addr f r = fun_addr f + ucast (instr_offset r)"

definition stmap_get_map_record_after_addr ::
  "os \<Rightarrow> stack_map \<Rightarrow> u64 \<Rightarrow> u64 \<Rightarrow> stack_map_record option res" where
  "stmap_get_map_record_after_addr os sm ppid addr =
     bind_res (find_res (\<lambda>i.
       let r = stk_map_records sm ! i in
       if patchpoint_id r = ppid then
         bind_res (or_errx (stmap_get_size_record sm (of_nat i)) ''No stack map after call!. Exiting.'') (\<lambda>f.
         bind_res (get_sym_end os (fun_addr f)) (\<lambda>last_addr.
         Inr (site_addr f r \<ge> addr \<and> addr \<ge> fun_addr f \<and> addr < last_addr)))
       else Inr False)
     [0..<length (stk_map_records sm)]) (\<lambda>hit.
     Inr (map_option (\<lambda>i. stk_map_records sm ! i) hit))"

definition stmap_get_map_record_in_func ::
  "stack_map \<Rightarrow> u64 \<Rightarrow> u64 \<Rightarrow> stack_map_record option res" where
  "stmap_get_map_record_in_func sm ppid addr =
     bind_res (find_res (\<lambda>i.
       let r = stk_map_records sm ! i in
       if patchpoint_id r = ppid then
         bind_res (or_errx (stmap_get_size_record sm (of_nat i)) ''No stack map after call!. Exiting.'') (\<lambda>f.
         Inr (fun_addr f = addr))
       else Inr False)
     [0..<length (stk_map_records sm)]) (\<lambda>hit.
     Inr (map_option (\<lambda>i. stk_map_records sm ! i) hit))"

text \<open>
  The loop of \<open>stmap_get_last_record\<close>: records from index \<open>i\<close> on, with \<open>last_rec\<close> and
  \<open>max_addr\<close>. A record without a size record ends the search with \<open>NULL\<close>.
\<close>

fun last_record_scan :: "stack_map \<Rightarrow> u64 \<Rightarrow> nat \<Rightarrow> stack_map_record list \<Rightarrow>
    stack_map_record option \<Rightarrow> u64 \<Rightarrow> stack_map_record option" where
  "last_record_scan sm target i [] last_rec max_addr = last_rec"
| "last_record_scan sm target i (r # rs) last_rec max_addr =
     (case stmap_get_size_record sm (of_nat i) of
        None \<Rightarrow> None
      | Some f \<Rightarrow>
          if fun_index f \<noteq> target then last_record_scan sm target (Suc i) rs last_rec max_addr
          else if site_addr f r > max_addr
          then last_record_scan sm target (Suc i) rs (Some r) (site_addr f r)
          else last_record_scan sm target (Suc i) rs last_rec max_addr)"

definition stmap_get_last_record :: "stack_map \<Rightarrow> stack_size_record \<Rightarrow> stack_map_record option" where
  "stmap_get_last_record sm target_size_rec =
     last_record_scan sm (fun_index target_size_rec) 0 (stk_map_records sm) None 0"

definition stmap_first_rec_after_addr :: "stack_map \<Rightarrow> u64 \<Rightarrow> stack_map_record option res" where
  "stmap_first_rec_after_addr sm addr =
     bind_res (find_res (\<lambda>i.
       let r = stk_map_records sm ! i in
       bind_res (or_errx (stmap_get_size_record sm (of_nat i)) ''No stack map after call!. Exiting.'') (\<lambda>f.
       bind_res (deref (stmap_get_last_record sm f)) (\<lambda>last_rec.
       if addr > fun_addr f + ucast (instr_offset last_rec) then Inr False
       else Inr (site_addr f r \<ge> addr \<and> addr > fun_addr f))))
     [0..<length (stk_map_records sm)]) (\<lambda>hit.
     Inr (map_option (\<lambda>i. stk_map_records sm ! i) hit))"

definition stmap_get_unopt_return_addr :: "stack_map \<Rightarrow> u64 \<Rightarrow> stack_map_pos option res" where
  "stmap_get_unopt_return_addr sm return_addr =
     bind_res (stmap_first_rec_after_addr sm return_addr) (\<lambda>p.
     case p of
       None \<Rightarrow> Inr None
     | Some call_rec \<Rightarrow>
         bind_res (or_errx (stmap_get_map_record sm (NOT (patchpoint_id call_rec)))
           ''(Unopt) map record not found. Exiting.'') (\<lambda>unopt_call_rec.
         bind_res (or_errx (stmap_get_size_record sm (rec_index unopt_call_rec))
           ''(Unopt) size record not found. Exiting.'') (\<lambda>stk_size_rec.
         Inr (Some \<lparr>stk_size_record_index = ucast (fun_index stk_size_rec),
                    stk_map_record_index = ucast (rec_index unopt_call_rec)\<rparr>))))"

section \<open>Values of locations\<close>

definition assert_valid_reg_num :: "int \<Rightarrow> unit res" where
  "assert_valid_reg_num reg =
     (if reg < 0 \<or> reg > 15 then Inl (Errx ''Invalid register number'') else Inr ())"

definition array_bytes :: "u64 list \<Rightarrow> u8 list" where
  "array_bytes xs = concat (map (to_bytes 8) xs)"

text \<open>
  The bytes \<open>stmap_get_location_value\<close> allocates and fills. \<open>loc.offset\<close> is an
  \<open>int32_t\<close>, sign-extended where it is added to the frame address and indexed with.
\<close>

definition stmap_get_location_value ::
  "slack \<Rightarrow> mem \<Rightarrow> stack_map \<Rightarrow> location \<Rightarrow> u64 list \<Rightarrow> u64 \<Rightarrow> u64 \<Rightarrow> u8 list res" where
  "stmap_get_location_value slack m sm loc regs frame_addr loc_sz =
     (case location_type_of (loc_kind loc) of
        Some REGISTER \<Rightarrow>
          bind_res (assert_valid_reg_num (uint (loc_dwarf_reg_num loc))) (\<lambda>_.
          bind_res (index_at regs (unat (loc_dwarf_reg_num loc))) (\<lambda>_.
          Inr (read_object (array_bytes (drop (unat (loc_dwarf_reg_num loc)) regs))
                 (slack PastRegisters) (unat loc_sz))))
      | Some DIRECT \<Rightarrow>
          load_bytes m (frame_addr + scast (loc_offset loc)) (unat loc_sz)
      | Some INDIRECT \<Rightarrow> Inl (Errx ''Not implemented.'')
      | Some CONST_INDEX \<Rightarrow>
          if sint (loc_offset loc) < 0 then Inl OutOfBounds
          else bind_res (index_at (constants sm) (nat (sint (loc_offset loc)))) (\<lambda>_.
               Inr (read_object (array_bytes (drop (nat (sint (loc_offset loc))) (constants sm)))
                      (slack PastConstants) (unat loc_sz)))
      | Some CONSTANT \<Rightarrow>
          Inr (read_object (to_bytes 4 (loc_offset loc)) (slack PastOffset) (unat loc_sz))
      | None \<Rightarrow> Inl (Errx ''Unknown location. Exiting.''))"

section \<open>The abstract view: records with their functions\<close>

definition owners :: "stack_size_record list \<Rightarrow> stack_size_record list" where
  "owners fs = concat (map (\<lambda>f. replicate (unat (record_count f)) f) fs)"

definition sites :: "stack_map \<Rightarrow> (stack_map_record \<times> stack_size_record) list" where
  "sites sm = zip (stk_map_records sm) (owners (stk_size_records sm))"

text \<open>The record counts of the functions add up to the number of records.\<close>

definition counts_ok :: "stack_map \<Rightarrow> bool" where
  "counts_ok sm \<longleftrightarrow>
     sum_list (map (\<lambda>f. unat (record_count f)) (stk_size_records sm)) = length (stk_map_records sm) \<and>
     length (stk_map_records sm) < 2 ^ 32"

text \<open>
  What a stack map that LLVM emitted satisfies: it is well formed, the counts add up, and
  no call site is at address 0.
\<close>

definition stmap_ok :: "stack_map \<Rightarrow> bool" where
  "stmap_ok sm \<longleftrightarrow> stmap_wf sm \<and> counts_ok sm \<and>
     list_all (\<lambda>(r, f). 0 < site_addr f r) (sites sm)"

section \<open>The function of a record\<close>

lemma length_owners: "length (owners fs) = sum_list (map (\<lambda>f. unat (record_count f)) fs)"
  by (induction fs) (auto simp: owners_def)

lemma owners_Cons: "owners (f # fs) = replicate (unat (record_count f)) f @ owners fs"
  by (simp add: owners_def)

lemma size_record_scan_owners:
  assumes "unat rc + length (owners fs) < 2 ^ 64" and "unat rc \<le> i + 1" and "i + 1 < 2 ^ 64"
  shows "size_record_scan fs rc (of_nat i) =
    (if i + 1 - unat rc < length (owners fs) then Some (owners fs ! (i + 1 - unat rc)) else None)"
  using assms
proof (induction fs arbitrary: rc)
  case Nil
  then show ?case by (simp add: owners_def)
next
  case (Cons f fs)
  let ?c = "unat (record_count f)"
  have i1: "unat (of_nat i + 1 :: u64) = i + 1"
    using Cons.prems(3) unat_of_nat_u64 [of "i + 1"] by (simp add: add.commute)
  have rc: "unat (rc + record_count f) = unat rc + ?c"
    using Cons.prems(1) by (simp add: owners_Cons unat_word_ariths)
  show ?case
  proof (cases "i + 1 < unat rc + ?c")
    case True
    then show ?thesis
      using Cons.prems(2) i1 rc
      by (auto simp: word_le_nat_alt word_less_nat_alt owners_Cons nth_append)
  next
    case False
    have "size_record_scan fs (rc + record_count f) (of_nat i) =
      (if i + 1 - (unat rc + ?c) < length (owners fs)
       then Some (owners fs ! (i + 1 - (unat rc + ?c))) else None)"
      using Cons.IH [of "rc + record_count f"] Cons.prems False
      by (simp add: rc owners_Cons)
    with False show ?thesis
      using i1 rc by (auto simp: word_le_nat_alt word_less_nat_alt owners_Cons nth_append)
  qed
qed

lemma get_size_record_owners:
  assumes "length (owners (stk_size_records sm)) < 2 ^ 64 - 1" and "i < 2 ^ 64 - 1"
  shows "stmap_get_size_record sm (of_nat i) =
    (if i < length (owners (stk_size_records sm)) then Some (owners (stk_size_records sm) ! i) else None)"
  using size_record_scan_owners [of 1 "stk_size_records sm" i] assms
  by (simp add: stmap_get_size_record_def)

section \<open>Searching records together with their functions\<close>

locale site_search =
  fixes recs :: "'m \<Rightarrow> 'r list" and own :: "'m \<Rightarrow> nat \<Rightarrow> 'f option"
    and pairs :: "'m \<Rightarrow> ('r \<times> 'f) list" and ok :: "'m \<Rightarrow> bool"
  assumes length_pairs: "ok m \<Longrightarrow> length (pairs m) = length (recs m)"
    and pair_at: "ok m \<Longrightarrow> i < length (recs m) \<Longrightarrow>
      \<exists>f. own m i = Some f \<and> pairs m ! i = (recs m ! i, f)"
begin

lemma own_defined: "ok m \<Longrightarrow> i < length (recs m) \<Longrightarrow> own m i \<noteq> None"
  using pair_at by fastforce

text \<open>
  A loop that fetches the function of each record and tests the two never fails for want of
  a function, and finds what the search in the list of pairs finds.
\<close>

lemma search_pairs:
  assumes ok: "ok m"
    and p: "\<And>i f. i < length (recs m) \<Longrightarrow> own m i = Some f \<Longrightarrow> p i = Inr (q (recs m ! i, f))"
  shows "bind_res (find_res p [0..<length (recs m)]) (\<lambda>hit. Inr (map_option (\<lambda>i. recs m ! i) hit)) =
    Inr (map_option fst (find q (pairs m)))"
proof -
  have "find_res p [0..<length (recs m)] = find_res (\<lambda>i. Inr (q (pairs m ! i))) [0..<length (recs m)]"
    by (rule find_res_cong) (use pair_at [OF ok] p in fastforce)
  then have l: "bind_res (find_res p [0..<length (recs m)]) (\<lambda>hit. Inr (map_option (\<lambda>i. recs m ! i) hit)) =
    Inr (map_option (\<lambda>i. recs m ! i) (find (\<lambda>i. q (pairs m ! i)) [0..<length (recs m)]))"
    by (simp add: find_res_pure)
  have "map_option (\<lambda>i. recs m ! i) (find (\<lambda>i. q (pairs m ! i)) [0..<length (recs m)]) =
    map_option (\<lambda>i. fst (pairs m ! i)) (find (\<lambda>i. q (pairs m ! i)) [0..<length (recs m)])"
  proof (rule option.map_cong0)
    fix i assume "i \<in> set_option (find (\<lambda>i. q (pairs m ! i)) [0..<length (recs m)])"
    then have "i < length (recs m)" by (auto simp: find_Some_iff)
    with pair_at [OF ok this] show "recs m ! i = fst (pairs m ! i)" by auto
  qed
  also have "\<dots> = map_option fst (map_option (\<lambda>i. pairs m ! i) (find (\<lambda>i. q (pairs m ! i)) [0..<length (recs m)]))"
    by (simp add: option.map_comp comp_def)
  also have "\<dots> = map_option fst (find q (pairs m))"
    using length_pairs [OF ok] by (simp add: find_map_index)
  finally show ?thesis using l by simp
qed

end

lemma length_sites: "counts_ok sm \<Longrightarrow> length (sites sm) = length (stk_map_records sm)"
  by (simp add: sites_def counts_ok_def length_owners)

interpretation stmap: site_search stk_map_records
  "\<lambda>sm i. stmap_get_size_record sm (of_nat i)" sites counts_ok
proof
  fix sm assume ok: "counts_ok sm"
  then show "length (sites sm) = length (stk_map_records sm)" by (rule length_sites)
  fix i assume i: "i < length (stk_map_records sm)"
  have o: "length (owners (stk_size_records sm)) = length (stk_map_records sm)"
    and l: "length (stk_map_records sm) < 2 ^ 32"
    using ok by (simp_all add: counts_ok_def length_owners)
  then have "stmap_get_size_record sm (of_nat i) = Some (owners (stk_size_records sm) ! i)"
    using i by (subst get_size_record_owners) auto
  then show "\<exists>f. stmap_get_size_record sm (of_nat i) = Some f \<and>
      sites sm ! i = (stk_map_records sm ! i, f)"
    using i o by (simp add: sites_def)
qed

lemma in_func_sites:
  "counts_ok sm \<Longrightarrow> stmap_get_map_record_in_func sm ppid fa =
     Inr (map_option fst (find (\<lambda>(r, f). patchpoint_id r = ppid \<and> fun_addr f = fa) (sites sm)))"
  unfolding stmap_get_map_record_in_func_def
  by (rule stmap.search_pairs) (auto simp: Let_def)

lemma after_addr_sites:
  assumes "counts_ok sm" and "exe_symbols os = Inr syms"
  shows "stmap_get_map_record_after_addr os sm ppid addr =
     Inr (map_option fst (find (\<lambda>(r, f). patchpoint_id r = ppid \<and> addr \<le> site_addr f r \<and>
       fun_addr f \<le> addr \<and> addr < sym_end_of syms (fun_addr f)) (sites sm)))"
  unfolding stmap_get_map_record_after_addr_def
  by (rule stmap.search_pairs [OF assms(1)]) (auto simp: Let_def get_sym_end_list [OF assms(2)])

section \<open>The last record of a function\<close>

lemma stmap_okD:
  assumes "stmap_ok sm"
  shows "stmap_wf sm" and "counts_ok sm"
    and "(r, f) \<in> set (sites sm) \<Longrightarrow> 0 < site_addr f r"
  using assms by (auto simp: stmap_ok_def list_all_iff)

lemma site_ownerD: "(r, f) \<in> set (sites sm) \<Longrightarrow> f \<in> set (stk_size_records sm)"
  by (auto simp: sites_def owners_def dest!: set_zip_rightD)

lemma site_recordD: "(r, f) \<in> set (sites sm) \<Longrightarrow> r \<in> set (stk_map_records sm)"
  by (auto simp: sites_def dest!: set_zip_leftD)

text \<open>Two size records with the same \<open>index\<close> are the same.\<close>

lemma fun_index_inj:
  assumes "stmap_wf sm" and "f \<in> set (stk_size_records sm)" and "g \<in> set (stk_size_records sm)"
    and "fun_index f = fun_index g"
  shows "f = g"
proof -
  obtain i j where i: "i < length (stk_size_records sm)" "f = stk_size_records sm ! i"
    and j: "j < length (stk_size_records sm)" "g = stk_size_records sm ! j"
    using assms(2,3) by (auto simp: in_set_conv_nth)
  have n: "length (stk_size_records sm) = unat (num_func sm)"
    and ix: "\<And>k. k < length (stk_size_records sm) \<Longrightarrow> fun_index (stk_size_records sm ! k) = of_nat k"
    using assms(1) by (auto simp: stmap_wf_def list_all_iff)
  have "unat (num_func sm) < 2 ^ LENGTH(32)" by (rule unsigned_less)
  then have b: "i < 2 ^ 64" "j < 2 ^ 64" using i j n by auto
  have "(of_nat i :: u64) = of_nat j" using assms(4) i j ix by simp
  then have "unat (of_nat i :: u64) = unat (of_nat j :: u64)" by simp
  then have "i = j" by (simp only: unat_of_nat_u64 [OF b(1)] unat_of_nat_u64 [OF b(2)])
  with i j show ?thesis by simp
qed

text \<open>
  What the scan of the records of \<open>ps\<close> (paired with their functions) leaves in \<open>last_rec\<close>
  and \<open>max_addr\<close>: the incoming values when no record of the target function lies above
  \<open>max_addr\<close>, otherwise one of those records that no other of them lies above.
\<close>

definition max_site :: "u64 \<Rightarrow> (stack_map_record \<times> stack_size_record) list \<Rightarrow>
    stack_map_record option \<Rightarrow> u64 \<Rightarrow> stack_map_record option \<Rightarrow> u64 \<Rightarrow> bool" where
  "max_site t ps lr mx res a \<longleftrightarrow>
     (res = lr \<and> a = mx \<or>
      (\<exists>(r, f) \<in> set ps. res = Some r \<and> fun_index f = t \<and> a = site_addr f r \<and> mx < a)) \<and>
     mx \<le> a \<and> (\<forall>(r, f) \<in> set ps. fun_index f = t \<longrightarrow> site_addr f r \<le> a)"

lemma max_site_take:
  "max_site (fun_index f) ps (Some r) (site_addr f r) res a \<Longrightarrow> mx < site_addr f r \<Longrightarrow>
     max_site (fun_index f) ((r, f) # ps) lr mx res a"
  by (auto simp: max_site_def)

lemma max_site_skip:
  "max_site t ps lr mx res a \<Longrightarrow> \<not> (fun_index f = t \<and> mx < site_addr f r) \<Longrightarrow>
     max_site t ((r, f) # ps) lr mx res a"
  by (auto simp: max_site_def not_less)

lemma last_record_scan_max:
  assumes "\<And>k. k < length ps \<Longrightarrow> stmap_get_size_record sm (of_nat (i + k)) = Some (snd (ps ! k))"
  shows "\<exists>a. max_site t ps lr mx (last_record_scan sm t i (map fst ps) lr mx) a"
  using assms
proof (induction ps arbitrary: i lr mx)
  case Nil
  then show ?case by (auto simp: max_site_def)
next
  case (Cons p ps)
  obtain r f where p: "p = (r, f)" by (cases p)
  have own: "stmap_get_size_record sm (of_nat i) = Some f"
    using Cons.prems [of 0] p by simp
  have rest: "\<And>k. k < length ps \<Longrightarrow> stmap_get_size_record sm (of_nat (Suc i + k)) = Some (snd (ps ! k))"
    using Cons.prems [of "Suc _"] by simp
  show ?case
  proof (cases "fun_index f = t \<and> site_addr f r > mx")
    case True
    then have "last_record_scan sm t i (map fst (p # ps)) lr mx =
      last_record_scan sm t (Suc i) (map fst ps) (Some r) (site_addr f r)"
      using own p by simp
    with Cons.IH [of "Suc i" "Some r" "site_addr f r"] rest True show ?thesis
      unfolding p by (metis max_site_take)
  next
    case False
    then have "last_record_scan sm t i (map fst (p # ps)) lr mx =
      last_record_scan sm t (Suc i) (map fst ps) lr mx"
      using own p by auto
    with Cons.IH [of "Suc i" lr mx] rest False show ?thesis
      unfolding p by (metis max_site_skip)
  qed
qed

lemma last_record_sites:
  assumes ok: "stmap_ok sm" and r0: "(r0, f) \<in> set (sites sm)"
  shows "\<exists>r. stmap_get_last_record sm f = Some r \<and> (r, f) \<in> set (sites sm) \<and>
    (\<forall>r'. (r', f) \<in> set (sites sm) \<longrightarrow> site_addr f r' \<le> site_addr f r)"
proof -
  note oks = stmap_okD [OF ok]
  have recs: "map fst (sites sm) = stk_map_records sm"
    using oks(2) by (simp add: sites_def counts_ok_def length_owners)
  have own: "stmap_get_size_record sm (of_nat (0 + k)) = Some (snd (sites sm ! k))"
    if "k < length (sites sm)" for k
    using stmap.pair_at [OF oks(2), of k] that by (auto simp: length_sites [OF oks(2)])
  from last_record_scan_max [OF own, where t = "fun_index f" and lr = None and mx = 0]
  obtain a where "max_site (fun_index f) (sites sm) None 0 (stmap_get_last_record sm f) a"
    unfolding recs stmap_get_last_record_def [symmetric] by blast
  then obtain a where a: "(stmap_get_last_record sm f = None \<and> a = 0) \<or>
      (\<exists>(r, g) \<in> set (sites sm). stmap_get_last_record sm f = Some r \<and>
         fun_index g = fun_index f \<and> a = site_addr g r \<and> 0 < a)"
    and mx: "\<forall>(r, g) \<in> set (sites sm). fun_index g = fun_index f \<longrightarrow> site_addr g r \<le> a"
    unfolding max_site_def by blast
  have same: "g = f" if "(r, g) \<in> set (sites sm)" "fun_index g = fun_index f" for r g
    using fun_index_inj [OF oks(1) site_ownerD [OF that(1)] site_ownerD [OF r0] that(2)] .
  have "a \<noteq> 0" using mx r0 oks(3) [OF r0] by auto
  with a obtain r g where rg: "(r, g) \<in> set (sites sm)" "stmap_get_last_record sm f = Some r"
    "fun_index g = fun_index f" "a = site_addr g r" by auto
  then have "g = f" using same by blast
  with rg mx show ?thesis by (intro exI [of _ r]) auto
qed

section \<open>The first record after an address\<close>

text \<open>
  The test against the last record of the function is implied by the test against the
  record itself, so it only saves time.
\<close>

lemma first_rec_sites:
  assumes ok: "stmap_ok sm"
  shows "stmap_first_rec_after_addr sm addr =
    Inr (map_option fst (find (\<lambda>(r, f). addr \<le> site_addr f r \<and> fun_addr f < addr) (sites sm)))"
  unfolding stmap_first_rec_after_addr_def
proof (rule stmap.search_pairs [OF stmap_okD(2) [OF ok]])
  fix i f
  assume i: "i < length (stk_map_records sm)" and own: "stmap_get_size_record sm (of_nat i) = Some f"
  let ?r = "stk_map_records sm ! i"
  from stmap.pair_at [OF stmap_okD(2) [OF ok] i] own have "sites sm ! i = (?r, f)" by auto
  then have site: "(?r, f) \<in> set (sites sm)"
    using i length_sites [OF stmap_okD(2) [OF ok]] by (metis nth_mem)
  from last_record_sites [OF ok site] obtain r where r: "stmap_get_last_record sm f = Some r"
    and mx: "site_addr f ?r \<le> site_addr f r" using site by auto
  show "(let r = ?r in
       bind_res (or_errx (stmap_get_size_record sm (of_nat i)) ''No stack map after call!. Exiting.'') (\<lambda>f.
       bind_res (deref (stmap_get_last_record sm f)) (\<lambda>last_rec.
       if addr > fun_addr f + ucast (instr_offset last_rec) then Inr False
       else Inr (site_addr f r \<ge> addr \<and> addr > fun_addr f)))) =
    Inr (case (?r, f) of (r, f) \<Rightarrow> addr \<le> site_addr f r \<and> fun_addr f < addr)"
    using own r mx by (auto simp: Let_def site_addr_def)
qed

text \<open>The record that was found, with its function and its position.\<close>

lemma find_sitesD:
  assumes "find q (sites sm) = Some (r, f)" and "counts_ok sm"
  shows "\<exists>i < length (stk_map_records sm). stk_map_records sm ! i = r \<and>
    stmap_get_size_record sm (of_nat i) = Some f \<and> q (r, f)"
proof -
  from assms(1) obtain i where i: "i < length (sites sm)" "sites sm ! i = (r, f)" "q (r, f)"
    by (auto simp: find_Some_iff)
  with stmap.pair_at [OF assms(2), of i] show ?thesis
    by (auto simp: length_sites [OF assms(2)])
qed

lemma rec_index_at:
  assumes "stmap_wf sm" and "i < length (stk_map_records sm)"
  shows "rec_index (stk_map_records sm ! i) = of_nat i"
  using assms by (auto simp: stmap_wf_def map_record_wf_def list_all_iff)

text \<open>Under well-formedness the function of a record is found from the record's own index.\<close>

lemma size_record_of_site:
  assumes ok: "stmap_ok sm" and site: "(r, f) \<in> set (sites sm)"
  shows "stmap_get_size_record sm (rec_index r) = Some f"
proof -
  from site obtain i where i: "i < length (sites sm)" "sites sm ! i = (r, f)"
    by (auto simp: in_set_conv_nth)
  then have "i < length (stk_map_records sm)" by (simp add: length_sites [OF stmap_okD(2) [OF ok]])
  with stmap.pair_at [OF stmap_okD(2) [OF ok] this] i
    rec_index_at [OF stmap_okD(1) [OF ok] this] show ?thesis by auto
qed

lemma record_in_sites:
  assumes "counts_ok sm" and "r \<in> set (stk_map_records sm)"
  shows "\<exists>f. (r, f) \<in> set (sites sm)"
proof -
  from assms(2) obtain i where "i < length (stk_map_records sm)" "stk_map_records sm ! i = r"
    by (auto simp: in_set_conv_nth)
  with stmap.pair_at [OF assms(1)] length_sites [OF assms(1)] show ?thesis
    by (metis nth_mem)
qed

end
