(* ===== verification/Frames.thy ===== *)
theory Frames
  imports Lookup
begin

text \<open>
  The data of \<open>call_stack_state.h\<close> and the operations of \<open>call_stack_state.c\<close> that build
  and edit the list of frames: \<open>get_registers\<close>, \<open>get_call_stack_state\<close>,
  \<open>insert_frames\<close>, \<open>get_state_copy\<close>, \<open>alloc_empty_frames\<close>, \<open>get_total_stack_size\<close>
  and \<open>restore_register_state\<close>.

  libunwind is a parameter: the cursor is the list of frames that successive \<open>unw_step\<close>
  calls reach before one returns 0 or an error. A field that the code leaves uninitialised
  has whatever value the memory held; \<open>junk\<close> gives those values, per array position.
\<close>

section \<open>Data\<close>

text \<open>The general purpose registers, in the order of their DWARF numbers.\<close>

datatype gpr = RAX | RDX | RCX | RBX | RSI | RDI | RBP | RSP
  | R8 | R9 | R10 | R11 | R12 | R13 | R14 | R15

definition all_gprs :: "gpr list" where
  "all_gprs = [RAX, RDX, RCX, RBX, RSI, RDI, RBP, RSP, R8, R9, R10, R11, R12, R13, R14, R15]"

text \<open>\<open>UNW_X86_64_RAX\<close> to \<open>UNW_X86_64_R15\<close>.\<close>

fun unw_num :: "gpr \<Rightarrow> nat" where
  "unw_num RAX = 0" | "unw_num RDX = 1" | "unw_num RCX = 2" | "unw_num RBX = 3"
| "unw_num RSI = 4" | "unw_num RDI = 5" | "unw_num RBP = 6" | "unw_num RSP = 7"
| "unw_num R8 = 8" | "unw_num R9 = 9" | "unw_num R10 = 10" | "unw_num R11 = 11"
| "unw_num R12 = 12" | "unw_num R13 = 13" | "unw_num R14 = 14" | "unw_num R15 = 15"

record frame =
  ret_addr :: u64
  stored_ret_addr :: u64
  frame_size :: u64
  bp :: u64
  real_bp :: u64
  registers :: "u64 list"
  frame_record :: stack_map_record
  real_record :: stack_map_record
  inlined :: bool

record call_stack_state =
  frames :: "frame list"
  depth :: u32

record restored_segment =
  seg_start_addr :: u64
  seg_total_size :: u64

text \<open>What libunwind reports about a frame.\<close>

record unw_frame =
  unw_ip :: u64
  unw_reg :: "gpr \<Rightarrow> u64"
  unw_proc_name :: string

section \<open>Operations\<close>

definition get_registers :: "unw_frame \<Rightarrow> u64 list" where
  "get_registers u =
     [unw_reg u RAX, unw_reg u RDX, unw_reg u RCX, unw_reg u RBX, unw_reg u RSI, unw_reg u RDI,
      unw_reg u RBP, unw_reg u RSP, unw_reg u R8, unw_reg u R9, unw_reg u R10, unw_reg u R11,
      unw_reg u R12, unw_reg u R13, unw_reg u R14, unw_reg u R15]"

definition register_at :: "frame \<Rightarrow> gpr \<Rightarrow> u64 res" where
  "register_at f g = index_at (registers f) (unw_num g)"

text \<open>The loop of \<open>get_call_stack_state\<close>; \<open>i\<close> is the number of frames so far.\<close>

fun unwind :: "mem \<Rightarrow> (nat \<Rightarrow> frame) \<Rightarrow> nat \<Rightarrow> unw_frame list \<Rightarrow> frame list res" where
  "unwind m junk i [] = Inr []"
| "unwind m junk i (u # us) =
     (if unw_ip u = 0 then Inr []
      else
        let regs = get_registers u; rbp = regs ! unw_num RBP in
        bind_res (load_u64 m (rbp + 8)) (\<lambda>stored.
        let fr = (junk i)\<lparr>registers := regs, ret_addr := rbp + 8, stored_ret_addr := stored,
                          bp := rbp, real_bp := rbp, inlined := False\<rparr> in
        if take 127 (unw_proc_name u) = ''main'' then Inr [fr]
        else bind_res (unwind m junk (Suc i) us) (\<lambda>rest. Inr (fr # rest))))"

definition get_call_stack_state ::
  "(nat \<Rightarrow> frame) \<Rightarrow> unw_frame list \<Rightarrow> mem \<Rightarrow> call_stack_state res" where
  "get_call_stack_state junk cursor m =
     bind_res (unwind m junk 0 cursor) (\<lambda>fs. Inr \<lparr>frames = fs, depth = of_nat (length fs)\<rparr>)"

definition get_state_copy :: "call_stack_state \<Rightarrow> call_stack_state" where
  "get_state_copy st = st"

definition insert_frames ::
  "call_stack_state \<Rightarrow> nat \<Rightarrow> frame list \<Rightarrow> nat \<Rightarrow> call_stack_state res" where
  "insert_frames st index fs num_frames =
     (if unat (depth st) < index \<or> length fs < num_frames \<or> 2 ^ 32 \<le> unat (depth st) + num_frames
        \<or> list_ex (\<lambda>f. length (registers f) < 16) (take num_frames fs)
      then Inl OutOfBounds
      else Inr \<lparr>frames = take index (frames st) @
                  map (\<lambda>f. f\<lparr>registers := take 16 (registers f)\<rparr>) (take num_frames fs) @
                  drop index (frames st),
                depth = depth st + of_nat num_frames\<rparr>)"

definition empty_record :: stack_map_record where
  "empty_record = \<lparr>patchpoint_id = 0, instr_offset = 0, rec_reserved = 0, num_locations = 0,
     locations = [], num_liveouts = 0, liveouts = [], rec_index = 0\<rparr>"

definition empty_frame :: frame where
  "empty_frame = \<lparr>ret_addr = 0, stored_ret_addr = 0, frame_size = 0, bp = 0, real_bp = 0,
     registers = replicate 16 0, frame_record = empty_record, real_record = empty_record,
     inlined = False\<rparr>"

definition alloc_empty_frames :: "nat \<Rightarrow> frame list" where
  "alloc_empty_frames num_frames = replicate num_frames empty_frame"

text \<open>The indices \<open>i\<close> with \<open>i + 1 < state->depth\<close>, over which most loops run.\<close>

definition call_indices :: "call_stack_state \<Rightarrow> nat list" where
  "call_indices st = [0..<unat (depth st) - 1]"

definition get_total_stack_size :: "call_stack_state \<Rightarrow> u64 res" where
  "get_total_stack_size st =
     fold_res (\<lambda>i total. bind_res (index_at (frames st) i) (\<lambda>f. Inr (total + (frame_size f + 8))))
       (call_indices st) 0"

text \<open>Reading the 16 registers of the first frame into the global array \<open>r\<close>.\<close>

definition restore_register_state :: "call_stack_state \<Rightarrow> u64 list res" where
  "restore_register_state st =
     bind_res (index_at (frames st) 0) (\<lambda>f. map_res (index_at (registers f)) [0..<16])"

section \<open>The invariant of a call stack state\<close>

definition frame_ok :: "frame \<Rightarrow> bool" where
  "frame_ok f \<longleftrightarrow> length (registers f) = 16"

definition state_ok :: "call_stack_state \<Rightarrow> bool" where
  "state_ok st \<longleftrightarrow> unat (depth st) = length (frames st) \<and> list_all frame_ok (frames st)"

section \<open>Lemmas\<close>

instantiation gpr :: enum
begin

definition enum_gpr :: "gpr list" where
  "enum_gpr = all_gprs"

definition enum_all_gpr :: "(gpr \<Rightarrow> bool) \<Rightarrow> bool" where
  "enum_all_gpr P = list_all P all_gprs"

definition enum_ex_gpr :: "(gpr \<Rightarrow> bool) \<Rightarrow> bool" where
  "enum_ex_gpr P = list_ex P all_gprs"

lemma UNIV_gpr: "(UNIV :: gpr set) = set all_gprs"
proof -
  have "g \<in> set all_gprs" for g by (cases g) (simp_all add: all_gprs_def)
  then show ?thesis by blast
qed

instance
proof
  show "(UNIV :: gpr set) = set enum_class.enum"
    by (simp add: enum_gpr_def UNIV_gpr)
  show "distinct (enum_class.enum :: gpr list)"
    by (simp add: enum_gpr_def all_gprs_def)
  fix P :: "gpr \<Rightarrow> bool"
  show "enum_class.enum_all P \<longleftrightarrow> Ball UNIV P"
    by (simp add: enum_all_gpr_def list_all_iff UNIV_gpr)
  show "enum_class.enum_ex P \<longleftrightarrow> Bex UNIV P"
    by (simp add: enum_ex_gpr_def list_ex_iff UNIV_gpr)
qed

end

text \<open>\<open>get_registers\<close> puts each register at its DWARF number.\<close>

lemma get_registers_nth: "get_registers u ! unw_num g = unw_reg u g"
  by (cases g) (simp_all add: get_registers_def)

lemma length_get_registers [simp]: "length (get_registers u) = 16"
  by (simp add: get_registers_def)

lemma unw_num_less: "unw_num g < 16"
  by (cases g) simp_all

lemma unw_num_inj: "unw_num g = unw_num h \<Longrightarrow> g = h"
  by (cases g; cases h) simp_all

text \<open>What the unwinding loop returns: one frame per unwound frame, up to \<open>main\<close>.\<close>

lemma unwind_frames:
  "unwind m junk i us = Inr fs \<Longrightarrow>
     length fs \<le> length us \<and>
     (\<forall>k < length fs. registers (fs ! k) = get_registers (us ! k) \<and>
        bp (fs ! k) = unw_reg (us ! k) RBP \<and> real_bp (fs ! k) = unw_reg (us ! k) RBP \<and>
        ret_addr (fs ! k) = unw_reg (us ! k) RBP + 8 \<and>
        load_u64 m (unw_reg (us ! k) RBP + 8) = Inr (stored_ret_addr (fs ! k)) \<and>
        \<not> inlined (fs ! k))"
proof (induction m junk i us arbitrary: fs rule: unwind.induct)
  case (1 m junk i)
  then show ?case by simp
next
  case (2 m junk i u us)
  show ?case
  proof (cases "unw_ip u = 0")
    case True
    with "2.prems" show ?thesis by simp
  next
    case False
    have rbp: "get_registers u ! unw_num RBP = unw_reg u RBP" by (rule get_registers_nth)
    let ?fr = "\<lambda>stored. (junk i)\<lparr>registers := get_registers u, ret_addr := unw_reg u RBP + 8,
      stored_ret_addr := stored, bp := unw_reg u RBP, real_bp := unw_reg u RBP, inlined := False\<rparr>"
    from "2.prems" False obtain stored where l: "load_u64 m (unw_reg u RBP + 8) = Inr stored"
      and r: "(if take 127 (unw_proc_name u) = ''main'' then Inr [?fr stored]
        else bind_res (unwind m junk (Suc i) us) (\<lambda>rest. Inr (?fr stored # rest))) = Inr fs"
      by (auto simp: Let_def rbp bind_res_Inr_iff simp del: unw_num.simps cong: if_cong)
    show ?thesis
    proof (cases "take 127 (unw_proc_name u) = ''main''")
      case True
      with r l show ?thesis by (auto simp: get_registers_nth)
    next
      case main: False
      with r obtain rest where rest: "unwind m junk (Suc i) us = Inr rest" "fs = ?fr stored # rest"
        by (auto simp: bind_res_Inr_iff)
      have "length rest \<le> length us \<and>
        (\<forall>k < length rest. registers (rest ! k) = get_registers (us ! k) \<and>
        bp (rest ! k) = unw_reg (us ! k) RBP \<and> real_bp (rest ! k) = unw_reg (us ! k) RBP \<and>
        ret_addr (rest ! k) = unw_reg (us ! k) RBP + 8 \<and>
        load_u64 m (unw_reg (us ! k) RBP + 8) = Inr (stored_ret_addr (rest ! k)) \<and>
        \<not> inlined (rest ! k))"
        using False l main rest(1)
        by (intro "2.IH") (auto simp: rbp simp del: unw_num.simps)
      with rest(2) l show ?thesis by (auto simp: nth_Cons split: nat.split)
    qed
  qed
qed

lemma call_indices_less: "i \<in> set (call_indices st) \<longleftrightarrow> Suc i < unat (depth st)"
  by (auto simp: call_indices_def)

lemma insert_frames_ok:
  assumes "state_ok st" and "list_all frame_ok fs" and "insert_frames st i fs n = Inr st'"
  shows "state_ok st'" and "frames st' = take i (frames st) @ take n fs @ drop i (frames st)"
proof -
  have reg: "map (\<lambda>f. f\<lparr>registers := take 16 (registers f)\<rparr>) (take n fs) = take n fs"
    using assms(2) by (intro map_idI) (auto simp: frame_ok_def list_all_iff dest!: in_set_takeD)
  from assms(3) have c: "i \<le> unat (depth st)" "n \<le> length fs" "unat (depth st) + n < 2 ^ 32"
    and st': "st' = \<lparr>frames = take i (frames st) @ take n fs @ drop i (frames st),
      depth = depth st + of_nat n\<rparr>"
    by (auto simp: insert_frames_def reg split: if_splits)
  have "unat (depth st + of_nat n) = unat (depth st) + n"
    using c(3) by (simp add: unat_word_ariths unat_of_nat take_bit_eq_mod)
  then show "state_ok st'"
    using assms(1,2) c by (auto simp: state_ok_def st' list_all_iff dest!: in_set_takeD in_set_dropD)
  show "frames st' = take i (frames st) @ take n fs @ drop i (frames st)" by (simp add: st')
qed

lemma insert_frames_defined:
  assumes "state_ok st" and "list_all frame_ok fs" and "i \<le> length (frames st)"
    and "length (frames st) + length fs < 2 ^ 32"
  shows "\<exists>st'. insert_frames st i fs (length fs) = Inr st' \<and> state_ok st' \<and>
    frames st' = take i (frames st) @ fs @ drop i (frames st)"
proof -
  have "unat (depth st) = length (frames st)" using assms(1) by (simp add: state_ok_def)
  moreover have "\<not> list_ex (\<lambda>f. length (registers f) < 16) fs"
    using assms(2) by (auto simp: list_ex_iff list_all_iff frame_ok_def)
  ultimately obtain st' where st': "insert_frames st i fs (length fs) = Inr st'"
    using assms(3,4) by (auto simp: insert_frames_def)
  from insert_frames_ok [OF assms(1,2) st'] st' show ?thesis by auto
qed

lemma fold_res_sum:
  "\<forall>i \<in> set is. i < length xs \<Longrightarrow>
     fold_res (\<lambda>i (total :: u64). bind_res (index_at xs i) (\<lambda>f. Inr (total + g f))) is t =
       Inr (t + sum_list (map (\<lambda>i. g (xs ! i)) is))"
  by (induction "is" arbitrary: t) (auto simp: add.assoc)

lemma total_size_sum:
  assumes "state_ok st"
  shows "get_total_stack_size st =
    Inr (sum_list (map (\<lambda>f. frame_size f + 8) (butlast (frames st))))"
proof -
  have d: "unat (depth st) = length (frames st)" using assms by (simp add: state_ok_def)
  have "get_total_stack_size st =
      Inr (0 + sum_list (map (\<lambda>i. frame_size (frames st ! i) + 8) (call_indices st)))"
    unfolding get_total_stack_size_def
    by (rule fold_res_sum) (auto simp: call_indices_less d)
  moreover have "map (\<lambda>i. frame_size (frames st ! i) + 8) (call_indices st) =
      map (\<lambda>f. frame_size f + 8) (butlast (frames st))"
    by (intro nth_equalityI) (auto simp: call_indices_def d nth_butlast)
  ultimately show ?thesis by simp
qed

lemma restore_register_state_first:
  assumes "state_ok st" and "frames st \<noteq> []"
  shows "restore_register_state st = Inr (registers (hd (frames st)))"
proof -
  from assms have l: "length (registers (hd (frames st))) = 16"
    by (cases "frames st") (auto simp: state_ok_def frame_ok_def)
  have "map_res (index_at (registers (hd (frames st)))) [0..<16] = Inr (registers (hd (frames st)))"
    unfolding map_res_Inr_iff by (rule list_all2_all_nthI) (simp_all add: l)
  with assms(2) show ?thesis
    by (simp add: restore_register_state_def hd_conv_nth)
qed

lemma get_call_stack_state_ok:
  assumes "get_call_stack_state junk cursor m = Inr st" and "length cursor < 2 ^ 32"
  shows "state_ok st"
proof -
  from assms(1) obtain fs where fs: "unwind m junk 0 cursor = Inr fs"
    and st: "st = \<lparr>frames = fs, depth = of_nat (length fs)\<rparr>"
    by (auto simp: get_call_stack_state_def bind_res_Inr_iff)
  note u = unwind_frames [OF fs]
  then have "list_all frame_ok fs" by (auto simp: list_all_length frame_ok_def)
  moreover have "unat (of_nat (length fs) :: u32) = length fs"
    using u assms(2) by (simp add: unat_of_nat take_bit_eq_mod)
  ultimately show ?thesis by (simp add: st state_ok_def)
qed

end
