(* ===== verification/Inlining.thy ===== *)
theory Inlining
  imports Frames
begin

unbundle bit_operations_syntax

text \<open>
  The part of \<open>call_stack_state.c\<close> that matches frames with stack map records and rebuilds
  the frames of inlined calls: \<open>collect_map_records\<close>, \<open>get_next_patchpoint\<close>,
  \<open>get_restored_state\<close> and \<open>collect_inlined_frames\<close>. The two loops with no bound of their
  own carry fuel, one step more than there are records; the lemmas at the end show that
  this is enough on a stack map that LLVM emits (\<open>stmap_ok\<close>), and under
  \<open>no_wrap\<close> (no call site at the last address) for the second.

  \<open>collect_inlined_frames\<close> reads \<open>state_copy->frames\<close>, which is the array that
  \<open>insert_frames\<close> gives to \<open>realloc\<close>. Whether \<open>realloc\<close> moves the array is decided by the
  allocator: \<open>moves i\<close> says whether it does in iteration \<open>i\<close>. When it does, every later
  read through the copy is \<open>UseAfterFree\<close>; when it does not, the copy sees the edited
  array.
\<close>

section \<open>collect_map_records\<close>

text \<open>The body of the loop, on the frame array and the memory.\<close>

definition collect_map_record ::
  "os \<Rightarrow> stack_map \<Rightarrow> nat \<Rightarrow> frame list \<times> mem \<Rightarrow> (frame list \<times> mem) res" where
  "collect_map_record os sm i = (\<lambda>(fs, m).
     bind_res (index_at fs i) (\<lambda>fr.
     bind_res (load_u64 m (ret_addr fr)) (\<lambda>ra.
     bind_res (stmap_get_unopt_return_addr sm ra) (\<lambda>p.
     bind_res (deref p) (\<lambda>sm_pos.
     bind_res (index_at (stk_size_records sm) (unat (stk_size_record_index sm_pos))) (\<lambda>usz.
     bind_res (index_at (stk_map_records sm) (unat (stk_map_record_index sm_pos))) (\<lambda>urec.
     let unopt_ret_addr = fun_addr usz + ucast (instr_offset urec) + 13 in
     bind_res (get_sym_start os (stored_ret_addr fr)) (\<lambda>fun_start_addr.
     let ppid = NOT (patchpoint_id urec) in
     bind_res (stmap_get_map_record_after_addr os sm ppid (stored_ret_addr fr)) (\<lambda>real_opt.
     let opt = stmap_get_map_record sm (NOT (patchpoint_id urec)) in
     bind_res (store_u64 m (ret_addr fr) unopt_ret_addr) (\<lambda>m'.
     bind_res (deref opt) (\<lambda>opt_rec.
     bind_res (deref real_opt) (\<lambda>real_rec.
     bind_res (deref (stmap_get_size_record sm (rec_index opt_rec))) (\<lambda>osz.
     Inr (fs[i := fr\<lparr>frame_record := opt_rec, real_record := real_rec,
                   frame_size := stack_size osz\<rparr>], m'))))))))))))))"

definition collect_map_records ::
  "os \<Rightarrow> stack_map \<Rightarrow> call_stack_state \<Rightarrow> mem \<Rightarrow> (call_stack_state \<times> mem) res" where
  "collect_map_records os sm st m =
     bind_res (fold_res (collect_map_record os sm) (call_indices st) (frames st, m)) (\<lambda>(fs, m').
     Inr (st\<lparr>frames := fs\<rparr>, m'))"

section \<open>get_next_patchpoint\<close>

fun next_patchpoint_loop ::
  "nat \<Rightarrow> stack_map \<Rightarrow> u64 \<Rightarrow> stack_size_record \<Rightarrow> stack_map_record option \<Rightarrow> u64 \<Rightarrow> u64 res" where
  "next_patchpoint_loop 0 sm addr f p last_ppid = Inl NoReturn"
| "next_patchpoint_loop (Suc n) sm addr f p last_ppid =
     (case p of
        None \<Rightarrow> Inr last_ppid
      | Some r \<Rightarrow>
          bind_res (stmap_get_map_record_in_func sm (patchpoint_id r - 1) (fun_addr f)) (\<lambda>next.
          case next of
            None \<Rightarrow> next_patchpoint_loop n sm addr f None (patchpoint_id r)
          | Some r' \<Rightarrow>
              bind_res (deref (stmap_get_size_record sm (rec_index r'))) (\<lambda>f'.
              if site_addr f' r' < addr then Inr (patchpoint_id r)
              else next_patchpoint_loop n sm addr f' (Some r') (patchpoint_id r))))"

definition get_next_patchpoint :: "stack_map \<Rightarrow> u64 \<Rightarrow> stack_size_record \<Rightarrow> u64 res" where
  "get_next_patchpoint sm addr size_rec =
     next_patchpoint_loop (length (stk_map_records sm) + 2) sm addr size_rec
       (stmap_get_last_record sm size_rec) 0"

section \<open>get_restored_state\<close>

text \<open>
  The \<open>do\<close> loop; \<open>fs\<close> are the frames so far. A new frame has the values of \<open>junk\<close> in the
  fields that are not assigned (\<open>stored_ret_addr\<close>, \<open>bp\<close>, \<open>real_bp\<close>, \<open>registers\<close>).
\<close>

fun restored_loop :: "nat \<Rightarrow> os \<Rightarrow> stack_map \<Rightarrow> (nat \<Rightarrow> frame) \<Rightarrow> u64 \<Rightarrow> u64 \<Rightarrow> u64 \<Rightarrow> frame list \<Rightarrow>
    frame list res" where
  "restored_loop 0 os sm junk start_addr ppid opt_ret_addr fs = Inl NoReturn"
| "restored_loop (Suc n) os sm junk start_addr ppid opt_ret_addr fs =
     bind_res (stmap_first_rec_after_addr sm opt_ret_addr) (\<lambda>p.
     case p of
       None \<Rightarrow> Inr fs
     | Some r \<Rightarrow>
         bind_res (or_errx (stmap_get_size_record sm (rec_index r)) ''Size record not found'') (\<lambda>f.
         bind_res (deref (stmap_get_map_record sm (NOT (patchpoint_id r)))) (\<lambda>u.
         bind_res (deref (stmap_get_size_record sm (rec_index u))) (\<lambda>uf.
         bind_res (stmap_get_map_record_after_addr os sm (patchpoint_id r) start_addr) (\<lambda>real_opt.
         bind_res (deref real_opt) (\<lambda>real_rec.
         let fs' = fs @ [(junk (length fs))\<lparr>ret_addr := site_addr uf u + 13,
                           frame_size := stack_size uf, frame_record := r,
                           real_record := real_rec, inlined := True\<rparr>] in
         if patchpoint_id r \<noteq> ppid
         then restored_loop n os sm junk start_addr ppid (site_addr f r + 1) fs'
         else Inr fs'))))))"

definition get_restored_state ::
  "os \<Rightarrow> stack_map \<Rightarrow> (nat \<Rightarrow> frame) \<Rightarrow> u64 \<Rightarrow> u64 \<Rightarrow> call_stack_state res" where
  "get_restored_state os sm junk start_addr ppid =
     bind_res (restored_loop (length (stk_map_records sm) + 1) os sm junk start_addr ppid start_addr [])
       (\<lambda>fs. Inr \<lparr>frames = fs, depth = of_nat (length fs)\<rparr>)"

section \<open>collect_inlined_frames\<close>

text \<open>
  Giving restored frames the base pointer and the registers of the frame they were inlined
  in: the loop over \<open>res_state->frames\<close> that both callers of \<open>get_restored_state\<close> have.
\<close>

definition adopt :: "u64 \<Rightarrow> u64 list \<Rightarrow> frame \<Rightarrow> frame" where
  "adopt outer_bp outer_registers f =
     f\<lparr>real_bp := outer_bp, registers := take 16 outer_registers\<rparr>"

text \<open>
  The body of the loop, on the state, the result so far, and whether the array that
  \<open>state_copy\<close> points to has been moved away.
\<close>

definition collect_inlined_frame ::
  "os \<Rightarrow> stack_map \<Rightarrow> (nat \<Rightarrow> frame) \<Rightarrow> (nat \<Rightarrow> bool) \<Rightarrow> nat \<Rightarrow>
     call_stack_state \<times> bool \<times> bool \<Rightarrow> (call_stack_state \<times> bool \<times> bool) res" where
  "collect_inlined_frame os sm junk moves i = (\<lambda>(st, inl, stale).
     bind_res (if stale then Inl UseAfterFree else index_at (frames st) i) (\<lambda>fr.
     let r = frame_record fr in
     bind_res (deref (stmap_get_size_record sm (rec_index r))) (\<lambda>f.
     bind_res (get_sym_end os (fun_addr f)) (\<lambda>end_addr.
     let ra = stored_ret_addr fr in
     if \<not> (ra \<ge> fun_addr f \<and> ra < end_addr) then
       let next_addr = ra + 13 + 1 in
       bind_res (get_sym_start os next_addr) (\<lambda>s.
       bind_res (deref (stmap_get_size_record_in_func sm s)) (\<lambda>real_f.
       let inlined_patchpoint_addr = fun_addr real_f + ucast (instr_offset r) in
       bind_res (get_next_patchpoint sm inlined_patchpoint_addr real_f) (\<lambda>last_ppid.
       bind_res (get_restored_state os sm junk next_addr last_ppid) (\<lambda>res_state.
       bind_res (index_at (frames st) (Suc i)) (\<lambda>outer.
       bind_res (insert_frames st (Suc i)
           (map (adopt (real_bp outer) (registers outer)) (frames res_state))
           (unat (depth res_state))) (\<lambda>st'.
       Inr (st', True, moves i)))))))
     else Inr (st, inl, stale)))))"

definition collect_inlined_frames ::
  "os \<Rightarrow> stack_map \<Rightarrow> (nat \<Rightarrow> frame) \<Rightarrow> (nat \<Rightarrow> bool) \<Rightarrow> call_stack_state \<Rightarrow>
     (call_stack_state \<times> bool) res" where
  "collect_inlined_frames os sm junk moves st =
     (let state_copy = get_state_copy st in
      bind_res (fold_res (collect_inlined_frame os sm junk moves) (call_indices state_copy)
        (st, False, False)) (\<lambda>(st', inl, stale). Inr (st', inl)))"

section \<open>get_next_patchpoint returns\<close>

text \<open>A record of the function at \<open>fa\<close> with the given identifier.\<close>

definition func_record :: "stack_map \<Rightarrow> u64 \<Rightarrow> u64 \<Rightarrow> stack_map_record option" where
  "func_record sm fa ppid =
     map_option fst (find (\<lambda>(r, f). patchpoint_id r = ppid \<and> fun_addr f = fa) (sites sm))"

lemma func_recordD:
  assumes "stmap_ok sm" and "func_record sm fa ppid = Some r"
  shows "patchpoint_id r = ppid" and "r \<in> set (stk_map_records sm)"
    and "\<exists>f. stmap_get_size_record sm (rec_index r) = Some f \<and> fun_addr f = fa \<and>
      (r, f) \<in> set (sites sm)"
proof -
  from assms(2) obtain f where f: "find (\<lambda>(r, f). patchpoint_id r = ppid \<and> fun_addr f = fa) (sites sm) = Some (r, f)"
    by (auto simp: func_record_def)
  then have s: "(r, f) \<in> set (sites sm)" and id: "patchpoint_id r = ppid" and fa: "fun_addr f = fa"
    by (auto dest!: find_SomeD)
  show "patchpoint_id r = ppid" by (rule id)
  show "r \<in> set (stk_map_records sm)" using s by (rule site_recordD)
  show "\<exists>f. stmap_get_size_record sm (rec_index r) = Some f \<and> fun_addr f = fa \<and>
      (r, f) \<in> set (sites sm)"
    using size_record_of_site [OF assms(1) s] s fa by blast
qed

lemma in_func_record: "stmap_ok sm \<Longrightarrow> stmap_get_map_record_in_func sm ppid fa = Inr (func_record sm fa ppid)"
  by (simp add: in_func_sites stmap_okD func_record_def)

text \<open>
  Identifiers \<open>p, p + 1, ..., p + k\<close> that all occur are fewer than the records, since there
  are fewer records than 64-bit words.
\<close>

lemma consecutive_ids:
  assumes n: "length recs < 2 ^ 32"
    and sub: "\<And>j. j \<le> k \<Longrightarrow> p + of_nat j \<in> patchpoint_id ` set recs"
  shows "k < length recs"
proof (rule ccontr)
  assume "\<not> k < length recs"
  then have "(\<lambda>j. p + of_nat j) ` {..length recs} \<subseteq> patchpoint_id ` set recs"
    using sub by auto
  moreover have "inj_on (\<lambda>j. p + (of_nat j :: u64)) {..length recs}"
  proof (rule inj_onI)
    fix i j
    assume "i \<in> {..length recs}" "j \<in> {..length recs}" "p + of_nat i = p + of_nat j"
    then have "unat (of_nat i :: u64) = unat (of_nat j :: u64)" "i < 2 ^ 64" "j < 2 ^ 64"
      using n by auto
    then show "i = j" by (simp only: unat_of_nat_u64)
  qed
  ultimately have "card {..length recs} \<le> card (patchpoint_id ` set recs)"
    by (metis List.finite_set card_image card_mono finite_imageI)
  also have "\<dots> \<le> card (set recs)" by (rule card_image_le) simp
  also have "\<dots> \<le> length recs" by (rule card_length)
  finally show False by simp
qed

lemma next_patchpoint_loop_returns:
  assumes "stmap_ok sm" and "length (stk_map_records sm) + 1 < n + k"
    and "\<And>j. j \<le> k \<Longrightarrow> patchpoint_id r + of_nat j \<in> patchpoint_id ` set (stk_map_records sm)"
  shows "\<exists>p. next_patchpoint_loop n sm addr f (Some r) l = Inr p"
  using assms(2,3)
proof (induction n arbitrary: k f r l)
  case 0
  have "k < length (stk_map_records sm)"
    using stmap_okD(2) [OF assms(1)] 0 by (intro consecutive_ids) (auto simp: counts_ok_def)
  with 0 show ?case by simp
next
  case (Suc n)
  have k: "k < length (stk_map_records sm)"
    using stmap_okD(2) [OF assms(1)] Suc.prems by (intro consecutive_ids) (auto simp: counts_ok_def)
  then obtain n' where n': "n = Suc n'" using Suc.prems(1) by (cases n) auto
  show ?case
  proof (cases "func_record sm (fun_addr f) (patchpoint_id r - 1)")
    case None
    then show ?thesis by (simp add: in_func_record [OF assms(1)] n')
  next
    case (Some r')
    note r' = func_recordD [OF assms(1) Some]
    from r'(3) obtain f' where f': "stmap_get_size_record sm (rec_index r') = Some f'" by auto
    show ?thesis
    proof (cases "site_addr f' r' < addr")
      case True
      then show ?thesis by (simp add: in_func_record [OF assms(1)] Some f')
    next
      case False
      have "patchpoint_id r' + of_nat j \<in> patchpoint_id ` set (stk_map_records sm)" if "j \<le> Suc k" for j
      proof (cases j)
        case 0
        with r'(2) show ?thesis by simp
      next
        case (Suc i)
        with that Suc.prems(2) [of i] r'(1) show ?thesis by simp
      qed
      then have "\<exists>p. next_patchpoint_loop n sm addr f' (Some r') (patchpoint_id r) = Inr p"
        using Suc.prems(1) by (intro Suc.IH [of "Suc k"]) auto
      with False show ?thesis by (simp add: in_func_record [OF assms(1)] Some f')
    qed
  qed
qed

lemma last_record_scan_in:
  "last_record_scan sm t i rs lr mx = Some r \<Longrightarrow> lr = Some r \<or> r \<in> set rs"
  by (induction sm t i rs lr mx rule: last_record_scan.induct) (auto split: option.splits if_splits)

lemma last_record_in:
  "stmap_get_last_record sm f = Some r \<Longrightarrow> r \<in> set (stk_map_records sm)"
  by (auto simp: stmap_get_last_record_def dest: last_record_scan_in)

lemma get_next_patchpoint_total:
  assumes "stmap_ok sm"
  shows "\<exists>p. get_next_patchpoint sm addr f = Inr p"
proof (cases "stmap_get_last_record sm f")
  case None
  then show ?thesis by (simp add: get_next_patchpoint_def)
next
  case (Some r)
  have "\<exists>p. next_patchpoint_loop (length (stk_map_records sm) + 2) sm addr f (Some r) 0 = Inr p"
    using assms last_record_in [OF Some] by (intro next_patchpoint_loop_returns [where k = 0]) auto
  with Some show ?thesis by (simp add: get_next_patchpoint_def)
qed

text \<open>
  What it returns: from the record it starts at, \<open>k\<close> steps down through identifiers whose
  records are in the function and not below \<open>addr\<close>, as far as that goes.
\<close>

definition ppid_run :: "stack_map \<Rightarrow> u64 \<Rightarrow> u64 \<Rightarrow> u64 \<Rightarrow> u64 \<Rightarrow> bool" where
  "ppid_run sm addr fa hi p \<longleftrightarrow>
     (\<exists>k. p = hi - of_nat k \<and>
        (\<forall>j. 1 \<le> j \<longrightarrow> j \<le> k \<longrightarrow> (\<exists>r. func_record sm fa (hi - of_nat j) = Some r \<and>
             \<not> fa + ucast (instr_offset r) < addr)) \<and>
        (case func_record sm fa (p - 1) of
           None \<Rightarrow> True | Some r \<Rightarrow> fa + ucast (instr_offset r) < addr))"

lemma ppid_run_stop:
  "(case func_record sm fa (hi - 1) of None \<Rightarrow> True | Some r \<Rightarrow> fa + ucast (instr_offset r) < addr) \<Longrightarrow>
     ppid_run sm addr fa hi hi"
  unfolding ppid_run_def by (intro exI [of _ 0]) auto

lemma ppid_run_step:
  assumes "ppid_run sm addr fa (hi - 1) p" and "func_record sm fa (hi - 1) = Some r"
    and "\<not> fa + ucast (instr_offset r) < addr"
  shows "ppid_run sm addr fa hi p"
proof -
  from assms(1) obtain k where k: "p = hi - 1 - of_nat k"
    and run: "\<And>j. 1 \<le> j \<Longrightarrow> j \<le> k \<Longrightarrow> \<exists>r. func_record sm fa (hi - 1 - of_nat j) = Some r \<and>
             \<not> fa + ucast (instr_offset r) < addr"
    and fin: "case func_record sm fa (p - 1) of None \<Rightarrow> True | Some r \<Rightarrow> fa + ucast (instr_offset r) < addr"
    unfolding ppid_run_def by blast
  have "\<exists>r. func_record sm fa (hi - of_nat j) = Some r \<and> \<not> fa + ucast (instr_offset r) < addr"
    if "1 \<le> j" "j \<le> Suc k" for j
  proof (cases "j = 1")
    case True
    with assms(2,3) show ?thesis by simp
  next
    case False
    with that obtain i where "j = Suc i" "1 \<le> i" "i \<le> k" by (cases j) auto
    with run [of i] show ?thesis by (simp add: algebra_simps)
  qed
  moreover have "p = hi - of_nat (Suc k)" using k by (simp add: algebra_simps)
  ultimately show ?thesis using fin unfolding ppid_run_def by blast
qed

lemma next_patchpoint_loop_run:
  assumes "stmap_ok sm" and "next_patchpoint_loop n sm addr f (Some r) l = Inr p"
  shows "ppid_run sm addr (fun_addr f) (patchpoint_id r) p"
  using assms(2)
proof (induction n arbitrary: f r l)
  case 0
  then show ?case by simp
next
  case (Suc n)
  show ?case
  proof (cases "func_record sm (fun_addr f) (patchpoint_id r - 1)")
    case None
    with Suc.prems have "next_patchpoint_loop n sm addr f None (patchpoint_id r) = Inr p"
      by (simp add: in_func_record [OF assms(1)])
    then have "p = patchpoint_id r" by (cases n) auto
    with None show ?thesis by (auto intro: ppid_run_stop)
  next
    case (Some r')
    note r' = func_recordD [OF assms(1) Some]
    from r'(3) obtain f' where f': "stmap_get_size_record sm (rec_index r') = Some f'"
      and fa: "fun_addr f' = fun_addr f" by auto
    show ?thesis
    proof (cases "site_addr f' r' < addr")
      case True
      with Suc.prems have "p = patchpoint_id r" by (simp add: in_func_record [OF assms(1)] Some f')
      with True Some fa show ?thesis by (auto simp: site_addr_def intro!: ppid_run_stop)
    next
      case False
      with Suc.prems have "next_patchpoint_loop n sm addr f' (Some r') (patchpoint_id r) = Inr p"
        by (simp add: in_func_record [OF assms(1)] Some f')
      from Suc.IH [OF this] have "ppid_run sm addr (fun_addr f) (patchpoint_id r - 1) p"
        by (simp add: fa r'(1))
      with False Some fa show ?thesis by (auto simp: site_addr_def intro: ppid_run_step)
    qed
  qed
qed

text \<open>
  The call sites of a function carry consecutive identifiers, in the order of their addresses,
  when the optimizer kept the blocks in the order in which the pass numbered them. Then the run
  down from the last record goes back to the first record at or after the address.
\<close>

definition func_sites :: "stack_map \<Rightarrow> stack_size_record \<Rightarrow> stack_map_record list" where
  "func_sites sm f = map fst (filter (\<lambda>(r, g). fun_addr g = fun_addr f) (sites sm))"

definition numbered_in_order :: "stack_map \<Rightarrow> stack_size_record \<Rightarrow> bool" where
  "numbered_in_order sm f \<longleftrightarrow> list_all (\<lambda>(r, g). fun_addr g = fun_addr f \<longrightarrow> g = f) (sites sm) \<and>
     (let rs = func_sites sm f in
      sorted_wrt (\<lambda>r s. site_addr f r < site_addr f s) rs \<and>
      map patchpoint_id rs = map (\<lambda>k. patchpoint_id (hd rs) + of_nat k) [0..<length rs])"

lemma func_record_sites: "func_record sm (fun_addr f) i = find (\<lambda>r. patchpoint_id r = i) (func_sites sm f)"
proof -
  have "map_option fst (find (\<lambda>(r, g). patchpoint_id r = i \<and> fun_addr g = fun_addr f) xs) =
      find (\<lambda>r. patchpoint_id r = i) (map fst (filter (\<lambda>(r, g). fun_addr g = fun_addr f) xs))" for xs
    by (induction xs) auto
  then show ?thesis by (simp add: func_record_def func_sites_def)
qed

lemma length_func_sites:
  assumes "stmap_ok sm"
  shows "length (func_sites sm f) < 2 ^ 32"
proof -
  have "length (func_sites sm f) \<le> length (sites sm)" by (simp add: func_sites_def)
  also have "length (sites sm) \<le> length (stk_map_records sm)" by (simp add: sites_def)
  also have "length (stk_map_records sm) < 2 ^ 32" using stmap_okD(2) [OF assms] by (simp add: counts_ok_def)
  finally show ?thesis .
qed

lemma numbered_ids:
  assumes "numbered_in_order sm f" and "k < length (func_sites sm f)"
  shows "patchpoint_id (func_sites sm f ! k) = patchpoint_id (hd (func_sites sm f)) + of_nat k"
proof -
  let ?rs = "func_sites sm f"
  have "map patchpoint_id ?rs = map (\<lambda>k. patchpoint_id (hd ?rs) + of_nat k) [0..<length ?rs]"
    using assms(1) by (simp add: numbered_in_order_def Let_def)
  then have "map patchpoint_id ?rs ! k = map (\<lambda>k. patchpoint_id (hd ?rs) + of_nat k) [0..<length ?rs] ! k"
    by (rule arg_cong)
  then show ?thesis using assms(2) by simp
qed

lemma numbered_record:
  assumes ok: "stmap_ok sm" and num: "numbered_in_order sm f" and k: "k < length (func_sites sm f)"
  shows "func_record sm (fun_addr f) (patchpoint_id (hd (func_sites sm f)) + of_nat k) = Some (func_sites sm f ! k)"
proof -
  let ?rs = "func_sites sm f"
  have "patchpoint_id (?rs ! j) \<noteq> patchpoint_id (hd ?rs) + of_nat k" if "j < k" for j
  proof -
    have "unat (of_nat i :: u64) = i" if "i \<le> k" for i
      using that k length_func_sites [OF ok, of f] by (simp add: unat_of_nat)
    then have "(of_nat j :: u64) \<noteq> of_nat k" using that by (metis less_imp_le nat_neq_iff order_refl)
    then show ?thesis using that k by (simp add: numbered_ids [OF num])
  qed
  then show ?thesis
    unfolding func_record_sites find_Some_iff using k numbered_ids [OF num k] by (intro exI [of _ k]) auto
qed

lemma numbered_before:
  assumes ok: "stmap_ok sm" and num: "numbered_in_order sm f"
  shows "func_record sm (fun_addr f) (patchpoint_id (hd (func_sites sm f)) - 1) = None"
proof -
  let ?rs = "func_sites sm f"
  have "patchpoint_id (?rs ! k) \<noteq> patchpoint_id (hd ?rs) - 1" if k: "k < length ?rs" for k
  proof -
    have "unat (of_nat (k + 1) :: u64) = k + 1"
      using k length_func_sites [OF ok, of f] by (simp add: unat_of_nat del: of_nat_add of_nat_Suc)
    then have "(of_nat (k + 1) :: u64) \<noteq> 0" by (metis add_is_0 one_neq_zero unat_0)
    then show ?thesis using k by (simp add: numbered_ids [OF num] algebra_simps eq_neg_iff_add_eq_0)
  qed
  then show ?thesis unfolding func_record_sites find_None_iff by (metis in_set_conv_nth)
qed

lemma numbered_last:
  assumes ok: "stmap_ok sm" and num: "numbered_in_order sm f" and r: "stmap_get_last_record sm f = Some r"
    and ne: "func_sites sm f \<noteq> []"
  shows "r = last (func_sites sm f)"
proof -
  let ?rs = "func_sites sm f"
  have own: "s \<in> set ?rs \<longleftrightarrow> (s, f) \<in> set (sites sm)" for s
    using num by (force simp: numbered_in_order_def func_sites_def list_all_iff)
  have sorted: "sorted_wrt (\<lambda>r s. site_addr f r < site_addr f s) ?rs"
    using num by (simp add: numbered_in_order_def Let_def)
  have last: "last ?rs \<in> set ?rs" using ne by simp
  then have "r \<in> set ?rs" and top: "site_addr f (last ?rs) \<le> site_addr f r"
    using last_record_sites [OF ok, of "last ?rs" f] r own by auto
  then obtain k where k: "k < length ?rs" "r = ?rs ! k" by (metis in_set_conv_nth)
  show ?thesis
  proof (cases "k = length ?rs - 1")
    case True
    then show ?thesis using k ne by (simp add: last_conv_nth)
  next
    case False
    then have "site_addr f (?rs ! k) < site_addr f (?rs ! (length ?rs - 1))"
      using k(1) by (intro sorted_wrt_nth_less [OF sorted]) auto
    then show ?thesis using top k ne by (simp add: last_conv_nth)
  qed
qed

lemma numbered_run_first:
  assumes ok: "stmap_ok sm" and num: "numbered_in_order sm f" and ne: "func_sites sm f \<noteq> []"
    and run: "ppid_run sm addr (fun_addr f) (patchpoint_id (last (func_sites sm f))) p"
  shows "p = patchpoint_id (case find (\<lambda>r. addr \<le> site_addr f r) (func_sites sm f) of
    Some r \<Rightarrow> r | None \<Rightarrow> last (func_sites sm f))"
proof -
  let ?rs = "func_sites sm f" and ?id = "patchpoint_id (hd (func_sites sm f))"
  define n where "n = length ?rs - 1"
  have len: "length ?rs = Suc n" and last: "last ?rs = ?rs ! n" using ne by (simp_all add: n_def last_conv_nth)
  have hi: "patchpoint_id (last ?rs) = ?id + of_nat n" using numbered_ids [OF num, of n] len last by simp
  have sorted: "site_addr f (?rs ! i) < site_addr f (?rs ! j)" if "i < j" "j \<le> n" for i j
    using num that len sorted_wrt_nth_less [of "\<lambda>r s. site_addr f r < site_addr f s" ?rs i j]
    by (simp add: numbered_in_order_def Let_def)
  from run obtain k where p: "p = ?id + of_nat n - of_nat k"
    and down: "\<And>j. 1 \<le> j \<Longrightarrow> j \<le> k \<Longrightarrow> \<exists>r. func_record sm (fun_addr f) (?id + of_nat n - of_nat j) = Some r \<and>
      \<not> site_addr f r < addr"
    and stop: "case func_record sm (fun_addr f) (p - 1) of None \<Rightarrow> True | Some r \<Rightarrow> site_addr f r < addr"
    unfolding ppid_run_def hi site_addr_def by blast
  have k: "k \<le> n"
  proof (rule ccontr)
    assume "\<not> k \<le> n"
    then show False using down [of "Suc n"] numbered_before [OF ok num] by (simp add: algebra_simps)
  qed
  define q where "q = n - k"
  have pq: "p = ?id + of_nat q" using k by (simp add: p q_def of_nat_diff)
  have above: "addr \<le> site_addr f (?rs ! i)" if "q \<le> i" "i < n" for i
    using down [of "n - i"] numbered_record [OF ok num, of i] that k len by (auto simp: q_def of_nat_diff not_less)
  have below: "site_addr f (?rs ! (q - 1)) < addr" if "0 < q"
  proof -
    have "p - 1 = ?id + of_nat (q - 1)" using that by (simp add: pq of_nat_diff)
    then show ?thesis using stop numbered_record [OF ok num, of "q - 1"] that len by (simp add: q_def)
  qed
  have id: "p = patchpoint_id (?rs ! q)" using numbered_ids [OF num, of q] len by (simp add: pq q_def)
  show ?thesis
  proof (cases "addr \<le> site_addr f (?rs ! n)")
    case True
    have "site_addr f (?rs ! j) < addr" if "j < q" for j
    proof -
      have "site_addr f (?rs ! j) \<le> site_addr f (?rs ! (q - 1))"
      proof (cases "j = q - 1")
        case False
        then have "j < q - 1" "q - 1 \<le> n" using that by (auto simp: q_def)
        then show ?thesis by (rule less_imp_le [OF sorted])
      qed simp
      then show ?thesis using below that by simp
    qed
    moreover have "addr \<le> site_addr f (?rs ! q)" using above [of q] True by (cases "q = n") (auto simp: q_def)
    ultimately have "find (\<lambda>r. addr \<le> site_addr f r) ?rs = Some (?rs ! q)"
      unfolding find_Some_iff using len by (intro exI [of _ q]) (auto simp: q_def not_le)
    then show ?thesis by (simp add: id)
  next
    case False
    then have small: "site_addr f (?rs ! j) < addr" if "j \<le> n" for j
      using that sorted [of j n] by (cases "j = n") auto
    then have "find (\<lambda>r. addr \<le> site_addr f r) ?rs = None"
      unfolding find_None_iff in_set_conv_nth using len by (auto simp: not_le less_Suc_eq_le)
    moreover have "q = n" using above [of q] small [of q] by (cases "q = n") (auto simp: q_def)
    ultimately show ?thesis by (simp add: id last)
  qed
qed

section \<open>get_restored_state returns\<close>

text \<open>No call site is at the last address, so the address after a site is above it.\<close>

definition no_wrap :: "stack_map \<Rightarrow> bool" where
  "no_wrap sm \<longleftrightarrow> list_all (\<lambda>(r, f). site_addr f r \<noteq> - 1) (sites sm)"

definition sites_from :: "stack_map \<Rightarrow> u64 \<Rightarrow> (stack_map_record \<times> stack_size_record) list" where
  "sites_from sm a = filter (\<lambda>(r, f). a \<le> site_addr f r) (sites sm)"

lemma first_rec_SomeD:
  assumes "stmap_ok sm" and "stmap_first_rec_after_addr sm a = Inr (Some r)"
  shows "\<exists>f. (r, f) \<in> set (sites sm) \<and> a \<le> site_addr f r \<and> fun_addr f < a \<and>
    stmap_get_size_record sm (rec_index r) = Some f"
proof -
  from assms obtain f where "find (\<lambda>(r, f). a \<le> site_addr f r \<and> fun_addr f < a) (sites sm) = Some (r, f)"
    by (auto simp: first_rec_sites)
  then have "(r, f) \<in> set (sites sm)" "a \<le> site_addr f r" "fun_addr f < a"
    by (auto dest!: find_SomeD)
  with size_record_of_site [OF assms(1)] show ?thesis by blast
qed

lemma word_less_succ:
  fixes a b :: "'a::len word"
  assumes "a \<noteq> - 1"
  shows "a + 1 \<le> b \<longleftrightarrow> a < b"
proof -
  have "1 + a \<noteq> 0" using assms by (auto simp: add_eq_0_iff)
  then have "unat (a + 1) = Suc (unat a)" by (simp add: unatSuc add.commute)
  then show ?thesis by (simp add: word_le_nat_alt word_less_nat_alt Suc_le_eq)
qed

lemma filter_length_less:
  assumes "x \<in> set xs" and "q x" and "\<not> p x" and "\<And>y. p y \<Longrightarrow> q y"
  shows "length (filter p xs) < length (filter q xs)"
  using assms(1)
proof (induction xs)
  case Nil
  then show ?case by simp
next
  case (Cons a xs)
  have le: "length (filter p xs) \<le> length (filter q xs)" for xs
    using assms(4) by (induction xs) auto
  show ?case
  proof (cases "x = a")
    case True
    with assms(2,3) le [of xs] show ?thesis by simp
  next
    case False
    with Cons have "length (filter p xs) < length (filter q xs)" by simp
    with assms(4) [of a] show ?thesis by auto
  qed
qed

lemma sites_from_less:
  assumes "(r, f) \<in> set (sites sm)" and "a \<le> site_addr f r" and "no_wrap sm"
  shows "length (sites_from sm (site_addr f r + 1)) < length (sites_from sm a)"
proof -
  have nw: "site_addr f r \<noteq> - 1" using assms(1,3) by (auto simp: no_wrap_def list_all_iff)
  show ?thesis unfolding sites_from_def
  proof (rule filter_length_less [OF assms(1)])
    show "case (r, f) of (r, f) \<Rightarrow> a \<le> site_addr f r" using assms(2) by simp
    show "\<not> (case (r, f) of (ra, fa) \<Rightarrow> site_addr f r + 1 \<le> site_addr fa ra)"
      by (simp add: word_less_succ [OF nw])
    fix y :: "stack_map_record \<times> stack_size_record"
    show "case y of (ra, fa) \<Rightarrow> site_addr f r + 1 \<le> site_addr fa ra \<Longrightarrow>
        case y of (r, f) \<Rightarrow> a \<le> site_addr f r"
      using assms(2) by (auto simp: word_less_succ [OF nw])
  qed
qed

text \<open>One more unit of fuel than there are sites left is enough: the loop does not run dry.\<close>

lemma restored_loop_returns:
  assumes ok: "stmap_ok sm" "no_wrap sm" and syms: "exe_symbols os = Inr syms"
    and "length (sites_from sm a) < n"
  shows "restored_loop n os sm junk start ppid a fs \<noteq> Inl NoReturn"
  using assms(4)
proof (induction n arbitrary: a fs)
  case 0
  then show ?case by simp
next
  case (Suc n)
  obtain p where p: "stmap_first_rec_after_addr sm a = Inr p" by (simp add: first_rec_sites [OF ok(1)])
  show ?case
  proof (cases p)
    case None
    with p show ?thesis by simp
  next
    case (Some r)
    with first_rec_SomeD [OF ok(1)] p obtain f where f: "(r, f) \<in> set (sites sm)"
      "a \<le> site_addr f r" "stmap_get_size_record sm (rec_index r) = Some f" by blast
    have "restored_loop n os sm junk start ppid (site_addr f r + 1) fs' \<noteq> Inl NoReturn" for fs'
      using sites_from_less [OF f(1,2) ok(2)] Suc.prems by (intro Suc.IH) simp
    with p Some f(3) show ?thesis
      by (cases "stmap_get_map_record sm (NOT (patchpoint_id r))")
         (auto simp: after_addr_sites [OF stmap_okD(2) [OF ok(1)] syms] Let_def bind_res_Inl_iff
           deref_def split: option.splits)
  qed
qed

lemma length_sites_from: "stmap_ok sm \<Longrightarrow> length (sites_from sm a) \<le> length (stk_map_records sm)"
  using length_filter_le [of "\<lambda>(r, f). a \<le> site_addr f r" "sites sm"]
  by (simp add: sites_from_def length_sites stmap_okD)

lemma get_restored_state_returns:
  assumes "stmap_ok sm" and "no_wrap sm" and "exe_symbols os = Inr syms"
  shows "get_restored_state os sm junk start ppid \<noteq> Inl NoReturn"
proof -
  have "restored_loop (length (stk_map_records sm) + 1) os sm junk start ppid start [] \<noteq> Inl NoReturn"
    using length_sites_from [OF assms(1), of start] by (intro restored_loop_returns [OF assms]) simp
  then show ?thesis
    by (cases "restored_loop (length (stk_map_records sm) + 1) os sm junk start ppid start []")
       (auto simp: get_restored_state_def)
qed

text \<open>
  The sites the loop walks through: the first one after \<open>a\<close>, then the first one after
  that, until one has the identifier \<open>ppid\<close> or there is none left.
\<close>

fun site_walk :: "stack_map \<Rightarrow> u64 \<Rightarrow> u64 \<Rightarrow> (stack_map_record \<times> stack_size_record) list \<Rightarrow> bool" where
  "site_walk sm ppid a [] \<longleftrightarrow> stmap_first_rec_after_addr sm a = Inr None"
| "site_walk sm ppid a ((r, f) # ps) \<longleftrightarrow>
     stmap_first_rec_after_addr sm a = Inr (Some r) \<and> (r, f) \<in> set (sites sm) \<and> a \<le> site_addr f r \<and>
     (if patchpoint_id r = ppid then ps = [] else site_walk sm ppid (site_addr f r + 1) ps)"

text \<open>The frame the loop makes for a site, whatever the fields it leaves alone hold.\<close>

definition restored_frame :: "os \<Rightarrow> stack_map \<Rightarrow> u64 \<Rightarrow> stack_map_record \<times> stack_size_record \<Rightarrow> frame \<Rightarrow> bool" where
  "restored_frame os sm start = (\<lambda>(r, f) fr.
     inlined fr \<and> frame_record fr = r \<and>
     stmap_get_map_record_after_addr os sm (patchpoint_id r) start = Inr (Some (real_record fr)) \<and>
     (\<exists>u uf. stmap_get_map_record sm (NOT (patchpoint_id r)) = Some u \<and>
        stmap_get_size_record sm (rec_index u) = Some uf \<and>
        ret_addr fr = site_addr uf u + 13 \<and> frame_size fr = stack_size uf))"

lemma restored_loop_walk:
  assumes ok: "stmap_ok sm" and "restored_loop n os sm junk start ppid a fs = Inr gs"
  shows "\<exists>ps hs. gs = fs @ hs \<and> site_walk sm ppid a ps \<and> list_all2 (restored_frame os sm start) ps hs"
  using assms(2)
proof (induction n arbitrary: a fs)
  case 0
  then show ?case by simp
next
  case (Suc n)
  from Suc.prems obtain p where p: "stmap_first_rec_after_addr sm a = Inr p"
    by (auto simp: bind_res_Inr_iff)
  show ?case
  proof (cases p)
    case None
    with p Suc.prems show ?thesis by (intro exI [of _ "[]"]) auto
  next
    case (Some r)
    with first_rec_SomeD [OF ok] p obtain f where f: "(r, f) \<in> set (sites sm)"
      "a \<le> site_addr f r" "stmap_get_size_record sm (rec_index r) = Some f" by blast
    from Suc.prems p Some f(3) obtain u uf rr where
      u: "stmap_get_map_record sm (NOT (patchpoint_id r)) = Some u"
        "stmap_get_size_record sm (rec_index u) = Some uf"
        "stmap_get_map_record_after_addr os sm (patchpoint_id r) start = Inr (Some rr)"
      by (auto simp: bind_res_Inr_iff)
    define fr where "fr = (junk (length fs))\<lparr>ret_addr := site_addr uf u + 13,
      frame_size := stack_size uf, frame_record := r, real_record := rr, inlined := True\<rparr>"
    have fr: "restored_frame os sm start (r, f) fr" using u by (simp add: restored_frame_def fr_def)
    from Suc.prems p Some f(3) u have step: "(if patchpoint_id r \<noteq> ppid
         then restored_loop n os sm junk start ppid (site_addr f r + 1) (fs @ [fr])
         else Inr (fs @ [fr])) = Inr gs"
      by (auto simp: Let_def fr_def split: if_splits)
    show ?thesis
    proof (cases "patchpoint_id r = ppid")
      case True
      with step p Some f fr show ?thesis
        by (intro exI [of _ "[(r, f)]"] exI [of _ "[fr]"]) auto
    next
      case False
      with step Suc.IH obtain ps hs where "gs = (fs @ [fr]) @ hs"
        "site_walk sm ppid (site_addr f r + 1) ps" "list_all2 (restored_frame os sm start) ps hs"
        by fastforce
      with False p Some f fr show ?thesis
        by (intro exI [of _ "(r, f) # ps"] exI [of _ "fr # hs"]) auto
    qed
  qed
qed

lemma site_walk_above:
  "site_walk sm ppid a ps \<Longrightarrow> no_wrap sm \<Longrightarrow> (r, f) \<in> set ps \<Longrightarrow> a \<le> site_addr f r"
proof (induction sm ppid a ps rule: site_walk.induct)
  case (1 sm ppid a)
  then show ?case by simp
next
  case (2 sm ppid a r' f' ps)
  have nw: "site_addr f' r' \<noteq> - 1" using "2.prems" by (auto simp: no_wrap_def list_all_iff)
  show ?case
  proof (cases "(r, f) = (r', f')")
    case True
    with "2.prems" show ?thesis by simp
  next
    case False
    with "2.prems" have in_ps: "(r, f) \<in> set ps" by auto
    with "2.prems" have "patchpoint_id r' \<noteq> ppid" by auto
    with "2.IH" "2.prems" in_ps have "site_addr f' r' + 1 \<le> site_addr f r" by simp
    with "2.prems" show ?thesis by (auto simp: word_less_succ [OF nw])
  qed
qed

lemma site_walk_ascending:
  "site_walk sm ppid a ps \<Longrightarrow> no_wrap sm \<Longrightarrow>
     sorted_wrt (<) (map (\<lambda>(r, f). site_addr f r) ps)"
proof (induction sm ppid a ps rule: site_walk.induct)
  case (1 sm ppid a)
  then show ?case by simp
next
  case (2 sm ppid a r f ps)
  have nw: "site_addr f r \<noteq> - 1" using "2.prems" by (auto simp: no_wrap_def list_all_iff)
  show ?case
  proof (cases "patchpoint_id r = ppid")
    case True
    with "2.prems" show ?thesis by simp
  next
    case False
    with "2.prems" have w: "site_walk sm ppid (site_addr f r + 1) ps" by simp
    have "site_addr f r < site_addr g q" if "(q, g) \<in> set ps" for q g
      using site_walk_above [OF w "2.prems"(2) that] by (simp add: word_less_succ [OF nw])
    with "2.IH" [OF False w "2.prems"(2)] show ?thesis by auto
  qed
qed

text \<open>Only the last site of the walk can have the identifier; without it the walk ran out.\<close>

lemma site_walk_stops:
  "site_walk sm ppid a ps \<Longrightarrow>
     (\<forall>(r, f) \<in> set (butlast ps). patchpoint_id r \<noteq> ppid) \<and>
     (ps \<noteq> [] \<longrightarrow> (case last ps of (r, f) \<Rightarrow> patchpoint_id r \<noteq> ppid \<longrightarrow>
        stmap_first_rec_after_addr sm (site_addr f r + 1) = Inr None))"
proof (induction sm ppid a ps rule: site_walk.induct)
  case (1 sm ppid a)
  then show ?case by simp
next
  case (2 sm ppid a r f ps)
  then show ?case by (cases ps) (auto split: if_splits)
qed

section \<open>What collect_map_records establishes\<close>

lemma index_word:
  assumes "i < 2 ^ 32"
  shows "unat (ucast (of_nat i :: u64) :: u32) = i"
  using assms by (simp add: unsigned_ucast_eq unsigned_of_nat take_bit_eq_mod)

text \<open>The position that is found names the unoptimized twin and its function.\<close>

lemma unopt_return_addrD:
  assumes ok: "stmap_ok sm" and ret: "stmap_get_unopt_return_addr sm ra = Inr (Some pos)"
  shows "\<exists>c f u uf. stmap_first_rec_after_addr sm ra = Inr (Some c) \<and> (c, f) \<in> set (sites sm) \<and>
    ra \<le> site_addr f c \<and> fun_addr f < ra \<and>
    stmap_get_map_record sm (NOT (patchpoint_id c)) = Some u \<and>
    stmap_get_size_record sm (rec_index u) = Some uf \<and>
    index_at (stk_size_records sm) (unat (stk_size_record_index pos)) = Inr uf \<and>
    index_at (stk_map_records sm) (unat (stk_map_record_index pos)) = Inr u"
proof -
  from ret obtain c where c: "stmap_first_rec_after_addr sm ra = Inr (Some c)"
    by (auto simp: stmap_get_unopt_return_addr_def bind_res_Inr_iff split: option.splits)
  with ret obtain u uf where u: "stmap_get_map_record sm (NOT (patchpoint_id c)) = Some u"
    and uf: "stmap_get_size_record sm (rec_index u) = Some uf"
    and pos: "pos = \<lparr>stk_size_record_index = ucast (fun_index uf), stk_map_record_index = ucast (rec_index u)\<rparr>"
    by (auto simp: stmap_get_unopt_return_addr_def bind_res_Inr_iff)
  from first_rec_SomeD [OF ok c] obtain f where f: "(c, f) \<in> set (sites sm)" "ra \<le> site_addr f c"
    "fun_addr f < ra" by blast
  from u have "u \<in> set (stk_map_records sm)"
    by (auto simp: stmap_get_map_record_def dest!: find_SomeD)
  then obtain i where i: "i < length (stk_map_records sm)" "stk_map_records sm ! i = u"
    by (auto simp: in_set_conv_nth)
  have ri: "rec_index u = of_nat i" using rec_index_at [OF stmap_okD(1) [OF ok] i(1)] i(2) by simp
  have "length (stk_map_records sm) < 2 ^ 32" using stmap_okD(2) [OF ok] by (simp add: counts_ok_def)
  then have "index_at (stk_map_records sm) (unat (ucast (rec_index u) :: u32)) = Inr u"
    using i by (simp add: ri index_word)
  moreover have "index_at (stk_size_records sm) (unat (ucast (fun_index uf) :: u32)) = Inr uf"
  proof -
    from stmap.pair_at [OF stmap_okD(2) [OF ok] i(1)] uf ri have "sites sm ! i = (u, uf)"
      using i(2) by auto
    then have "(u, uf) \<in> set (sites sm)"
      using i(1) length_sites [OF stmap_okD(2) [OF ok]] by (metis nth_mem)
    then have "uf \<in> set (stk_size_records sm)" by (rule site_ownerD)
    then obtain k where k: "k < length (stk_size_records sm)" "stk_size_records sm ! k = uf"
      by (auto simp: in_set_conv_nth)
    have wf: "length (stk_size_records sm) = unat (num_func sm)" "fun_index uf = of_nat k"
      using stmap_okD(1) [OF ok] k by (auto simp: stmap_wf_def list_all_iff)
    have "unat (num_func sm) < 2 ^ LENGTH(32)" by (rule unsigned_less)
    then have "k < 2 ^ 32" using k(1) wf(1) by simp
    then show ?thesis using k by (simp add: wf(2) index_word)
  qed
  ultimately show ?thesis using c f u uf pos by auto
qed

text \<open>Where the unoptimized version of the call of a frame's record returns to.\<close>

definition unopt_return :: "stack_map \<Rightarrow> stack_map_record \<Rightarrow> u64 option" where
  "unopt_return sm r =
     (case stmap_get_map_record sm (NOT (patchpoint_id r)) of
        None \<Rightarrow> None
      | Some u \<Rightarrow> map_option (\<lambda>uf. site_addr uf u + 13) (stmap_get_size_record sm (rec_index u)))"

text \<open>What the loop body does to a frame: it names the call the frame returns to.\<close>

definition matched :: "os \<Rightarrow> stack_map \<Rightarrow> frame \<Rightarrow> frame \<Rightarrow> bool" where
  "matched os sm fr fr' \<longleftrightarrow>
     fr' = fr\<lparr>frame_record := frame_record fr', real_record := real_record fr', frame_size := frame_size fr'\<rparr> \<and>
     stmap_get_map_record sm (patchpoint_id (frame_record fr')) = Some (frame_record fr') \<and>
     (\<exists>f. stmap_get_size_record sm (rec_index (frame_record fr')) = Some f \<and> frame_size fr' = stack_size f) \<and>
     unopt_return sm (frame_record fr') \<noteq> None \<and>
     stmap_get_map_record_after_addr os sm (patchpoint_id (frame_record fr')) (stored_ret_addr fr) =
       Inr (Some (real_record fr'))"

lemma map_record_id: "stmap_get_map_record sm ppid = Some r \<Longrightarrow> patchpoint_id r = ppid"
  by (auto simp: stmap_get_map_record_def dest!: find_SomeD)

lemma collect_map_record_step:
  assumes ok: "stmap_ok sm" and step: "collect_map_record os sm i (fs, m) = Inr (fs', m')"
  shows "\<exists>fr'. i < length fs \<and> fs' = fs[i := fr'] \<and> matched os sm (fs ! i) fr' \<and>
    store_u64 m (ret_addr (fs ! i)) (the (unopt_return sm (frame_record fr'))) = Inr m'"
proof -
  from step obtain ra pos usz urec fsa real_rec opt_rec osz where
    i: "i < length fs" and
    pos: "stmap_get_unopt_return_addr sm ra = Inr (Some pos)" and
    usz: "index_at (stk_size_records sm) (unat (stk_size_record_index pos)) = Inr usz" and
    urec: "index_at (stk_map_records sm) (unat (stk_map_record_index pos)) = Inr urec" and
    real: "stmap_get_map_record_after_addr os sm (NOT (patchpoint_id urec)) (stored_ret_addr (fs ! i)) =
      Inr (Some real_rec)" and
    opt: "stmap_get_map_record sm (NOT (patchpoint_id urec)) = Some opt_rec" and
    osz: "stmap_get_size_record sm (rec_index opt_rec) = Some osz" and
    st: "store_u64 m (ret_addr (fs ! i)) (fun_addr usz + ucast (instr_offset urec) + 13) = Inr m'" and
    fs': "fs' = fs[i := (fs ! i)\<lparr>frame_record := opt_rec, real_record := real_rec, frame_size := stack_size osz\<rparr>]"
    by (auto simp: collect_map_record_def bind_res_Inr_iff Let_def index_at_Inr_iff)
  from unopt_return_addrD [OF ok pos] obtain c :: stack_map_record and u uf' where
    u: "stmap_get_map_record sm (NOT (patchpoint_id c)) = Some u"
    and uf': "stmap_get_size_record sm (rec_index u) = Some uf'"
    and at: "index_at (stk_size_records sm) (unat (stk_size_record_index pos)) = Inr uf'"
      "index_at (stk_map_records sm) (unat (stk_map_record_index pos)) = Inr u"
    by blast
  have eq: "u = urec" "uf' = usz" using at usz urec by simp_all
  note c = u [unfolded eq] and uf = uf' [unfolded eq]
  have id: "patchpoint_id opt_rec = patchpoint_id c"
    using map_record_id [OF c] map_record_id [OF opt] by simp
  have unopt: "unopt_return sm opt_rec = Some (fun_addr usz + ucast (instr_offset urec) + 13)"
    using c uf id by (simp add: unopt_return_def site_addr_def)
  show ?thesis
    using i fs' st opt osz real unopt map_record_id [OF opt]
    by (intro exI [of _ "(fs ! i)\<lparr>frame_record := opt_rec, real_record := real_rec, frame_size := stack_size osz\<rparr>"])
       (auto simp: matched_def)
qed

lemma collect_map_records_frames:
  assumes ok: "stmap_ok sm" and run: "collect_map_records os sm st m = Inr (st', m')"
    and st: "state_ok st"
  shows "state_ok st'" and "length (frames st') = length (frames st)"
    and "Suc i < length (frames st) \<Longrightarrow> matched os sm (frames st ! i) (frames st' ! i)"
    and "Suc i = length (frames st) \<Longrightarrow> frames st' ! i = frames st ! i"
proof -
  have d: "unat (depth st) = length (frames st)" using st by (simp add: state_ok_def)
  from run obtain fs where f: "fold_res (collect_map_record os sm) (call_indices st) (frames st, m) = Inr (fs, m')"
    and st': "st' = st\<lparr>frames := fs\<rparr>"
    by (auto simp: collect_map_records_def bind_res_Inr_iff)
  have u: "length fs = length (frames st) \<and>
      (\<forall>i \<in> set (call_indices st). i < length (frames st) \<and> matched os sm (frames st ! i) (fs ! i)) \<and>
      (\<forall>i. i \<notin> set (call_indices st) \<longrightarrow> fs ! i = frames st ! i)"
    using f by (rule fold_res_update)
      (auto simp: call_indices_def dest!: collect_map_record_step [OF ok])
  show "length (frames st') = length (frames st)" using u st' by simp
  show "Suc i < length (frames st) \<Longrightarrow> matched os sm (frames st ! i) (frames st' ! i)"
    using u st' by (simp add: call_indices_less d)
  show "Suc i = length (frames st) \<Longrightarrow> frames st' ! i = frames st ! i"
    using u st' by (simp add: call_indices_less d)
  have "frame_ok (fs ! i)" if "i < length fs" for i
  proof (cases "i \<in> set (call_indices st)")
    case True
    with u have "matched os sm (frames st ! i) (fs ! i)" by simp
    then have "registers (fs ! i) = registers (frames st ! i)"
      unfolding matched_def by (metis frame.ext_inject frame.select_convs(6) frame.surjective frame.update_convs(3,7,8))
    with st that u show ?thesis by (auto simp: state_ok_def frame_ok_def list_all_length)
  next
    case False
    with st that u show ?thesis by (auto simp: state_ok_def list_all_length)
  qed
  then show "state_ok st'" using u st' d by (simp add: state_ok_def list_all_length)
qed

text \<open>The writes of the loop, as cells: the return address slots and their new values.\<close>

lemma collect_map_records_cells:
  assumes ok: "stmap_ok sm"
    and "fold_res (collect_map_record os sm) is (fs, m) = Inr (fs', m')" and "distinct is"
  shows "word_cells.wr_all (map (\<lambda>i. (ret_addr (fs ! i), the (unopt_return sm (frame_record (fs' ! i))))) is) m = Inr m'"
  using assms(2,3)
proof (induction "is" arbitrary: fs m)
  case Nil
  then show ?case by simp
next
  case (Cons i "is")
  from Cons.prems(1) obtain gs n where s: "collect_map_record os sm i (fs, m) = Inr (gs, n)"
    and r: "fold_res (collect_map_record os sm) is (gs, n) = Inr (fs', m')"
    by (auto simp: bind_res_Inr_iff)
  from collect_map_record_step [OF ok s] obtain fr' where i: "i < length fs" "gs = fs[i := fr']"
    and w: "store_u64 m (ret_addr (fs ! i)) (the (unopt_return sm (frame_record fr'))) = Inr n" by auto
  have out: "i \<notin> set is" using Cons.prems(2) by simp
  have "fs' ! i = gs ! i"
    using fold_res_update [OF r, where R = "matched os sm"] Cons.prems(2) out
    by (auto dest!: collect_map_record_step [OF ok])
  then have fr: "fs' ! i = fr'" using i by simp
  have "map (\<lambda>j. (ret_addr (gs ! j), the (unopt_return sm (frame_record (fs' ! j))))) is =
      map (\<lambda>j. (ret_addr (fs ! j), the (unopt_return sm (frame_record (fs' ! j))))) is"
  proof (intro map_cong refl)
    fix j assume "j \<in> set is"
    with out have "gs ! j = fs ! j" using i(2) by (cases "j = i") auto
    then show "(ret_addr (gs ! j), the (unopt_return sm (frame_record (fs' ! j)))) =
        (ret_addr (fs ! j), the (unopt_return sm (frame_record (fs' ! j))))" by simp
  qed
  with Cons.IH [OF r] Cons.prems(2) w fr show ?case by simp
qed

text \<open>
  The record \<open>r\<close> is the one of the call that returns to \<open>ra\<close>: it has the identifier of the first
  call site at or after this address, in a function that starts before it.
\<close>

definition returns_to :: "stack_map \<Rightarrow> u64 \<Rightarrow> stack_map_record \<Rightarrow> bool" where
  "returns_to sm ra r \<longleftrightarrow>
     (case find (\<lambda>(c, f). ra \<le> site_addr f c \<and> fun_addr f < ra) (sites sm) of
        Some (c, f) \<Rightarrow> patchpoint_id r = patchpoint_id c | None \<Rightarrow> False)"

lemma collect_map_record_returns:
  assumes ok: "stmap_ok sm" and step: "collect_map_record os sm i (fs, m) = Inr (fs', m')"
  shows "\<exists>ra. load_u64 m (ret_addr (fs ! i)) = Inr ra \<and> returns_to sm ra (frame_record (fs' ! i))"
proof -
  from step obtain ra pos usz urec fsa real_rec opt_rec osz where
    i: "i < length fs" and ra: "load_u64 m (ret_addr (fs ! i)) = Inr ra" and
    pos: "stmap_get_unopt_return_addr sm ra = Inr (Some pos)" and
    "index_at (stk_size_records sm) (unat (stk_size_record_index pos)) = Inr usz" and
    urec: "index_at (stk_map_records sm) (unat (stk_map_record_index pos)) = Inr urec" and
    "stmap_get_map_record_after_addr os sm (NOT (patchpoint_id urec)) (stored_ret_addr (fs ! i)) = Inr (Some real_rec)" and
    opt: "stmap_get_map_record sm (NOT (patchpoint_id urec)) = Some opt_rec" and
    "stmap_get_size_record sm (rec_index opt_rec) = Some osz" and
    "store_u64 m (ret_addr (fs ! i)) (fun_addr usz + ucast (instr_offset urec) + 13) = Inr m'" and
    fs': "fs' = fs[i := (fs ! i)\<lparr>frame_record := opt_rec, real_record := real_rec, frame_size := stack_size osz\<rparr>]"
    by (auto simp: collect_map_record_def bind_res_Inr_iff Let_def index_at_Inr_iff)
  from unopt_return_addrD [OF ok pos] obtain c :: stack_map_record and u where
    c: "stmap_first_rec_after_addr sm ra = Inr (Some c)"
    and u: "stmap_get_map_record sm (NOT (patchpoint_id c)) = Some u"
      "index_at (stk_map_records sm) (unat (stk_map_record_index pos)) = Inr u" by blast
  have "patchpoint_id opt_rec = patchpoint_id c"
    using map_record_id [OF u(1)] map_record_id [OF opt] u(2) urec by simp
  moreover obtain f where "find (\<lambda>(r, f). ra \<le> site_addr f r \<and> fun_addr f < ra) (sites sm) = Some (c, f)"
    using c by (auto simp: first_rec_sites [OF ok])
  ultimately show ?thesis using ra i by (auto simp: returns_to_def fs')
qed

text \<open>All frames: the addresses are read before anything is written to their slots.\<close>

lemma collect_map_records_returns:
  assumes ok: "stmap_ok sm"
    and "fold_res (collect_map_record os sm) is (fs, m) = Inr (fs', m')" and "distinct is"
    and "\<And>i j. i \<in> set is \<Longrightarrow> j \<in> set is \<Longrightarrow> i \<noteq> j \<Longrightarrow> apart (ret_addr (fs ! i)) 8 (ret_addr (fs ! j)) 8"
    and "i \<in> set is"
  shows "\<exists>ra. load_u64 m (ret_addr (fs ! i)) = Inr ra \<and> returns_to sm ra (frame_record (fs' ! i))"
  using assms(2-5)
proof (induction "is" arbitrary: fs m)
  case (Cons k "is")
  from Cons.prems(1) obtain gs n where s: "collect_map_record os sm k (fs, m) = Inr (gs, n)"
    and r: "fold_res (collect_map_record os sm) is (gs, n) = Inr (fs', m')"
    by (auto simp: bind_res_Inr_iff)
  from collect_map_record_step [OF ok s] obtain fr' where k: "k < length fs" "gs = fs[k := fr']"
    and w: "store_u64 m (ret_addr (fs ! k)) (the (unopt_return sm (frame_record fr'))) = Inr n" by auto
  have same: "gs ! j = fs ! j" if "j \<in> set is" for j using that k(2) Cons.prems(2) by (cases "j = k") auto
  show ?case
  proof (cases "i = k")
    case True
    have "fs' ! k = gs ! k"
      using fold_res_update [OF r, where R = "matched os sm"] Cons.prems(2)
      by (auto dest!: collect_map_record_step [OF ok])
    then show ?thesis using collect_map_record_returns [OF ok s] True by simp
  next
    case False
    then have i: "i \<in> set is" using Cons.prems(4) by simp
    have "\<exists>ra. load_u64 n (ret_addr (gs ! i)) = Inr ra \<and> returns_to sm ra (frame_record (fs' ! i))"
      using Cons.prems(2,3) same by (intro Cons.IH [OF r _ _ i]) auto
    moreover have "load_u64 n (ret_addr (fs ! i)) = load_u64 m (ret_addr (fs ! i))"
      using Cons.prems(3) [of k i] i False by (intro word_cells.rd_wr_other [OF TrueI w]) auto
    ultimately show ?thesis using same [OF i] by simp
  qed
qed simp

section \<open>collect_inlined_frames\<close>

text \<open>The frame returns inside the function its own record belongs to.\<close>

definition returns_in_own :: "os \<Rightarrow> stack_map \<Rightarrow> frame \<Rightarrow> bool" where
  "returns_in_own os sm fr \<longleftrightarrow>
     (case stmap_get_size_record sm (rec_index (frame_record fr)) of
        None \<Rightarrow> False
      | Some f \<Rightarrow> (case get_sym_end os (fun_addr f) of
            Inl e \<Rightarrow> False
          | Inr end_addr \<Rightarrow> fun_addr f \<le> stored_ret_addr fr \<and> stored_ret_addr fr < end_addr))"

lemma collect_inlined_frame_skip:
  assumes "i < length (frames st)" and "returns_in_own os sm (frames st ! i)"
  shows "collect_inlined_frame os sm junk moves i (st, inl, False) = Inr (st, inl, False)"
  using assms
  by (auto simp: collect_inlined_frame_def returns_in_own_def Let_def split: option.splits sum.splits)

lemma collect_inlined_prefix:
  "(\<And>i. i \<in> set is \<Longrightarrow> i < length (frames st) \<and> returns_in_own os sm (frames st ! i)) \<Longrightarrow>
     fold_res (collect_inlined_frame os sm junk moves) is (st, inl, False) = Inr (st, inl, False)"
  by (induction "is") (auto simp: collect_inlined_frame_skip)

lemma collect_inlined_none:
  assumes "state_ok st"
    and "\<And>i. Suc i < length (frames st) \<Longrightarrow> returns_in_own os sm (frames st ! i)"
  shows "collect_inlined_frames os sm junk moves st = Inr (st, False)"
proof -
  have "unat (depth st) = length (frames st)" using assms(1) by (simp add: state_ok_def)
  then have "fold_res (collect_inlined_frame os sm junk moves) (call_indices st) (st, False, False) =
      Inr (st, False, False)"
    using assms(2) by (intro collect_inlined_prefix) (auto simp: call_indices_less)
  then show ?thesis by (simp add: collect_inlined_frames_def get_state_copy_def)
qed

text \<open>
  Once \<open>realloc\<close> has moved the array, the next iteration reads through the stale copy.
\<close>

lemma collect_inlined_stale:
  assumes st: "state_ok st"
    and i: "i + 2 < length (frames st)"
    and before: "\<And>k. k < i \<Longrightarrow> returns_in_own os sm (frames st ! k)"
    and step: "collect_inlined_frame os sm junk moves i (st, False, False) = Inr (st', True, True)"
  shows "collect_inlined_frames os sm junk moves st = Inl UseAfterFree"
proof -
  have d: "unat (depth st) = length (frames st)" using st by (simp add: state_ok_def)
  have "[0..<length (frames st) - 1] = [0..<i] @ [i..<length (frames st) - 1]"
    using upt_add_eq_append [of 0 i "length (frames st) - 1 - i"] i by simp
  also have "[i..<length (frames st) - 1] = i # Suc i # [i + 2..<length (frames st) - 1]"
    using i by (simp add: upt_conv_Cons numeral_2_eq_2)
  finally have "call_indices st = [0..<i] @ i # Suc i # [i + 2..<length (frames st) - 1]"
    by (simp add: call_indices_def d)
  moreover have "fold_res (collect_inlined_frame os sm junk moves) [0..<i] (st, False, False) =
      Inr (st, False, False)"
    using before i by (intro collect_inlined_prefix) auto
  moreover have "collect_inlined_frame os sm junk moves (Suc i) (st', True, True) = Inl UseAfterFree"
    by (simp add: collect_inlined_frame_def)
  ultimately show ?thesis
    by (simp add: collect_inlined_frames_def get_state_copy_def fold_res_append step)
qed

text \<open>The invariant of the state survives the insertions.\<close>

lemma adopt_ok: "length regs = 16 \<Longrightarrow> list_all frame_ok (map (adopt b regs) fs)"
  by (auto simp: list_all_iff frame_ok_def adopt_def)

lemma collect_inlined_frame_ok:
  assumes st: "state_ok st" and run: "collect_inlined_frame os sm junk moves i (st, inl, stale) = Inr (st', inl', stale')"
  shows "state_ok st'"
proof (cases "st' = st")
  case False
  with run obtain outer :: frame and res :: call_stack_state where o: "index_at (frames st) (Suc i) = Inr outer"
    and ins: "insert_frames st (Suc i) (map (adopt (real_bp outer) (registers outer)) (frames res)) (unat (depth res)) = Inr st'"
    by (auto simp: collect_inlined_frame_def bind_res_Inr_iff Let_def split: if_splits)
  have "frame_ok outer" using st o by (auto simp: state_ok_def list_all_iff index_at_Inr_iff)
  then have "length (registers outer) = 16" by (simp add: frame_ok_def)
  then show ?thesis using ins by (intro insert_frames_ok(1) [OF st adopt_ok])
qed (use st in simp)

lemma collect_inlined_frames_ok:
  assumes st: "state_ok st" and run: "collect_inlined_frames os sm junk moves st = Inr (st', inl)"
  shows "state_ok st'"
proof -
  from run obtain stale where "fold_res (collect_inlined_frame os sm junk moves) (call_indices st) (st, False, False) =
      Inr (st', inl, stale)"
    by (auto simp: collect_inlined_frames_def get_state_copy_def Let_def bind_res_Inr_iff)
  then have "state_ok (fst (st', inl, stale))"
  proof (rule fold_res_invariant)
    fix i u v
    assume "state_ok (fst u)" and "collect_inlined_frame os sm junk moves i u = Inr v"
    then show "state_ok (fst v)" by (cases u; cases v) (auto intro: collect_inlined_frame_ok)
  qed (simp add: st)
  then show ?thesis by simp
qed

end
