(* ===== verification/Restack.thy ===== *)
theory Restack
  imports Frames
begin

text \<open>
  \<open>insert_real_addresses\<close> of \<open>call_stack_state.c\<close>: the frames are laid out in a new
  segment, first frame at the low end, and linked by saved base pointers and return
  addresses. \<open>segment_ok\<close> is what the callers provide; the lemmas show where every
  frame lands (\<open>relaid\<close>), which cells are written (\<open>chain_cells\<close>), and that an unwinder
  that follows the saved base pointers (\<open>chain_walk\<close>) sees every frame with its return
  address.
\<close>

section \<open>insert_real_addresses\<close>

text \<open>The return address a frame is entered in the new stack with.\<close>

definition caller_return :: "mem \<Rightarrow> frame \<Rightarrow> u64 res" where
  "caller_return m fr = (if inlined fr then Inr (ret_addr fr) else load_u64 m (ret_addr fr))"

text \<open>The body of the loop, on the frames, \<open>cur_bp\<close> and the memory.\<close>

definition insert_real_address :: "nat \<Rightarrow> frame list \<times> u64 \<times> mem \<Rightarrow> (frame list \<times> u64 \<times> mem) res" where
  "insert_real_address i = (\<lambda>(fs, cur_bp, m).
     bind_res (index_at fs i) (\<lambda>fr.
     bind_res (index_at fs (Suc i)) (\<lambda>next.
     bind_res (caller_return m next) (\<lambda>ra.
     bind_res (store_u64 m (cur_bp + 8) ra) (\<lambda>m.
     bind_res (if i > 0
               then bind_res (index_at fs (i - 1)) (\<lambda>prev. store_u64 m (bp prev) cur_bp)
               else Inr m) (\<lambda>m.
     Inr (fs[i := fr\<lparr>bp := cur_bp, ret_addr := cur_bp + 8\<rparr>], cur_bp + (frame_size next + 8), m)))))))"

definition insert_real_addresses ::
  "call_stack_state \<Rightarrow> restored_segment \<Rightarrow> mem \<Rightarrow> (call_stack_state \<times> mem) res" where
  "insert_real_addresses st seg m =
     bind_res (index_at (frames st) 0) (\<lambda>first.
     bind_res (fold_res insert_real_address (call_indices st)
       (frames st, seg_start_addr seg + frame_size first - 8, m)) (\<lambda>(fs, cur_bp, m).
     bind_res (index_at fs (unat (depth st - 1))) (\<lambda>last_frame.
     bind_res (index_at (registers last_frame) (unw_num RBP)) (\<lambda>main_bp.
     bind_res (store_u64 m (bp last_frame) main_bp) (\<lambda>m.
     bind_res (load_u64 m (main_bp + 8)) (\<lambda>main_ra.
     bind_res (store_u64 m (ret_addr last_frame) main_ra) (\<lambda>m.
     Inr (st\<lparr>frames := fs\<rparr>, m))))))))"

section \<open>The layout of the new stack\<close>

text \<open>
  Where the frame of index \<open>i\<close> ends, counted from the start of the segment: every frame
  takes its size and the return address.
\<close>

definition slot_end :: "frame list \<Rightarrow> nat \<Rightarrow> nat" where
  "slot_end fs i = sum_list (map (\<lambda>f. unat (frame_size f) + 8) (take (Suc i) fs))"

definition new_bp :: "u64 \<Rightarrow> frame list \<Rightarrow> nat \<Rightarrow> u64" where
  "new_bp start fs i = start + of_nat (slot_end fs i - 16)"

text \<open>Every frame that is laid out has room for the saved base pointer.\<close>

definition sizes_ok :: "frame list \<Rightarrow> bool" where
  "sizes_ok fs \<longleftrightarrow> list_all (\<lambda>f. 8 \<le> unat (frame_size f)) (butlast fs)"

definition relaid :: "u64 \<Rightarrow> frame list \<Rightarrow> nat \<Rightarrow> frame list" where
  "relaid start fs k = map (\<lambda>i. if i < k
     then (fs ! i)\<lparr>bp := new_bp start fs i, ret_addr := new_bp start fs i + 8\<rparr> else fs ! i) [0..<length fs]"

text \<open>The cells the loop writes in its first \<open>k\<close> iterations.\<close>

definition chain_cells :: "u64 \<Rightarrow> frame list \<Rightarrow> (nat \<Rightarrow> u64) \<Rightarrow> nat \<Rightarrow> (u64 \<times> u64) list" where
  "chain_cells start fs ra k = concat (map (\<lambda>i. (new_bp start fs i + 8, ra i) #
     (if i > 0 then [(new_bp start fs (i - 1), new_bp start fs i)] else [])) [0..<k])"

lemma slot_end_Suc: "Suc i < length fs \<Longrightarrow> slot_end fs (Suc i) = slot_end fs i + unat (frame_size (fs ! Suc i)) + 8"
  by (simp add: slot_end_def take_Suc_conv_app_nth)

lemma slot_end_0: "fs \<noteq> [] \<Longrightarrow> slot_end fs 0 = unat (frame_size (fs ! 0)) + 8"
  by (cases fs) (simp_all add: slot_end_def)

lemma sizes_okD: "sizes_ok fs \<Longrightarrow> Suc i < length fs \<Longrightarrow> 8 \<le> unat (frame_size (fs ! i))"
  by (auto simp: sizes_ok_def list_all_length nth_butlast)

lemma slot_end_mono: "i \<le> j \<Longrightarrow> j < length fs \<Longrightarrow> slot_end fs i \<le> slot_end fs j"
proof (induction rule: dec_induct)
  case base
  then show ?case by simp
next
  case (step n)
  then show ?case by (simp add: slot_end_Suc)
qed

lemma slot_end_gap:
  assumes "sizes_ok fs" and "i < j" and "Suc j < length fs"
  shows "slot_end fs i + 16 \<le> slot_end fs j"
proof -
  obtain k where k: "j = Suc k" using assms(2) by (cases j) auto
  have "slot_end fs i \<le> slot_end fs k" using assms k by (intro slot_end_mono) auto
  moreover have "8 \<le> unat (frame_size (fs ! j))" using assms by (intro sizes_okD) auto
  ultimately show ?thesis using assms(3) by (simp add: k slot_end_Suc)
qed

lemma slot_end_ge: "sizes_ok fs \<Longrightarrow> Suc i < length fs \<Longrightarrow> 16 \<le> slot_end fs i"
proof (cases i)
  case 0
  assume "sizes_ok fs" "Suc i < length fs"
  then show ?thesis using sizes_okD [of fs 0] slot_end_0 [of fs] by (cases fs) (auto simp: 0)
next
  case (Suc k)
  assume "sizes_ok fs" "Suc i < length fs"
  then show ?thesis using slot_end_gap [of fs 0 i] Suc by simp
qed

text \<open>What the loop adds to \<open>cur_bp\<close>, in words.\<close>

lemma new_bp_0:
  assumes "sizes_ok fs" and "Suc 0 < length fs"
  shows "new_bp start fs 0 = start + frame_size (fs ! 0) - 8"
proof -
  have "8 \<le> unat (frame_size (fs ! 0))" using assms by (rule sizes_okD)
  moreover have "fs \<noteq> []" using assms(2) by auto
  ultimately show ?thesis
    by (simp add: new_bp_def slot_end_0 of_nat_diff add_diff_eq)
qed

lemma new_bp_Suc:
  assumes "sizes_ok fs" and "Suc i < length fs"
  shows "new_bp start fs (Suc i) = new_bp start fs i + (frame_size (fs ! Suc i) + 8)"
  using slot_end_ge [OF assms] assms(2)
  by (simp add: new_bp_def slot_end_Suc of_nat_diff algebra_simps)

lemma new_bp_ret: "16 \<le> slot_end fs i \<Longrightarrow> new_bp start fs i + 8 = start + of_nat (slot_end fs i - 8)"
  by (simp add: new_bp_def of_nat_diff)

lemma length_relaid [simp]: "length (relaid start fs k) = length fs"
  by (simp add: relaid_def)

lemma relaid_nth: "i < length fs \<Longrightarrow> relaid start fs k ! i = (if i < k
     then (fs ! i)\<lparr>bp := new_bp start fs i, ret_addr := new_bp start fs i + 8\<rparr> else fs ! i)"
  by (simp add: relaid_def)

lemma relaid_0 [simp]: "relaid start fs 0 = fs"
  by (simp add: relaid_def map_nth)

lemma relaid_Suc: "k < length fs \<Longrightarrow>
  relaid start fs (Suc k) = (relaid start fs k)[k := (fs ! k)\<lparr>bp := new_bp start fs k, ret_addr := new_bp start fs k + 8\<rparr>]"
  by (intro nth_equalityI) (auto simp: relaid_nth nth_list_update)

lemma chain_cells_Suc: "chain_cells start fs ra (Suc k) = chain_cells start fs ra k @
   (new_bp start fs k + 8, ra k) # (if k > 0 then [(new_bp start fs (k - 1), new_bp start fs k)] else [])"
  by (simp add: chain_cells_def)

lemma set_chain_cells: "set (chain_cells start fs ra k) =
  {(new_bp start fs i + 8, ra i) | i. i < k} \<union> {(new_bp start fs i, new_bp start fs (Suc i)) | i. Suc i < k}"
proof (induction k)
  case 0
  then show ?case by (simp add: chain_cells_def)
next
  case (Suc k)
  then show ?case by (cases k) (auto simp: chain_cells_Suc less_Suc_eq)
qed

text \<open>Every cell is at an offset in the segment, and different cells are 8 bytes apart.\<close>

definition cell_offset :: "frame list \<Rightarrow> bool \<times> nat \<Rightarrow> nat" where
  "cell_offset fs = (\<lambda>(is_ret, i). slot_end fs i - (if is_ret then 8 else 16))"

lemma new_bp_offset:
  assumes "sizes_ok fs" and "Suc i < length fs"
  shows "new_bp start fs i = start + of_nat (cell_offset fs (False, i))"
    and "new_bp start fs i + 8 = start + of_nat (cell_offset fs (True, i))"
  using new_bp_ret [OF slot_end_ge [OF assms]] by (simp_all add: cell_offset_def new_bp_def)

lemma cell_offset_gap:
  assumes "sizes_ok fs" and "Suc i < length fs" and "Suc j < length fs" and "(b, i) \<noteq> (c, j)"
  shows "cell_offset fs (b, i) + 8 \<le> cell_offset fs (c, j) \<or> cell_offset fs (c, j) + 8 \<le> cell_offset fs (b, i)"
proof -
  have ge: "16 \<le> slot_end fs i" "16 \<le> slot_end fs j" using slot_end_ge assms(1-3) by auto
  consider "i < j" | "i = j" "b \<noteq> c" | "j < i" using assms(4) by force
  then show ?thesis
  proof cases
    case 1
    with slot_end_gap [OF assms(1) this assms(3)] ge show ?thesis by (auto simp: cell_offset_def)
  next
    case 2
    with ge show ?thesis by (auto simp: cell_offset_def)
  next
    case 3
    with slot_end_gap [OF assms(1) this assms(2)] ge show ?thesis by (auto simp: cell_offset_def)
  qed
qed

lemma cell_offset_inside:
  assumes "sizes_ok fs" and "k < length fs" and "i < k"
  shows "cell_offset fs (b, i) + 8 \<le> slot_end fs (k - 1)"
proof -
  have "slot_end fs i \<le> slot_end fs (k - 1)" using assms(2,3) by (intro slot_end_mono) auto
  moreover have "16 \<le> slot_end fs i" using assms by (intro slot_end_ge) auto
  ultimately show ?thesis by (auto simp: cell_offset_def)
qed

lemma slots_apart:
  assumes sz: "sizes_ok fs" and k: "k < length fs" and n: "slot_end fs (k - 1) \<le> 2 ^ 64"
    and i: "i < k" "j < k" and ne: "(b, i) \<noteq> (c, j)"
  shows "apart (start + of_nat (cell_offset fs (b, i))) 8 (start + of_nat (cell_offset fs (c, j))) 8"
proof -
  have le: "cell_offset fs (z, l) + 8 \<le> 2 ^ 64" if "l < k" for z l
    using cell_offset_inside [OF sz k that, of z] n by simp
  have s: "Suc i < length fs" "Suc j < length fs" using i k by auto
  from cell_offset_gap [OF sz s ne] show ?thesis
  proof
    assume "cell_offset fs (b, i) + 8 \<le> cell_offset fs (c, j)"
    then show ?thesis using le [OF i(2), of c] by (intro apart_base) auto
  next
    assume "cell_offset fs (c, j) + 8 \<le> cell_offset fs (b, i)"
    then have "apart (start + of_nat (cell_offset fs (c, j))) 8 (start + of_nat (cell_offset fs (b, i))) 8"
      using le [OF i(1), of b] by (intro apart_base) auto
    then show ?thesis by (simp only: apart_sym)
  qed
qed

lemma chain_cell_offset:
  assumes "sizes_ok fs" and "k < length fs" and "(a, v) \<in> set (chain_cells start fs ra k)"
  shows "\<exists>c i. i < k \<and> a = start + of_nat (cell_offset fs (c, i)) \<and>
    v = (if c then ra i else new_bp start fs (Suc i))"
proof -
  have "Suc i < length fs" if "i < k" for i using that assms(2) by simp
  note r = new_bp_ret [OF slot_end_ge [OF assms(1) this]]
  from assms(3) consider
      (ret) i where "i < k" "a = new_bp start fs i + 8" "v = ra i"
    | (bp) i where "Suc i < k" "a = new_bp start fs i" "v = new_bp start fs (Suc i)"
    by (auto simp: set_chain_cells)
  then show ?thesis
  proof cases
    case ret
    then show ?thesis
      by (intro exI [of _ True] exI [of _ i]) (simp add: r cell_offset_def)
  next
    case bp
    then show ?thesis
      by (intro exI [of _ False] exI [of _ i]) (simp add: cell_offset_def new_bp_def)
  qed
qed

lemma chain_cells_apart:
  assumes sz: "sizes_ok fs" and k: "k < length fs" and n: "slot_end fs (k - 1) \<le> 2 ^ 64"
    and c: "c \<in> set (chain_cells start fs ra k)" and d: "d \<in> set (chain_cells start fs ra k)" and "c \<noteq> d"
  shows "apart (fst c) 8 (fst d) 8"
proof -
  from chain_cell_offset [OF sz k] c d obtain x i y j where
    x: "i < k" "fst c = start + of_nat (cell_offset fs (x, i))"
      "snd c = (if x then ra i else new_bp start fs (Suc i))" and
    y: "j < k" "fst d = start + of_nat (cell_offset fs (y, j))"
      "snd d = (if y then ra j else new_bp start fs (Suc j))"
    by (metis prod.collapse)
  with \<open>c \<noteq> d\<close> have ne: "(x, i) \<noteq> (y, j)"
    by (cases x; cases y) (auto simp: prod_eq_iff)
  show ?thesis unfolding x(2) y(2) by (rule slots_apart [OF sz k n x(1) y(1) ne])
qed

text \<open>The loop, with the cells it writes.\<close>

lemma insert_real_loop:
  assumes sz: "sizes_ok fs" and "k < length fs" and n: "slot_end fs (k - 1) \<le> n" "n \<le> 2 ^ 64"
    and map: "mapped m start n"
    and ra: "\<And>i. i < k \<Longrightarrow> caller_return m (fs ! Suc i) = Inr (ra i)"
    and out: "\<And>i. i < k \<Longrightarrow> inlined (fs ! Suc i) \<or> apart start n (ret_addr (fs ! Suc i)) 8"
  shows "\<exists>t. fold_res insert_real_address [0..<k] (fs, new_bp start fs 0, m) =
      Inr (relaid start fs k, new_bp start fs k, t) \<and>
    word_cells.wr_all (chain_cells start fs ra k) m = Inr t"
  using assms(2) n ra out
proof (induction k)
  case 0
  then show ?case by (simp add: chain_cells_def)
next
  case (Suc k)
  have k: "k < length fs" "Suc k < length fs" using Suc.prems(1) by auto
  have "slot_end fs (k - 1) \<le> slot_end fs k" using k by (intro slot_end_mono) auto
  then obtain t where t: "fold_res insert_real_address [0..<k] (fs, new_bp start fs 0, m) =
      Inr (relaid start fs k, new_bp start fs k, t)"
    and w: "word_cells.wr_all (chain_cells start fs ra k) m = Inr t"
    using Suc.IH [OF k(1) _ n(2)] Suc.prems by force
  let ?P = "new_bp start fs"
  note ge = slot_end_ge [OF sz k(2)]
  have en: "slot_end fs k \<le> n" using Suc.prems(2) by simp
  have ok: "mapped t (start + of_nat d) 8" if "d + 8 \<le> n" for d
    using map that by (simp add: word_cells.wr_all_ok [OF w] mapped_sub)
  have ret: "caller_return t (fs ! Suc k) = Inr (ra k)"
  proof (cases "inlined (fs ! Suc k)")
    case True
    then show ?thesis using Suc.prems(4) [of k] by (simp add: caller_return_def)
  next
    case False
    have "apart a 8 (ret_addr (fs ! Suc k)) 8" if c: "(a, v) \<in> set (chain_cells start fs ra k)" for a v
    proof -
      from chain_cell_offset [OF sz k(1) c] obtain c i where i: "i < k"
        and a: "a = start + of_nat (cell_offset fs (c, i))" by blast
      have "slot_end fs i \<le> slot_end fs k" using i k by (intro slot_end_mono) auto
      moreover have "16 \<le> slot_end fs i" using i k by (intro slot_end_ge [OF sz]) auto
      ultimately have "cell_offset fs (c, i) + 8 \<le> n" using en by (auto simp: cell_offset_def)
      then show ?thesis using Suc.prems(5) [of k] False unfolding a by (auto intro: apart_inside)
    qed
    then have "load_u64 t (ret_addr (fs ! Suc k)) = load_u64 m (ret_addr (fs ! Suc k))"
      by (intro word_cells.rd_wr_all_other [OF w]) simp
    then show ?thesis using Suc.prems(4) [of k] False by (simp add: caller_return_def)
  qed
  have at: "relaid start fs k ! k = fs ! k" "relaid start fs k ! Suc k = fs ! Suc k"
    using k by (simp_all add: relaid_nth)
  from ok [of "slot_end fs k - 8"] ge en obtain u where u: "store_u64 t (?P k + 8) (ra k) = Inr u"
    by (auto simp: new_bp_ret [OF ge] store_u64_mapped)
  have next_bp: "?P k + (frame_size (fs ! Suc k) + 8) = ?P (Suc k)" using sz k(2) by (simp only: new_bp_Suc)
  have fin: ?case if "insert_real_address k (relaid start fs k, ?P k, t) =
      Inr (relaid start fs (Suc k), ?P (Suc k), v)"
    and "word_cells.wr_all (chain_cells start fs ra (Suc k)) m = Inr v" for v
    using that by (intro exI [of _ v]) (simp add: fold_res_append t)
  show ?case
  proof (cases "k = 0")
    case True
    show ?thesis
    proof (rule fin)
      show "insert_real_address k (relaid start fs k, ?P k, t) = Inr (relaid start fs (Suc k), ?P (Suc k), u)"
        using u ret at k True next_bp by (simp add: insert_real_address_def relaid_Suc del: relaid_0)
      show "word_cells.wr_all (chain_cells start fs ra (Suc k)) m = Inr u"
        using w u True by (simp add: chain_cells_Suc word_cells.wr_all_append)
    qed
  next
    case False
    then have l: "k - 1 < length fs" "Suc (k - 1) < length fs" "k - 1 < k" using k by auto
    have "slot_end fs (k - 1) \<le> slot_end fs k" using k by (intro slot_end_mono) auto
    then have "mapped u (?P (k - 1)) 8"
      using ok [of "slot_end fs (k - 1) - 16"] en slot_end_ge [OF sz l(2)]
      by (simp add: mapped_store_u64 [OF u] new_bp_def)
    then obtain v where v: "store_u64 u (?P (k - 1)) (?P k) = Inr v" by (auto simp: store_u64_mapped)
    have prev: "relaid start fs k ! (k - 1) = (fs ! (k - 1))\<lparr>bp := ?P (k - 1), ret_addr := ?P (k - 1) + 8\<rparr>"
      using l by (simp add: relaid_nth)
    show ?thesis
    proof (rule fin)
      show "insert_real_address k (relaid start fs k, ?P k, t) = Inr (relaid start fs (Suc k), ?P (Suc k), v)"
        using u v ret at prev k l False next_bp by (simp add: insert_real_address_def relaid_Suc)
      show "word_cells.wr_all (chain_cells start fs ra (Suc k)) m = Inr v"
        using w u v False by (simp add: chain_cells_Suc word_cells.wr_all_append)
    qed
  qed
qed

section \<open>The chain of frames\<close>

text \<open>
  What an unwinder sees that follows the saved base pointers through \<open>n\<close> frames: each
  frame's base pointer and return address.
\<close>

fun chain_walk :: "mem \<Rightarrow> u64 \<Rightarrow> nat \<Rightarrow> (u64 \<times> u64) list res" where
  "chain_walk m rbp 0 = Inr []"
| "chain_walk m rbp (Suc n) =
     bind_res (load_u64 m (rbp + 8)) (\<lambda>ra.
     bind_res (if n = 0 then Inr 0 else load_u64 m rbp) (\<lambda>saved.
     bind_res (chain_walk m saved n) (\<lambda>rest. Inr ((rbp, ra) # rest))))"

lemma chain_walk_map:
  assumes "\<And>i. k \<le> i \<Longrightarrow> i < k + n \<Longrightarrow> load_u64 m (p i + 8) = Inr (ra i)"
    and "\<And>i. k \<le> i \<Longrightarrow> Suc i < k + n \<Longrightarrow> load_u64 m (p i) = Inr (p (Suc i))"
  shows "chain_walk m (p k) n = Inr (map (\<lambda>i. (p i, ra i)) [k..<k + n])"
  using assms
proof (induction n arbitrary: k)
  case 0
  then show ?case by simp
next
  case (Suc n)
  have ih: "chain_walk m (p (Suc k)) n = Inr (map (\<lambda>i. (p i, ra i)) [Suc k..<Suc k + n])"
    by (rule Suc.IH) (simp_all add: Suc.prems)
  have up: "[k..<k + Suc n] = k # [Suc k..<Suc k + n]"
    by (simp add: upt_conv_Cons del: upt_Suc)
  show ?case
  proof (cases "n = 0")
    case True
    then show ?thesis using Suc.prems(1) [of k] by simp
  next
    case False
    with Suc.prems(1,2) [of k] ih show ?thesis unfolding up by simp
  qed
qed

text \<open>
  The segment has room for all frames but the last (the frame of \<open>main\<close>), and the slots
  of the frames on the real stack are mapped and not in it.
\<close>

definition segment_ok :: "mem \<Rightarrow> call_stack_state \<Rightarrow> restored_segment \<Rightarrow> bool" where
  "segment_ok m st seg \<longleftrightarrow>
     (let fs = frames st; n = slot_end fs (length fs - 2);
          outside = (\<lambda>a. mapped m a 8 \<and> apart (seg_start_addr seg) n a 8) in
      state_ok st \<and> 2 \<le> length fs \<and> sizes_ok fs \<and> n \<le> 2 ^ 64 \<and>
      mapped m (seg_start_addr seg) n \<and>
      list_all (\<lambda>f. inlined f \<or> outside (ret_addr f)) (tl fs) \<and>
      outside (bp (last fs)) \<and> outside (ret_addr (last fs)) \<and>
      mapped m (registers (last fs) ! unw_num RBP + 8) 8)"

lemma segment_total:
  assumes "segment_ok m st seg" and "get_total_stack_size st = Inr tot"
    and "slot_end (frames st) (length (frames st) - 2) < 2 ^ 64"
  shows "unat tot = slot_end (frames st) (length (frames st) - 2)"
proof -
  let ?fs = "frames st"
  have st: "state_ok st" and l: "2 \<le> length ?fs" using assms(1) by (auto simp: segment_ok_def Let_def)
  have "butlast ?fs = take (Suc (length ?fs - 2)) ?fs"
  proof -
    have "length ?fs - 1 = Suc (length ?fs - 2)" using l by arith
    then show ?thesis by (simp only: butlast_conv_take)
  qed
  then have "tot = sum_list (map (\<lambda>f. frame_size f + 8) (take (Suc (length ?fs - 2)) ?fs))"
    using assms(2) total_size_sum [OF st] by simp
  moreover have "sum_list (map (\<lambda>f. frame_size f + 8) xs) =
      of_nat (sum_list (map (\<lambda>f. unat (frame_size f) + 8) xs))" for xs :: "frame list"
    by (induction xs) (simp_all add: algebra_simps)
  ultimately have "tot = of_nat (slot_end ?fs (length ?fs - 2))" by (simp add: slot_end_def)
  then show ?thesis using assms(3) by (simp only: unat_of_nat_u64)
qed

definition caller_returns :: "mem \<Rightarrow> frame list \<Rightarrow> nat \<Rightarrow> u64" where
  "caller_returns m fs i = (case caller_return m (fs ! Suc i) of Inl _ \<Rightarrow> 0 | Inr ra \<Rightarrow> ra)"

lemma caller_return_defined:
  "inlined f \<or> mapped m (ret_addr f) 8 \<Longrightarrow> \<exists>ra. caller_return m f = Inr ra"
  using load_bytes_mapped [of m "ret_addr f" 8] by (auto simp: caller_return_def load_u64_def)

text \<open>
  The whole function: where the frames are, and that the new stack reads back as the chain
  of base pointers with the return addresses the frames had. \<open>k\<close> frames are laid out.
\<close>

lemma insert_real_addresses_layout:
  assumes seg: "segment_ok m st seg" and k: "k = length (frames st) - 1"
  shows "\<exists>t t'. word_cells.wr_all
        (chain_cells (seg_start_addr seg) (frames st) (caller_returns m (frames st)) k) m = Inr t \<and>
      insert_real_addresses st seg m = Inr (st\<lparr>frames := relaid (seg_start_addr seg) (frames st) k\<rparr>, t') \<and>
      (\<forall>a. (\<forall>f \<in> {bp (last (frames st)), ret_addr (last (frames st))}. apart f 8 a 8) \<longrightarrow>
         load_u64 t' a = load_u64 t a)"
proof -
  let ?fs = "frames st"
  let ?start = "seg_start_addr seg"
  let ?n = "slot_end ?fs (length ?fs - 2)"
  let ?last = "last ?fs"
  let ?out = "\<lambda>a. mapped m a 8 \<and> apart ?start ?n a 8"
  have st: "state_ok st" and l: "2 \<le> length ?fs" and sz: "sizes_ok ?fs" and n: "?n \<le> 2 ^ 64"
    and map: "mapped m ?start ?n"
    and callers: "\<And>f. f \<in> set (tl ?fs) \<Longrightarrow> inlined f \<or> ?out (ret_addr f)"
    and last_out: "?out (bp ?last)" "?out (ret_addr ?last)"
    and main: "mapped m (registers ?last ! unw_num RBP + 8) 8"
    using seg by (auto simp: segment_ok_def Let_def list_all_iff)
  have k': "k < length ?fs" "length ?fs - 2 = k - 1" "0 < k" using l k by auto
  have ne: "?fs \<noteq> []" using l by auto
  have tl: "?fs ! Suc i \<in> set (tl ?fs)" if "i < k" for i
    using that k l by (cases ?fs) auto
  have ra: "caller_return m (?fs ! Suc i) = Inr (caller_returns m ?fs i)" if "i < k" for i
    using caller_return_defined [of "?fs ! Suc i" m] callers [OF tl [OF that]]
    by (auto simp: caller_returns_def)
  obtain t where loop: "fold_res insert_real_address [0..<k] (?fs, new_bp ?start ?fs 0, m) =
      Inr (relaid ?start ?fs k, new_bp ?start ?fs k, t)"
    and w: "word_cells.wr_all (chain_cells ?start ?fs (caller_returns m ?fs) k) m = Inr t"
    using insert_real_loop [OF sz k'(1) _ n map ra] callers [OF tl] k'(2) by force
  have d: "unat (depth st) = length ?fs" using st by (simp add: state_ok_def)
  have dm: "unat (depth st - 1) = k"
  proof -
    have "(1 :: u32) \<le> depth st" using d l by (simp add: word_le_nat_alt)
    then have "unat (depth st - 1) = unat (depth st) - unat (1 :: u32)" by (rule unat_sub)
    then show ?thesis using d k by simp
  qed
  have last: "relaid ?start ?fs k ! k = ?last"
    using k k' ne by (simp add: relaid_nth last_conv_nth)
  have regs: "unw_num RBP < length (registers ?last)"
    using st ne by (auto simp: state_ok_def frame_ok_def list_all_iff)
  have ok: "mapped t a 8 = mapped m a 8" for a by (rule word_cells.wr_all_ok [OF w])
  let ?bp = "registers ?last ! unw_num RBP"
  obtain u where u: "store_u64 t (bp ?last) ?bp = Inr u"
    using last_out(1) by (auto simp: store_u64_mapped ok)
  have mu: "mapped u a 8 = mapped m a 8" for a using u ok by (simp add: mapped_store_u64)
  obtain ra where r: "load_u64 u (?bp + 8) = Inr ra"
    using main load_bytes_mapped [of u "?bp + 8" 8] by (auto simp: load_u64_def mu)
  obtain v where v: "store_u64 u (ret_addr ?last) ra = Inr v"
    using last_out(2) by (auto simp: store_u64_mapped mu)
  have "insert_real_addresses st seg m = Inr (st\<lparr>frames := relaid ?start ?fs k\<rparr>, v)"
    using k' ne k d dm last regs u r v loop new_bp_0 [OF sz, of ?start]
    by (simp add: insert_real_addresses_def call_indices_def del: unw_num.simps)
  moreover have "load_u64 v a = load_u64 t a"
    if "\<forall>f \<in> {bp ?last, ret_addr ?last}. apart f 8 a 8" for a
    using that u v word_cells.rd_wr_other by fastforce
  ultimately show ?thesis using w by blast
qed

lemma chain_cell_inside:
  assumes sz: "sizes_ok fs" and k: "k < length fs" and c: "(a, v) \<in> set (chain_cells start fs ra k)"
  shows "\<exists>d. a = start + of_nat d \<and> d + 8 \<le> slot_end fs (k - 1)"
proof -
  from chain_cell_offset [OF sz k c] obtain b i where i: "i < k"
    and a: "a = start + of_nat (cell_offset fs (b, i))" by blast
  with cell_offset_inside [OF sz k i] show ?thesis by blast
qed

lemma insert_real_addresses_cells:
  assumes seg: "segment_ok m st seg" and k: "k = length (frames st) - 1"
  shows "\<exists>m'. insert_real_addresses st seg m = Inr (st\<lparr>frames := relaid (seg_start_addr seg) (frames st) k\<rparr>, m') \<and>
    (\<forall>(a, v) \<in> set (chain_cells (seg_start_addr seg) (frames st) (caller_returns m (frames st)) k).
       load_u64 m' a = Inr v)"
proof -
  let ?fs = "frames st"
  let ?start = "seg_start_addr seg"
  let ?cells = "chain_cells ?start ?fs (caller_returns m ?fs) k"
  have sz: "sizes_ok ?fs" and l: "2 \<le> length ?fs" and n: "slot_end ?fs (k - 1) \<le> 2 ^ 64"
    and out: "apart ?start (slot_end ?fs (k - 1)) (bp (last ?fs)) 8"
      "apart ?start (slot_end ?fs (k - 1)) (ret_addr (last ?fs)) 8"
    using seg k by (auto simp: segment_ok_def Let_def numeral_2_eq_2)
  have k': "k < length ?fs" using l k by simp
  from insert_real_addresses_layout [OF seg k] obtain t t' where
    w: "word_cells.wr_all ?cells m = Inr t"
    and r: "insert_real_addresses st seg m = Inr (st\<lparr>frames := relaid ?start ?fs k\<rparr>, t')"
    and same: "\<And>a. \<forall>f \<in> {bp (last ?fs), ret_addr (last ?fs)}. apart f 8 a 8 \<Longrightarrow> load_u64 t' a = load_u64 t a"
    by blast
  have "load_u64 t' a = Inr v" if c: "(a, v) \<in> set ?cells" for a v
  proof -
    have "load_u64 t a = Inr v"
      using chain_cells_apart [OF sz k' n] by (intro word_cells.rd_wr_all_set [OF w c]) auto
    moreover from chain_cell_inside [OF sz k' c] obtain d where
      d: "a = ?start + of_nat d" "d + 8 \<le> slot_end ?fs (k - 1)" by blast
    have "apart b 8 a 8" if "apart ?start (slot_end ?fs (k - 1)) b 8" for b
      using apart_inside [OF that d(2)] d(1) apart_sym by simp
    then have "load_u64 t' a = load_u64 t a"
      using out by (intro same) blast
    ultimately show ?thesis by simp
  qed
  with r show ?thesis by blast
qed

text \<open>An unwinder that starts at the first frame sees every frame and its return address.\<close>

lemma insert_real_addresses_chain:
  assumes seg: "segment_ok m st seg" and k: "k = length (frames st) - 1"
  shows "\<exists>m'. insert_real_addresses st seg m = Inr (st\<lparr>frames := relaid (seg_start_addr seg) (frames st) k\<rparr>, m') \<and>
    chain_walk m' (new_bp (seg_start_addr seg) (frames st) 0) k =
      Inr (map (\<lambda>i. (new_bp (seg_start_addr seg) (frames st) i, caller_returns m (frames st) i)) [0..<k])"
proof -
  from insert_real_addresses_cells [OF assms] obtain m' where
    r: "insert_real_addresses st seg m = Inr (st\<lparr>frames := relaid (seg_start_addr seg) (frames st) k\<rparr>, m')"
    and c: "\<And>a v. (a, v) \<in> set (chain_cells (seg_start_addr seg) (frames st) (caller_returns m (frames st)) k) \<Longrightarrow>
      load_u64 m' a = Inr v" by blast
  have "chain_walk m' (new_bp (seg_start_addr seg) (frames st) 0) k =
      Inr (map (\<lambda>i. (new_bp (seg_start_addr seg) (frames st) i, caller_returns m (frames st) i)) [0..<0 + k])"
    by (rule chain_walk_map) (rule c, auto simp: set_chain_cells)+
  with r show ?thesis by auto
qed

lemma insert_real_addresses_mapped:
  assumes "insert_real_addresses st seg m = Inr (st', m')"
  shows "mapped m' a n = mapped m a n"
proof -
  from assms obtain cur fs t u v x y p q where
    loop: "fold_res insert_real_address (call_indices st) (frames st, cur, m) = Inr (fs, x, t)"
    and "store_u64 t p u = Inr y" "store_u64 y q v = Inr m'"
    by (auto simp: insert_real_addresses_def bind_res_Inr_iff)
  moreover have "mapped (snd (snd (fs, x, t))) a n = mapped m a n"
    using loop
  proof (rule fold_res_invariant)
    fix i r s
    assume "mapped (snd (snd r)) a n = mapped m a n" and "insert_real_address i r = Inr s"
    then show "mapped (snd (snd s)) a n = mapped m a n"
      by (cases r; cases s)
        (auto simp: insert_real_address_def bind_res_Inr_iff dest!: mapped_store_u64 [of _ _ _ _ a n] split: if_splits)
  qed simp
  ultimately show ?thesis by (auto dest!: mapped_store_u64 [of _ _ _ _ a n])
qed

end
