(* ===== verification/Live_Values.thy ===== *)
theory Live_Values
  imports Frames
begin

unbundle bit_operations_syntax

text \<open>
  \<open>get_locations\<close>, \<open>free_locations\<close> and \<open>restore_unopt_stack\<close> of \<open>call_stack_state.c\<close>:
  the live values are moved from where the optimized code left them to where the
  unoptimized code expects them.

  A block that \<open>stmap_get_location_value\<close> allocates is the list of its bytes, and
  \<open>locs\<close>, the array of pointers to such blocks, is a list of such byte lists; an entry
  that \<open>realloc\<close> made and nobody wrote is \<open>None\<close>. The lemmas show that the array and its
  running index implement one list of pairs per frame (\<open>frame_pairs\<close>), that every value
  is read before anything is written, and what memory and registers hold afterwards.
\<close>

section \<open>The locations of a record, in pairs\<close>

text \<open>The values of \<open>j\<close> in \<open>for (j = 0; j + 1 < n; j += 2)\<close>.\<close>

definition pair_indices :: "u16 \<Rightarrow> nat list" where
  "pair_indices n = map (\<lambda>k. 2 * k) [0..<unat n div 2]"

text \<open>
  The two calls of \<open>stmap_get_location_value\<close> for the pair at \<open>j\<close>: the block with the
  size, then the block with that many bytes of value. Returns value and size.
\<close>

definition location_pair :: "slack \<Rightarrow> mem \<Rightarrow> stack_map \<Rightarrow> stack_map_record \<Rightarrow> u64 list \<Rightarrow> u64 \<Rightarrow> nat \<Rightarrow>
    (u8 list \<times> u8 list) res" where
  "location_pair slack m sm opt_rec regs outer_bp j =
     bind_res (index_at (locations opt_rec) (Suc j)) (\<lambda>size_loc.
     bind_res (stmap_get_location_value slack m sm size_loc regs outer_bp 8) (\<lambda>size_block.
     bind_res (index_at (locations opt_rec) j) (\<lambda>loc.
     bind_res (stmap_get_location_value slack m sm loc regs outer_bp (from_bytes size_block)) (\<lambda>value.
     Inr (value, size_block)))))"

section \<open>get_locations\<close>

definition get_location_entry :: "slack \<Rightarrow> mem \<Rightarrow> stack_map \<Rightarrow> stack_map_record \<Rightarrow> u64 list \<Rightarrow> u64 \<Rightarrow> nat \<Rightarrow>
    u8 list option list \<times> nat \<Rightarrow> (u8 list option list \<times> nat) res" where
  "get_location_entry slack m sm opt_rec regs outer_bp j = (\<lambda>(locs, loc_index).
     bind_res (location_pair slack m sm opt_rec regs outer_bp j) (\<lambda>(value, size_block).
     bind_res (update_at locs loc_index (Some value)) (\<lambda>locs.
     bind_res (update_at locs (loc_index + 1) (Some size_block)) (\<lambda>locs.
     Inr (locs, loc_index + 2)))))"

definition get_frame_locations :: "slack \<Rightarrow> mem \<Rightarrow> stack_map \<Rightarrow> call_stack_state \<Rightarrow> nat \<Rightarrow>
    u8 list option list \<times> nat \<Rightarrow> (u8 list option list \<times> nat) res" where
  "get_frame_locations slack m sm st i = (\<lambda>(locs, loc_index).
     bind_res (index_at (frames st) i) (\<lambda>fr.
     let opt_rec = real_record fr in
     bind_res (deref (stmap_get_map_record sm (NOT (patchpoint_id opt_rec)))) (\<lambda>unopt_rec.
     if num_locations opt_rec \<noteq> num_locations unopt_rec then Inl AssertFail
     else
       bind_res (index_at (frames st) (Suc i)) (\<lambda>next.
       fold_res (get_location_entry slack m sm opt_rec (registers fr) (real_bp next))
         (pair_indices (num_locations opt_rec))
         (locs @ replicate (unat (num_locations unopt_rec)) None, loc_index)))))"

definition get_locations :: "slack \<Rightarrow> mem \<Rightarrow> stack_map \<Rightarrow> call_stack_state \<Rightarrow> u8 list option list res" where
  "get_locations slack m sm st =
     bind_res (fold_res (get_frame_locations slack m sm st) (call_indices st) ([], 0))
       (\<lambda>(locs, loc_index). Inr locs)"

text \<open>
  \<open>free\<close> of every entry. One that was never written holds the 8 bytes the allocator left there
  (\<open>Unwritten\<close>): when they are a null pointer \<open>free\<close> does nothing, otherwise they are no pointer
  of the allocator.
\<close>

definition null_entry :: "slack \<Rightarrow> nat \<Rightarrow> bool" where
  "null_entry slack k \<longleftrightarrow> list_all (\<lambda>b. slack Unwritten (8 * k + b) = 0) [0..<8]"

definition free_locations :: "slack \<Rightarrow> u8 list option list \<Rightarrow> unit res" where
  "free_locations slack locs =
     (if list_all (\<lambda>k. locs ! k \<noteq> None \<or> null_entry slack k) [0..<length locs] then Inr () else Inl BadFree)"

section \<open>restore_unopt_stack\<close>

text \<open>
  The \<open>if\<close> cascade of the inner loop for one location of the unoptimized record: \<open>value\<close>
  is the block \<open>opt_location_addr\<close> points to. A pointer that was never written counts
  as \<open>NullDeref\<close> where it is followed.
\<close>

definition restore_location :: "slack \<Rightarrow> nat \<Rightarrow> u64 \<Rightarrow> location \<Rightarrow> u8 list option \<Rightarrow> u64 \<Rightarrow>
    frame list \<times> mem \<Rightarrow> (frame list \<times> mem) res" where
  "restore_location slack i frame_bp loc value sz = (\<lambda>(fs, m).
     (case location_type_of (loc_kind loc) of
        Some DIRECT \<Rightarrow>
          bind_res (deref value) (\<lambda>v.
          bind_res (store_bytes m (frame_bp + scast (loc_offset loc))
            (read_object v (slack PastBlock) (unat sz))) (\<lambda>m.
          Inr (fs, m)))
      | Some REGISTER \<Rightarrow>
          bind_res (assert_valid_reg_num (uint (loc_dwarf_reg_num loc))) (\<lambda>_.
          bind_res (deref value) (\<lambda>v.
          bind_res (index_at fs i) (\<lambda>fr.
          bind_res (update_at (registers fr) (unat (loc_dwarf_reg_num loc))
            (from_bytes (read_object v (slack PastBlock) 8))) (\<lambda>regs.
          Inr (fs[i := fr\<lparr>registers := regs\<rparr>], m)))))
      | Some INDIRECT \<Rightarrow> Inl (Errx ''Not implemented - indirect.'')
      | Some CONSTANT \<Rightarrow> Inr (fs, m)
      | Some CONST_INDEX \<Rightarrow> Inr (fs, m)
      | None \<Rightarrow> Inl (Errx ''Unknown record. Exiting'')))"

definition restore_entry :: "slack \<Rightarrow> u8 list option list \<Rightarrow> stack_map_record \<Rightarrow> nat \<Rightarrow> u64 \<Rightarrow> nat \<Rightarrow>
    (frame list \<times> mem) \<times> nat \<Rightarrow> ((frame list \<times> mem) \<times> nat) res" where
  "restore_entry slack locs unopt_rec i frame_bp j = (\<lambda>(s, loc_index).
     bind_res (index_at (locations unopt_rec) j) (\<lambda>loc.
     bind_res (index_at locs loc_index) (\<lambda>value.
     bind_res (index_at locs (loc_index + 1)) (\<lambda>size_ptr.
     bind_res (deref size_ptr) (\<lambda>size_block.
     bind_res (restore_location slack i frame_bp loc value (from_bytes size_block) s) (\<lambda>s.
     Inr (s, loc_index + 2)))))))"

definition restore_frame :: "slack \<Rightarrow> stack_map \<Rightarrow> u8 list option list \<Rightarrow> nat \<Rightarrow>
    (frame list \<times> mem) \<times> nat \<Rightarrow> ((frame list \<times> mem) \<times> nat) res" where
  "restore_frame slack sm locs i = (\<lambda>((fs, m), loc_index).
     bind_res (index_at fs i) (\<lambda>fr.
     bind_res (deref (stmap_get_map_record sm (NOT (patchpoint_id (frame_record fr))))) (\<lambda>unopt_rec.
     fold_res (restore_entry slack locs unopt_rec i (bp fr)) (pair_indices (num_locations unopt_rec))
       ((fs, m), loc_index))))"

definition restore_unopt_stack :: "slack \<Rightarrow> stack_map \<Rightarrow> call_stack_state \<Rightarrow> mem \<Rightarrow>
    (call_stack_state \<times> mem) res" where
  "restore_unopt_stack slack sm st m =
     bind_res (get_locations slack m sm st) (\<lambda>locs.
     bind_res (fold_res (restore_frame slack sm locs) (call_indices st) ((frames st, m), 0))
       (\<lambda>((fs, m), loc_index).
     bind_res (free_locations slack locs) (\<lambda>_.
     Inr (st\<lparr>frames := fs\<rparr>, m))))"

section \<open>The values that are moved\<close>

text \<open>
  The pairs of value and size of frame \<open>i\<close>, read as \<open>get_locations\<close> reads them, as one
  list per frame: the specification that the flat array of pointers and its index
  implement.
\<close>

definition frame_pairs :: "slack \<Rightarrow> mem \<Rightarrow> stack_map \<Rightarrow> call_stack_state \<Rightarrow> nat \<Rightarrow>
    (u8 list \<times> u8 list) list res" where
  "frame_pairs slack m sm st i =
     bind_res (index_at (frames st) i) (\<lambda>fr.
     bind_res (index_at (frames st) (Suc i)) (\<lambda>next.
     map_res (location_pair slack m sm (real_record fr) (registers fr) (real_bp next))
       (pair_indices (num_locations (real_record fr)))))"

text \<open>
  Both records of a frame have the same identifier, and its unoptimized twin has the same
  even number of locations (and as many as its count says).
\<close>

definition transfer_ok :: "stack_map \<Rightarrow> frame \<Rightarrow> bool" where
  "transfer_ok sm fr \<longleftrightarrow>
     patchpoint_id (frame_record fr) = patchpoint_id (real_record fr) \<and>
     (case stmap_get_map_record sm (NOT (patchpoint_id (real_record fr))) of
        None \<Rightarrow> False
      | Some u \<Rightarrow> num_locations u = num_locations (real_record fr) \<and> even (unat (num_locations u)) \<and>
                  length (locations u) = unat (num_locations u))"

definition transfers_ok :: "stack_map \<Rightarrow> call_stack_state \<Rightarrow> bool" where
  "transfers_ok sm st \<longleftrightarrow> list_all (transfer_ok sm) (butlast (frames st))"

text \<open>The same without the number being even.\<close>

definition twin_counted :: "stack_map \<Rightarrow> frame \<Rightarrow> bool" where
  "twin_counted sm fr \<longleftrightarrow>
     patchpoint_id (frame_record fr) = patchpoint_id (real_record fr) \<and>
     (case stmap_get_map_record sm (NOT (patchpoint_id (real_record fr))) of
        None \<Rightarrow> False
      | Some u \<Rightarrow> num_locations u = num_locations (real_record fr) \<and> length (locations u) = unat (num_locations u))"

definition odd_entry :: "call_stack_state \<Rightarrow> nat \<Rightarrow> nat" where
  "odd_entry st i = unat (num_locations (real_record (frames st ! i))) mod 2"

lemma transfer_ok_counted: "transfer_ok sm fr \<Longrightarrow> twin_counted sm fr \<and> even (unat (num_locations (real_record fr)))"
  by (auto simp: transfer_ok_def twin_counted_def split: option.splits)

lemma transfers_okD: "transfers_ok sm st \<Longrightarrow> Suc i < length (frames st) \<Longrightarrow> transfer_ok sm (frames st ! i)"
  by (auto simp: transfers_ok_def list_all_length nth_butlast)

definition entries :: "(u8 list \<times> u8 list) list \<Rightarrow> u8 list option list" where
  "entries ps = concat (map (\<lambda>(v, s). [Some v, Some s]) ps)"

lemma entries_simps [simp]:
  "entries [] = []"
  "entries ((v, s) # ps) = Some v # Some s # entries ps"
  "entries (ps @ qs) = entries ps @ entries qs"
  by (simp_all add: entries_def)

lemma length_entries [simp]: "length (entries ps) = 2 * length ps"
  by (induction ps) auto

lemma length_pair_indices [simp]: "length (pair_indices n) = unat n div 2"
  by (simp add: pair_indices_def)

lemma list_update_append_length: "(xs @ y # ys)[length xs := z] = xs @ z # ys"
  by simp

text \<open>The inner loop fills the next entries, two for each pair.\<close>

lemma get_location_entries:
  "fold_res (get_location_entry slack m sm r regs b) js
     (ys @ replicate (2 * length js) None @ zs, length ys) =
   bind_res (map_res (location_pair slack m sm r regs b) js) (\<lambda>ps.
     Inr (ys @ entries ps @ zs, length ys + 2 * length js))"
proof (induction js arbitrary: ys)
  case Nil
  then show ?case by simp
next
  case (Cons j js)
  show ?case
  proof (cases "location_pair slack m sm r regs b j")
    case (Inl e)
    then show ?thesis by (simp add: get_location_entry_def)
  next
    case (Inr p)
    obtain v s where p: "p = (v, s)" by (cases p)
    have "get_location_entry slack m sm r regs b j
        (ys @ replicate (2 * length (j # js)) None @ zs, length ys) =
      Inr ((ys @ [Some v, Some s]) @ replicate (2 * length js) None @ zs, length (ys @ [Some v, Some s]))"
      by (simp add: get_location_entry_def Inr p update_at_def list_update_append nth_append)
    then show ?thesis
      using Cons.IH [of "ys @ [Some v, Some s]"]
      by (simp add: Inr p bind_res_assoc del: replicate_Suc)
  qed
qed

lemma map_res_length: "map_res f xs = Inr ys \<Longrightarrow> length ys = length xs"
  unfolding map_res_Inr_iff by (auto dest: list_all2_lengthD)

text \<open>
  A frame fills the entries that are free and gets new ones; one entry more is left over when
  its number of locations is odd.
\<close>

lemma get_frame_locations_fill:
  assumes i: "Suc i < length (frames st)" and ok: "twin_counted sm (frames st ! i)"
  shows "get_frame_locations slack m sm st i (ys @ replicate d None, length ys) =
    bind_res (frame_pairs slack m sm st i) (\<lambda>ps.
      Inr ((ys @ entries ps) @ replicate (d + odd_entry st i) None, length (ys @ entries ps)))"
proof -
  let ?r = "real_record (frames st ! i)"
  let ?js = "pair_indices (num_locations ?r)"
  from ok obtain u where u: "stmap_get_map_record sm (NOT (patchpoint_id ?r)) = Some u" "num_locations u = num_locations ?r"
    by (auto simp: twin_counted_def split: option.splits)
  have "d + unat (num_locations ?r) = 2 * length ?js + (d + odd_entry st i)"
    by (simp add: odd_entry_def)
  then have array: "(ys @ replicate d None) @ replicate (unat (num_locations ?r)) None =
      ys @ replicate (2 * length ?js) None @ replicate (d + odd_entry st i) None"
    by (simp only: append_assoc replicate_add [symmetric])
  have "get_frame_locations slack m sm st i (ys @ replicate d None, length ys) =
      fold_res (get_location_entry slack m sm ?r (registers (frames st ! i)) (real_bp (frames st ! Suc i))) ?js
        ((ys @ replicate d None) @ replicate (unat (num_locations ?r)) None, length ys)"
    using i u by (simp add: get_frame_locations_def Let_def)
  also have "\<dots> = bind_res (frame_pairs slack m sm st i) (\<lambda>ps.
      Inr ((ys @ entries ps) @ replicate (d + odd_entry st i) None, length (ys @ entries ps)))"
    using i unfolding array get_location_entries
    by (cases "map_res (location_pair slack m sm ?r (registers (frames st ! i)) (real_bp (frames st ! Suc i))) ?js")
      (auto simp: frame_pairs_def dest: map_res_length)
  finally show ?thesis .
qed

lemma get_locations_fold:
  assumes "\<And>i. i \<in> set is \<Longrightarrow> Suc i < length (frames st) \<and> twin_counted sm (frames st ! i)"
  shows "fold_res (get_frame_locations slack m sm st) is (ys @ replicate d None, length ys) =
    bind_res (map_res (frame_pairs slack m sm st) is) (\<lambda>pss.
      Inr ((ys @ entries (concat pss)) @ replicate (d + sum_list (map (odd_entry st) is)) None, length (ys @ entries (concat pss))))"
  using assms
proof (induction "is" arbitrary: ys d)
  case Nil
  then show ?case by simp
next
  case (Cons i "is")
  have i: "Suc i < length (frames st)" "twin_counted sm (frames st ! i)" using Cons.prems by auto
  show ?case
  proof (cases "frame_pairs slack m sm st i")
    case (Inl e)
    then show ?thesis by (simp only: fold_res.simps map_res.simps get_frame_locations_fill [OF i] bind_res_simps)
  next
    case (Inr ps)
    have "fold_res (get_frame_locations slack m sm st) (i # is) (ys @ replicate d None, length ys) =
        fold_res (get_frame_locations slack m sm st) is ((ys @ entries ps) @ replicate (d + odd_entry st i) None, length (ys @ entries ps))"
      by (simp only: fold_res.simps get_frame_locations_fill [OF i] Inr bind_res_simps)
    also have "\<dots> = bind_res (map_res (frame_pairs slack m sm st) is) (\<lambda>pss.
        Inr (((ys @ entries ps) @ entries (concat pss)) @ replicate (d + odd_entry st i + sum_list (map (odd_entry st) is)) None,
          length ((ys @ entries ps) @ entries (concat pss))))"
      using Cons.prems by (intro Cons.IH) simp
    finally show ?thesis by (simp add: Inr bind_res_assoc add.assoc)
  qed
qed

text \<open>The array: the entries of all frames, and behind them those that were never written.\<close>

definition odd_entries :: "call_stack_state \<Rightarrow> nat" where
  "odd_entries st = sum_list (map (odd_entry st) (call_indices st))"

lemma get_locations_pairs:
  assumes "state_ok st" and "list_all (twin_counted sm) (butlast (frames st))"
  shows "get_locations slack m sm st =
    bind_res (map_res (frame_pairs slack m sm st) (call_indices st)) (\<lambda>pss.
      Inr (entries (concat pss) @ replicate (odd_entries st) None))"
proof -
  have "fold_res (get_frame_locations slack m sm st) (call_indices st) ([] @ replicate 0 None, length ([] :: u8 list option list)) =
    bind_res (map_res (frame_pairs slack m sm st) (call_indices st)) (\<lambda>pss.
      Inr (([] @ entries (concat pss)) @ replicate (0 + sum_list (map (odd_entry st) (call_indices st))) None,
        length ([] @ entries (concat pss))))"
    using assms by (intro get_locations_fold) (auto simp: call_indices_less state_ok_def list_all_length nth_butlast)
  then show ?thesis by (simp add: get_locations_def bind_res_assoc odd_entries_def)
qed

section \<open>Where the values go\<close>

text \<open>The locations of the unoptimized twin that hold values (those at even indices).\<close>

definition unopt_locations :: "stack_map \<Rightarrow> frame \<Rightarrow> location list" where
  "unopt_locations sm fr =
     (case stmap_get_map_record sm (NOT (patchpoint_id (frame_record fr))) of
        None \<Rightarrow> []
      | Some u \<Rightarrow> map (\<lambda>j. locations u ! j) (pair_indices (num_locations u)))"

definition restore_values :: "slack \<Rightarrow> nat \<Rightarrow> u64 \<Rightarrow> (location \<times> u8 list \<times> u8 list) list \<Rightarrow>
    frame list \<times> mem \<Rightarrow> (frame list \<times> mem) res" where
  "restore_values slack i frame_bp =
     fold_res (\<lambda>(loc, v, s). restore_location slack i frame_bp loc (Some v) (from_bytes s))"

text \<open>What a transfer leaves as it is: everything of the frames but their registers.\<close>

definition same_core :: "frame list \<Rightarrow> frame list \<Rightarrow> bool" where
  "same_core fs gs \<longleftrightarrow> map (\<lambda>f. f\<lparr>registers := []\<rparr>) fs = map (\<lambda>f. f\<lparr>registers := []\<rparr>) gs"

lemma same_core_refl [simp]: "same_core fs fs"
  by (simp add: same_core_def)

lemma same_core_trans: "same_core fs gs \<Longrightarrow> same_core gs hs \<Longrightarrow> same_core fs hs"
  by (simp add: same_core_def)

lemma same_core_length: "same_core fs gs \<Longrightarrow> length fs = length gs"
  unfolding same_core_def by (metis length_map)

lemma same_coreD:
  assumes "same_core fs gs" and "i < length gs"
  shows "frame_record (fs ! i) = frame_record (gs ! i)" and "bp (fs ! i) = bp (gs ! i)"
    and "ret_addr (fs ! i) = ret_addr (gs ! i)"
proof -
  have "(fs ! i)\<lparr>registers := []\<rparr> = (gs ! i)\<lparr>registers := []\<rparr>"
    using assms same_core_length [OF assms(1)] unfolding same_core_def by (metis nth_map)
  then show "frame_record (fs ! i) = frame_record (gs ! i)" and "bp (fs ! i) = bp (gs ! i)"
    and "ret_addr (fs ! i) = ret_addr (gs ! i)"
    by (cases "fs ! i"; cases "gs ! i"; simp)+
qed

lemma same_core_registers: "i < length fs \<Longrightarrow> same_core (fs[i := (fs ! i)\<lparr>registers := regs\<rparr>]) fs"
  unfolding same_core_def by (intro nth_equalityI) (auto simp: nth_list_update)

lemma restore_location_core:
  "restore_location slack i b loc v sz (fs, m) = Inr (gs, n) \<Longrightarrow> same_core gs fs"
  by (auto simp: restore_location_def bind_res_Inr_iff index_at_Inr_iff same_core_registers
    split: option.splits location_type.splits)

lemma restore_values_core:
  assumes "restore_values slack i b ls (fs, m) = Inr (gs, n)"
  shows "same_core gs fs"
proof -
  have "same_core (fst (gs, n)) fs"
    using assms unfolding restore_values_def
  proof (rule fold_res_invariant)
    fix l u v
    assume "same_core (fst u) fs"
      and "(case l of (loc, v, s) \<Rightarrow> restore_location slack i b loc (Some v) (from_bytes s)) u = Inr v"
    then show "same_core (fst v) fs"
      by (cases l; cases u; cases v) (auto dest!: restore_location_core intro: same_core_trans)
  qed simp
  then show ?thesis by simp
qed

text \<open>The inner loop consumes two entries for each pair.\<close>

lemma restore_entries:
  assumes "length ps = length js" and "\<And>j. j \<in> set js \<Longrightarrow> j < length (locations u)"
  shows "fold_res (restore_entry slack (ys @ entries ps @ zs) u i b) js (s, length ys) =
    bind_res (restore_values slack i b (zip (map (\<lambda>j. locations u ! j) js) ps) s)
      (\<lambda>s'. Inr (s', length ys + 2 * length js))"
  using assms
proof (induction js arbitrary: ys ps s)
  case Nil
  then show ?case by (simp add: restore_values_def)
next
  case (Cons j js)
  from Cons.prems(1) obtain v w qs where ps: "ps = (v, w) # qs" "length qs = length js"
    by (cases ps) auto
  have e: "restore_entry slack (ys @ entries ps @ zs) u i b j (s, length ys) =
      bind_res (restore_location slack i b (locations u ! j) (Some v) (from_bytes w) s)
        (\<lambda>s. Inr (s, length ys + 2))"
    using Cons.prems(2) by (simp add: restore_entry_def ps nth_append)
  show ?case
  proof (cases "restore_location slack i b (locations u ! j) (Some v) (from_bytes w) s")
    case (Inl err)
    with e show ?thesis by (simp add: restore_values_def ps)
  next
    case (Inr t)
    have "fold_res (restore_entry slack ((ys @ [Some v, Some w]) @ entries qs @ zs) u i b) js
        (t, length (ys @ [Some v, Some w])) =
      bind_res (restore_values slack i b (zip (map (\<lambda>j. locations u ! j) js) qs) t)
        (\<lambda>s'. Inr (s', length (ys @ [Some v, Some w]) + 2 * length js))"
      using Cons.prems ps(2) by (intro Cons.IH) auto
    then show ?thesis using Inr e by (simp add: ps restore_values_def)
  qed
qed

lemma twin_countedE:
  assumes "twin_counted sm fr"
  obtains u where "stmap_get_map_record sm (NOT (patchpoint_id (frame_record fr))) = Some u"
    and "num_locations u = num_locations (real_record fr)" and "length (locations u) = unat (num_locations u)"
  using assms by (auto simp: twin_counted_def split: option.splits)

lemma pair_index_less: "j \<in> set (pair_indices n) \<Longrightarrow> Suc j < unat n"
  by (auto simp: pair_indices_def)

lemma restore_frame_values:
  assumes i: "i < length (frames st)" and ok: "twin_counted sm (frames st ! i)"
    and core: "same_core fs (frames st)"
    and ps: "length ps = length (pair_indices (num_locations (real_record (frames st ! i))))"
  shows "restore_frame slack sm (ys @ entries ps @ zs) i ((fs, m), length ys) =
    bind_res (restore_values slack i (bp (frames st ! i)) (zip (unopt_locations sm (frames st ! i)) ps) (fs, m))
      (\<lambda>s. Inr (s, length (ys @ entries ps)))"
proof -
  from ok obtain u where u: "stmap_get_map_record sm (NOT (patchpoint_id (frame_record (frames st ! i)))) = Some u"
    "num_locations u = num_locations (real_record (frames st ! i))" "length (locations u) = unat (num_locations u)"
    by (rule twin_countedE)
  have "restore_frame slack sm (ys @ entries ps @ zs) i ((fs, m), length ys) =
      fold_res (restore_entry slack (ys @ entries ps @ zs) u i (bp (frames st ! i)))
        (pair_indices (num_locations u)) ((fs, m), length ys)"
    using i u(1) same_coreD [OF core i] same_core_length [OF core] by (simp add: restore_frame_def)
  also have "\<dots> = bind_res (restore_values slack i (bp (frames st ! i))
      (zip (map (\<lambda>j. locations u ! j) (pair_indices (num_locations u))) ps) (fs, m))
      (\<lambda>s. Inr (s, length ys + 2 * length (pair_indices (num_locations u))))"
    using ps u(2,3) by (intro restore_entries) (auto dest: pair_index_less)
  finally show ?thesis using ps u(1,2) by (simp add: unopt_locations_def)
qed

lemma restore_frames_values:
  assumes "\<And>i. i \<in> set is \<Longrightarrow> i < length (frames st) \<and> twin_counted sm (frames st ! i)"
    and "same_core fs (frames st)"
    and "list_all2 (\<lambda>i ps. length ps = length (pair_indices (num_locations (real_record (frames st ! i))))) is pss"
  shows "fold_res (restore_frame slack sm (ys @ entries (concat pss) @ zs)) is ((fs, m), length ys) =
    bind_res (fold_res (\<lambda>(i, ps). restore_values slack i (bp (frames st ! i)) (zip (unopt_locations sm (frames st ! i)) ps))
      (zip is pss) (fs, m)) (\<lambda>s. Inr (s, length (ys @ entries (concat pss))))"
  using assms
proof (induction "is" arbitrary: ys pss fs m)
  case Nil
  then show ?case by simp
next
  case (Cons i "is")
  from Cons.prems(3) obtain ps qss where pss: "pss = ps # qss"
    and ps: "length ps = length (pair_indices (num_locations (real_record (frames st ! i))))"
    and qss: "list_all2 (\<lambda>i ps. length ps = length (pair_indices (num_locations (real_record (frames st ! i))))) is qss"
    by (auto simp: list_all2_Cons1)
  have i: "i < length (frames st)" "twin_counted sm (frames st ! i)" using Cons.prems(1) by auto
  note step = restore_frame_values [OF i Cons.prems(2) ps, of slack ys "entries (concat qss) @ zs"]
  show ?case
  proof (cases "restore_values slack i (bp (frames st ! i)) (zip (unopt_locations sm (frames st ! i)) ps) (fs, m)")
    case (Inl e)
    then show ?thesis using step by (simp add: pss)
  next
    case (Inr s)
    obtain gs n where s: "s = (gs, n)" by (cases s)
    have core: "same_core gs (frames st)"
      using restore_values_core [OF Inr [unfolded s]] Cons.prems(2) by (rule same_core_trans)
    have "fold_res (restore_frame slack sm ((ys @ entries ps) @ entries (concat qss) @ zs)) is
        ((gs, n), length (ys @ entries ps)) =
      bind_res (fold_res (\<lambda>(i, ps). restore_values slack i (bp (frames st ! i)) (zip (unopt_locations sm (frames st ! i)) ps))
        (zip is qss) (gs, n)) (\<lambda>s. Inr (s, length ((ys @ entries ps) @ entries (concat qss))))"
      using Cons.prems(1) core qss by (intro Cons.IH) auto
    then show ?thesis using step Inr by (simp add: pss s)
  qed
qed

text \<open>
  The whole function, the numbers of locations odd or even: the array is read, the values are
  placed, and what is freed are the blocks and the entries that were never written.
\<close>

lemma free_entries:
  "free_locations slack (entries ps @ replicate d None) =
    (if list_all (null_entry slack) [2 * length ps..<2 * length ps + d] then Inr () else Inl BadFree)"
proof -
  let ?locs = "entries ps @ replicate d None"
  have "None \<notin> set (entries ps)" by (auto simp: entries_def)
  then have written: "?locs ! k \<noteq> None" if "k < 2 * length ps" for k
    using that by (metis length_entries nth_append nth_mem)
  have unwritten: "?locs ! k = None" if "2 * length ps \<le> k" "k < 2 * length ps + d" for k
    using that by (simp add: nth_append)
  have range: "list_all P [a..<b] \<longleftrightarrow> (\<forall>k. a \<le> k \<and> k < b \<longrightarrow> P k)" for P a b by (auto simp: list_all_iff)
  have "length ?locs = 2 * length ps + d" by simp
  then have "list_all (\<lambda>k. ?locs ! k \<noteq> None \<or> null_entry slack k) [0..<length ?locs] \<longleftrightarrow>
      list_all (null_entry slack) [2 * length ps..<2 * length ps + d]"
    unfolding range using written unwritten by (metis le0 not_le)
  then show ?thesis by (simp only: free_locations_def)
qed

lemma restore_unopt_stack_frees:
  assumes st: "state_ok st" and ok: "list_all (twin_counted sm) (butlast (frames st))"
  shows "restore_unopt_stack slack sm st m =
    bind_res (map_res (frame_pairs slack m sm st) (call_indices st)) (\<lambda>pss.
    bind_res (fold_res (\<lambda>(i, ps). restore_values slack i (bp (frames st ! i)) (zip (unopt_locations sm (frames st ! i)) ps))
      (zip (call_indices st) pss) (frames st, m)) (\<lambda>(fs, m').
    let n = 2 * length (concat pss) in
    if list_all (null_entry slack) [n..<n + odd_entries st] then Inr (st\<lparr>frames := fs\<rparr>, m') else Inl BadFree))"
proof (cases "map_res (frame_pairs slack m sm st) (call_indices st)")
  case (Inl e)
  then show ?thesis using get_locations_pairs [OF assms] by (simp add: restore_unopt_stack_def)
next
  case (Inr pss)
  let ?zs = "replicate (odd_entries st) None"
  have counted: "i < length (frames st) \<and> twin_counted sm (frames st ! i)" if "i \<in> set (call_indices st)" for i
  proof -
    have "Suc i < length (frames st)" using st that by (simp add: call_indices_less state_ok_def)
    moreover from this have "twin_counted sm (butlast (frames st) ! i)" using ok by (simp add: list_all_length)
    ultimately show ?thesis by (simp add: nth_butlast)
  qed
  have "list_all2 (\<lambda>i ps. length ps = length (pair_indices (num_locations (real_record (frames st ! i)))))
      (call_indices st) pss"
    using Inr unfolding map_res_Inr_iff
    by (rule list_all2_mono) (auto simp: frame_pairs_def bind_res_Inr_iff index_at_Inr_iff dest: map_res_length)
  then have "fold_res (restore_frame slack sm ([] @ entries (concat pss) @ ?zs)) (call_indices st)
      ((frames st, m), length ([] :: u8 list option list)) =
    bind_res (fold_res (\<lambda>(i, ps). restore_values slack i (bp (frames st ! i)) (zip (unopt_locations sm (frames st ! i)) ps))
      (zip (call_indices st) pss) (frames st, m)) (\<lambda>s. Inr (s, length ([] @ entries (concat pss))))"
    using counted by (intro restore_frames_values) simp_all
  then show ?thesis
    using get_locations_pairs [OF assms] Inr
    by (auto simp: restore_unopt_stack_def bind_res_assoc case_prod_unfold free_entries Let_def intro!: arg_cong2 [of _ _ _ _ bind_res])
qed

lemma restore_unopt_stack_transfer:
  assumes st: "state_ok st"
    and ok: "transfers_ok sm st"
  shows "restore_unopt_stack slack sm st m =
    bind_res (map_res (frame_pairs slack m sm st) (call_indices st)) (\<lambda>pss.
    bind_res (fold_res (\<lambda>(i, ps). restore_values slack i (bp (frames st ! i)) (zip (unopt_locations sm (frames st ! i)) ps))
      (zip (call_indices st) pss) (frames st, m)) (\<lambda>(fs, m').
    Inr (st\<lparr>frames := fs\<rparr>, m')))"
proof -
  have "list_all (twin_counted sm) (butlast (frames st))"
    using ok transfer_ok_counted by (auto simp: transfers_ok_def list_all_iff)
  moreover have "odd_entry st i = 0" if "i \<in> set (call_indices st)" for i
    using st that transfer_ok_counted [OF transfers_okD [OF ok, of i]]
    by (simp add: odd_entry_def call_indices_less state_ok_def)
  then have "odd_entries st = 0" by (simp add: odd_entries_def)
  ultimately show ?thesis using restore_unopt_stack_frees [OF st, of sm slack m] by (simp add: Let_def)
qed

section \<open>What a transfer does to memory and registers\<close>

text \<open>The regions the direct locations name, with the bytes that go there.\<close>

definition direct_cells :: "slack \<Rightarrow> u64 \<Rightarrow> (location \<times> u8 list \<times> u8 list) list \<Rightarrow>
    ((u64 \<times> nat) \<times> u8 list) list" where
  "direct_cells slack frame_bp ls = concat (map (\<lambda>(loc, v, s).
     if location_type_of (loc_kind loc) = Some DIRECT
     then [((frame_bp + scast (loc_offset loc), unat (from_bytes s :: u64)),
            read_object v (slack PastBlock) (unat (from_bytes s :: u64)))]
     else []) ls)"

text \<open>The registers after the register locations, in order.\<close>

fun register_updates :: "slack \<Rightarrow> (location \<times> u8 list \<times> u8 list) list \<Rightarrow> u64 list \<Rightarrow> u64 list" where
  "register_updates slack [] regs = regs"
| "register_updates slack ((loc, v, s) # ls) regs =
     register_updates slack ls
       (if location_type_of (loc_kind loc) = Some REGISTER
        then regs[unat (loc_dwarf_reg_num loc) := from_bytes (read_object v (slack PastBlock) 8)]
        else regs)"

lemma length_register_updates [simp]: "length (register_updates slack ls regs) = length regs"
  by (induction slack ls regs rule: register_updates.induct) auto

lemma length_read_object [simp]: "length (read_object bs past n) = n"
  by (simp add: read_object_def)

lemma read_object_exact [simp]: "read_object bs past (length bs) = bs"
  by (simp add: read_object_def)

text \<open>A value has the number of bytes that was asked for.\<close>

lemma length_location_value:
  "stmap_get_location_value slack m sm loc regs a n = Inr v \<Longrightarrow> length v = unat n"
  by (auto simp: stmap_get_location_value_def bind_res_Inr_iff dest: load_bytes_InrD
    split: option.splits location_type.splits if_splits)

lemma length_location_pair:
  "location_pair slack m sm r regs b j = Inr (v, s) \<Longrightarrow> length v = unat (from_bytes s :: u64)"
  by (auto simp: location_pair_def bind_res_Inr_iff dest!: length_location_value)

text \<open>
  The number a size entry holds: the 4 bytes of the recorded size, and the 4 bytes behind it.
\<close>

fun bytes_nat :: "u8 list \<Rightarrow> nat" where
  "bytes_nat [] = 0"
| "bytes_nat (b # bs) = unat b + 256 * bytes_nat bs"

lemma bytes_nat_append: "bytes_nat (xs @ ys) = bytes_nat xs + 256 ^ length xs * bytes_nat ys"
  by (induction xs) (simp_all add: algebra_simps)

lemma bytes_nat_less: "bytes_nat bs < 256 ^ length bs"
proof (induction bs)
  case (Cons b bs)
  have "unat b < 256" using unsigned_less [of b] by simp
  then show ?case using Cons by simp
qed simp

lemma unat_from_bytes: "8 * length bs \<le> LENGTH('a::len) \<Longrightarrow> unat (from_bytes bs :: 'a word) = bytes_nat bs"
proof (induction bs)
  case (Cons b bs)
  let ?x = "from_bytes bs :: 'a word"
  have x: "unat ?x = bytes_nat bs" using Cons by simp
  have "256 ^ Suc (length bs) = (2 :: nat) ^ (8 * length (b # bs))" by (simp add: power_mult power_add)
  also have "\<dots> \<le> 2 ^ LENGTH('a)" using Cons.prems by (intro power_increasing) simp_all
  finally have lim: "bytes_nat (b # bs) < 2 ^ LENGTH('a)" using bytes_nat_less [of "b # bs"] by simp
  have "unat (push_bit 8 ?x) = take_bit LENGTH('a) (push_bit 8 (unat ?x))" by (rule unsigned_push_bit_eq)
  also have "\<dots> = 256 * bytes_nat bs" using lim by (simp add: push_bit_eq_mult take_bit_eq_mod x mult.commute)
  finally have p: "unat (push_bit 8 ?x) = 256 * bytes_nat bs" .
  have b: "unat (ucast b :: 'a word) = unat b" using lim by (simp add: unsigned_ucast_eq take_bit_eq_mod)
  have "ucast b AND push_bit 8 ?x = 0" by (rule bit_word_eqI) (auto simp: bit_simps dest: bit_imp_le_length)
  then have "from_bytes (b # bs) = ucast b + push_bit 8 ?x" by (simp add: disjunctive_add_eq_or)
  then show ?case using lim by (simp add: unat_add_lem [THEN iffD1] p b)
qed simp

lemma size_bytes:
  "unat (from_bytes (to_bytes 4 (w :: u32) @ map past [0..<4]) :: u64) = unat w + 2 ^ 32 * unat (from_bytes (map past [0..<4]) :: u32)"
proof -
  have "bytes_nat (to_bytes 4 w) = unat w" using unat_from_bytes [of "to_bytes 4 w", where 'a = 32] by simp
  moreover have "bytes_nat (map past [0..<4]) = unat (from_bytes (map past [0..<4]) :: u32)"
    using unat_from_bytes [of "map past [0..<4]", where 'a = 32] by simp
  ultimately show ?thesis by (subst unat_from_bytes) (simp_all add: bytes_nat_append del: to_bytes.simps upt_rec_numeral)
qed

text \<open>Size entries that are recorded as constants, and the values read with them.\<close>

lemma frame_pair_sizes:
  assumes ps: "frame_pairs slack m sm st i = Inr ps" and k: "k < length ps"
    and kind: "location_type_of (loc_kind (locations (real_record (frames st ! i)) ! Suc (2 * k))) = Some CONSTANT"
  shows "unat (from_bytes (snd (ps ! k)) :: u64) = unat (loc_offset (locations (real_record (frames st ! i)) ! Suc (2 * k))) +
    2 ^ 32 * unat (from_bytes (map (slack PastOffset) [0..<4]) :: u32)"
    and "length (fst (ps ! k)) = unat (from_bytes (snd (ps ! k)) :: u64)"
proof -
  let ?r = "real_record (frames st ! i)"
  obtain v s where p: "ps ! k = (v, s)" by (cases "ps ! k")
  from ps obtain regs b where "map_res (location_pair slack m sm ?r regs b) (pair_indices (num_locations ?r)) = Inr ps"
    by (auto simp: frame_pairs_def bind_res_Inr_iff index_at_Inr_iff)
  then have all: "list_all2 (\<lambda>j p. location_pair slack m sm ?r regs b j = Inr p) (pair_indices (num_locations ?r)) ps"
    by (simp add: map_res_Inr_iff)
  then have "location_pair slack m sm ?r regs b (pair_indices (num_locations ?r) ! k) = Inr (v, s)"
    using k p by (auto simp: list_all2_conv_all_nth)
  moreover have "pair_indices (num_locations ?r) ! k = 2 * k"
    using k list_all2_lengthD [OF all] by (simp add: pair_indices_def)
  ultimately have pair: "location_pair slack m sm ?r regs b (2 * k) = Inr (v, s)" by simp
  then show "length (fst (ps ! k)) = unat (from_bytes (snd (ps ! k)) :: u64)" by (simp add: p length_location_pair)
  from pair have "s = read_object (to_bytes 4 (loc_offset (locations ?r ! Suc (2 * k)))) (slack PastOffset) 8"
    using kind by (auto simp: location_pair_def bind_res_Inr_iff index_at_Inr_iff stmap_get_location_value_def)
  then have "s = to_bytes 4 (loc_offset (locations ?r ! Suc (2 * k))) @ map (slack PastOffset) [0..<4]"
    by (simp add: read_object_def del: to_bytes.simps)
  then show "unat (from_bytes (snd (ps ! k)) :: u64) = unat (loc_offset (locations ?r ! Suc (2 * k))) +
    2 ^ 32 * unat (from_bytes (map (slack PastOffset) [0..<4]) :: u32)"
    by (simp only: p snd_conv size_bytes)
qed

lemma restore_location_step:
  assumes "restore_location slack i b loc (Some v) sz (fs, m) = Inr (gs, n)"
  shows "case location_type_of (loc_kind loc) of
      Some DIRECT \<Rightarrow> gs = fs \<and>
        store_bytes m (b + scast (loc_offset loc)) (read_object v (slack PastBlock) (unat sz)) = Inr n
    | Some REGISTER \<Rightarrow> n = m \<and> i < length fs \<and> gs = fs[i := (fs ! i)\<lparr>registers :=
        (registers (fs ! i))[unat (loc_dwarf_reg_num loc) := from_bytes (read_object v (slack PastBlock) 8)]\<rparr>]
    | _ \<Rightarrow> gs = fs \<and> n = m"
  using assms
  by (auto simp: restore_location_def bind_res_Inr_iff index_at_Inr_iff update_at_Inr_iff
    split: option.splits location_type.splits)

lemma restore_values_effect:
  assumes "restore_values slack i b ls (fs, m) = Inr (gs, n)" and "i < length fs"
  shows "region_cells.wr_all (direct_cells slack b ls) m = Inr n \<and>
    gs = fs[i := (fs ! i)\<lparr>registers := register_updates slack ls (registers (fs ! i))\<rparr>]"
  using assms
proof (induction ls arbitrary: fs m)
  case Nil
  then show ?case by (simp add: restore_values_def direct_cells_def)
next
  case (Cons l ls)
  obtain loc v s where l: "l = (loc, v, s)" by (cases l)
  from Cons.prems(1) obtain hs k where
    step: "restore_location slack i b loc (Some v) (from_bytes s) (fs, m) = Inr (hs, k)"
    and rest: "restore_values slack i b ls (hs, k) = Inr (gs, n)"
    by (auto simp: restore_values_def l bind_res_Inr_iff)
  have "i < length hs" using restore_location_core [OF step] Cons.prems(2) by (auto dest: same_core_length)
  from Cons.IH [OF rest this] restore_location_step [OF step] Cons.prems(2) show ?case
    by (auto simp: l direct_cells_def split: option.splits location_type.splits)
qed

text \<open>All frames: the cells of one frame after the other, and each frame's own registers.\<close>

definition transfers :: "stack_map \<Rightarrow> call_stack_state \<Rightarrow> nat \<Rightarrow> (u8 list \<times> u8 list) list \<Rightarrow>
    (location \<times> u8 list \<times> u8 list) list" where
  "transfers sm st i ps = zip (unopt_locations sm (frames st ! i)) ps"

definition all_cells :: "slack \<Rightarrow> stack_map \<Rightarrow> call_stack_state \<Rightarrow> (u8 list \<times> u8 list) list list \<Rightarrow>
    ((u64 \<times> nat) \<times> u8 list) list" where
  "all_cells slack sm st pss = concat (map (\<lambda>(i, ps).
     direct_cells slack (bp (frames st ! i)) (transfers sm st i ps)) (zip (call_indices st) pss))"

lemma restore_frames_effect:
  assumes "fold_res (\<lambda>(i, ps). restore_values slack i (B i) (T i ps)) ips (fs, m) = Inr (gs, n)"
    and "\<And>i ps. (i, ps) \<in> set ips \<Longrightarrow> i < length fs" and "distinct (map fst ips)"
  shows "region_cells.wr_all (concat (map (\<lambda>(i, ps). direct_cells slack (B i) (T i ps)) ips)) m = Inr n \<and>
    length gs = length fs \<and>
    (\<forall>(i, ps) \<in> set ips. gs ! i = (fs ! i)\<lparr>registers := register_updates slack (T i ps) (registers (fs ! i))\<rparr>) \<and>
    (\<forall>i. i \<notin> fst ` set ips \<longrightarrow> gs ! i = fs ! i)"
  using assms
proof (induction ips arbitrary: fs m)
  case Nil
  then show ?case by simp
next
  case (Cons ip ips)
  obtain i ps where ip: "ip = (i, ps)" by (cases ip)
  from Cons.prems(1) obtain hs k where h: "restore_values slack i (B i) (T i ps) (fs, m) = Inr (hs, k)"
    and r: "fold_res (\<lambda>(i, ps). restore_values slack i (B i) (T i ps)) ips (hs, k) = Inr (gs, n)"
    by (auto simp: ip bind_res_Inr_iff)
  have i: "i < length fs" using Cons.prems(2) ip by auto
  note e = restore_values_effect [OF h i]
  have nin: "i \<notin> fst ` set ips" using Cons.prems(3) ip by simp
  have ih: "region_cells.wr_all (concat (map (\<lambda>(i, ps). direct_cells slack (B i) (T i ps)) ips)) k = Inr n \<and>
    length gs = length hs \<and>
    (\<forall>(i, ps) \<in> set ips. gs ! i = (hs ! i)\<lparr>registers := register_updates slack (T i ps) (registers (hs ! i))\<rparr>) \<and>
    (\<forall>i. i \<notin> fst ` set ips \<longrightarrow> gs ! i = hs ! i)"
    using r e Cons.prems(2,3) by (intro Cons.IH) auto
  have other: "hs ! j = fs ! j" if "j \<noteq> i" for j using that e by simp
  have "gs ! j = (fs ! j)\<lparr>registers := register_updates slack (T j qs) (registers (fs ! j))\<rparr>"
    if j: "(j, qs) \<in> set ips" for j qs
  proof -
    have "j \<noteq> i" using nin j by force
    then show ?thesis using ih j other by auto
  qed
  moreover have "gs ! i = (fs ! i)\<lparr>registers := register_updates slack (T i ps) (registers (fs ! i))\<rparr>"
    using ih e i nin by simp
  moreover have "gs ! j = fs ! j" if "j \<notin> fst ` set (ip # ips)" for j
    using ih other that by (auto simp: ip)
  moreover have "length gs = length fs" using ih e by simp
  moreover have "region_cells.wr_all (concat (map (\<lambda>(i, ps). direct_cells slack (B i) (T i ps)) (ip # ips))) m = Inr n"
    using ih e by (simp add: ip region_cells.wr_all_append)
  ultimately show ?case by (auto simp: ip)
qed

text \<open>
  The specification of the transfer of the values \<open>pss\<close>: the cells are written, each frame
  that makes a call gets its registers, and nothing else changes.
\<close>

definition restored :: "slack \<Rightarrow> stack_map \<Rightarrow> call_stack_state \<Rightarrow> (u8 list \<times> u8 list) list list \<Rightarrow> mem \<Rightarrow>
    call_stack_state \<Rightarrow> mem \<Rightarrow> bool" where
  "restored slack sm st pss m st' m' \<longleftrightarrow>
     region_cells.wr_all (all_cells slack sm st pss) m = Inr m' \<and>
     depth st' = depth st \<and> length (frames st') = length (frames st) \<and>
     (\<forall>i < length (frames st). frames st' ! i = (if Suc i < length (frames st)
        then (frames st ! i)\<lparr>registers := register_updates slack (transfers sm st i (pss ! i)) (registers (frames st ! i))\<rparr>
        else frames st ! i))"

lemma restore_unopt_stack_effect:
  assumes st: "state_ok st"
    and ok: "transfers_ok sm st"
    and run: "restore_unopt_stack slack sm st m = Inr (st', m')"
  shows "\<exists>pss. map_res (frame_pairs slack m sm st) (call_indices st) = Inr pss \<and>
    restored slack sm st pss m st' m'"
proof -
  let ?is = "call_indices st"
  from run restore_unopt_stack_transfer [OF st ok, of slack m] obtain pss gs where
    pss: "map_res (frame_pairs slack m sm st) ?is = Inr pss"
    and f: "fold_res (\<lambda>(i, ps). restore_values slack i (bp (frames st ! i)) (transfers sm st i ps))
      (zip ?is pss) (frames st, m) = Inr (gs, m')"
    and st': "st' = st\<lparr>frames := gs\<rparr>"
    by (auto simp: bind_res_Inr_iff transfers_def)
  have len: "length pss = length ?is" using pss by (rule map_res_length)
  have n: "length ?is = length (frames st) - 1" and at: "?is ! i = i" if "i < length ?is" for i
    using st that by (auto simp: call_indices_def state_ok_def)
  have d: "unat (depth st) = length (frames st)" using st by (simp add: state_ok_def)
  have e: "region_cells.wr_all (concat (map (\<lambda>(i, ps). direct_cells slack (bp (frames st ! i)) (transfers sm st i ps))
        (zip ?is pss))) m = Inr m' \<and> length gs = length (frames st) \<and>
    (\<forall>(i, ps) \<in> set (zip ?is pss). gs ! i = (frames st ! i)\<lparr>registers :=
       register_updates slack (transfers sm st i ps) (registers (frames st ! i))\<rparr>) \<and>
    (\<forall>i. i \<notin> fst ` set (zip ?is pss) \<longrightarrow> gs ! i = frames st ! i)"
    using f by (rule restore_frames_effect)
      (auto simp: len call_indices_less d call_indices_def dest!: set_zip_leftD)
  have "frames st' ! i = (frames st ! i)\<lparr>registers :=
      register_updates slack (transfers sm st i (pss ! i)) (registers (frames st ! i))\<rparr>"
    if "Suc i < length (frames st)" for i
  proof -
    have i: "i < length ?is" using that by (simp add: call_indices_def d)
    have "zip ?is pss ! i = (i, pss ! i)" using i len by (simp add: at)
    then have "(i, pss ! i) \<in> set (zip ?is pss)" using i len by (metis length_zip min.idem nth_mem)
    then show ?thesis using e st' by auto
  qed
  moreover have "frames st' ! i = frames st ! i" if "\<not> Suc i < length (frames st)" for i
  proof -
    have "i \<notin> fst ` set (zip ?is pss)"
      using that by (auto simp: call_indices_less d dest!: set_zip_leftD)
    then show ?thesis using e st' by simp
  qed
  moreover have "depth st' = depth st" "length (frames st') = length (frames st)" using e by (simp_all add: st')
  moreover have "region_cells.wr_all (all_cells slack sm st pss) m = Inr m'" using e by (simp add: all_cells_def)
  ultimately show ?thesis using pss by (simp add: restored_def)
qed

definition cells_apart :: "((u64 \<times> nat) \<times> u8 list) list \<Rightarrow> bool" where
  "cells_apart cs \<longleftrightarrow> list_all (\<lambda>c. list_all (\<lambda>d. c = d \<or>
     apart (fst (fst c)) (snd (fst c)) (fst (fst d)) (snd (fst d))) cs) cs"

lemma direct_value_cell:
  assumes pair: "location_pair slack m sm r regs a j = Inr (v, s)"
    and k: "k < length ls" "k < length ps" "ls ! k = loc" "ps ! k = (v, s)"
    and direct: "location_type_of (loc_kind loc) = Some DIRECT"
  shows "((b + scast (loc_offset loc), length v), v) \<in> set (direct_cells slack b (zip ls ps))"
proof -
  have "(loc, v, s) \<in> set (zip ls ps)" using k by (force simp: set_zip)
  moreover have "unat (from_bytes s :: u64) = length v" using length_location_pair [OF pair] by simp
  ultimately show ?thesis using direct by (force simp: direct_cells_def)
qed

lemma all_cells_fit: "((a, n), bs) \<in> set (all_cells slack sm st pss) \<Longrightarrow> length bs = n \<and> n \<le> 2 ^ 64"
proof -
  assume "((a, n), bs) \<in> set (all_cells slack sm st pss)"
  then obtain s :: "u8 list" where "n = unat (from_bytes s :: u64)" "length bs = n"
    by (auto simp: all_cells_def direct_cells_def split: if_splits)
  then show ?thesis using unat_u64_less [of "from_bytes s"] by simp
qed

text \<open>
  A value whose location in the unoptimized record is on the stack is there afterwards, at
  its offset from the base pointer of the frame.
\<close>

lemma restored_direct_value:
  assumes st: "state_ok st"
    and ok: "transfers_ok sm st"
    and run: "restore_unopt_stack slack sm st m = Inr (st', m')"
    and pss: "map_res (frame_pairs slack m sm st) (call_indices st) = Inr pss"
    and sep: "cells_apart (all_cells slack sm st pss)"
    and i: "Suc i < length (frames st)" and k: "k < length (pss ! i)" "pss ! i ! k = (v, s)"
    and loc: "loc = unopt_locations sm (frames st ! i) ! k" "location_type_of (loc_kind loc) = Some DIRECT"
  shows "load_bytes m' (bp (frames st ! i) + scast (loc_offset loc)) (length v) = Inr v"
proof -
  have w: "region_cells.wr_all (all_cells slack sm st pss) m = Inr m'"
    using restore_unopt_stack_effect [OF st ok run] pss by (auto simp: restored_def)
  have d: "unat (depth st) = length (frames st)" using st by (simp add: state_ok_def)
  have ix: "i < length (call_indices st)" "call_indices st ! i = i"
    using i by (auto simp: call_indices_def d)
  have len: "length pss = length (call_indices st)" using pss by (rule map_res_length)
  have fp: "frame_pairs slack m sm st i = Inr (pss ! i)"
    using list_all2_nthD [OF pss [unfolded map_res_Inr_iff] ix(1)] ix(2) by simp
  then have ps: "map_res (location_pair slack m sm (real_record (frames st ! i)) (registers (frames st ! i))
      (real_bp (frames st ! Suc i))) (pair_indices (num_locations (real_record (frames st ! i)))) = Inr (pss ! i)"
    using i by (simp add: frame_pairs_def)
  have kl: "k < length (pair_indices (num_locations (real_record (frames st ! i))))"
    using map_res_length [OF ps] k(1) by simp
  have pair: "location_pair slack m sm (real_record (frames st ! i)) (registers (frames st ! i))
      (real_bp (frames st ! Suc i)) (pair_indices (num_locations (real_record (frames st ! i))) ! k) = Inr (v, s)"
    using list_all2_nthD [OF ps [unfolded map_res_Inr_iff] kl] k(2) by simp
  have ul: "k < length (unopt_locations sm (frames st ! i))"
    using transfers_okD [OF ok i] kl by (auto simp: unopt_locations_def elim!: twin_countedE dest!: transfer_ok_counted)
  have "((bp (frames st ! i) + scast (loc_offset loc), length v), v)
      \<in> set (direct_cells slack (bp (frames st ! i)) (transfers sm st i (pss ! i)))"
    unfolding transfers_def by (rule direct_value_cell [OF pair ul k(1) loc(1) [symmetric] k(2) loc(2)])
  moreover have "(i, pss ! i) \<in> set (zip (call_indices st) pss)"
    using ix len by (force simp: set_zip)
  ultimately have c: "((bp (frames st ! i) + scast (loc_offset loc), length v), v) \<in> set (all_cells slack sm st pss)"
    by (force simp: all_cells_def)
  have "(case (bp (frames st ! i) + scast (loc_offset loc), length v) of (a, n) \<Rightarrow> load_bytes m' a n) = Inr v"
    using w c
  proof (rule region_cells.rd_wr_all_set)
    fix a w assume "(a, w) \<in> set (all_cells slack sm st pss)"
    then show "(case a of (a, n) \<Rightarrow> \<lambda>bs. length bs = n \<and> n \<le> 2 ^ 64) w"
      by (cases a) (auto dest: all_cells_fit)
  next
    fix c d assume "c \<in> set (all_cells slack sm st pss)" "d \<in> set (all_cells slack sm st pss)" "c \<noteq> d"
    then show "(case fst c of (a, n) \<Rightarrow> \<lambda>(b, k). apart a n b k) (fst d)"
      using sep by (auto simp: cells_apart_def list_all_iff split_beta)
  qed
  then show ?thesis by simp
qed

end
