(* ===== verification/Guard.thy ===== *)
theory Guard
  imports Inlining Restack Live_Values
begin

unbundle bit_operations_syntax

text \<open>
  \<open>guard.c\<close>: the guard failure handler \<open>__guard_failure\<close> and \<open>jump_inlined\<close>, which moves
  the rebuilt frames onto the stack. What the handler leaves to \<open>jump.s\<close> is the label it
  jumps to, the global variables and the memory.

  What the handler takes from outside is the record \<open>env\<close>: the operating system, the
  frames libunwind reports, its own return address, the bytes behind objects that are read
  past their end, the contents of uninitialised frames, whether \<open>realloc\<close> moves the frame
  array, the block that \<open>malloc\<close> gives for a size, and the stack that recursive calls of
  \<open>jump_inlined\<close> use.
\<close>

section \<open>State\<close>

text \<open>The global variables that \<open>jump.s\<close> reads.\<close>

record globals =
  g_addr :: u64
  g_r :: "u64 list"
  g_restored_bp :: u64
  g_restored_stack_size :: u64
  g_restored_start_addr :: u64
  g_restored_total_size :: u64

datatype jump_label = Jmp_to_addr | Restore_inlined

text \<open>
  \<open>env_rsp\<close> is the stack pointer in the first call of \<open>jump_inlined\<close>; \<open>env_call_image\<close>
  gives the bytes that a recursive call made at a stack pointer leaves below it (return
  address, saved registers, copies of the arguments); their number is what the stack
  pointer goes down by. \<open>env_fuel\<close> bounds the calls.
\<close>

record env =
  env_os :: os
  env_cursor :: "unw_frame list"
  env_ret_addr :: u64
  env_slack :: slack
  env_junk :: "nat \<Rightarrow> frame"
  env_restored_junk :: "nat \<Rightarrow> frame"
  env_moves :: "nat \<Rightarrow> bool"
  env_malloc :: "u64 \<Rightarrow> u64"
  env_rsp :: u64
  env_call_image :: "u64 \<Rightarrow> u8 list"
  env_fuel :: nat

section \<open>jump_inlined\<close>

text \<open>The body of the loop: \<open>cur_bp\<close> moves up and is what the frame below saved.\<close>

definition relink_frame :: "frame list \<Rightarrow> nat \<Rightarrow> u64 \<times> mem \<Rightarrow> (u64 \<times> mem) res" where
  "relink_frame fs i = (\<lambda>(cur_bp, m).
     bind_res (index_at fs i) (\<lambda>fr.
     let cur_bp = cur_bp + (frame_size fr + 8) in
     bind_res (index_at fs (i - 1)) (\<lambda>prev.
     bind_res (store_u64 m (bp prev) cur_bp) (\<lambda>m.
     Inr (cur_bp, m)))))"

text \<open>The \<open>else\<close> branch, up to the jump.\<close>

definition place_stack :: "call_stack_state \<Rightarrow> restored_segment \<Rightarrow> u64 \<Rightarrow> mem \<Rightarrow> globals \<Rightarrow>
    (globals \<times> mem) res" where
  "place_stack st seg main_bp m g =
     bind_res (index_at (frames st) 0) (\<lambda>first.
     let first_size = frame_size first - 8;
         rbp = main_bp + first_size in
     bind_res (fold_res (relink_frame (frames st)) [1..<unat (depth st) - 1] (rbp, m)) (\<lambda>(cur_bp, m).
     bind_res (memcpy m main_bp (seg_start_addr seg) (unat (seg_total_size seg))) (\<lambda>m.
     bind_res (memset m (seg_start_addr seg) 0 (unat (seg_total_size seg))) (\<lambda>m.
     Inr (g\<lparr>g_restored_stack_size := first_size, g_restored_bp := rbp,
             g_restored_start_addr := seg_start_addr seg,
             g_restored_total_size := seg_total_size seg\<rparr>, m)))))"

fun jump_inlined :: "nat \<Rightarrow> (u64 \<Rightarrow> u8 list) \<Rightarrow> call_stack_state \<Rightarrow> restored_segment \<Rightarrow> u64 \<Rightarrow> mem \<Rightarrow>
    globals \<Rightarrow> (globals \<times> mem) res" where
  "jump_inlined 0 call_image st seg real_rsp m g = Inl NoReturn"
| "jump_inlined (Suc n) call_image st seg real_rsp m g =
     bind_res (index_at (frames st) (unat (depth st - 1))) (\<lambda>main_frame.
     bind_res (index_at (registers main_frame) (unw_num RBP)) (\<lambda>main_bp.
     if main_bp - seg_total_size seg < real_rsp then
       let bs = call_image real_rsp; rsp = real_rsp - of_nat (length bs) in
       bind_res (store_bytes m rsp bs) (\<lambda>m. jump_inlined n call_image st seg rsp m g)
     else place_stack st seg main_bp m g))"

section \<open>The frame of the failed guard\<close>

definition make_fail_frame ::
  "stack_map_record \<Rightarrow> stack_size_record \<Rightarrow> stack_size_record \<Rightarrow> frame \<Rightarrow> frame" where
  "make_fail_frame opt_rec opt_size_rec unopt_size_rec first =
     (hd (alloc_empty_frames 1))\<lparr>frame_record := opt_rec, real_record := opt_rec,
       frame_size := stack_size unopt_size_rec, real_bp := real_bp first, bp := real_bp first,
       registers := take 16 (registers first),
       ret_addr := ucast (instr_offset opt_rec) + fun_addr opt_size_rec\<rparr>"

text \<open>
  Putting it in front of the state: alone when the guard's call returns into the function
  of the optimized record, and otherwise with the frames of the calls that were inlined
  between the guard and the function that is really running. Returns the state and
  \<open>inlined\<close>.
\<close>

definition insert_fail_frame :: "env \<Rightarrow> stack_map \<Rightarrow> stack_map_record \<Rightarrow> stack_size_record \<Rightarrow>
    stack_size_record \<Rightarrow> call_stack_state \<times> bool \<Rightarrow> (call_stack_state \<times> bool) res" where
  "insert_fail_frame e sm opt_rec opt_size_rec unopt_size_rec = (\<lambda>(st, inl).
     bind_res (get_sym_end (env_os e) (fun_addr opt_size_rec)) (\<lambda>end_addr.
     bind_res (index_at (frames st) 0) (\<lambda>first.
     let callback_ret_addr = env_ret_addr e;
         fail_frame = make_fail_frame opt_rec opt_size_rec unopt_size_rec first in
     if callback_ret_addr \<ge> fun_addr opt_size_rec \<and> callback_ret_addr < end_addr then
       bind_res (insert_frames st 0 [fail_frame] 1) (\<lambda>st. Inr (st, inl))
     else
       bind_res (get_sym_start (env_os e) callback_ret_addr) (\<lambda>s.
       bind_res (deref (stmap_get_size_record_in_func sm s)) (\<lambda>real_size_rec.
       bind_res (get_next_patchpoint sm callback_ret_addr real_size_rec) (\<lambda>next_ppid.
       bind_res (get_restored_state (env_os e) sm (env_restored_junk e) callback_ret_addr next_ppid) (\<lambda>restored.
       bind_res (insert_frames st 0 (map (adopt (bp fail_frame) (registers fail_frame)) (frames restored))
         (unat (depth restored))) (\<lambda>st.
       bind_res (insert_frames st 0 [fail_frame\<lparr>inlined := True\<rparr>] 1) (\<lambda>st.
       Inr (st, True))))))))))"

section \<open>__guard_failure\<close>

text \<open>From the state of the optimized call stack to the jump.\<close>

definition resume_unopt :: "env \<Rightarrow> stack_map \<Rightarrow> stack_map_record \<Rightarrow> stack_size_record \<Rightarrow>
    call_stack_state \<times> bool \<Rightarrow> mem \<Rightarrow> globals \<Rightarrow> (jump_label \<times> globals \<times> mem) res" where
  "resume_unopt e sm unopt_rec unopt_size_rec = (\<lambda>(st, inl) m g.
     bind_res
       (if inl then
          bind_res (get_total_stack_size st) (\<lambda>sz.
          let seg = \<lparr>seg_start_addr = env_malloc e sz, seg_total_size = sz\<rparr> in
          bind_res (insert_real_addresses st seg m) (\<lambda>(st, m). Inr (st, Some seg, m)))
        else Inr (st, None, m)) (\<lambda>(st, seg, m).
     bind_res (restore_unopt_stack (env_slack e) sm st m) (\<lambda>(st, m).
     bind_res (restore_register_state st) (\<lambda>regs.
     let g = g\<lparr>g_r := regs, g_addr := site_addr unopt_size_rec unopt_rec\<rparr> in
     case seg of
       Some seg \<Rightarrow>
         bind_res (jump_inlined (env_fuel e) (env_call_image e) st seg (env_rsp e) m g) (\<lambda>(g, m).
         Inr (Restore_inlined, g, m))
     | None \<Rightarrow> Inr (Jmp_to_addr, g, m)))))"

text \<open>The handler once the four records are known.\<close>

definition handle_failure :: "env \<Rightarrow> stack_map \<Rightarrow> stack_map_record \<Rightarrow> stack_map_record \<Rightarrow>
    stack_size_record \<Rightarrow> stack_size_record \<Rightarrow> mem \<Rightarrow> globals \<Rightarrow> (jump_label \<times> globals \<times> mem) res" where
  "handle_failure e sm unopt_rec opt_rec unopt_size_rec opt_size_rec m g =
     bind_res (get_call_stack_state (env_junk e) (env_cursor e) m) (\<lambda>st.
     bind_res (collect_map_records (env_os e) sm st m) (\<lambda>(st, m).
     bind_res (collect_inlined_frames (env_os e) sm (env_restored_junk e) (env_moves e) st) (\<lambda>si.
     bind_res (insert_fail_frame e sm opt_rec opt_size_rec unopt_size_rec si) (\<lambda>si.
     resume_unopt e sm unopt_rec unopt_size_rec si m g))))"

definition guard_failure :: "env \<Rightarrow> u64 \<Rightarrow> mem \<Rightarrow> globals \<Rightarrow> (jump_label \<times> globals \<times> mem) res" where
  "guard_failure e sm_id m g =
     bind_res (get_binary_path (env_os e)) (\<lambda>binary_path.
     bind_res (get_addr (env_os e) binary_path ''.llvm_stackmaps'') (\<lambda>stack_map_addr.
     if stack_map_addr = 0 then Inl (Errx ''.llvm_stackmaps section not found. Exiting.'')
     else
       bind_res (stmap_create m stack_map_addr) (\<lambda>sm.
       case (stmap_get_map_record sm (NOT sm_id), stmap_get_map_record sm sm_id) of
         (Some unopt_rec, Some opt_rec) \<Rightarrow>
           (case (stmap_get_size_record sm (rec_index unopt_rec), stmap_get_size_record sm (rec_index opt_rec)) of
              (Some unopt_size_rec, Some opt_size_rec) \<Rightarrow>
                handle_failure e sm unopt_rec opt_rec unopt_size_rec opt_size_rec m g
            | _ \<Rightarrow> Inl (Errx ''Record not found.''))
       | _ \<Rightarrow> Inl (Errx ''Stack map record not found. Exiting.''))))"

section \<open>Moving the new stack into place\<close>

text \<open>The frames have the base pointers of the layout that starts at \<open>start\<close>.\<close>

definition laid_out :: "u64 \<Rightarrow> frame list \<Rightarrow> nat \<Rightarrow> bool" where
  "laid_out start fs k \<longleftrightarrow> list_all (\<lambda>i. bp (fs ! i) = new_bp start fs i) [0..<k]"

lemma laid_outD: "laid_out start fs k \<Longrightarrow> i < k \<Longrightarrow> bp (fs ! i) = new_bp start fs i"
  by (simp add: laid_out_def list_all_iff)

text \<open>The cells the loop of \<open>jump_inlined\<close> writes: saved base pointers of the final place.\<close>

definition relink_cells :: "u64 \<Rightarrow> u64 \<Rightarrow> frame list \<Rightarrow> nat \<Rightarrow> (u64 \<times> u64) list" where
  "relink_cells start main_bp fs k = map (\<lambda>i. (new_bp start fs i, new_bp main_bp fs (Suc i))) [0..<k - 1]"

lemma relink_loop:
  assumes sz: "sizes_ok fs" and k: "k < length fs" and lay: "laid_out start fs k"
    and map: "mapped m start (slot_end fs (k - 1))" and j: "1 \<le> j" "j \<le> k"
  shows "\<exists>t. fold_res (relink_frame fs) [1..<j] (new_bp main_bp fs 0, m) = Inr (new_bp main_bp fs (j - 1), t) \<and>
    word_cells.wr_all (relink_cells start main_bp fs j) m = Inr t"
  using j
proof (induction j rule: dec_induct)
  case base
  then show ?case by (simp add: relink_cells_def)
next
  case (step j)
  then obtain t where t: "fold_res (relink_frame fs) [1..<j] (new_bp main_bp fs 0, m) = Inr (new_bp main_bp fs (j - 1), t)"
    and w: "word_cells.wr_all (relink_cells start main_bp fs j) m = Inr t" by auto
  have j: "Suc (j - 1) = j" "Suc j \<le> k" using step by auto
  have l: "Suc (j - 1) < length fs" using step k by auto
  have cur: "new_bp main_bp fs (j - 1) + (frame_size (fs ! j) + 8) = new_bp main_bp fs j"
    using new_bp_Suc [OF sz l, of main_bp] j(1) by simp
  have "slot_end fs (j - 1) \<le> slot_end fs (k - 1)" using j k by (intro slot_end_mono) auto
  moreover have "16 \<le> slot_end fs (j - 1)" by (rule slot_end_ge [OF sz l])
  ultimately have "mapped m (new_bp start fs (j - 1)) 8"
    unfolding new_bp_def by (intro mapped_sub [OF map]) auto
  then have "mapped t (new_bp start fs (j - 1)) 8" by (simp add: word_cells.wr_all_ok [OF w])
  then obtain u where u: "store_u64 t (new_bp start fs (j - 1)) (new_bp main_bp fs j) = Inr u"
    by (auto simp: store_u64_mapped)
  have bp: "bp (fs ! (j - 1)) = new_bp start fs (j - 1)" using j by (intro laid_outD [OF lay]) auto
  have "relink_frame fs j (new_bp main_bp fs (j - 1), t) = Inr (new_bp main_bp fs j, u)"
    using l j cur u bp by (simp add: relink_frame_def Let_def)
  moreover have "[1..<Suc j] = [1..<j] @ [j]" using step by simp
  moreover have "relink_cells start main_bp fs (Suc j) = relink_cells start main_bp fs j @
      [(new_bp start fs (j - 1), new_bp main_bp fs j)]"
    using step j(1) by (cases j) (auto simp: relink_cells_def)
  ultimately show ?case using t w u by (simp add: fold_res_append word_cells.wr_all_append)
qed

text \<open>
  What the segment holds after the loop: the return addresses it had, and as saved base
  pointers those of the final place.
\<close>

lemma relink_loop_reads:
  assumes sz: "sizes_ok fs" and k: "k < length fs" "1 \<le> k" and lay: "laid_out start fs k"
    and n: "slot_end fs (k - 1) \<le> 2 ^ 64" and map: "mapped m start (slot_end fs (k - 1))"
  shows "\<exists>t. fold_res (relink_frame fs) [1..<k] (new_bp main_bp fs 0, m) = Inr (new_bp main_bp fs (k - 1), t) \<and>
    (\<forall>a b. mapped t a b = mapped m a b) \<and>
    (\<forall>i < k. load_u64 t (new_bp start fs i + 8) = load_u64 m (new_bp start fs i + 8)) \<and>
    (\<forall>i. Suc i < k \<longrightarrow> load_u64 t (new_bp start fs i) = Inr (new_bp main_bp fs (Suc i)))"
proof -
  from relink_loop [OF sz k(1) lay map k(2) order.refl] obtain t where
    t: "fold_res (relink_frame fs) [1..<k] (new_bp main_bp fs 0, m) = Inr (new_bp main_bp fs (k - 1), t)"
    and w: "word_cells.wr_all (relink_cells start main_bp fs k) m = Inr t" by blast
  have s: "Suc i < length fs" if "i < k" for i using that k by simp
  note off = new_bp_offset [OF sz s]
  have "load_u64 t (new_bp start fs i + 8) = load_u64 m (new_bp start fs i + 8)" if i: "i < k" for i
  proof (rule word_cells.rd_wr_all_other [OF w])
    fix a v assume "(a, v) \<in> set (relink_cells start main_bp fs k)"
    then obtain j where "j < k - 1" and j2: "a = new_bp start fs j" by (auto simp: relink_cells_def)
    then have j: "j < k" "a = new_bp start fs j" by auto
    show "True \<and> apart a 8 (new_bp start fs i + 8) 8"
      unfolding j(2) off(1) [OF j(1)] off(2) [OF i] using slots_apart [OF sz k(1) n j(1) i] by simp
  qed
  moreover have "load_u64 t (new_bp start fs i) = Inr (new_bp main_bp fs (Suc i))" if i: "Suc i < k" for i
  proof (rule word_cells.rd_wr_all_set [OF w])
    show "(new_bp start fs i, new_bp main_bp fs (Suc i)) \<in> set (relink_cells start main_bp fs k)"
      using i by (auto simp: relink_cells_def)
    fix c d assume c: "c \<in> set (relink_cells start main_bp fs k)" and d: "d \<in> set (relink_cells start main_bp fs k)"
      and ne: "c \<noteq> d"
    from c obtain j where "j < k - 1" and j2: "c = (new_bp start fs j, new_bp main_bp fs (Suc j))"
      by (auto simp: relink_cells_def)
    then have j: "j < k" "c = (new_bp start fs j, new_bp main_bp fs (Suc j))" by auto
    from d obtain l where "l < k - 1" and l2: "d = (new_bp start fs l, new_bp main_bp fs (Suc l))"
      by (auto simp: relink_cells_def)
    then have l: "l < k" "d = (new_bp start fs l, new_bp main_bp fs (Suc l))" by auto
    show "apart (fst c) 8 (fst d) 8"
      using slots_apart [OF sz k(1) n j(1) l(1), of False False] ne
      by (auto simp: j(2) l(2) off [OF j(1)] off [OF l(1)])
  qed simp
  moreover have "mapped t a b = mapped m a b" for a b using w by (rule word_cells_mapped)
  ultimately show ?thesis using t by blast
qed

text \<open>
  The condition under which the new stack can be moved to \<open>main_bp\<close>: it is laid out in the
  segment, segment and target are mapped and share no address.
\<close>

definition placeable :: "mem \<Rightarrow> call_stack_state \<Rightarrow> restored_segment \<Rightarrow> u64 \<Rightarrow> bool" where
  "placeable m st seg main_bp \<longleftrightarrow>
     (let fs = frames st; k = length fs - 1; n = unat (seg_total_size seg) in
      state_ok st \<and> 2 \<le> length fs \<and> sizes_ok fs \<and> laid_out (seg_start_addr seg) fs k \<and>
      n = slot_end fs (k - 1) \<and> mapped m (seg_start_addr seg) n \<and> mapped m main_bp n \<and>
      apart (seg_start_addr seg) n main_bp n)"

text \<open>The base pointers and return addresses of a layout, first frame first.\<close>

definition layout_chain :: "mem \<Rightarrow> u64 \<Rightarrow> u64 \<Rightarrow> frame list \<Rightarrow> (u64 \<times> u64) list" where
  "layout_chain m start base fs = map (\<lambda>i. (new_bp base fs i,
     case load_u64 m (new_bp start fs i + 8) of Inr ra \<Rightarrow> ra | Inl _ \<Rightarrow> 0)) [0..<length fs - 1]"

lemma slot_mapped:
  assumes "sizes_ok fs" and "k < length fs" and "i < k" and "mapped m start (slot_end fs (k - 1))"
  shows "mapped m (new_bp start fs i + 8) 8"
  using assms cell_offset_inside [OF assms(1-3), of True]
  by (simp add: new_bp_offset(2) mapped_sub)

lemma place_stack_chain:
  assumes "placeable m st seg main_bp"
  shows "\<exists>m'. place_stack st seg main_bp m g =
      Inr (g\<lparr>g_restored_stack_size := frame_size (frames st ! 0) - 8,
             g_restored_bp := new_bp main_bp (frames st) 0,
             g_restored_start_addr := seg_start_addr seg,
             g_restored_total_size := seg_total_size seg\<rparr>, m') \<and>
    chain_walk m' (new_bp main_bp (frames st) 0) (length (frames st) - 1) =
      Inr (layout_chain m (seg_start_addr seg) main_bp (frames st))"
proof -
  let ?fs = "frames st" and ?start = "seg_start_addr seg" and ?n = "unat (seg_total_size seg)"
  define k where "k = length ?fs - 1"
  have st: "state_ok st" and l: "2 \<le> length ?fs" and sz: "sizes_ok ?fs" and lay: "laid_out ?start ?fs k"
    and n: "?n = slot_end ?fs (k - 1)" and map: "mapped m ?start ?n" "mapped m main_bp ?n"
    and sep: "apart ?start ?n main_bp ?n"
    using assms unfolding placeable_def Let_def k_def by blast+
  have k: "k < length ?fs" "1 \<le> k" using l by (auto simp: k_def)
  have n64: "slot_end ?fs (k - 1) < 2 ^ 64" using unat_u64_less [of "seg_total_size seg"] n by simp
  have d: "unat (depth st) - 1 = k" using st by (simp add: state_ok_def k_def)
  from relink_loop_reads [OF sz k lay order.strict_implies_order [OF n64] map(1) [unfolded n], of main_bp] obtain t where
    t: "fold_res (relink_frame ?fs) [1..<k] (new_bp main_bp ?fs 0, m) = Inr (new_bp main_bp ?fs (k - 1), t)"
    and mt: "\<And>a b. mapped t a b = mapped m a b"
    and rets: "\<And>i. i < k \<Longrightarrow> load_u64 t (new_bp ?start ?fs i + 8) = load_u64 m (new_bp ?start ?fs i + 8)"
    and bps: "\<And>i. Suc i < k \<Longrightarrow> load_u64 t (new_bp ?start ?fs i) = Inr (new_bp main_bp ?fs (Suc i))" by blast
  obtain u where u: "memcpy t main_bp ?start ?n = Inr u"
    using memcpy_defined [of t ?start ?n main_bp] map by (auto simp: mt)
  have n64': "?n \<le> 2 ^ 64" using n64 n by simp
  note cp = memcpy_load [OF u n64']
  obtain v where v: "memset u ?start 0 ?n = Inr v"
    using memset_defined [of u ?start ?n 0] map by (auto simp: cp(3) mt)
  have s: "Suc i < length ?fs" if "i < k" for i using that k by simp
  have move: "load_u64 v (main_bp + of_nat (cell_offset ?fs (b, i))) = load_u64 t (?start + of_nat (cell_offset ?fs (b, i)))"
    if i: "i < k" for b i
  proof -
    have o: "cell_offset ?fs (b, i) + 8 \<le> ?n" using cell_offset_inside [OF sz k(1) i] n by simp
    have "apart (main_bp + of_nat (cell_offset ?fs (b, i))) 8 ?start ?n"
      using sep o by (intro apart_inside) (auto simp: apart_sym)
    then have "load_u64 v (main_bp + of_nat (cell_offset ?fs (b, i))) = load_u64 u (main_bp + of_nat (cell_offset ?fs (b, i)))"
      by (intro memset_other [OF v]) (simp only: apart_sym)
    also have "\<dots> = load_u64 t (?start + of_nat (cell_offset ?fs (b, i)))" using o by (rule cp(2))
    finally show ?thesis .
  qed
  let ?ra = "\<lambda>i. case load_u64 m (new_bp ?start ?fs i + 8) of Inr ra \<Rightarrow> ra | Inl _ \<Rightarrow> 0"
  have "chain_walk v (new_bp main_bp ?fs 0) k = Inr (map (\<lambda>i. (new_bp main_bp ?fs i, ?ra i)) [0..<0 + k])"
  proof (rule chain_walk_map)
    fix i assume i: "i < 0 + k"
    have "mapped m (new_bp ?start ?fs i + 8) 8"
      using sz k(1) i map(1) by (auto intro: slot_mapped simp: n)
    then obtain ra where "load_u64 m (new_bp ?start ?fs i + 8) = Inr ra"
      using load_bytes_mapped [of m "new_bp ?start ?fs i + 8" 8] by (auto simp: load_u64_def)
    then show "load_u64 v (new_bp main_bp ?fs i + 8) = Inr (?ra i)"
      using move [of i True] rets [of i] i new_bp_offset(2) [OF sz s [of i], symmetric] by simp
  next
    fix i assume "Suc i < 0 + k"
    then show "load_u64 v (new_bp main_bp ?fs i) = Inr (new_bp main_bp ?fs (Suc i))"
      using move [of i False] bps [of i] by (simp add: new_bp_offset [OF sz s])
  qed
  moreover have n0: "main_bp + (frame_size (?fs ! 0) - 8) = new_bp main_bp ?fs 0"
    using new_bp_0 [OF sz] l by simp
  have ix: "index_at ?fs 0 = Inr (?fs ! 0)" using k(1) by (intro index_at_less) linarith
  have "place_stack st seg main_bp m g = Inr (g\<lparr>g_restored_stack_size := frame_size (?fs ! 0) - 8,
      g_restored_bp := new_bp main_bp ?fs 0, g_restored_start_addr := ?start,
      g_restored_total_size := seg_total_size seg\<rparr>, v)"
    using t u v unfolding place_stack_def ix bind_res_simps Let_def n0 d by simp
  ultimately show ?thesis by (simp add: k_def layout_chain_def)
qed

section \<open>Growing the stack\<close>

text \<open>
  The recursion of \<open>jump_inlined\<close> ends when every call takes some stack, at most \<open>w\<close> bytes,
  and the stack is mapped down to \<open>w\<close> bytes below the target.
\<close>

definition main_base :: "call_stack_state \<Rightarrow> u64" where
  "main_base st = registers (last (frames st)) ! unw_num RBP"

lemma depth_pred:
  assumes "state_ok st" and "frames st \<noteq> []"
  shows "unat (depth st - 1) = length (frames st) - 1"
proof -
  have d: "unat (depth st) = length (frames st)" using assms(1) by (simp add: state_ok_def)
  then have "(1 :: u32) \<le> depth st" using assms(2) by (cases "frames st") (simp_all add: word_le_nat_alt)
  then have "unat (depth st - 1) = unat (depth st) - unat (1 :: u32)" by (rule unat_sub)
  then show ?thesis using d by simp
qed

lemma jump_inlined_step:
  assumes "state_ok st" and "frames st \<noteq> []"
  shows "jump_inlined (Suc n) ci st seg rsp m g =
    (if main_base st - seg_total_size seg < rsp
     then bind_res (store_bytes m (rsp - of_nat (length (ci rsp))) (ci rsp))
            (\<lambda>m. jump_inlined n ci st seg (rsp - of_nat (length (ci rsp))) m g)
     else place_stack st seg (main_base st) m g)"
proof -
  have "unw_num RBP < length (registers (last (frames st)))"
    using assms by (auto simp: state_ok_def frame_ok_def list_all_iff)
  moreover have "frames st ! (length (frames st) - 1) = last (frames st)"
    using assms(2) by (simp add: last_conv_nth)
  ultimately show ?thesis
    using assms(2) by (simp add: depth_pred [OF assms] main_base_def Let_def del: unw_num.simps)
qed

lemma jump_inlined_ends:
  assumes st: "state_ok st" "frames st \<noteq> []"
    and w: "\<And>a. 0 < length (ci a) \<and> length (ci a) \<le> w" and target: "t = main_base st - seg_total_size seg"
    and room: "w \<le> unat t" and map: "\<And>x. unat t - w \<le> unat x \<Longrightarrow> x < top_rsp \<Longrightarrow> m x \<noteq> None"
    and "rsp \<le> top_rsp" and "unat t - w \<le> unat rsp" and "unat rsp < unat t + n" and "0 < n"
  shows "\<exists>m'. jump_inlined n ci st seg rsp m g = place_stack st seg (main_base st) m' g \<and>
    (\<forall>x. unat x < unat t - w \<or> top_rsp \<le> x \<longrightarrow> m' x = m x)"
  using map assms(7-10)
proof (induction n arbitrary: rsp m)
  case 0
  then show ?case by simp
next
  case (Suc n)
  show ?case
  proof (cases "t < rsp")
    case False
    then show ?thesis by (auto simp: jump_inlined_step [OF st] target simp del: jump_inlined.simps)
  next
    case True
    let ?bs = "ci rsp"
    let ?rsp = "rsp - of_nat (length ?bs)"
    have tr: "unat t < unat rsp" using True by (simp add: word_less_nat_alt)
    have len: "0 < length ?bs" "length ?bs \<le> w" using w by auto
    have small: "length ?bs < 2 ^ 64" using len(2) room unat_u64_less [of t] by linarith
    have "(of_nat (length ?bs) :: u64) \<le> rsp"
      using tr room len(2) unat_of_nat_u64 [OF small] by (simp add: word_le_nat_alt)
    then have r: "unat ?rsp = unat rsp - length ?bs"
      by (simp only: unat_sub unat_of_nat_u64 [OF small])
    have addr: "unat (?rsp + of_nat i) = unat ?rsp + i" if "i < length ?bs" for i
    proof -
      have "unat ?rsp + i < 2 ^ 64" using that r tr room len(2) unat_u64_less [of rsp] by linarith
      moreover have "unat (of_nat i :: u64) = i" using that small by (intro unat_of_nat_u64) simp
      ultimately show ?thesis by (simp add: unat_word_ariths)
    qed
    have "mapped m ?rsp (length ?bs)"
      unfolding mapped_iff
    proof (intro allI impI)
      fix i assume i: "i < length ?bs"
      have "unat (?rsp + of_nat i) < unat rsp" using addr [OF i] i r tr room len(2) by linarith
      then have "?rsp + of_nat i < top_rsp" using Suc.prems(2) by (simp add: word_less_nat_alt word_le_nat_alt)
      moreover have "unat t - w \<le> unat (?rsp + of_nat i)" using addr [OF i] r tr len(2) by linarith
      ultimately show "m (?rsp + of_nat i) \<noteq> None" using Suc.prems(1) by blast
    qed
    then have s: "store_bytes m ?rsp ?bs = Inr (poke m ?rsp ?bs)" by (rule store_bytes_mapped)
    have outside: "poke m ?rsp ?bs x = m x" if "unat x < unat t - w \<or> top_rsp \<le> x" for x
    proof -
      have "\<not> unat (x - ?rsp) < length ?bs"
      proof
        assume c: "unat (x - ?rsp) < length ?bs"
        have "x = ?rsp + of_nat (unat (x - ?rsp))" by simp
        then have "unat x = unat ?rsp + unat (x - ?rsp)" using addr [OF c] by simp
        then have "unat t - w \<le> unat x" "unat x < unat rsp" using c r tr room len(2) by linarith+
        then show False using that Suc.prems(2) by (auto simp: word_le_nat_alt)
      qed
      then show ?thesis by (simp add: poke_def)
    qed
    have "\<exists>m'. jump_inlined n ci st seg ?rsp (poke m ?rsp ?bs) g = place_stack st seg (main_base st) m' g \<and>
        (\<forall>x. unat x < unat t - w \<or> top_rsp \<le> x \<longrightarrow> m' x = poke m ?rsp ?bs x)"
    proof (rule Suc.IH)
      show "poke m ?rsp ?bs x \<noteq> None" if "unat t - w \<le> unat x" "x < top_rsp" for x
        using Suc.prems(1) [OF that] by (simp add: poke_def)
      show "?rsp \<le> top_rsp" using r Suc.prems(2) by (simp add: word_le_nat_alt)
      show "unat t - w \<le> unat ?rsp" using r tr len(2) by linarith
      show "unat ?rsp < unat t + n" "0 < n" using r tr Suc.prems(4) len by linarith+
    qed
    then show ?thesis using True s outside by (auto simp: jump_inlined_step [OF st] target simp del: jump_inlined.simps)
  qed
qed

section \<open>The handler\<close>

lemma place_stack_globals: "place_stack st seg b m g = Inr (g', m') \<Longrightarrow> g_addr g' = g_addr g \<and> g_r g' = g_r g"
  by (auto simp: place_stack_def bind_res_Inr_iff Let_def)

lemma jump_inlined_globals: "jump_inlined n ci st seg rsp m g = Inr (g', m') \<Longrightarrow> g_addr g' = g_addr g \<and> g_r g' = g_r g"
  by (induction n ci st seg rsp m g rule: jump_inlined.induct)
    (auto simp: bind_res_Inr_iff Let_def dest: place_stack_globals split: if_splits)

lemma resume_unopt_globals:
  assumes "resume_unopt e sm u uf (st, inl) m g = Inr (l, g', m')"
  shows "g_addr g' = site_addr uf u" and "l = (if inl then Restore_inlined else Jmp_to_addr)"
  using assms
  by (auto simp: resume_unopt_def bind_res_Inr_iff Let_def dest!: jump_inlined_globals split: if_splits)

lemma insert_fail_frame_ok:
  assumes st: "state_ok st" and run: "insert_fail_frame e sm r f uf (st, inl) = Inr (st', inl')"
  shows "state_ok st'"
proof -
  from run obtain first where first: "index_at (frames st) 0 = Inr first"
    by (auto simp: insert_fail_frame_def bind_res_Inr_iff)
  have "frame_ok first" using st first by (auto simp: state_ok_def list_all_iff index_at_Inr_iff)
  then have ff: "frame_ok (make_fail_frame r f uf first)"
    "length (registers (make_fail_frame r f uf first)) = 16"
    "frame_ok ((make_fail_frame r f uf first)\<lparr>inlined := True\<rparr>)"
    by (auto simp: frame_ok_def make_fail_frame_def)
  let ?ff = "make_fail_frame r f uf first"
  from run first consider "insert_frames st 0 [?ff] 1 = Inr st'"
    | (inl) res :: call_stack_state and st2 :: call_stack_state where
      "insert_frames st 0 (map (adopt (bp ?ff) (registers ?ff)) (frames res)) (unat (depth res)) = Inr st2"
      "insert_frames st2 0 [?ff\<lparr>inlined := True\<rparr>] 1 = Inr st'"
    by (auto simp: insert_fail_frame_def bind_res_Inr_iff Let_def split: if_splits)
  then show ?thesis
  proof cases
    case 1
    with ff(1) show ?thesis by (intro insert_frames_ok(1) [OF st]) auto
  next
    case inl
    from inl(1) have "state_ok st2" by (rule insert_frames_ok(1) [OF st adopt_ok [OF ff(2)]])
    then show ?thesis by (rule insert_frames_ok(1) [OF _ _ inl(2)]) (simp add: ff(3))
  qed
qed

text \<open>A run that gets to a jump, in its steps; the states on the way are well formed.\<close>

lemma handle_failure_InrD:
  assumes run: "handle_failure e sm u r uf f m g = Inr (l, g', m')" and cur: "length (env_cursor e) < 2 ^ 32"
    and sm: "stmap_ok sm"
  obtains st st2 m2 st3 inl where
    "get_call_stack_state (env_junk e) (env_cursor e) m = Inr st" and "state_ok st"
    and "collect_map_records (env_os e) sm st m = Inr (st2, m2)" and "state_ok st2"
    and "state_ok st3"
    and "resume_unopt e sm u uf (st3, inl) m2 g = Inr (l, g', m')"
proof -
  from run obtain st st2 m2 st3 inl st4 inl4 where
    a: "get_call_stack_state (env_junk e) (env_cursor e) m = Inr st"
    and b: "collect_map_records (env_os e) sm st m = Inr (st2, m2)"
    and c: "collect_inlined_frames (env_os e) sm (env_restored_junk e) (env_moves e) st2 = Inr (st3, inl)"
    and d: "insert_fail_frame e sm r f uf (st3, inl) = Inr (st4, inl4)"
    and r: "resume_unopt e sm u uf (st4, inl4) m2 g = Inr (l, g', m')"
    by (auto simp: handle_failure_def bind_res_Inr_iff)
  have "state_ok st" using a cur by (rule get_call_stack_state_ok)
  moreover from sm b this have "state_ok st2" by (rule collect_map_records_frames(1))
  moreover from this c have "state_ok st3" by (rule collect_inlined_frames_ok)
  then have "state_ok st4" using d by (rule insert_fail_frame_ok)
  ultimately show ?thesis using a b r that by blast
qed

lemma guard_failure_InrD:
  assumes "guard_failure e sm_id m g = Inr (l, g', m')"
  obtains p a sm u r uf f where "get_binary_path (env_os e) = Inr p"
    and "get_addr (env_os e) p ''.llvm_stackmaps'' = Inr a" and "stmap_create m a = Inr sm" and "a \<noteq> 0"
    and "stmap_get_map_record sm (NOT sm_id) = Some u" and "stmap_get_map_record sm sm_id = Some r"
    and "stmap_get_size_record sm (rec_index u) = Some uf" and "stmap_get_size_record sm (rec_index r) = Some f"
    and "handle_failure e sm u r uf f m g = Inr (l, g', m')"
proof -
  from assms obtain p a sm where a: "get_binary_path (env_os e) = Inr p"
    "get_addr (env_os e) p ''.llvm_stackmaps'' = Inr a" "a \<noteq> 0" "stmap_create m a = Inr sm" and
    rest: "(case (stmap_get_map_record sm (NOT sm_id), stmap_get_map_record sm sm_id) of
       (Some u, Some r) \<Rightarrow>
         (case (stmap_get_size_record sm (rec_index u), stmap_get_size_record sm (rec_index r)) of
            (Some uf, Some f) \<Rightarrow> handle_failure e sm u r uf f m g
          | _ \<Rightarrow> Inl (Errx ''Record not found.''))
     | _ \<Rightarrow> Inl (Errx ''Stack map record not found. Exiting.'')) = Inr (l, g', m')"
    by (auto simp: guard_failure_def bind_res_Inr_iff split: if_splits)
  from rest obtain u r where ur: "stmap_get_map_record sm (NOT sm_id) = Some u" "stmap_get_map_record sm sm_id = Some r"
    by (cases "stmap_get_map_record sm (NOT sm_id)"; cases "stmap_get_map_record sm sm_id") auto
  with rest obtain uf f where "stmap_get_size_record sm (rec_index u) = Some uf"
    "stmap_get_size_record sm (rec_index r) = Some f"
    by (cases "stmap_get_size_record sm (rec_index u)"; cases "stmap_get_size_record sm (rec_index r)") auto
  with ur a rest that show ?thesis by simp
qed

lemma handle_failure_globals:
  assumes "handle_failure e sm u r uf f m g = Inr (l, g', m')"
  shows "g_addr g' = site_addr uf u"
  using assms by (auto simp: handle_failure_def bind_res_Inr_iff dest!: resume_unopt_globals(1))

lemma length_register_state: "restore_register_state st = Inr regs \<Longrightarrow> length regs = 16"
  by (auto simp: restore_register_state_def bind_res_Inr_iff dest: map_res_length)

lemma resume_unopt_registers:
  assumes "resume_unopt e sm u uf (st, inl) m g = Inr (l, g', m')"
  shows "length (g_r g') = 16"
  using assms
  by (auto simp: resume_unopt_def bind_res_Inr_iff Let_def length_register_state
      dest!: jump_inlined_globals split: if_splits)

lemma handle_failure_registers:
  assumes "handle_failure e sm u r uf f m g = Inr (l, g', m')"
  shows "length (g_r g') = 16"
  using assms by (auto simp: handle_failure_def bind_res_Inr_iff dest!: resume_unopt_registers)

text \<open>Where the handler stops with a message, and that one of its tests never fires.\<close>

lemma record_has_function:
  assumes "stmap_ok sm" and "stmap_get_map_record sm i = Some r"
  shows "\<exists>f. stmap_get_size_record sm (rec_index r) = Some f"
proof -
  have "r \<in> set (stk_map_records sm)" using assms(2) by (auto simp: stmap_get_map_record_def dest!: find_SomeD)
  then obtain f where "(r, f) \<in> set (sites sm)" using record_in_sites [OF stmap_okD(2) [OF assms(1)]] by blast
  then show ?thesis using size_record_of_site [OF assms(1)] by blast
qed

lemma guard_failure_record:
  assumes "get_binary_path (env_os e) = Inr p" and "get_addr (env_os e) p ''.llvm_stackmaps'' = Inr a" and "a \<noteq> 0"
    and "stmap_create m a = Inr sm" and "stmap_ok sm"
  shows "guard_failure e sm_id m g =
    (case (stmap_get_map_record sm (NOT sm_id), stmap_get_map_record sm sm_id) of
       (Some u, Some r) \<Rightarrow>
         handle_failure e sm u r (the (stmap_get_size_record sm (rec_index u)))
           (the (stmap_get_size_record sm (rec_index r))) m g
     | _ \<Rightarrow> Inl (Errx ''Stack map record not found. Exiting.''))"
  using assms(1-4) record_has_function [OF assms(5)] by (fastforce simp: guard_failure_def split: option.split)

end
