(* ===== verification/Jump.thy ===== *)
theory Jump
  imports Guard
begin

text \<open>
  \<open>jump.s\<close>: the two labels the handler jumps to. The instructions are those of the file,
  in its order, over the 16 registers, the instruction pointer, the global variables and
  the memory; flags and sizes other than 64 bits do not occur. The lemmas give the machine
  state in which the unoptimized code is entered.
\<close>

section \<open>Instructions\<close>

text \<open>A word of the data segment: \<open>r\<close> at a byte offset, or one of the scalar globals.\<close>

datatype data_ref = R_at nat | Addr_var | Restored_bp_var | Restored_stack_size_var

datatype instr =
    Mov_from data_ref gpr
  | Mov gpr gpr
  | Pop gpr
  | Add_imm u64 gpr
  | Sub_reg gpr gpr
  | Jmp_ind data_ref

record cpu =
  cpu_regs :: "gpr \<Rightarrow> u64"
  cpu_rip :: u64

definition data_value :: "globals \<Rightarrow> data_ref \<Rightarrow> u64 res" where
  "data_value g d =
     (case d of
        R_at off \<Rightarrow> index_at (g_r g) (off div 8)
      | Addr_var \<Rightarrow> Inr (g_addr g)
      | Restored_bp_var \<Rightarrow> Inr (g_restored_bp g)
      | Restored_stack_size_var \<Rightarrow> Inr (g_restored_stack_size g))"

definition set_reg :: "gpr \<Rightarrow> u64 \<Rightarrow> cpu \<Rightarrow> cpu" where
  "set_reg x v c = c\<lparr>cpu_regs := (cpu_regs c)(x := v)\<rparr>"

definition exec_instr :: "globals \<Rightarrow> mem \<Rightarrow> instr \<Rightarrow> cpu \<Rightarrow> cpu res" where
  "exec_instr g m i c =
     (case i of
        Mov_from d x \<Rightarrow> bind_res (data_value g d) (\<lambda>v. Inr (set_reg x v c))
      | Mov x y \<Rightarrow> Inr (set_reg y (cpu_regs c x) c)
      | Pop x \<Rightarrow>
          bind_res (load_u64 m (cpu_regs c RSP)) (\<lambda>v.
          Inr (set_reg x v (set_reg RSP (cpu_regs c RSP + 8) c)))
      | Add_imm n x \<Rightarrow> Inr (set_reg x (cpu_regs c x + n) c)
      | Sub_reg x y \<Rightarrow> Inr (set_reg y (cpu_regs c y - cpu_regs c x) c)
      | Jmp_ind d \<Rightarrow> bind_res (data_value g d) (\<lambda>v. Inr (c\<lparr>cpu_rip := v\<rparr>)))"

definition exec_code :: "globals \<Rightarrow> mem \<Rightarrow> instr list \<Rightarrow> cpu \<Rightarrow> cpu res" where
  "exec_code g m = fold_res (exec_instr g m)"

section \<open>The code\<close>

definition jmp_to_addr :: "instr list" where
  "jmp_to_addr =
     [Mov_from (R_at 0) RAX,
      Mov_from (R_at 0x8) RCX,
      Mov_from (R_at 0x10) RDX,
      Mov_from (R_at 0x18) RBX,
      Mov_from (R_at 0x30) RSI,
      Mov_from (R_at 0x38) RDI,
      Mov_from (R_at 0x40) R8,
      Mov_from (R_at 0x48) R9,
      Mov_from (R_at 0x50) R10,
      Mov_from (R_at 0x58) R11,
      Mov_from (R_at 0x60) R12,
      Mov_from (R_at 0x68) R13,
      Mov_from (R_at 0x70) R14,
      Mov_from (R_at 0x78) R15,
      Mov RBP RSP,
      Pop RBP,
      Add_imm 0x8 RSP,
      Jmp_ind Addr_var]"

definition restore_inlined :: "instr list" where
  "restore_inlined =
     [Mov_from Restored_stack_size_var RSI,
      Mov_from Restored_bp_var RDI,
      Mov RBP RSP,
      Pop RBP,
      Add_imm 0x8 RSP,
      Mov RDI RBP,
      Mov RBP RSP,
      Sub_reg RSI RSP,
      Mov_from (R_at 0) RAX,
      Mov_from (R_at 0x8) RCX,
      Mov_from (R_at 0x10) RDX,
      Mov_from (R_at 0x18) RBX,
      Mov_from (R_at 0x30) RSI,
      Mov_from (R_at 0x38) RDI,
      Mov_from (R_at 0x40) R8,
      Mov_from (R_at 0x48) R9,
      Mov_from (R_at 0x50) R10,
      Mov_from (R_at 0x58) R11,
      Mov_from (R_at 0x60) R12,
      Mov_from (R_at 0x68) R13,
      Mov_from (R_at 0x70) R14,
      Mov_from (R_at 0x78) R15,
      Jmp_ind Addr_var]"

definition resume_at :: "jump_label \<Rightarrow> instr list" where
  "resume_at l = (case l of Jmp_to_addr \<Rightarrow> jmp_to_addr | Restore_inlined \<Rightarrow> restore_inlined)"

section \<open>The state the unoptimized code is entered in\<close>

text \<open>The index in \<open>r\<close> of the word that \<open>jump.s\<close> loads into a register.\<close>

fun jump_slot :: "gpr \<Rightarrow> nat option" where
  "jump_slot RAX = Some 0" | "jump_slot RCX = Some 1" | "jump_slot RDX = Some 2"
| "jump_slot RBX = Some 3" | "jump_slot RSI = Some 6" | "jump_slot RDI = Some 7"
| "jump_slot RBP = None" | "jump_slot RSP = None"
| "jump_slot R8 = Some 8" | "jump_slot R9 = Some 9" | "jump_slot R10 = Some 10"
| "jump_slot R11 = Some 11" | "jump_slot R12 = Some 12" | "jump_slot R13 = Some 13"
| "jump_slot R14 = Some 14" | "jump_slot R15 = Some 15"

text \<open>
  The registers with which the unoptimized code is entered, for an array \<open>r\<close> and the two
  stack registers.
\<close>

definition entry_regs :: "u64 list \<Rightarrow> u64 \<Rightarrow> u64 \<Rightarrow> gpr \<Rightarrow> u64" where
  "entry_regs r rbp rsp x =
     (case jump_slot x of Some k \<Rightarrow> r ! k | None \<Rightarrow> if x = RBP then rbp else rsp)"

lemma fun_gpr_eqI:
  assumes "list_all (\<lambda>x. f x = h x) all_gprs"
  shows "f = (h :: gpr \<Rightarrow> u64)"
proof
  fix x :: gpr
  have "x \<in> set all_gprs" using UNIV_gpr by blast
  then show "f x = h x" using assms by (simp add: list_all_iff)
qed

lemma jmp_to_addr_state:
  assumes "length (g_r g) = 16" and "load_u64 m (cpu_regs c RBP) = Inr saved"
  shows "exec_code g m jmp_to_addr c =
    Inr (c\<lparr>cpu_regs := entry_regs (g_r g) saved (cpu_regs c RBP + 16), cpu_rip := g_addr g\<rparr>)"
proof -
  have "\<exists>f. exec_code g m jmp_to_addr c = Inr (c\<lparr>cpu_regs := f, cpu_rip := g_addr g\<rparr>) \<and>
      list_all (\<lambda>x. f x = entry_regs (g_r g) saved (cpu_regs c RBP + 16) x) all_gprs"
    using assms
    by (simp add: exec_code_def jmp_to_addr_def exec_instr_def data_value_def set_reg_def)
      (rule exI, rule conjI, rule refl, simp add: all_gprs_def entry_regs_def add.commute)
  then show ?thesis by (auto dest!: fun_gpr_eqI)
qed

lemma restore_inlined_state:
  assumes "length (g_r g) = 16" and "load_u64 m (cpu_regs c RBP) = Inr saved"
  shows "exec_code g m restore_inlined c =
    Inr (c\<lparr>cpu_regs := entry_regs (g_r g) (g_restored_bp g) (g_restored_bp g - g_restored_stack_size g),
      cpu_rip := g_addr g\<rparr>)"
proof -
  have "\<exists>f. exec_code g m restore_inlined c = Inr (c\<lparr>cpu_regs := f, cpu_rip := g_addr g\<rparr>) \<and>
      list_all (\<lambda>x. f x = entry_regs (g_r g) (g_restored_bp g) (g_restored_bp g - g_restored_stack_size g) x) all_gprs"
    using assms
    by (simp add: exec_code_def restore_inlined_def exec_instr_def data_value_def set_reg_def)
      (rule exI, rule conjI, rule refl, simp add: all_gprs_def entry_regs_def)
  then show ?thesis by (auto dest!: fun_gpr_eqI)
qed

text \<open>The registers whose index in \<open>r\<close> is the number under which the handler saved them.\<close>

lemma jump_slot_unw:
  "jump_slot x = Some k \<Longrightarrow> k = unw_num x \<longleftrightarrow> x \<notin> {RCX, RDX, RSI, RDI}"
  by (cases x) auto

end
