(* ===== verification/Resume.thy ===== *)
theory Resume
  imports Jump
begin

unbundle bit_operations_syntax

text \<open>
  The end of the handler across components: \<open>insert_real_addresses\<close>, \<open>restore_unopt_stack\<close>,
  \<open>restore_register_state\<close>, \<open>jump_inlined\<close> and \<open>jump.s\<close> together. The lemmas say what the
  unoptimized code finds: its registers, its base pointer, and the chain of callers above
  it.
\<close>

section \<open>Frames of equal sizes have equal layouts\<close>

lemma slot_end_sizes: "slot_end fs i = sum_list (map (\<lambda>s. unat s + 8) (take (Suc i) (map frame_size fs)))"
  by (simp add: slot_end_def take_map comp_def)

lemma layout_cong:
  assumes "map frame_size fs = map frame_size gs"
  shows "slot_end fs i = slot_end gs i" and "new_bp b fs i = new_bp b gs i" and "sizes_ok fs = sizes_ok gs"
proof -
  show s: "slot_end fs i = slot_end gs i" for i by (simp add: slot_end_sizes assms)
  show "new_bp b fs i = new_bp b gs i" by (simp add: new_bp_def s)
  have "sizes_ok hs = list_all (\<lambda>s. 8 \<le> unat s) (butlast (map frame_size hs))" for hs :: "frame list"
    by (simp add: sizes_ok_def list_all_iff map_butlast [symmetric])
  then show "sizes_ok fs = sizes_ok gs" by (simp add: assms)
qed

lemma relaid_sizes: "map frame_size (relaid start fs k) = map frame_size fs"
  by (intro nth_equalityI) (auto simp: relaid_nth)

lemma relaid_ok: "list_all frame_ok fs \<Longrightarrow> list_all frame_ok (relaid start fs k)"
  by (auto simp: list_all_length relaid_nth frame_ok_def)

lemma relaid_transfer_ok: "i < length fs \<Longrightarrow> transfer_ok sm (relaid start fs k ! i) = transfer_ok sm (fs ! i)"
  by (simp add: relaid_nth transfer_ok_def cong: option.case_cong)

lemma relaid_laid_out: "k < length fs \<Longrightarrow> laid_out start (relaid start fs k) k"
  using layout_cong(2) [OF relaid_sizes] by (auto simp: laid_out_def list_all_iff relaid_nth)

lemma registers_update_sizes:
  assumes "length gs = length fs" and "\<And>i. i < length fs \<Longrightarrow> \<exists>r. gs ! i = (fs ! i)\<lparr>registers := r\<rparr>"
  shows "map frame_size gs = map frame_size fs" and "laid_out start fs k \<Longrightarrow> k \<le> length fs \<Longrightarrow> laid_out start gs k"
proof -
  show s: "map frame_size gs = map frame_size fs"
  proof (rule nth_equalityI)
    fix i assume "i < length (map frame_size gs)"
    with assms(1) have i: "i < length fs" by simp
    from assms(2) [OF i] obtain r where "gs ! i = (fs ! i)\<lparr>registers := r\<rparr>" by blast
    then show "map frame_size gs ! i = map frame_size fs ! i" using i assms(1) by simp
  qed (simp add: assms(1))
  show "laid_out start gs k" if "laid_out start fs k" "k \<le> length fs"
  proof -
    have "bp (gs ! i) = new_bp start gs i" if "i < k" for i
    proof -
      have "i < length fs" using that \<open>k \<le> length fs\<close> by simp
      then obtain r where "gs ! i = (fs ! i)\<lparr>registers := r\<rparr>" using assms(2) by blast
      then show ?thesis using laid_outD [OF \<open>laid_out start fs k\<close> that] by (simp add: layout_cong(2) [OF s])
    qed
    then show ?thesis by (simp add: laid_out_def list_all_iff)
  qed
qed

section \<open>Memory that agrees on a region\<close>

definition agree :: "mem \<Rightarrow> mem \<Rightarrow> u64 \<Rightarrow> nat \<Rightarrow> bool" where
  "agree m m' a n \<longleftrightarrow> list_all (\<lambda>i. m' (a + of_nat i) = m (a + of_nat i)) [0..<n]"

lemma agree_mapped: "agree m m' a n \<Longrightarrow> mapped m' a n = mapped m a n"
  by (auto simp: agree_def mapped_def list_all_iff)

lemma agree_load_u64:
  assumes "agree m m' a n" and "d + 8 \<le> n"
  shows "load_u64 m' (a + of_nat d) = load_u64 m (a + of_nat d)"
proof -
  have "m' (a + of_nat d + of_nat i) = m (a + of_nat d + of_nat i)" if "i < 8" for i
  proof -
    have "m' (a + of_nat j) = m (a + of_nat j)" if "j < n" for j
      using assms(1) that by (simp add: agree_def list_all_iff)
    from this [of "d + i"] show ?thesis using that assms(2) unfolding addr_add by linarith
  qed
  note eq = this
  have "map (\<lambda>i. the (m' (a + of_nat d + of_nat i))) [0..<8] = map (\<lambda>i. the (m (a + of_nat d + of_nat i))) [0..<8]"
    by (rule map_cong) (simp_all only: eq set_upt atLeastLessThan_iff)
  moreover have "mapped m' (a + of_nat d) 8 = mapped m (a + of_nat d) 8"
    unfolding mapped_iff using eq by metis
  ultimately show ?thesis by (simp only: load_u64_def load_bytes_def)
qed

section \<open>The frame of the resumed function\<close>

lemma restore_unopt_stack_ok:
  assumes st: "state_ok st" and ok: "transfers_ok sm st"
    and run: "restore_unopt_stack slack sm st m = Inr (st', m')"
  shows "state_ok st'" and "length (frames st') = length (frames st)"
    and "i < length (frames st) \<Longrightarrow> \<exists>r. frames st' ! i = (frames st ! i)\<lparr>registers := r\<rparr>"
    and "frames st \<noteq> [] \<Longrightarrow> last (frames st') = last (frames st)"
proof -
  obtain pss where r: "restored slack sm st pss m st' m'"
    using restore_unopt_stack_effect [OF st ok run] by blast
  then have d: "depth st' = depth st" and l: "length (frames st') = length (frames st)"
    and c: "i < length (frames st) \<Longrightarrow> frames st' ! i = (if Suc i < length (frames st)
        then (frames st ! i)\<lparr>registers := register_updates slack (transfers sm st i (pss ! i)) (registers (frames st ! i))\<rparr>
        else frames st ! i)" for i
    by (simp_all add: restored_def)
  show "length (frames st') = length (frames st)" by (rule l)
  have e: "\<exists>r. frames st' ! i = (frames st ! i)\<lparr>registers := r\<rparr> \<and> length r = length (registers (frames st ! i))"
    if "i < length (frames st)" for i
  proof (cases "Suc i < length (frames st)")
    case True
    then show ?thesis using c [OF that] by auto
  next
    case False
    then show ?thesis using c [OF that] by (intro exI [of _ "registers (frames st ! i)"]) simp
  qed
  then show "i < length (frames st) \<Longrightarrow> \<exists>r. frames st' ! i = (frames st ! i)\<lparr>registers := r\<rparr>" by blast
  have "frame_ok (frames st' ! i)" if i: "i < length (frames st)" for i
  proof -
    have "frame_ok (frames st ! i)" using st i by (simp add: state_ok_def list_all_length)
    then show ?thesis using e [OF i] by (auto simp: frame_ok_def)
  qed
  then show "state_ok st'" using st d l by (simp add: state_ok_def list_all_length)
  show "last (frames st') = last (frames st)" if "frames st \<noteq> []"
  proof -
    have "frames st' \<noteq> []" using l that by auto
    moreover have "frames st' ! (length (frames st) - 1) = frames st ! (length (frames st) - 1)"
      using that c by simp
    ultimately show ?thesis using l that by (simp add: last_conv_nth)
  qed
qed

text \<open>Without inlining: the registers are those of the first frame, with the live ones replaced.\<close>

lemma resume_in_place:
  assumes st: "state_ok st" "2 \<le> length (frames st)"
    and ok: "transfers_ok sm st"
    and run: "restore_unopt_stack (env_slack e) sm st m = Inr (st', m')"
    and pss: "map_res (frame_pairs (env_slack e) m sm st) (call_indices st) = Inr pss"
  shows "resume_unopt e sm u uf (st, False) m g = Inr (Jmp_to_addr,
    g\<lparr>g_r := register_updates (env_slack e) (transfers sm st 0 (pss ! 0)) (registers (hd (frames st))),
      g_addr := site_addr uf u\<rparr>, m')"
proof -
  have "restored (env_slack e) sm st pss m st' m'"
    using restore_unopt_stack_effect [OF st(1) ok run] pss by auto
  then have l: "length (frames st') = length (frames st)"
    and c: "i < length (frames st) \<Longrightarrow> frames st' ! i = (if Suc i < length (frames st)
        then (frames st ! i)\<lparr>registers := register_updates (env_slack e) (transfers sm st i (pss ! i)) (registers (frames st ! i))\<rparr>
        else frames st ! i)" for i
    by (simp_all add: restored_def)
  have ne: "frames st' \<noteq> []" "frames st \<noteq> []" using l st(2) by auto
  have "hd (frames st') = (hd (frames st))\<lparr>registers :=
      register_updates (env_slack e) (transfers sm st 0 (pss ! 0)) (registers (hd (frames st)))\<rparr>"
    using c [of 0] st(2) ne by (simp add: hd_conv_nth)
  moreover have "restore_register_state st' = Inr (registers (hd (frames st')))"
    using restore_unopt_stack_ok(1) [OF st(1) ok run] ne(1) by (rule restore_register_state_first)
  ultimately show ?thesis using run by (simp add: resume_unopt_def)
qed

section \<open>With inlining: the chain of callers\<close>

text \<open>The values that are moved do not hit a return address of the new stack.\<close>

definition keeps_returns :: "u64 \<Rightarrow> frame list \<Rightarrow> ((u64 \<times> nat) \<times> u8 list) list \<Rightarrow> bool" where
  "keeps_returns start fs cs \<longleftrightarrow>
     list_all (\<lambda>((a, n), bs). list_all (\<lambda>i. apart a n (new_bp start fs i + 8) 8) [0..<length fs - 1]) cs"

text \<open>
  Room for the recursion of \<open>jump_inlined\<close> down to the target: calls take between 1 and \<open>w\<close>
  bytes, the fuel is enough for calls that take one byte each, the stack is mapped, and
  neither segment nor final place is in it.
\<close>

definition room_to_grow :: "env \<Rightarrow> nat \<Rightarrow> u64 \<Rightarrow> restored_segment \<Rightarrow> u64 \<Rightarrow> mem \<Rightarrow> bool" where
  "room_to_grow e w t seg main_bp m \<longleftrightarrow>
     (\<forall>a. 0 < length (env_call_image e a) \<and> length (env_call_image e a) \<le> w) \<and>
     w \<le> unat t \<and> unat t - w \<le> unat (env_rsp e) \<and> unat (env_rsp e) < unat t + env_fuel e \<and> 0 < env_fuel e \<and>
     (\<forall>x. unat t - w \<le> unat x \<longrightarrow> x < env_rsp e \<longrightarrow> m x \<noteq> None) \<and>
     (\<forall>i < unat (seg_total_size seg). \<forall>b \<in> {seg_start_addr seg, main_bp}.
        unat (b + of_nat i) < unat t - w \<or> env_rsp e \<le> b + of_nat i)"

lemma room_to_growD:
  assumes st: "state_ok st" "frames st \<noteq> []" and room: "room_to_grow e w t seg (main_base st) m"
    and t: "t = main_base st - seg_total_size seg"
  shows "\<exists>m'. jump_inlined (env_fuel e) (env_call_image e) st seg (env_rsp e) m g =
      place_stack st seg (main_base st) m' g \<and>
    agree m m' (seg_start_addr seg) (unat (seg_total_size seg)) \<and>
    agree m m' (main_base st) (unat (seg_total_size seg))"
proof -
  from room have w: "\<And>a. 0 < length (env_call_image e a) \<and> length (env_call_image e a) \<le> w"
    and le: "w \<le> unat t" and rsp: "unat t - w \<le> unat (env_rsp e)" "unat (env_rsp e) < unat t + env_fuel e"
      "0 < env_fuel e"
    and map: "\<And>x. unat t - w \<le> unat x \<Longrightarrow> x < env_rsp e \<Longrightarrow> m x \<noteq> None"
    and out: "\<And>i b. i < unat (seg_total_size seg) \<Longrightarrow> b \<in> {seg_start_addr seg, main_base st} \<Longrightarrow>
      unat (b + of_nat i) < unat t - w \<or> env_rsp e \<le> b + of_nat i"
    unfolding room_to_grow_def by blast+
  have "\<exists>m'. jump_inlined (env_fuel e) (env_call_image e) st seg (env_rsp e) m g =
      place_stack st seg (main_base st) m' g \<and>
    (\<forall>x. unat x < unat t - w \<or> env_rsp e \<le> x \<longrightarrow> m' x = m x)"
    by (rule jump_inlined_ends [OF st w t le _ order.refl rsp]) (rule map)
  then obtain m' where
    j: "jump_inlined (env_fuel e) (env_call_image e) st seg (env_rsp e) m g = place_stack st seg (main_base st) m' g"
    and same: "\<And>x. unat x < unat t - w \<or> env_rsp e \<le> x \<Longrightarrow> m' x = m x" by blast
  have "agree m m' b (unat (seg_total_size seg))" if "b \<in> {seg_start_addr seg, main_base st}" for b
    using same [OF out [OF _ that]] by (simp add: agree_def list_all_iff)
  with j show ?thesis by blast
qed

lemma resume_inlined_chain:
  assumes seg: "segment_ok m st seg" and sz: "get_total_stack_size st = Inr (seg_total_size seg)"
    and small: "slot_end (frames st) (length (frames st) - 2) < 2 ^ 64"
    and ok: "transfers_ok sm st"
    and ins: "insert_real_addresses st seg m = Inr (st1, m1)"
    and run: "restore_unopt_stack slack sm st1 m1 = Inr (st2, m2)"
    and pss: "map_res (frame_pairs slack m1 sm st1) (call_indices st1) = Inr pss"
    and keep: "keeps_returns (seg_start_addr seg) (frames st) (all_cells slack sm st1 pss)"
    and place: "mapped m (main_base st) (unat (seg_total_size seg))"
      "apart (seg_start_addr seg) (unat (seg_total_size seg)) (main_base st) (unat (seg_total_size seg))"
    and room: "room_to_grow e w (main_base st - seg_total_size seg) seg (main_base st) m2"
  shows "\<exists>m'. jump_inlined (env_fuel e) (env_call_image e) st2 seg (env_rsp e) m2 g =
      Inr (g\<lparr>g_restored_stack_size := frame_size (frames st ! 0) - 8,
        g_restored_bp := new_bp (main_base st) (frames st) 0, g_restored_start_addr := seg_start_addr seg,
        g_restored_total_size := seg_total_size seg\<rparr>, m') \<and>
    chain_walk m' (new_bp (main_base st) (frames st) 0) (length (frames st) - 1) =
      Inr (map (\<lambda>i. (new_bp (main_base st) (frames st) i, caller_returns m (frames st) i)) [0..<length (frames st) - 1])"
proof -
  let ?fs = "frames st" and ?start = "seg_start_addr seg" and ?main = "main_base st"
  let ?n = "unat (seg_total_size seg)"
  define k where "k = length ?fs - 1"
  define gs where "gs = relaid ?start ?fs k"
  have st: "state_ok st" and l: "2 \<le> length ?fs" and szs: "sizes_ok ?fs"
    and map: "mapped m ?start (slot_end ?fs (length ?fs - 2))"
    using seg by (simp_all add: segment_ok_def Let_def)
  have k: "k < length ?fs" "Suc k = length ?fs" "length ?fs - 2 = k - 1" using l by (auto simp: k_def)
  have n: "?n = slot_end ?fs (k - 1)" using segment_total [OF seg sz small] k(3) by simp
  from insert_real_addresses_cells [OF seg k_def] ins have st1: "st1 = st\<lparr>frames := gs\<rparr>"
    and cells: "\<And>a v. (a, v) \<in> set (chain_cells ?start ?fs (caller_returns m ?fs) k) \<Longrightarrow> load_u64 m1 a = Inr v"
    by (auto simp: gs_def)
  have len: "length gs = length ?fs" by (simp add: gs_def)
  have ok1: "state_ok st1" using st by (simp add: st1 gs_def state_ok_def relaid_ok)
  have tr1: "transfers_ok sm st1"
    using transfers_okD [OF ok]
    by (auto simp: transfers_ok_def list_all_length nth_butlast st1 gs_def relaid_transfer_ok)
  note eff = restore_unopt_stack_ok [OF ok1 tr1 run]
  have l2: "length (frames st2) = length ?fs" using eff(2) by (simp add: st1 len)
  have ne: "frames st2 \<noteq> []" "frames st1 \<noteq> []" "?fs \<noteq> []" using l2 l len by (auto simp: st1)
  have "gs \<noteq> []" using len ne(3) by auto
  then have "last gs = gs ! k" using last_conv_nth [of gs] len by (simp add: k_def)
  moreover have "last ?fs = ?fs ! k" using last_conv_nth [of ?fs] ne(3) by (simp add: k_def)
  ultimately have main2: "main_base st2 = ?main"
    using eff(4) [OF ne(2)] k(1) by (simp add: main_base_def st1 gs_def relaid_nth)
  have sizes: "map frame_size (frames st2) = map frame_size ?fs"
    using registers_update_sizes(1) [OF eff(2,3)] by (simp add: st1 gs_def relaid_sizes)
  note lay = layout_cong [OF sizes]
  have laid: "laid_out ?start (frames st2) k"
    using registers_update_sizes(2) [OF eff(2,3), of ?start k] relaid_laid_out [OF k(1)] k(1)
    by (simp add: st1 gs_def)
  have w: "region_cells.wr_all (all_cells slack sm st1 pss) m1 = Inr m2"
    using restore_unopt_stack_effect [OF ok1 tr1 run] pss by (auto simp: restored_def)
  have m2: "mapped m2 a b = mapped m a b" for a b
    using region_cells_mapped [OF w] insert_real_addresses_mapped [OF ins] by simp
  have rets: "load_u64 m2 (new_bp ?start ?fs i + 8) = Inr (caller_returns m ?fs i)" if i: "i < k" for i
  proof -
    have "(case (new_bp ?start ?fs i + 8, 8) of (a, n) \<Rightarrow> load_bytes m2 a n) =
        (case (new_bp ?start ?fs i + 8, 8) of (a, n) \<Rightarrow> load_bytes m1 a n)"
    proof (rule region_cells.rd_wr_all_other [OF w])
      fix a v assume c: "(a, v) \<in> set (all_cells slack sm st1 pss)"
      obtain b n where a: "a = (b, n)" by (cases a)
      show "(case a of (a, n) \<Rightarrow> \<lambda>bs. length bs = n \<and> n \<le> 2 ^ 64) v \<and>
          (case a of (a, n) \<Rightarrow> \<lambda>(b, k). apart a n b k) (new_bp ?start ?fs i + 8, 8)"
        using keep c all_cells_fit i unfolding a by (fastforce simp: keeps_returns_def list_all_iff k_def)
    qed
    then have "load_u64 m2 (new_bp ?start ?fs i + 8) = load_u64 m1 (new_bp ?start ?fs i + 8)"
      by (simp add: load_u64_def)
    moreover have "(new_bp ?start ?fs i + 8, caller_returns m ?fs i) \<in>
        set (chain_cells ?start ?fs (caller_returns m ?fs) k)"
      using i by (auto simp: set_chain_cells)
    ultimately show ?thesis using cells by simp
  qed
  have "room_to_grow e w (main_base st2 - seg_total_size seg) seg (main_base st2) m2" unfolding main2 by (rule room)
  from room_to_growD [OF eff(1) ne(1) this refl, unfolded main2] obtain m3 where
    jump: "jump_inlined (env_fuel e) (env_call_image e) st2 seg (env_rsp e) m2 g = place_stack st2 seg ?main m3 g"
    and agree: "agree m2 m3 ?start ?n" "agree m2 m3 ?main ?n" by blast
  have "mapped m3 ?start ?n" "mapped m3 ?main ?n"
    using map [folded n [folded k(3)]] place(1)
    unfolding agree_mapped [OF agree(1)] agree_mapped [OF agree(2)] m2 by simp_all
  then have "placeable m3 st2 seg ?main"
    using eff(1) l szs laid n place(2) unfolding placeable_def Let_def l2 lay(1,3) k_def by blast
  from place_stack_chain [OF this, of g] obtain m' where
    p: "place_stack st2 seg ?main m3 g = Inr (g\<lparr>g_restored_stack_size := frame_size (frames st2 ! 0) - 8,
      g_restored_bp := new_bp ?main ?fs 0, g_restored_start_addr := ?start,
      g_restored_total_size := seg_total_size seg\<rparr>, m')"
    and walk: "chain_walk m' (new_bp ?main ?fs 0) k = Inr (layout_chain m3 ?start ?main (frames st2))"
    by (auto simp: lay l2 k_def)
  have "load_u64 m3 (new_bp ?start ?fs i + 8) = Inr (caller_returns m ?fs i)" if i: "i < k" for i
  proof -
    have off: "new_bp ?start ?fs i + 8 = ?start + of_nat (cell_offset ?fs (True, i))"
      using i k(1) by (intro new_bp_offset(2) [OF szs]) simp
    have "cell_offset ?fs (True, i) + 8 \<le> ?n" using cell_offset_inside [OF szs k(1) i] n by simp
    then show ?thesis using agree_load_u64 [OF agree(1)] rets [OF i] by (simp add: off)
  qed
  then have "layout_chain m3 ?start ?main (frames st2) =
      map (\<lambda>i. (new_bp ?main ?fs i, caller_returns m ?fs i)) [0..<k]"
    by (simp add: layout_chain_def lay l2 k_def)
  moreover have "frame_size (frames st2 ! 0) = frame_size (?fs ! 0)"
    using arg_cong [OF sizes, of "\<lambda>l. l ! 0"] l l2 ne by (simp add: hd_conv_nth [symmetric] hd_map)
  ultimately show ?thesis using jump p walk by (simp add: k_def)
qed

text \<open>Nothing the handler does on the way unmaps memory.\<close>

lemma place_stack_mapped:
  assumes "place_stack st seg b m g = Inr (g', m')"
  shows "mapped m' a n = mapped m a n"
proof -
  from assms obtain cur t u c s where
    loop: "fold_res (relink_frame (frames st)) [1..<unat (depth st) - 1] (c, m) = Inr (cur, t)"
    and cp: "memcpy t b (seg_start_addr seg) (unat (seg_total_size seg)) = Inr u"
    and s: "memset u (seg_start_addr seg) s (unat (seg_total_size seg)) = Inr m'"
    by (auto simp: place_stack_def bind_res_Inr_iff Let_def)
  have "mapped (snd (cur, t)) a n = mapped m a n"
    using loop
  proof (rule fold_res_invariant)
    fix i r v
    assume "mapped (snd r) a n = mapped m a n" and "relink_frame (frames st) i r = Inr v"
    then show "mapped (snd v) a n = mapped m a n"
      by (cases r; cases v)
        (auto simp: relink_frame_def bind_res_Inr_iff Let_def dest!: mapped_store_u64 [of _ _ _ _ a n])
  qed simp
  moreover have "unat (seg_total_size seg) \<le> 2 ^ 64" using unat_u64_less [of "seg_total_size seg"] by simp
  then have "mapped u a n = mapped t a n" by (rule memcpy_load(3) [OF cp])
  moreover have "mapped m' a n = mapped u a n"
    using s unfolding memset_def by (rule mapped_store_bytes)
  ultimately show ?thesis by simp
qed

lemma jump_inlined_mapped:
  "jump_inlined k ci st seg rsp m g = Inr (g', m') \<Longrightarrow> mapped m' a n = mapped m a n"
proof (induction k arbitrary: rsp m)
  case 0
  then show ?case by simp
next
  case (Suc k)
  show ?case
  proof (cases "\<exists>b. place_stack st seg b m g = Inr (g', m')")
    case True
    then show ?thesis by (auto dest: place_stack_mapped)
  next
    case False
    with Suc.prems obtain r t where t: "store_bytes m r (ci rsp) = Inr t"
      and j: "jump_inlined k ci st seg r t g = Inr (g', m')"
      by (auto simp: bind_res_Inr_iff Let_def split: if_splits)
    show ?thesis using Suc.IH [OF j] mapped_store_bytes [OF t] by simp
  qed
qed

section \<open>The entry into the unoptimized code\<close>

text \<open>The registers \<open>jump.s\<close> takes from where the handler put them.\<close>

lemma entry_regs_saved:
  assumes "x \<notin> {RCX, RDX, RSI, RDI, RBP, RSP}"
  shows "entry_regs r b s x = r ! unw_num x"
  using assms by (cases x) (simp_all add: entry_regs_def)

lemma resume_inlined_entry:
  assumes seg: "segment_ok m st seg" and sz: "get_total_stack_size st = Inr (seg_total_size seg)"
    and block: "seg_start_addr seg = env_malloc e (seg_total_size seg)"
    and small: "slot_end (frames st) (length (frames st) - 2) < 2 ^ 64"
    and ok: "transfers_ok sm st"
    and ins: "insert_real_addresses st seg m = Inr (st1, m1)"
    and run: "restore_unopt_stack (env_slack e) sm st1 m1 = Inr (st2, m2)"
    and pss: "map_res (frame_pairs (env_slack e) m1 sm st1) (call_indices st1) = Inr pss"
    and keep: "keeps_returns (seg_start_addr seg) (frames st) (all_cells (env_slack e) sm st1 pss)"
    and place: "mapped m (main_base st) (unat (seg_total_size seg))"
      "apart (seg_start_addr seg) (unat (seg_total_size seg)) (main_base st) (unat (seg_total_size seg))"
    and room: "room_to_grow e w (main_base st - seg_total_size seg) seg (main_base st) m2"
    and rbp: "mapped m (cpu_regs c RBP) 8"
  defines "regs \<equiv> register_updates (env_slack e) (transfers sm st1 0 (pss ! 0)) (registers (hd (frames st)))"
  shows "\<exists>g' m'. resume_unopt e sm u uf (st, True) m g = Inr (Restore_inlined, g', m') \<and>
    exec_code g' m' (resume_at Restore_inlined) c = Inr (c\<lparr>
      cpu_regs := entry_regs regs (new_bp (main_base st) (frames st) 0) (main_base st),
      cpu_rip := site_addr uf u\<rparr>) \<and>
    chain_walk m' (new_bp (main_base st) (frames st) 0) (length (frames st) - 1) =
      Inr (map (\<lambda>i. (new_bp (main_base st) (frames st) i, caller_returns m (frames st) i)) [0..<length (frames st) - 1])"
proof -
  let ?g = "g\<lparr>g_r := regs, g_addr := site_addr uf u\<rparr>"
  have st: "state_ok st" and l: "2 \<le> length (frames st)" and szs: "sizes_ok (frames st)"
    using seg by (simp_all add: segment_ok_def Let_def)
  from resume_inlined_chain [OF seg sz small ok ins run pss keep place room, of ?g] obtain m' where
    jump: "jump_inlined (env_fuel e) (env_call_image e) st2 seg (env_rsp e) m2 ?g =
      Inr (?g\<lparr>g_restored_stack_size := frame_size (frames st ! 0) - 8,
        g_restored_bp := new_bp (main_base st) (frames st) 0, g_restored_start_addr := seg_start_addr seg,
        g_restored_total_size := seg_total_size seg\<rparr>, m')" (is "_ = Inr (?g', m')")
    and walk: "chain_walk m' (new_bp (main_base st) (frames st) 0) (length (frames st) - 1) =
      Inr (map (\<lambda>i. (new_bp (main_base st) (frames st) i, caller_returns m (frames st) i)) [0..<length (frames st) - 1])"
    by blast
  obtain k where k: "k = length (frames st) - 1" by simp
  from insert_real_addresses_cells [OF seg k] ins
  have st1: "st1 = st\<lparr>frames := relaid (seg_start_addr seg) (frames st) k\<rparr>" by auto
  have ok1: "state_ok st1" using st by (simp add: st1 state_ok_def relaid_ok)
  have tr1: "transfers_ok sm st1"
    using transfers_okD [OF ok]
    by (auto simp: transfers_ok_def list_all_length nth_butlast st1 relaid_transfer_ok)
  have l1: "length (frames st1) = length (frames st)" by (simp add: st1)
  have h: "registers (hd (frames st1)) = registers (hd (frames st))"
    using l by (cases "frames st") (auto simp: st1 hd_conv_nth relaid_nth simp flip: length_greater_0_conv)
  have "resume_unopt e sm u uf (st1, False) m1 g = Inr (Jmp_to_addr, ?g, m2)"
    using resume_in_place [OF ok1 _ tr1 run pss] l l1 h by (simp add: regs_def)
  then have r: "restore_register_state st2 = Inr regs"
    using run by (auto simp: resume_unopt_def bind_res_Inr_iff regs_def dest: arg_cong [where f = g_r])
  have sg: "\<lparr>seg_start_addr = env_malloc e (seg_total_size seg), seg_total_size = seg_total_size seg\<rparr> = seg"
    by (simp add: block)
  have go: "resume_unopt e sm u uf (st, True) m g = Inr (Restore_inlined, ?g', m')"
    using sz ins run r jump by (simp add: resume_unopt_def Let_def sg)
  have "mapped m' (cpu_regs c RBP) 8"
    using rbp jump_inlined_mapped [OF jump] insert_real_addresses_mapped [OF ins]
      restore_unopt_stack_effect [OF ok1 tr1 run] pss by (auto simp: restored_def region_cells_mapped)
  then obtain saved where saved: "load_u64 m' (cpu_regs c RBP) = Inr saved"
    using load_bytes_mapped [of m' "cpu_regs c RBP" 8] by (auto simp: load_u64_def)
  have "new_bp (main_base st) (frames st) 0 - (frame_size (frames st ! 0) - 8) = main_base st"
    using new_bp_0 [OF szs, of "main_base st"] l by (simp add: algebra_simps)
  moreover have "length regs = 16"
    using st l by (cases "frames st") (auto simp: regs_def state_ok_def frame_ok_def)
  ultimately have "exec_code ?g' m' (resume_at Restore_inlined) c = Inr (c\<lparr>
      cpu_regs := entry_regs regs (new_bp (main_base st) (frames st) 0) (main_base st),
      cpu_rip := site_addr uf u\<rparr>)"
    using restore_inlined_state [of ?g' m' c saved] saved by (simp add: resume_at_def)
  with go walk show ?thesis by blast
qed

end
