(* ===== verification/Examples.thy ===== *)
theory Examples
  imports Resume
begin

text \<open>
  One small program, as data, on which the theorems are instantiated: a stack map with an
  optimized function at 0x1000 and its unoptimized copy at 0x2000, each with a call site
  that has live values and one that has none; an ELF image with the two function symbols
  and a \<open>.llvm_stackmaps\<close> section; a memory in which every address is mapped; and a call
  stack of three frames.
\<close>

section \<open>A stack map\<close>

definition ex_size_opt :: stack_size_record where
  "ex_size_opt = \<lparr>fun_addr = 0x1000, stack_size = 24, record_count = 2, fun_index = 0\<rparr>"

definition ex_size_unopt :: stack_size_record where
  "ex_size_unopt = \<lparr>fun_addr = 0x2000, stack_size = 40, record_count = 2, fun_index = 1\<rparr>"

definition ex_loc :: "u8 \<Rightarrow> u16 \<Rightarrow> u32 \<Rightarrow> location" where
  "ex_loc kind reg off = \<lparr>loc_kind = kind, loc_reserved = 0, loc_size = 8, loc_dwarf_reg_num = reg,
     loc_reserved2 = 0, loc_offset = off\<rparr>"

definition ex_rec :: "nat \<Rightarrow> u64 \<Rightarrow> u32 \<Rightarrow> location list \<Rightarrow> stack_map_record" where
  "ex_rec i ppid off locs = \<lparr>patchpoint_id = ppid, instr_offset = off, rec_reserved = 0,
     num_locations = of_nat (length locs), locations = locs, num_liveouts = 0, liveouts = [],
     rec_index = of_nat i\<rparr>"

text \<open>
  The values of the first site: register RBX (8 bytes) goes to the stack slot at -16, and
  the constant 7 (4 bytes) to register R12.
\<close>

definition ex_opt1 :: stack_map_record where
  "ex_opt1 = ex_rec 0 1 0x20 [ex_loc 1 3 0, ex_loc 4 0 8, ex_loc 4 0 7, ex_loc 4 0 4]"

definition ex_opt2 :: stack_map_record where
  "ex_opt2 = ex_rec 1 2 0x40 []"

definition ex_unopt1 :: stack_map_record where
  "ex_unopt1 = ex_rec 2 (- 2) 0x30 [ex_loc 2 6 (- 16), ex_loc 4 0 8, ex_loc 1 12 0, ex_loc 4 0 4]"

definition ex_unopt2 :: stack_map_record where
  "ex_unopt2 = ex_rec 3 (- 3) 0x60 []"

definition ex_sm :: stack_map where
  "ex_sm = \<lparr>version = 3, sm_reserved = 0, sm_reserved2 = 0, num_func = 2, num_const = 1, num_rec = 4,
     stk_size_records = [ex_size_opt, ex_size_unopt], constants = [0x1122334455667788],
     stk_map_records = [ex_opt1, ex_opt2, ex_unopt1, ex_unopt2]\<rparr>"

lemmas ex_map_defs = ex_sm_def ex_opt1_def ex_opt2_def ex_unopt1_def ex_unopt2_def ex_rec_def ex_loc_def
  ex_size_opt_def ex_size_unopt_def

lemma ex_wf: "stmap_wf ex_sm"
  by code_simp

lemma ex_counts: "counts_ok ex_sm"
  by (simp add: counts_ok_def ex_map_defs)

lemma ex_sites: "sites ex_sm = [(ex_opt1, ex_size_opt), (ex_opt2, ex_size_opt),
    (ex_unopt1, ex_size_unopt), (ex_unopt2, ex_size_unopt)]"
  by (simp add: sites_def owners_def ex_sm_def, simp add: ex_size_opt_def ex_size_unopt_def,
      simp add: numeral_2_eq_2)

lemma ex_site_addrs [simp]:
  "site_addr ex_size_opt ex_opt1 = 0x1020" "site_addr ex_size_opt ex_opt2 = 0x1040"
  "site_addr ex_size_unopt ex_unopt1 = 0x2030" "site_addr ex_size_unopt ex_unopt2 = 0x2060"
  by (simp_all add: site_addr_def ex_map_defs)

lemma ex_ok: "stmap_ok ex_sm"
  by (simp add: stmap_ok_def ex_wf ex_counts ex_sites)

lemma ex_no_wrap: "no_wrap ex_sm"
  by (simp add: no_wrap_def ex_sites)

lemma ex_ids [simp]:
  "patchpoint_id ex_opt1 = 1" "patchpoint_id ex_opt2 = 2"
  "patchpoint_id ex_unopt1 = - 2" "patchpoint_id ex_unopt2 = - 3"
  by (simp_all add: ex_opt1_def ex_opt2_def ex_unopt1_def ex_unopt2_def ex_rec_def)

lemma ex_lookup [simp]:
  "stmap_get_map_record ex_sm 1 = Some ex_opt1" "stmap_get_map_record ex_sm 2 = Some ex_opt2"
  "stmap_get_map_record ex_sm (- 2) = Some ex_unopt1" "stmap_get_map_record ex_sm (- 3) = Some ex_unopt2"
  by (simp_all add: stmap_get_map_record_def ex_sm_def)

lemma ex_size_lookup [simp]:
  "stmap_get_size_record ex_sm (rec_index ex_opt1) = Some ex_size_opt"
  "stmap_get_size_record ex_sm (rec_index ex_opt2) = Some ex_size_opt"
  "stmap_get_size_record ex_sm (rec_index ex_unopt1) = Some ex_size_unopt"
  "stmap_get_size_record ex_sm (rec_index ex_unopt2) = Some ex_size_unopt"
  by (rule size_record_of_site [OF ex_ok], simp add: ex_sites)+

section \<open>An executable\<close>

definition ex_shdr :: "u32 \<Rightarrow> u32 \<Rightarrow> u64 \<Rightarrow> u64 \<Rightarrow> u64 \<Rightarrow> u8 list" where
  "ex_shdr nm ty addr off sz = to_bytes 4 nm @ to_bytes 4 ty @ replicate 8 0 @ to_bytes 8 addr @
     to_bytes 8 off @ to_bytes 8 sz @ replicate 24 0"

definition ex_sym :: "u64 \<Rightarrow> u64 \<Rightarrow> u8 list" where
  "ex_sym v s = replicate 8 0 @ to_bytes 8 v @ to_bytes 8 s"

definition ex_elf :: "u8 list" where
  "ex_elf = replicate 40 0 @ to_bytes 8 (64 :: u64) @ replicate 12 0 @ to_bytes 2 (3 :: u16) @
     to_bytes 2 (2 :: u16) @
     ex_shdr 0 2 0 256 48 @ ex_shdr 3 1 0x400000 0 0 @ ex_shdr 0 3 0 304 19 @
     ex_sym 0x1000 0x100 @ ex_sym 0x2000 0x100 @
     c_bytes ''.s'' @ [0] @ c_bytes ''.llvm_stackmaps'' @ [0]"

definition ex_os :: os where
  "ex_os = \<lparr>readlink_exe = Some ''/a'', files = (\<lambda>p. if p = ''/a'' then Some ex_elf else None)\<rparr>"

definition ex_syms :: "(u64 \<times> u64) list" where
  "ex_syms = [(0x1000, 0x100), (0x2000, 0x100)]"

lemmas ex_elf_defs = ex_elf_def ex_shdr_def ex_sym_def c_bytes_def

lemma length_ex_elf: "length ex_elf = 323"
  by (simp add: ex_elf_defs)

lemma ex_header [simp]: "get_elf_header ex_os = Inr ex_elf" "get_binary_path ex_os = Inr ''/a''"
  by (simp_all add: get_elf_header_def get_binary_path_def ex_os_def)

lemma ex_ehdr [simp]: "e_shoff ex_elf = Inr 64" "e_shnum ex_elf = Inr 3" "e_shstrndx ex_elf = Inr 2"
  by (simp add: e_shoff_def e_shnum_def e_shstrndx_def img_field_def length_ex_elf,
      simp add: field_def ex_elf_def del: to_bytes.simps)+

lemma ex_shdrs [simp]:
  "sh_type ex_elf 0 = Inr 2" "sh_type ex_elf (Suc 0) = Inr 1" "sh_type ex_elf 2 = Inr 3"
  "sh_offset ex_elf 0 = Inr 256" "sh_size ex_elf 0 = Inr 48" "sh_offset ex_elf 2 = Inr 304"
  "sh_name ex_elf 0 = Inr 0" "sh_name ex_elf (Suc 0) = Inr 3" "sh_addr ex_elf (Suc 0) = Inr 0x400000"
  by (simp add: sh_type_def sh_offset_def sh_size_def sh_name_def sh_addr_def shdr_field_def img_field_def
        length_ex_elf, simp add: field_def ex_elf_def ex_shdr_def del: to_bytes.simps)+

lemma ex_stab [simp]:
  "st_value ex_elf 256 0 = Inr 0x1000" "st_size ex_elf 256 0 = Inr 0x100"
  "st_value ex_elf 256 (Suc 0) = Inr 0x2000" "st_size ex_elf 256 (Suc 0) = Inr 0x100"
  by (simp add: st_value_def st_size_def img_field_def length_ex_elf,
      simp add: field_def ex_elf_def ex_shdr_def ex_sym_def del: to_bytes.simps)+

lemma upt_small: "[0..<2] = [0, Suc 0]" "[0..<3] = [0, Suc 0, 2]"
  by (simp_all add: numeral_3_eq_3 numeral_2_eq_2)

lemma ex_exe_symbols: "exe_symbols ex_os = Inr ex_syms"
  by (simp add: exe_symbols_def elf_symbols_def section_symbols_def symbol_count_def ex_syms_def
      upt_small)

section \<open>A call stack\<close>

text \<open>Memory in which every address is mapped, so that only values matter.\<close>

definition ex_ram :: mem where
  "ex_ram = poke (\<lambda>_. Some 0) 0x8018 (to_bytes 8 (0x1234 :: u64))"

definition ex_frame :: "u64 \<Rightarrow> u64 \<Rightarrow> u64 \<Rightarrow> stack_map_record \<Rightarrow> bool \<Rightarrow> frame" where
  "ex_frame sz ra b r inl = \<lparr>ret_addr = ra, stored_ret_addr = 0x1021, frame_size = sz, bp = b, real_bp = b,
     registers = replicate 6 0x11 @ [b] @ replicate 9 0x22, frame_record = r, real_record = r,
     inlined = inl\<rparr>"

definition ex_frame0 :: frame where
  "ex_frame0 = ex_frame 40 0x7FF8 0x7FF0 ex_opt1 False"

definition ex_frame1 :: frame where
  "ex_frame1 = ex_frame 40 0x206D 0x8010 ex_opt2 True"

definition ex_main :: frame where
  "ex_main = ex_frame 0 0x8018 0x8010 empty_record False"

definition ex_state :: call_stack_state where
  "ex_state = \<lparr>frames = [ex_frame0, ex_frame1, ex_main], depth = 3\<rparr>"

definition ex_seg :: restored_segment where
  "ex_seg = \<lparr>seg_start_addr = 0x500000, seg_total_size = 96\<rparr>"

lemmas ex_frame_defs = ex_frame0_def ex_frame1_def ex_main_def ex_frame_def

lemma total_mapped: "(\<And>x. m x \<noteq> None) \<Longrightarrow> mapped m a n"
  by (simp add: mapped_iff)

lemma poke_total: "(\<And>x. m x \<noteq> None) \<Longrightarrow> poke m a bs x \<noteq> None"
  by (simp add: poke_def)

lemma ex_ram_total: "ex_ram x \<noteq> None"
  by (simp add: ex_ram_def poke_def)

lemma ex_ram_mapped [simp]: "mapped ex_ram a n"
  by (rule total_mapped) (rule ex_ram_total)

lemma ex_state_ok: "state_ok ex_state"
  by (simp add: state_ok_def ex_state_def frame_ok_def ex_frame_defs)

lemma ex_state_sizes: "sizes_ok (frames ex_state)" "slot_end (frames ex_state) 0 = 48"
  "slot_end (frames ex_state) (Suc 0) = 96" "length (frames ex_state) = 3"
  by (simp_all add: sizes_ok_def slot_end_def ex_state_def ex_frame_defs)

lemma ex_segment: "segment_ok ex_ram ex_state ex_seg"
  by (simp add: segment_ok_def Let_def ex_state_ok ex_state_sizes)
    (simp add: ex_state_def ex_seg_def ex_frame_defs apart_def)

lemma ex_total: "get_total_stack_size ex_state = Inr 96"
  by (simp add: total_size_sum [OF ex_state_ok], simp add: ex_state_def ex_frame_defs)

lemma ex_transfers: "transfers_ok ex_sm ex_state"
  by (simp add: transfers_ok_def transfer_ok_def ex_state_def ex_frame_defs)
    (simp add: ex_map_defs)

lemma ex_bps: "new_bp b (frames ex_state) 0 = b + 32" "new_bp b (frames ex_state) (Suc 0) = b + 80"
  by (simp_all add: new_bp_def ex_state_sizes)

lemma ex_returns: "caller_returns ex_ram (frames ex_state) 0 = 0x206D"
  "caller_returns ex_ram (frames ex_state) (Suc 0) = 0x1234"
  by (simp_all add: caller_returns_def caller_return_def ex_state_def ex_frame_defs, simp add: ex_ram_def)

text \<open>A call stack of two frames whose first frame returns to the optimized call site.\<close>

definition ex_call_ram :: mem where
  "ex_call_ram = poke (\<lambda>_. Some 0) 0x7FF8 (to_bytes 8 (0x1011 :: u64))"

definition ex_call :: call_stack_state where
  "ex_call = \<lparr>frames = [ex_frame0\<lparr>stored_ret_addr := 0x1011\<rparr>, ex_main], depth = 2\<rparr>"

lemma ex_call_ok: "state_ok ex_call"
  by (simp add: state_ok_def ex_call_def frame_ok_def ex_frame_defs)

lemma ex_unopt_pos: "stmap_get_unopt_return_addr ex_sm 0x1011 =
    Inr (Some \<lparr>stk_size_record_index = 1, stk_map_record_index = 2\<rparr>)"
  by code_simp

lemma ex_collect_at:
  assumes total: "\<And>x. m x \<noteq> None" and l: "load_u64 m 0x7FF8 = Inr 0x1011"
    and st: "frames st = [f0, f1]" "depth st = 2" and f0: "ret_addr f0 = 0x7FF8" "stored_ret_addr f0 = 0x1011"
  shows "collect_map_records ex_os ex_sm st m = Inr
    (st\<lparr>frames := [f0\<lparr>frame_record := ex_opt1, real_record := ex_opt1, frame_size := 24\<rparr>, f1]\<rparr>,
     poke m 0x7FF8 (to_bytes 8 (0x203D :: u64)))"
proof -
  have "mapped m 0x7FF8 8" by (rule total_mapped) (rule total)
  then have s: "store_u64 m 0x7FF8 v = Inr (poke m 0x7FF8 (to_bytes 8 v))" for v
    by (rule store_u64_mapped)
  have r: "stk_map_records ex_sm ! 2 = ex_unopt1" "length (stk_map_records ex_sm) = 4"
    "stk_size_records ex_sm ! Suc 0 = ex_size_unopt" "length (stk_size_records ex_sm) = 2"
    by (simp_all add: ex_sm_def)
  have a: "stmap_get_map_record_after_addr ex_os ex_sm 1 0x1011 = Inr (Some ex_opt1)"
    unfolding after_addr_sites [OF ex_counts ex_exe_symbols]
    by (simp add: ex_sites, simp add: ex_size_opt_def ex_syms_def sym_end_of_def)
  have v: "fun_addr ex_size_unopt + ucast (instr_offset ex_unopt1) + 13 = 0x203D"
    using ex_site_addrs(3) by (simp add: site_addr_def)
  have sz: "stack_size ex_size_opt = 24" by (simp add: ex_size_opt_def)
  have ix: "call_indices st = [0]" by (simp add: call_indices_def st)
  have "collect_map_record ex_os ex_sm 0 (frames st, m) = Inr
      ([f0\<lparr>frame_record := ex_opt1, real_record := ex_opt1, frame_size := 24\<rparr>, f1],
        poke m 0x7FF8 (to_bytes 8 (0x203D :: u64)))"
    by (simp add: collect_map_record_def f0 sz st l ex_unopt_pos index_at_def r v a s Let_def
        get_sym_start_list [OF ex_exe_symbols] del: to_bytes.simps)
  then show ?thesis by (simp add: collect_map_records_def ix)
qed

lemma ex_collect: "collect_map_records ex_os ex_sm ex_call ex_call_ram = Inr
    (ex_call\<lparr>frames := [ex_frame0\<lparr>stored_ret_addr := 0x1011, frame_record := ex_opt1, real_record := ex_opt1,
       frame_size := 24\<rparr>, ex_main]\<rparr>, poke ex_call_ram 0x7FF8 (to_bytes 8 (0x203D :: u64)))"
  by (rule ex_collect_at) (simp_all add: ex_call_ram_def poke_total ex_call_def ex_frame_defs)

text \<open>A stack in which the record of the first frame belongs to another function than it returns to.\<close>

definition ex_inlined_call :: call_stack_state where
  "ex_inlined_call = \<lparr>frames = [ex_frame0\<lparr>stored_ret_addr := 0x2040\<rparr>, ex_frame1, ex_main], depth = 3\<rparr>"

lemma ex_inlined_call_ok: "state_ok ex_inlined_call"
  by (simp add: state_ok_def ex_inlined_call_def frame_ok_def ex_frame_defs)

text \<open>The live values of the example: RBX goes to a stack slot, a constant to R12.\<close>

definition ex_slack :: slack where
  "ex_slack = (\<lambda>_ _. 0)"

definition ex_pairs :: "(u8 list \<times> u8 list) list list" where
  "ex_pairs = [[(0x11 # replicate 7 0, 8 # replicate 7 0), ([7, 0, 0, 0], 4 # replicate 7 0)], []]"

definition ex_relaid :: call_stack_state where
  "ex_relaid = ex_state\<lparr>frames := relaid 0x500000 (frames ex_state) 2\<rparr>"

text \<open>The state after the transfer.\<close>

definition ex_moved :: "call_stack_state \<Rightarrow> call_stack_state" where
  "ex_moved st = st\<lparr>frames := (frames st)[0 := (frames st ! 0)\<lparr>registers := (registers (frames st ! 0))[12 := 7]\<rparr>]\<rparr>"

lemma ex_pairs_read:
  "map_res (frame_pairs ex_slack m ex_sm ex_state) (call_indices ex_state) = Inr ex_pairs"
  "map_res (frame_pairs ex_slack m ex_sm ex_relaid) (call_indices ex_relaid) = Inr ex_pairs"
  by code_simp+

lemma ex_cells:
  "all_cells ex_slack ex_sm ex_state ex_pairs = [((0x7FE0, 8), 0x11 # replicate 7 0)]"
  "all_cells ex_slack ex_sm ex_relaid ex_pairs = [((0x500010, 8), 0x11 # replicate 7 0)]"
  by code_simp+

lemma ex_relaid_ok: "state_ok ex_relaid" "transfers_ok ex_sm ex_relaid"
  by code_simp+

lemma ex_relaid_frames: "frames ex_relaid = [ex_frame0\<lparr>bp := 0x500020, ret_addr := 0x500028\<rparr>,
    ex_frame1\<lparr>bp := 0x500050, ret_addr := 0x500058\<rparr>, ex_main]"
  by code_simp

lemma ex_values_zip: "zip (call_indices ex_state) ex_pairs = [(0, ex_pairs ! 0), (Suc 0, [])]"
  "zip (call_indices ex_relaid) ex_pairs = [(0, ex_pairs ! 0), (Suc 0, [])]"
  by code_simp+

lemma ex_values_at:
  assumes slack: "\<And>k. slack PastBlock k = 0" and "\<And>x. m x \<noteq> None" and "length (registers (fs ! i)) = 16" and "i < length fs"
  shows "restore_values slack i b (zip [ex_loc 2 6 (- 16), ex_loc 1 12 0] (ex_pairs ! 0)) (fs, m) =
    Inr (fs[i := (fs ! i)\<lparr>registers := (registers (fs ! i))[12 := 7]\<rparr>], poke m (b - 16) (0x11 # replicate 7 0))"
proof -
  have s: "from_bytes (8 # replicate 7 0) = (8 :: u64)" "from_bytes (4 # replicate 7 0) = (4 :: u64)"
    "from_bytes [7, 0, 0, 0, 0, 0, 0, 0] = (7 :: u64)" by code_simp+
  have k: "location_type_of 2 = Some DIRECT" "location_type_of 1 = Some REGISTER"
    "scast (- 16 :: u32) = (- 16 :: u64)" by code_simp+
  have r: "read_object (0x11 # replicate 7 0) past 8 = 0x11 # replicate 7 0" for past
    by (simp add: read_object_def)
  have q: "read_object [7, 0, 0, 0] (slack PastBlock) 8 = [7, 0, 0, 0, 0, 0, 0, 0]"
    by (simp add: read_object_def slack numeral_eq_Suc)
  have st: "store_bytes m a bs = Inr (poke m a bs)" for a bs
    by (rule store_bytes_mapped) (rule total_mapped [OF assms(2)])
  show ?thesis
    using assms(3,4)
    by (simp add: restore_values_def restore_location_def ex_pairs_def ex_loc_def k s r q st
        assert_valid_reg_num_def index_at_def update_at_def del: from_bytes.simps)
qed

lemmas ex_values = ex_values_at [of ex_slack, OF fun_cong [OF fun_cong [OF ex_slack_def]]]

lemma ex_restore:
  assumes "\<And>x. m x \<noteq> None"
  shows "restore_unopt_stack ex_slack ex_sm ex_state m = Inr (ex_moved ex_state, poke m 0x7FE0 (0x11 # replicate 7 0))"
    and "restore_unopt_stack ex_slack ex_sm ex_relaid m = Inr (ex_moved ex_relaid, poke m 0x500010 (0x11 # replicate 7 0))"
proof -
  have u: "unopt_locations ex_sm (frames ex_state ! 0) = [ex_loc 2 6 (- 16), ex_loc 1 12 0]"
    "unopt_locations ex_sm (frames ex_relaid ! 0) = [ex_loc 2 6 (- 16), ex_loc 1 12 0]"
    "bp (frames ex_state ! 0) = 0x7FF0" "bp (frames ex_relaid ! 0) = 0x500020"
    "length (registers (frames ex_state ! 0)) = 16" "length (registers (frames ex_relaid ! 0)) = 16"
    "0 < length (frames ex_state)" "0 < length (frames ex_relaid)" by code_simp+
  have nil: "restore_values ex_slack i b [] s = Inr s" for i b s by (simp add: restore_values_def)
  show "restore_unopt_stack ex_slack ex_sm ex_state m = Inr (ex_moved ex_state, poke m 0x7FE0 (0x11 # replicate 7 0))"
    unfolding restore_unopt_stack_transfer [OF ex_state_ok ex_transfers]
    by (simp only: ex_pairs_read ex_values_zip bind_res_simps fold_res.simps prod.case u
        ex_values [OF assms u(5,7)] nil zip.simps(1) ex_moved_def)
      (simp add: nil)
  show "restore_unopt_stack ex_slack ex_sm ex_relaid m = Inr (ex_moved ex_relaid, poke m 0x500010 (0x11 # replicate 7 0))"
    unfolding restore_unopt_stack_transfer [OF ex_relaid_ok]
    by (simp only: ex_pairs_read ex_values_zip bind_res_simps fold_res.simps prod.case u
        ex_values [OF assms u(6,8)] nil zip.simps(1) ex_moved_def)
      (simp add: nil)
qed

end
