(* ===== verification/Map_Properties.thy ===== *)
theory Map_Properties
  imports Examples
begin

unbundle bit_operations_syntax

text \<open>
  The properties of the parser, of the look-ups in the stack map and in the symbol table,
  and of the values of locations. Each is stated over the definitions that model the code
  and is followed by an instance on the example program.
\<close>

section \<open>The parser\<close>

text \<open>C15: Round trip. Memory that holds the binary layout of a well-formed stack map at some
  address is parsed by \<open>stmap_create\<close> to exactly that stack map, padding, \<open>index\<close> fields
  and all.\<close>

theorem stmap_create_roundtrip:
  assumes "holds m a (stmap_encode sm)" and "stmap_wf sm"
  shows "stmap_create m a = Inr sm"
  using assms by (rule stmap_create_encode)

lemma ex_section: "holds (poke (\<lambda>_. None) 0x400000 (stmap_encode ex_sm)) 0x400000 (stmap_encode ex_sm)"
proof -
  have "length (stmap_encode ex_sm) \<le> 2 ^ 64"
    by (simp add: stmap_encode_def encode_map_record_def encode_size_record_def encode_location_def
        align8_def ex_map_defs)
  then show ?thesis by (rule poke_same)
qed

theorem stmap_create_roundtrip_witness:
  "stmap_create (poke (\<lambda>_. None) 0x400000 (stmap_encode ex_sm)) 0x400000 = Inr ex_sm"
  by (rule stmap_create_roundtrip [OF ex_section ex_wf])

text \<open>C40: Whatever memory \<open>stmap_create\<close> reads, the stack map it returns is well formed: its
  arrays are as long as their counts say and every record carries its own position.\<close>

theorem stmap_create_wellformed: "stmap_create m a = Inr sm \<Longrightarrow> stmap_wf sm"
  by (rule stmap_create_is_wf)

theorem stmap_create_wellformed_witness: "stmap_wf ex_sm"
  by (rule stmap_create_wellformed [OF stmap_create_encode [OF ex_section ex_wf]])

section \<open>Look-ups in the stack map\<close>

text \<open>C39: \<open>stmap_get_size_record\<close> finds the function a record belongs to: when the functions
  before \<open>f\<close> own the records below some index and \<open>f\<close> the next \<open>record_count\<close> ones, every
  index in that interval is mapped to \<open>f\<close>, and an index past all counts to nothing.\<close>

theorem size_record_interval:
  assumes "stk_size_records sm = fs @ f # gs" and "counts_ok sm"
    and "sum_list (map (\<lambda>g. unat (record_count g)) fs) \<le> i"
    and "i < sum_list (map (\<lambda>g. unat (record_count g)) fs) + unat (record_count f)"
    and "length (stk_map_records sm) \<le> j" and "j < 2 ^ 32"
  shows "stmap_get_size_record sm (of_nat i) = Some f \<and> stmap_get_size_record sm (of_nat j) = None"
proof -
  let ?n = "sum_list (map (\<lambda>g. unat (record_count g)) fs)"
  have len: "length (owners (stk_size_records sm)) = length (stk_map_records sm)" "length (stk_map_records sm) < 2 ^ 32"
    using assms(2) by (simp_all add: counts_ok_def length_owners)
  have own: "owners (stk_size_records sm) = owners fs @ replicate (unat (record_count f)) f @ owners gs"
    by (simp add: owners_def assms(1))
  then have i: "i < length (owners (stk_size_records sm))" "owners (stk_size_records sm) ! i = f"
    using assms(3,4) by (simp_all add: nth_append length_owners)
  show ?thesis
    using get_size_record_owners [of sm i] get_size_record_owners [of sm j] i len assms(5,6) by simp
qed

theorem size_record_interval_witness:
  "stmap_get_size_record ex_sm (of_nat 3) = Some ex_size_unopt \<and> stmap_get_size_record ex_sm (of_nat 4) = None"
  by (rule size_record_interval [where fs = "[ex_size_opt]" and gs = "[]", OF _ ex_counts])
    (simp_all add: ex_sm_def, simp_all add: ex_size_opt_def ex_size_unopt_def)

text \<open>C21: \<open>stmap_first_rec_after_addr\<close> returns the first record, in the order of the section,
  whose call site is at or after the address and whose function starts before it; the
  bound by the function's last record that the code also tests never excludes one, and
  the function never exits with its message.\<close>

theorem first_record_after:
  assumes "stmap_ok sm"
  shows "stmap_first_rec_after_addr sm addr =
    Inr (map_option fst (find (\<lambda>(r, f). addr \<le> site_addr f r \<and> fun_addr f < addr) (sites sm)))"
  using assms by (rule first_rec_sites)

theorem first_record_after_witness: "stmap_first_rec_after_addr ex_sm 0x1020 = Inr (Some ex_opt1)"
  unfolding first_record_after [OF ex_ok] by (simp add: ex_sites, simp add: ex_size_opt_def)

text \<open>C31: \<open>stmap_get_map_record_after_addr\<close> returns the first record with the identifier that
  is at or after the address in the function, according to the symbol table, that
  contains the address.\<close>

theorem record_after_address:
  assumes "counts_ok sm" and "exe_symbols os = Inr syms"
  shows "stmap_get_map_record_after_addr os sm ppid addr =
     Inr (map_option fst (find (\<lambda>(r, f). patchpoint_id r = ppid \<and> addr \<le> site_addr f r \<and>
       fun_addr f \<le> addr \<and> addr < sym_end_of syms (fun_addr f)) (sites sm)))"
  using assms by (rule after_addr_sites)

theorem record_after_address_witness:
  "stmap_get_map_record_after_addr ex_os ex_sm 2 0x1021 = Inr (Some ex_opt2)"
  unfolding record_after_address [OF ex_counts ex_exe_symbols]
  by (simp add: ex_sites, simp add: ex_size_opt_def ex_syms_def sym_end_of_def)

text \<open>C38: \<open>stmap_get_last_record\<close> returns, for a function with records, a record of that
  function whose call site no other record of the function is after.\<close>

theorem last_record_is_last:
  assumes "stmap_ok sm" and "(r0, f) \<in> set (sites sm)"
  shows "\<exists>r. stmap_get_last_record sm f = Some r \<and> (r, f) \<in> set (sites sm) \<and>
    (\<forall>r'. (r', f) \<in> set (sites sm) \<longrightarrow> site_addr f r' \<le> site_addr f r)"
  using assms by (rule last_record_sites)

theorem last_record_is_last_witness:
  "\<exists>r. stmap_get_last_record ex_sm ex_size_opt = Some r \<and> (r, ex_size_opt) \<in> set (sites ex_sm) \<and>
    (\<forall>r'. (r', ex_size_opt) \<in> set (sites ex_sm) \<longrightarrow> site_addr ex_size_opt r' \<le> site_addr ex_size_opt r)"
  by (rule last_record_is_last [OF ex_ok, of ex_opt1]) (simp add: ex_sites)

text \<open>C20: \<open>stmap_get_unopt_return_addr\<close> returns the position of the unoptimized twin of the
  first record after a return address: the two indices lead back to the record whose
  identifier is the complement of the identifier of that record, and to its function.\<close>

theorem unopt_return_position:
  assumes "stmap_ok sm" and "stmap_get_unopt_return_addr sm ra = Inr (Some pos)"
  shows "\<exists>c f u uf. stmap_first_rec_after_addr sm ra = Inr (Some c) \<and> (c, f) \<in> set (sites sm) \<and>
    fun_addr f < ra \<and> ra \<le> site_addr f c \<and>
    patchpoint_id u = NOT (patchpoint_id c) \<and> (u, uf) \<in> set (sites sm) \<and>
    index_at (stk_size_records sm) (unat (stk_size_record_index pos)) = Inr uf \<and>
    index_at (stk_map_records sm) (unat (stk_map_record_index pos)) = Inr u"
proof -
  from unopt_return_addrD [OF assms] obtain c u :: stack_map_record and f uf where
    c: "stmap_first_rec_after_addr sm ra = Inr (Some c)" "(c, f) \<in> set (sites sm)" "ra \<le> site_addr f c" "fun_addr f < ra"
    and u: "stmap_get_map_record sm (NOT (patchpoint_id c)) = Some u" "stmap_get_size_record sm (rec_index u) = Some uf"
    and ix: "index_at (stk_size_records sm) (unat (stk_size_record_index pos)) = Inr uf"
      "index_at (stk_map_records sm) (unat (stk_map_record_index pos)) = Inr u" by blast
  from u(1) have "u \<in> set (stk_map_records sm)" "patchpoint_id u = NOT (patchpoint_id c)"
    by (auto simp: stmap_get_map_record_def dest!: find_SomeD)
  moreover from this(1) obtain g where g: "(u, g) \<in> set (sites sm)"
    using record_in_sites [OF stmap_okD(2) [OF assms(1)]] by blast
  moreover have "g = uf" using size_record_of_site [OF assms(1) g] u(2) by simp
  ultimately show ?thesis using c ix by blast
qed

theorem unopt_return_position_witness:
  "\<exists>c f u uf. stmap_first_rec_after_addr ex_sm 0x1011 = Inr (Some c) \<and> (c, f) \<in> set (sites ex_sm) \<and>
    fun_addr f < 0x1011 \<and> 0x1011 \<le> site_addr f c \<and>
    patchpoint_id u = NOT (patchpoint_id c) \<and> (u, uf) \<in> set (sites ex_sm) \<and>
    index_at (stk_size_records ex_sm) (unat (stk_size_record_index \<lparr>stk_size_record_index = 1, stk_map_record_index = 2\<rparr>)) = Inr uf \<and>
    index_at (stk_map_records ex_sm) (unat (stk_map_record_index \<lparr>stk_size_record_index = 1, stk_map_record_index = 2\<rparr>)) = Inr u"
  by (rule unopt_return_position [OF ex_ok]) code_simp

section \<open>The symbol table\<close>

text \<open>\<open>get_sym_end\<close>, with its loops over sections and symbols, is a look-up in the list of
  all symbols: the end of the first symbol whose value is the address, and 0 when there is
  none.\<close>

theorem sym_end_lookup:
  assumes "exe_symbols os = Inr syms"
  shows "get_sym_end os a = Inr (sym_end_of syms a)"
  using assms by (rule get_sym_end_list)

theorem sym_end_lookup_witness: "get_sym_end ex_os 0x2000 = Inr 0x2100"
  unfolding sym_end_lookup [OF ex_exe_symbols] by (simp add: ex_syms_def sym_end_of_def)

text \<open>C37: \<open>get_sym_start\<close>, which calls \<open>get_sym_end\<close> for the value of every symbol, is a look-up in
  the same list: the first symbol at or below the address for which the address lies below
  the end of the first symbol with the same value. When symbols with the same value have
  the same size, this is the first symbol whose own range contains the address.\<close>

theorem sym_start_lookup:
  assumes "exe_symbols os = Inr syms"
  shows "get_sym_start os a = Inr (sym_start_of syms a) \<and>
    (sizes_agree syms \<longrightarrow> sym_start_of syms a =
       (case find (\<lambda>(v, s). v \<le> a \<and> a < v + s) syms of Some (v, s) \<Rightarrow> v | None \<Rightarrow> 0))"
  using get_sym_start_list [OF assms] sym_start_own_range [of syms a] by simp

theorem sym_start_lookup_witness: "get_sym_start ex_os 0x2040 = Inr 0x2000 \<and>
    (case find (\<lambda>(v, s). v \<le> 0x2040 \<and> 0x2040 < v + s) ex_syms of Some (v, s) \<Rightarrow> v | None \<Rightarrow> 0) = 0x2000"
proof -
  have "sizes_agree ex_syms" by code_simp
  then show ?thesis
    using sym_start_lookup [OF ex_exe_symbols, of "0x2040"]
    by (simp add: ex_syms_def sym_start_of_def sym_end_of_def)
qed

text \<open>
  When they do not, a symbol of size 0 hides the function that starts where it is: at 0x1050, in
  the second symbol of this list, no start is found.
\<close>

lemma sym_start_hidden:
  "exe_symbols os = Inr [(0x1000, 0), (0x1000, 0x100)] \<Longrightarrow> get_sym_start os 0x1050 = Inr 0"
  by (simp add: get_sym_start_list sym_start_of_def sym_end_of_def)

text \<open>The two symbol look-ups fit together: a start that \<open>get_sym_start\<close> finds for an
  address, with the end \<open>get_sym_end\<close> gives for it, is a non-empty range that contains the
  address.\<close>

theorem symbol_range:
  assumes "get_sym_start os a = Inr s" and "s \<noteq> 0" and "get_sym_end os s = Inr e"
  shows "s \<le> a \<and> a < e"
  using assms by (rule exe.start_in_range)

theorem symbol_range_witness: "(0x2000 :: u64) \<le> 0x2040 \<and> (0x2040 :: u64) < 0x2100"
  by (rule symbol_range [of ex_os])
    (simp_all add: get_sym_start_list [OF ex_exe_symbols] get_sym_end_list [OF ex_exe_symbols]
      ex_syms_def sym_start_of_def sym_end_of_def)

end
