(* ===== verification/Stack_Properties.thy ===== *)
theory Stack_Properties
  imports Examples
begin

unbundle bit_operations_syntax

text \<open>
  The properties of the call stack: how it is unwound and edited, how frames are matched
  with records, how the frames of inlined calls are rebuilt, how the new stack is laid
  out, and how live values are moved.
\<close>

section \<open>Unwinding and editing\<close>

text \<open>C32: The state \<open>get_call_stack_state\<close> builds is well formed, has no more frames than
  libunwind reports, and every frame has the registers of its own cursor position, the
  saved base pointer, the slot of its return address, and the return address that the
  slot holds.\<close>

theorem call_stack_unwound:
  assumes "get_call_stack_state junk cursor m = Inr st" and "length cursor < 2 ^ 32"
  shows "state_ok st \<and> length (frames st) \<le> length cursor \<and>
    (\<forall>k < length (frames st). \<forall>g.
       register_at (frames st ! k) g = Inr (unw_reg (cursor ! k) g) \<and>
       bp (frames st ! k) = unw_reg (cursor ! k) RBP \<and>
       ret_addr (frames st ! k) = unw_reg (cursor ! k) RBP + 8 \<and>
       load_u64 m (ret_addr (frames st ! k)) = Inr (stored_ret_addr (frames st ! k)) \<and>
       \<not> inlined (frames st ! k))"
proof -
  from assms(1) obtain fs where fs: "unwind m junk 0 cursor = Inr fs" and st: "frames st = fs"
    by (auto simp: get_call_stack_state_def bind_res_Inr_iff)
  then show ?thesis
    using get_call_stack_state_ok [OF assms] unwind_frames [OF fs]
    by (auto simp: register_at_def index_at_def get_registers_nth unw_num_less)
qed

definition ex_cursor :: "unw_frame list" where
  "ex_cursor = [\<lparr>unw_ip = 0x1021, unw_reg = (\<lambda>g. if g = RBP then 0x8010 else 5), unw_proc_name = ''main''\<rparr>]"

theorem call_stack_unwound_witness:
  "\<exists>st. get_call_stack_state (\<lambda>_. empty_frame) ex_cursor ex_ram = Inr st \<and> state_ok st \<and>
     register_at (frames st ! 0) RCX = Inr 5 \<and> load_u64 ex_ram (ret_addr (frames st ! 0)) = Inr 0x1234"
proof -
  have l: "load_u64 ex_ram 0x8018 = Inr 0x1234" by (simp add: ex_ram_def)
  obtain st where st: "get_call_stack_state (\<lambda>_. empty_frame) ex_cursor ex_ram = Inr st"
    and n: "length (frames st) = 1" "ret_addr (frames st ! 0) = 0x8018"
    by (simp add: get_call_stack_state_def ex_cursor_def Let_def get_registers_def l)
  have "length ex_cursor < 2 ^ 32" by (simp add: ex_cursor_def)
  from call_stack_unwound [OF st this] st n show ?thesis by (auto simp: ex_cursor_def l)
qed

text \<open>\<open>insert_frames\<close> with all frames of an array puts exactly those frames at the index,
  shifts the frames behind it and keeps the state well formed, as long as the depth fits
  its 32 bits.\<close>

theorem insert_frames_spliced:
  assumes "state_ok st" and "list_all frame_ok fs" and "i \<le> length (frames st)"
    and "length (frames st) + length fs < 2 ^ 32"
  shows "\<exists>st'. insert_frames st i fs (length fs) = Inr st' \<and> state_ok st' \<and>
    frames st' = take i (frames st) @ fs @ drop i (frames st)"
  using assms by (rule insert_frames_defined)

theorem insert_frames_spliced_witness:
  "\<exists>st'. insert_frames ex_state 1 [ex_frame1, ex_frame0] (length [ex_frame1, ex_frame0]) = Inr st' \<and> state_ok st' \<and>
    frames st' = take 1 (frames ex_state) @ [ex_frame1, ex_frame0] @ drop 1 (frames ex_state)"
  by (rule insert_frames_spliced [OF ex_state_ok]) (simp_all add: frame_ok_def ex_frame_defs ex_state_def)

text \<open>\<open>get_total_stack_size\<close> is the sum, in 64-bit arithmetic, of the sizes of all frames
  but the one of \<open>main\<close>, each with 8 bytes for its return address.\<close>

theorem total_stack_size:
  assumes "state_ok st"
  shows "get_total_stack_size st = Inr (sum_list (map (\<lambda>f. frame_size f + 8) (butlast (frames st))))"
  using assms by (rule total_size_sum)

theorem total_stack_size_witness: "get_total_stack_size ex_state = Inr 96"
  unfolding total_stack_size [OF ex_state_ok] by (simp add: ex_state_def ex_frame_defs)

section \<open>Matching frames with records\<close>

text \<open>C13: After \<open>collect_map_records\<close>, every frame that makes a call has the record of the
  optimized call it returns to: its return address slot held an address that lies, among
  the recorded call sites in order, up to the site with the record's identifier, past the
  start of the function of that site. The record is found by its identifier, with the stack
  size of its function, and the slot now holds the address at which the unoptimized twin of
  the call returns; the frame of \<open>main\<close> is as it was.\<close>

theorem records_collected:
  assumes ok: "stmap_ok sm" and run: "collect_map_records os sm st m = Inr (st', m')" and st: "state_ok st"
    and sep: "\<And>i j. i < j \<Longrightarrow> Suc j < length (frames st) \<Longrightarrow>
      apart (ret_addr (frames st ! i)) 8 (ret_addr (frames st ! j)) 8"
  shows "state_ok st' \<and> length (frames st') = length (frames st) \<and>
    (\<forall>i. Suc i < length (frames st) \<longrightarrow>
       (\<exists>ra. load_u64 m (ret_addr (frames st ! i)) = Inr ra \<and> returns_to sm ra (frame_record (frames st' ! i))) \<and>
       matched os sm (frames st ! i) (frames st' ! i) \<and>
       load_u64 m' (ret_addr (frames st ! i)) = Inr (the (unopt_return sm (frame_record (frames st' ! i))))) \<and>
    (\<forall>i. Suc i = length (frames st) \<longrightarrow> frames st' ! i = frames st ! i)"
proof -
  let ?cells = "map (\<lambda>i. (ret_addr (frames st ! i), the (unopt_return sm (frame_record (frames st' ! i))))) (call_indices st)"
  have ix: "i \<in> set (call_indices st) \<longleftrightarrow> Suc i < length (frames st)" for i
    using st by (simp add: call_indices_less state_ok_def)
  from run have fold: "fold_res (collect_map_record os sm) (call_indices st) (frames st, m) = Inr (frames st', m')"
    by (auto simp: collect_map_records_def bind_res_Inr_iff)
  have dist: "distinct (call_indices st)" by (simp add: call_indices_def)
  have other: "apart (ret_addr (frames st ! i)) 8 (ret_addr (frames st ! j)) 8"
    if "Suc i < length (frames st)" "Suc j < length (frames st)" "i \<noteq> j" for i j
    using that sep [of i j] sep [of j i] apart_sym by (metis linorder_neqE_nat)
  have w: "word_cells.wr_all ?cells m = Inr m'" by (rule collect_map_records_cells [OF ok fold dist])
  have "apart (fst c) 8 (fst d) 8" if cd: "c \<in> set ?cells" "d \<in> set ?cells" "c \<noteq> d" for c d
  proof -
    from cd(1,2) obtain i j where "Suc i < length (frames st)" "Suc j < length (frames st)"
      "fst c = ret_addr (frames st ! i)" "fst d = ret_addr (frames st ! j)" "i = j \<Longrightarrow> c = d"
      using ix by auto
    then show ?thesis using cd(3) other by metis
  qed
  then have slot: "load_u64 m' (ret_addr (frames st ! i)) = Inr (the (unopt_return sm (frame_record (frames st' ! i))))"
    if "Suc i < length (frames st)" for i
    using that ix by (intro word_cells.rd_wr_all_set [OF w]) auto
  have "\<exists>ra. load_u64 m (ret_addr (frames st ! i)) = Inr ra \<and> returns_to sm ra (frame_record (frames st' ! i))"
    if "Suc i < length (frames st)" for i
    by (rule collect_map_records_returns [OF ok fold dist]) (use ix that other in auto)
  with slot show ?thesis using collect_map_records_frames [OF ok run st] by blast
qed

theorem records_collected_witness:
  "\<exists>st' m'. collect_map_records ex_os ex_sm ex_call ex_call_ram = Inr (st', m') \<and> state_ok st' \<and>
     load_u64 ex_call_ram 0x7FF8 = Inr 0x1011 \<and> returns_to ex_sm 0x1011 (frame_record (frames st' ! 0)) \<and>
     load_u64 m' 0x7FF8 = Inr 0x203D \<and> matched ex_os ex_sm (frames ex_call ! 0) (frames st' ! 0)"
proof -
  let ?fr = "ex_frame0\<lparr>stored_ret_addr := 0x1011, frame_record := ex_opt1, real_record := ex_opt1, frame_size := 24\<rparr>"
  have "\<And>i j. i < j \<Longrightarrow> Suc j < length (frames ex_call) \<Longrightarrow>
      apart (ret_addr (frames ex_call ! i)) 8 (ret_addr (frames ex_call ! j)) 8"
    by (simp add: ex_call_def)
  from records_collected [OF ex_ok ex_collect ex_call_ok this]
  have "state_ok (ex_call\<lparr>frames := [?fr, ex_main]\<rparr>)"
    and r: "\<exists>ra. load_u64 ex_call_ram (ret_addr (frames ex_call ! 0)) = Inr ra \<and> returns_to ex_sm ra (frame_record ?fr)"
    and m: "matched ex_os ex_sm (frames ex_call ! 0) ?fr"
    and l: "load_u64 (poke ex_call_ram 0x7FF8 (to_bytes 8 (0x203D :: u64))) (ret_addr (frames ex_call ! 0)) =
      Inr (the (unopt_return ex_sm (frame_record ?fr)))"
    by (auto simp: ex_call_def)
  moreover have "ret_addr (frames ex_call ! 0) = 0x7FF8" by (simp add: ex_call_def ex_frame_defs)
  moreover have "load_u64 ex_call_ram 0x7FF8 = Inr 0x1011" by (simp add: ex_call_ram_def)
  moreover have "unopt_return ex_sm (frame_record ?fr) = Some 0x203D" by (simp add: unopt_return_def)
  ultimately show ?thesis using ex_collect by (auto simp del: to_bytes.simps)
qed

text \<open>C18: \<open>get_next_patchpoint\<close> returns for every address and function of a stack map that LLVM
  emits. It starts at the identifier of the function's last record and goes down, one at a
  time, for as long as the function has a record with that identifier and the record is at
  or after the address: the result is the lower end of that run. When the call sites of
  the function are numbered in the order of their addresses, this is the identifier of the
  first record of the function at or after the address, and of its last record when there
  is none.\<close>

theorem next_patchpoint_run:
  assumes "stmap_ok sm" and "stmap_get_last_record sm f = Some r"
  shows "\<exists>p. get_next_patchpoint sm addr f = Inr p \<and> ppid_run sm addr (fun_addr f) (patchpoint_id r) p \<and>
    (numbered_in_order sm f \<and> func_sites sm f \<noteq> [] \<longrightarrow>
       p = patchpoint_id (case find (\<lambda>r. addr \<le> site_addr f r) (func_sites sm f) of
             Some r \<Rightarrow> r | None \<Rightarrow> last (func_sites sm f)))"
proof -
  obtain p where p: "get_next_patchpoint sm addr f = Inr p"
    using get_next_patchpoint_total [OF assms(1)] by blast
  then have "next_patchpoint_loop (length (stk_map_records sm) + 2) sm addr f (Some r) 0 = Inr p"
    by (simp add: get_next_patchpoint_def assms(2))
  from next_patchpoint_loop_run [OF assms(1) this]
  have run: "ppid_run sm addr (fun_addr f) (patchpoint_id r) p" .
  have "p = patchpoint_id (case find (\<lambda>r. addr \<le> site_addr f r) (func_sites sm f) of
      Some r \<Rightarrow> r | None \<Rightarrow> last (func_sites sm f))" if "numbered_in_order sm f" "func_sites sm f \<noteq> []"
    using numbered_run_first [OF assms(1) that] run numbered_last [OF assms(1) that(1) assms(2) that(2)] by simp
  with p run show ?thesis by blast
qed

lemma ex_last: "stmap_get_last_record ex_sm ex_size_opt = Some ex_opt2"
  by code_simp

theorem next_patchpoint_run_witness:
  "get_next_patchpoint ex_sm 0x1030 ex_size_opt = Inr 2 \<and> ppid_run ex_sm 0x1030 0x1000 2 2"
proof -
  have "func_sites ex_sm ex_size_opt = [ex_opt1, ex_opt2]" "fun_addr ex_size_opt = 0x1000"
    by (simp_all add: func_sites_def ex_sites, simp_all add: ex_size_opt_def ex_size_unopt_def)
  moreover from this have "numbered_in_order ex_sm ex_size_opt"
    by (simp add: numbered_in_order_def ex_sites) (simp add: ex_size_opt_def ex_size_unopt_def)
  ultimately show ?thesis using next_patchpoint_run [OF ex_ok ex_last, of "0x1030"] by auto
qed

text \<open>
  When they are not, it need not be: the call sites of this function, at 0x10, 0x20 and 0x30, have
  the identifiers 10, 3 and 4. The first record after the address 8 is the one with identifier 10;
  the result is 3.
\<close>

definition ex_reordered :: stack_map where
  "ex_reordered = \<lparr>version = 3, sm_reserved = 0, sm_reserved2 = 0, num_func = 1, num_const = 0, num_rec = 3,
     stk_size_records = [\<lparr>fun_addr = 0, stack_size = 24, record_count = 3, fun_index = 0\<rparr>], constants = [],
     stk_map_records = [ex_rec 0 10 0x10 [], ex_rec 1 3 0x20 [], ex_rec 2 4 0x30 []]\<rparr>"

lemma ex_reordered_ok: "stmap_ok ex_reordered"
proof -
  have "stmap_wf ex_reordered" by code_simp
  then show ?thesis
    by (simp add: stmap_ok_def counts_ok_def sites_def owners_def ex_reordered_def ex_rec_def, simp add: numeral_3_eq_3 site_addr_def)
qed

lemma next_patchpoint_not_first:
  "get_next_patchpoint ex_reordered 8 (hd (stk_size_records ex_reordered)) = Inr 3"
  "map_option patchpoint_id (find (\<lambda>r. 8 \<le> site_addr (hd (stk_size_records ex_reordered)) r)
     (stk_map_records ex_reordered)) = Some 10"
  by code_simp+

section \<open>Frames of inlined calls\<close>

text \<open>C14: \<open>get_restored_state\<close> returns (its \<open>do\<close> loop ends), and a state it returns has one
  frame for each record that the walk from the start address finds, in strictly ascending
  order of call sites, none below the start; every frame is marked inlined and has the
  record, the return address in the unoptimized twin and the size of the twin's
  function.\<close>

theorem restored_frames_walk:
  assumes ok: "stmap_ok sm" "no_wrap sm" and syms: "exe_symbols os = Inr syms"
  shows "get_restored_state os sm junk start ppid \<noteq> Inl NoReturn \<and>
    (\<forall>st. get_restored_state os sm junk start ppid = Inr st \<longrightarrow>
       (\<exists>ps. site_walk sm ppid start ps \<and> list_all2 (restored_frame os sm start) ps (frames st) \<and>
          sorted_wrt (<) (map (\<lambda>(r, f). site_addr f r) ps) \<and>
          (\<forall>(r, f) \<in> set ps. start \<le> site_addr f r)))"
proof (intro conjI allI impI)
  show "get_restored_state os sm junk start ppid \<noteq> Inl NoReturn"
    by (rule get_restored_state_returns [OF ok syms])
  fix st assume "get_restored_state os sm junk start ppid = Inr st"
  then have "restored_loop (length (stk_map_records sm) + 1) os sm junk start ppid start [] = Inr (frames st)"
    by (auto simp: get_restored_state_def bind_res_Inr_iff)
  from restored_loop_walk [OF ok(1) this] obtain ps where
    ps: "site_walk sm ppid start ps" "list_all2 (restored_frame os sm start) ps (frames st)" by auto
  with site_walk_ascending [OF ps(1) ok(2)] site_walk_above [OF ps(1) ok(2)]
  show "\<exists>ps. site_walk sm ppid start ps \<and> list_all2 (restored_frame os sm start) ps (frames st) \<and>
          sorted_wrt (<) (map (\<lambda>(r, f). site_addr f r) ps) \<and>
          (\<forall>(r, f) \<in> set ps. start \<le> site_addr f r)" by blast
qed

theorem restored_frames_walk_witness:
  "get_restored_state ex_os ex_sm (\<lambda>_. empty_frame) 0x2001 (- 3) \<noteq> Inl NoReturn"
  using restored_frames_walk [OF ex_ok ex_no_wrap ex_exe_symbols] by blast

text \<open>When every frame that makes a call returns into the function of its own record, no
  call was inlined: \<open>collect_inlined_frames\<close> leaves the state alone and says so.\<close>

theorem nothing_inlined:
  assumes "state_ok st"
    and "\<And>i. Suc i < length (frames st) \<Longrightarrow> returns_in_own os sm (frames st ! i)"
  shows "collect_inlined_frames os sm junk moves st = Inr (st, False)"
  using assms by (rule collect_inlined_none)

theorem nothing_inlined_witness:
  "\<forall>junk moves. collect_inlined_frames ex_os ex_sm junk moves ex_call = Inr (ex_call, False)"
proof (intro allI nothing_inlined ex_call_ok)
  fix i assume "Suc i < length (frames ex_call)"
  then have "i = 0" by (simp add: ex_call_def)
  moreover have "fun_addr ex_size_opt = 0x1000" by (simp add: ex_size_opt_def)
  ultimately show "returns_in_own ex_os ex_sm (frames ex_call ! i)"
    by (simp add: returns_in_own_def ex_call_def ex_frame_defs get_sym_end_list [OF ex_exe_symbols],
        simp add: sym_end_of_def ex_syms_def)
qed

text \<open>\<open>collect_inlined_frames\<close> keeps iterating over a copy of the state that shares its
  frame array: when \<open>insert_frames\<close> has made \<open>realloc\<close> move the array and another frame
  follows, the next iteration reads freed memory.\<close>

theorem stale_copy_is_read:
  assumes "state_ok st" and "i + 2 < length (frames st)"
    and "\<And>k. k < i \<Longrightarrow> returns_in_own os sm (frames st ! k)"
    and "collect_inlined_frame os sm junk moves i (st, False, False) = Inr (st', True, True)"
  shows "collect_inlined_frames os sm junk moves st = Inl UseAfterFree"
  using assms by (rule collect_inlined_stale)

lemma ex_inlined_step:
  "\<exists>st'. collect_inlined_frame ex_os ex_sm (\<lambda>_. empty_frame) (\<lambda>_. True) 0 (ex_inlined_call, False, False) =
     Inr (st', True, True)"
proof -
  have f: "fun_addr ex_size_opt = 0x1000" "instr_offset ex_opt1 = 0x20" by (simp_all add: ex_map_defs)
  have fr: "frames ex_inlined_call = [ex_frame0\<lparr>stored_ret_addr := 0x2040\<rparr>, ex_frame1, ex_main]"
    "frame_record ex_frame0 = ex_opt1" "depth ex_inlined_call = 3"
    by (simp_all add: ex_inlined_call_def ex_frame_defs)
  have e: "get_sym_end ex_os 0x1000 = Inr 0x1100" "get_sym_start ex_os 0x204E = Inr 0x2000"
    by (simp_all add: get_sym_end_list [OF ex_exe_symbols] get_sym_start_list [OF ex_exe_symbols]
        sym_end_of_def sym_start_of_def ex_syms_def)
  have s: "stmap_get_size_record_in_func ex_sm 0x2000 = Some ex_size_unopt"
    "get_next_patchpoint ex_sm (fun_addr ex_size_unopt + ucast (instr_offset ex_opt1)) ex_size_unopt = Inr (- 3)"
    "stmap_first_rec_after_addr ex_sm 0x204E = Inr (Some ex_unopt2)"
    by code_simp+
  have a: "stmap_get_map_record_after_addr ex_os ex_sm (- 3) 0x204E = Inr (Some ex_unopt2)"
    unfolding after_addr_sites [OF ex_counts ex_exe_symbols]
    by (simp add: ex_sites, simp add: ex_size_opt_def ex_size_unopt_def ex_syms_def sym_end_of_def)
  obtain res where res: "get_restored_state ex_os ex_sm (\<lambda>_. empty_frame) 0x204E (- 3) = Inr res"
    and d: "length (frames res) = 1" "depth res = 1"
    by (simp add: get_restored_state_def s(3) a Let_def)
  have "length (registers (adopt (real_bp ex_frame1) (registers ex_frame1) fr)) = 16" for fr
    by (simp add: adopt_def ex_frame_defs)
  then show ?thesis
    using d by (simp add: collect_inlined_frame_def fr f(1) e s(1,2) res Let_def insert_frames_def list_ex_iff)
qed

theorem stale_copy_is_read_witness:
  "collect_inlined_frames ex_os ex_sm (\<lambda>_. empty_frame) (\<lambda>_. True) ex_inlined_call = Inl UseAfterFree"
  using ex_inlined_step
  by (elim exE, intro stale_copy_is_read [OF ex_inlined_call_ok, of 0]) (simp_all add: ex_inlined_call_def)

section \<open>The new stack\<close>

text \<open>C12: \<open>insert_real_addresses\<close> succeeds on a segment that has room, changes only the base
  pointer and return slot of every frame but the last, and lays out a stack in which an
  unwinder that follows the saved base pointers from the first frame sees every frame in
  order, each with the return address its caller had: the value of an inlined caller, or
  what the caller's slot on the old stack held.\<close>

theorem new_stack_chain:
  assumes "segment_ok m st seg" and "k = length (frames st) - 1"
  shows "\<exists>m'. insert_real_addresses st seg m = Inr (st\<lparr>frames := relaid (seg_start_addr seg) (frames st) k\<rparr>, m') \<and>
    chain_walk m' (new_bp (seg_start_addr seg) (frames st) 0) k =
      Inr (map (\<lambda>i. (new_bp (seg_start_addr seg) (frames st) i, caller_returns m (frames st) i)) [0..<k])"
  using assms by (rule insert_real_addresses_chain)

theorem new_stack_chain_witness:
  "\<exists>st' m'. insert_real_addresses ex_state ex_seg ex_ram = Inr (st', m') \<and>
    chain_walk m' 0x500020 2 = Inr [(0x500020, 0x206D), (0x500050, 0x1234)]"
  using new_stack_chain [OF ex_segment, of 2]
  by (auto simp: ex_state_sizes ex_bps ex_returns ex_seg_def upt_small)

section \<open>Live values\<close>

text \<open>C10: \<open>restore_unopt_stack\<close> is a simultaneous assignment: with an even number of locations
  in every record it is the same, results and errors alike, as reading all pairs of value
  and size of all frames first and then placing them frame by frame; the array of pointers
  with its two running indices and the final \<open>free\<close> of every block add nothing.\<close>

theorem restore_is_simultaneous:
  assumes "state_ok st" and "transfers_ok sm st"
  shows "restore_unopt_stack slack sm st m =
    bind_res (map_res (frame_pairs slack m sm st) (call_indices st)) (\<lambda>pss.
    bind_res (fold_res (\<lambda>(i, ps). restore_values slack i (bp (frames st ! i)) (zip (unopt_locations sm (frames st ! i)) ps))
      (zip (call_indices st) pss) (frames st, m)) (\<lambda>(fs, m').
    Inr (st\<lparr>frames := fs\<rparr>, m')))"
  using assms by (rule restore_unopt_stack_transfer)

theorem restore_is_simultaneous_witness:
  "bind_res (map_res (frame_pairs ex_slack ex_ram ex_sm ex_state) (call_indices ex_state)) (\<lambda>pss.
    bind_res (fold_res (\<lambda>(i, ps). restore_values ex_slack i (bp (frames ex_state ! i)) (zip (unopt_locations ex_sm (frames ex_state ! i)) ps))
      (zip (call_indices ex_state) pss) (frames ex_state, ex_ram)) (\<lambda>(fs, m').
    Inr (ex_state\<lparr>frames := fs\<rparr>, m'))) = Inr (ex_moved ex_state, poke ex_ram 0x7FE0 (0x11 # replicate 7 0))"
  unfolding restore_is_simultaneous [OF ex_state_ok ex_transfers, symmetric]
  by (rule ex_restore(1)) (rule ex_ram_total)

text \<open>C9: The effect of \<open>restore_unopt_stack\<close>: memory is changed exactly by writing the
  values with direct locations, in order; of the frames only the registers of frames that
  make calls change, to the values with register locations; number and order of frames
  stay.\<close>

theorem restore_effect:
  assumes "state_ok st" and "transfers_ok sm st" and "restore_unopt_stack slack sm st m = Inr (st', m')"
  shows "\<exists>pss. map_res (frame_pairs slack m sm st) (call_indices st) = Inr pss \<and>
    restored slack sm st pss m st' m'"
  using assms by (rule restore_unopt_stack_effect)

theorem restore_effect_witness:
  "\<exists>pss. map_res (frame_pairs ex_slack ex_ram ex_sm ex_state) (call_indices ex_state) = Inr pss \<and>
    restored ex_slack ex_sm ex_state pss ex_ram (ex_moved ex_state) (poke ex_ram 0x7FE0 (0x11 # replicate 7 0))"
  by (rule restore_effect [OF ex_state_ok ex_transfers ex_restore(1) [OF ex_ram_total]])

text \<open>C27: A live value whose location in the unoptimized record is on the stack is there after
  \<open>restore_unopt_stack\<close>, all its bytes, at its sign-extended offset from the base pointer
  of its frame, when the places of all such values are apart.\<close>

theorem direct_value_restored:
  assumes "state_ok st" and "transfers_ok sm st"
    and "restore_unopt_stack slack sm st m = Inr (st', m')"
    and "map_res (frame_pairs slack m sm st) (call_indices st) = Inr pss"
    and "cells_apart (all_cells slack sm st pss)"
    and "Suc i < length (frames st)" and "k < length (pss ! i)" and "pss ! i ! k = (v, s)"
    and "loc = unopt_locations sm (frames st ! i) ! k" and "location_type_of (loc_kind loc) = Some DIRECT"
  shows "load_bytes m' (bp (frames st ! i) + scast (loc_offset loc)) (length v) = Inr v"
  using assms by (rule restored_direct_value)

theorem direct_value_restored_witness:
  "load_bytes (poke ex_ram 0x7FE0 (0x11 # replicate 7 0)) 0x7FE0 8 = Inr (0x11 # replicate 7 0)"
proof -
  have "load_bytes (poke ex_ram 0x7FE0 (0x11 # replicate 7 0))
      (bp (frames ex_state ! 0) + scast (loc_offset (ex_loc 2 6 (- 16)))) (length (0x11 # replicate 7 0 :: u8 list)) =
      Inr (0x11 # replicate 7 0)"
    by (rule direct_value_restored [OF ex_state_ok ex_transfers ex_restore(1) [OF ex_ram_total] ex_pairs_read(1),
          where k = 0]) (code_simp+)
  moreover have "bp (frames ex_state ! 0) + scast (loc_offset (ex_loc 2 6 (- 16))) = 0x7FE0" by code_simp
  ultimately show ?thesis by simp
qed

text \<open>C35: How many bytes are moved for a live value: the size that the pass records as a 32-bit
  constant is read as 8 bytes, so the length is the recorded one plus \<open>2 ^ 32\<close> times what
  the 4 bytes behind the constant hold. Exactly the recorded number of bytes is read when
  those are 0, and at least 4 GiB otherwise.\<close>

theorem recorded_sizes_read:
  assumes "frame_pairs slack m sm st i = Inr ps" and "k < length ps"
    and "size_loc = locations (real_record (frames st ! i)) ! Suc (2 * k)"
    and "location_type_of (loc_kind size_loc) = Some CONSTANT"
  shows "length (fst (ps ! k)) = unat (loc_offset size_loc) + 2 ^ 32 * unat (from_bytes (map (slack PastOffset) [0..<4]) :: u32) \<and>
    (length (fst (ps ! k)) = unat (loc_offset size_loc) \<or> 2 ^ 32 \<le> length (fst (ps ! k)))"
proof -
  have "length (fst (ps ! k)) = unat (loc_offset size_loc) + 2 ^ 32 * unat (from_bytes (map (slack PastOffset) [0..<4]) :: u32)"
    using frame_pair_sizes [OF assms(1,2) assms(4) [unfolded assms(3)]] unfolding assms(3) by (rule trans [rotated])
  then show ?thesis by (cases "unat (from_bytes (map (slack PastOffset) [0..<4]) :: u32)") (simp_all del: upt_rec_numeral)
qed

theorem recorded_sizes_read_witness:
  "\<exists>ps. frame_pairs ex_slack ex_ram ex_sm ex_state 0 = Inr ps \<and> length (fst (ps ! 1)) = 4"
proof -
  have ps: "frame_pairs ex_slack ex_ram ex_sm ex_state 0 = Inr (ex_pairs ! 0)" "1 < length (ex_pairs ! 0)" by code_simp+
  have loc: "ex_loc 4 0 4 = locations (real_record (frames ex_state ! 0)) ! Suc (2 * 1)"
    "location_type_of (loc_kind (ex_loc 4 0 4)) = Some CONSTANT" by code_simp+
  have "loc_offset (ex_loc 4 0 4) = 4" "unat (from_bytes (map (ex_slack PastOffset) [0..<4]) :: u32) = 0" by code_simp+
  then show ?thesis using recorded_sizes_read [OF ps loc] ps(1) by simp
qed

text \<open>C30: A record with an odd number of locations: \<open>get_locations\<close> makes room for one entry more
  than it writes, and these entries end up at the end of the array. The values are moved as the
  pairs say, and then \<open>free_locations\<close> passes the entries that were never written to
  \<open>free\<close>: \<open>restore_unopt_stack\<close> succeeds when the allocator left null pointers in all of
  them, and frees a wild pointer otherwise.\<close>

theorem unwritten_entries_freed:
  assumes "state_ok st" and "list_all (twin_counted sm) (butlast (frames st))"
    and "map_res (frame_pairs slack m sm st) (call_indices st) = Inr pss"
    and "fold_res (\<lambda>(i, ps). restore_values slack i (bp (frames st ! i)) (zip (unopt_locations sm (frames st ! i)) ps))
      (zip (call_indices st) pss) (frames st, m) = Inr (fs, m')"
    and "n = 2 * length (concat pss)" and "d = sum_list (map (odd_entry st) (call_indices st))"
  shows "restore_unopt_stack slack sm st m =
    (if list_all (null_entry slack) [n..<n + d] then Inr (st\<lparr>frames := fs\<rparr>, m') else Inl BadFree)"
  unfolding restore_unopt_stack_frees [OF assms(1,2)] using assms(3-) by (simp add: odd_entries_def Let_def)

text \<open>Five locations in both records, and an allocator that leaves no null pointers.\<close>

definition ex_opt5 :: stack_map_record where
  "ex_opt5 = ex_rec 0 1 0x20 [ex_loc 1 3 0, ex_loc 4 0 8, ex_loc 4 0 7, ex_loc 4 0 4, ex_loc 4 0 1]"

definition ex_unopt5 :: stack_map_record where
  "ex_unopt5 = ex_rec 2 (- 2) 0x30 [ex_loc 2 6 (- 16), ex_loc 4 0 8, ex_loc 1 12 0, ex_loc 4 0 4, ex_loc 4 0 1]"

definition ex_odd_sm :: stack_map where
  "ex_odd_sm = ex_sm\<lparr>stk_map_records := [ex_opt5, ex_opt2, ex_unopt5, ex_unopt2]\<rparr>"

definition ex_odd :: call_stack_state where
  "ex_odd = \<lparr>frames = [ex_frame0\<lparr>frame_record := ex_opt5, real_record := ex_opt5\<rparr>, ex_main], depth = 2\<rparr>"

definition ex_dirty :: slack where
  "ex_dirty = (\<lambda>x k. if x = Unwritten then 0xAB else 0)"

theorem unwritten_entries_freed_witness: "restore_unopt_stack ex_dirty ex_odd_sm ex_odd ex_ram = Inl BadFree"
proof -
  let ?fr = "frames ex_odd ! 0"
  have st: "state_ok ex_odd" "list_all (twin_counted ex_odd_sm) (butlast (frames ex_odd))" by code_simp+
  have pss: "map_res (frame_pairs ex_dirty ex_ram ex_odd_sm ex_odd) (call_indices ex_odd) = Inr [ex_pairs ! 0]"
    by code_simp
  have u: "zip (call_indices ex_odd) [ex_pairs ! 0] = [(0, ex_pairs ! 0)]"
    "zip (unopt_locations ex_odd_sm ?fr) (ex_pairs ! 0) = zip [ex_loc 2 6 (- 16), ex_loc 1 12 0] (ex_pairs ! 0)"
    "length (registers ?fr) = 16" "0 < length (frames ex_odd)" by code_simp+
  have moved: "restore_values ex_dirty 0 b (zip [ex_loc 2 6 (- 16), ex_loc 1 12 0] (ex_pairs ! 0)) (frames ex_odd, ex_ram) =
      Inr ((frames ex_odd)[0 := ?fr\<lparr>registers := (registers ?fr)[12 := 7]\<rparr>], poke ex_ram (b - 16) (0x11 # replicate 7 0))" for b
    by (rule ex_values_at) (use u(3,4) ex_ram_total in \<open>auto simp: ex_dirty_def\<close>)
  obtain fs m' where run: "fold_res (\<lambda>(i, ps). restore_values ex_dirty i (bp (frames ex_odd ! i))
      (zip (unopt_locations ex_odd_sm (frames ex_odd ! i)) ps)) (zip (call_indices ex_odd) [ex_pairs ! 0])
      (frames ex_odd, ex_ram) = Inr (fs, m')"
    by (simp only: u(1) fold_res.simps prod.case u(2) moved bind_res_simps)
  have n: "4 = 2 * length (concat [ex_pairs ! 0])" by code_simp
  have d: "1 = sum_list (map (odd_entry ex_odd) (call_indices ex_odd))" by code_simp
  have "\<not> list_all (null_entry ex_dirty) [4..<4 + 1]" by code_simp
  then show ?thesis using unwritten_entries_freed [OF st pss run n d] by simp
qed

end
