(* ===== verification/Stages.thy ===== *)
theory Stages
  imports Resume
begin

unbundle bit_operations_syntax

text \<open>
  The handler as a state machine. A stage is what the handler has between two of its calls:
  the call stack state, the memory, and what it has decided. The step relation has one rule
  for each call (or branch) of \<open>__guard_failure\<close> after the look-up of the records. The
  lemmas show that the function \<open>handle_failure\<close> is exactly the runs of this machine, and
  an invariant of all the stages it can reach, by induction over the steps.
\<close>

section \<open>Every operation keeps the call stack state well formed\<close>

lemma index_at_frame_ok: "index_at fs i = Inr f \<Longrightarrow> list_all frame_ok fs \<Longrightarrow> frame_ok f"
  by (auto simp: index_at_Inr_iff list_all_iff)

lemma frame_ok_set: "frame_ok f \<Longrightarrow> list_all frame_ok fs \<Longrightarrow> list_all frame_ok (fs[i := f])"
  by (auto simp: list_all_iff dest!: set_update_subset_insert [THEN subsetD])

lemma sizes_set:
  "index_at fs i = Inr f \<Longrightarrow> frame_size f' = frame_size f \<Longrightarrow> map frame_size (fs[i := f']) = map frame_size fs"
  by (auto simp: index_at_Inr_iff map_update intro: list_update_same_conv [THEN iffD2])

lemma insert_real_addresses_ok:
  assumes st: "state_ok st" and run: "insert_real_addresses st seg m = Inr (st', m')"
  shows "state_ok st'" and "map frame_size (frames st') = map frame_size (frames st)"
proof -
  from run obtain c fs x t where
    loop: "fold_res insert_real_address (call_indices st) (frames st, c, m) = Inr (fs, x, t)"
    and st': "st' = st\<lparr>frames := fs\<rparr>"
    by (auto simp: insert_real_addresses_def bind_res_Inr_iff)
  let ?P = "\<lambda>s :: frame list \<times> u64 \<times> mem. list_all frame_ok (fst s) \<and> map frame_size (fst s) = map frame_size (frames st)"
  have "?P (fs, x, t)"
    using loop
  proof (rule fold_res_invariant)
    show "?P (frames st, c, m)" using st by (simp add: state_ok_def)
    fix i r s assume P: "?P r" and "insert_real_address i r = Inr s"
    then obtain fr b a where fr: "index_at (fst r) i = Inr fr"
      and s: "fst s = (fst r)[i := fr\<lparr>bp := b, ret_addr := a\<rparr>]"
      by (cases r; cases s) (auto simp: insert_real_address_def bind_res_Inr_iff)
    have "frame_ok (fr\<lparr>bp := b, ret_addr := a\<rparr>)"
      using index_at_frame_ok [OF fr] P by (simp add: frame_ok_def)
    then show "?P s" using P sizes_set [OF fr] by (simp add: s frame_ok_set)
  qed
  then show "state_ok st'" and "map frame_size (frames st') = map frame_size (frames st)"
    using st by (auto simp: state_ok_def st' dest: map_eq_imp_length_eq)
qed

lemma restore_location_ok:
  assumes "restore_location slack i b loc v sz (fs, m) = Inr (fs', m')" and "list_all frame_ok fs"
  shows "list_all frame_ok fs' \<and> map frame_size fs' = map frame_size fs"
proof -
  show ?thesis
  proof (cases "location_type_of (loc_kind loc) = Some REGISTER")
    case False
    then have "fs' = fs"
      using assms(1) by (cases "location_type_of (loc_kind loc)"; cases "the (location_type_of (loc_kind loc))")
        (auto simp: restore_location_def bind_res_Inr_iff)
    then show ?thesis using assms(2) by simp
  next
    case True
    with assms(1) obtain fr regs x k where fr: "index_at fs i = Inr fr"
      and u: "update_at (registers fr) k x = Inr regs" and fs': "fs' = fs[i := fr\<lparr>registers := regs\<rparr>]"
      by (auto simp: restore_location_def bind_res_Inr_iff)
    have "frame_ok (fr\<lparr>registers := regs\<rparr>)"
      using index_at_frame_ok [OF fr assms(2)] u by (auto simp: frame_ok_def update_at_def split: if_splits)
    then show ?thesis using assms(2) sizes_set [OF fr] by (simp add: fs' frame_ok_set)
  qed
qed

lemma restore_unopt_stack_keeps:
  assumes st: "state_ok st" and run: "restore_unopt_stack slack sm st m = Inr (st', m')"
  shows "state_ok st'" and "map frame_size (frames st') = map frame_size (frames st)"
proof -
  from run obtain locs fs x t where
    loop: "fold_res (restore_frame slack sm locs) (call_indices st) ((frames st, m), 0) = Inr ((fs, t), x)"
    and st': "st' = st\<lparr>frames := fs\<rparr>"
    by (auto simp: restore_unopt_stack_def bind_res_Inr_iff)
  let ?P = "\<lambda>s :: (frame list \<times> mem) \<times> nat. list_all frame_ok (fst (fst s)) \<and> map frame_size (fst (fst s)) = map frame_size (frames st)"
  have "?P ((fs, t), x)"
    using loop
  proof (rule fold_res_invariant)
    show "?P ((frames st, m), 0)" using st by (simp add: state_ok_def)
    fix i r s assume P: "?P r" and "restore_frame slack sm locs i r = Inr s"
    then obtain u b where
      inner: "fold_res (restore_entry slack locs u i b) (pair_indices (num_locations u)) r = Inr s"
      by (cases r; cases s) (auto simp: restore_frame_def bind_res_Inr_iff)
    then show "?P s"
    proof (rule fold_res_invariant)
      show "?P r" by (rule P)
      fix j v w assume "?P v" and "restore_entry slack locs u i b j v = Inr w"
      then show "?P w"
        by (cases v; cases w) (auto simp: restore_entry_def bind_res_Inr_iff dest: restore_location_ok)
    qed
  qed
  then show "state_ok st'" and "map frame_size (frames st') = map frame_size (frames st)"
    using st by (auto simp: state_ok_def st' dest: map_eq_imp_length_eq)
qed

text \<open>None of them unmaps memory.\<close>

lemma collect_map_records_mapped:
  assumes "collect_map_records os sm st m = Inr (st', m')"
  shows "mapped m' a n = mapped m a n"
proof -
  from assms obtain fs where "fold_res (collect_map_record os sm) (call_indices st) (frames st, m) = Inr (fs, m')"
    by (auto simp: collect_map_records_def bind_res_Inr_iff)
  then have "mapped (snd (fs, m')) a n = mapped m a n"
  proof (rule fold_res_invariant)
    fix i r s assume "mapped (snd r) a n = mapped m a n" and "collect_map_record os sm i r = Inr s"
    then show "mapped (snd s) a n = mapped m a n"
      by (cases r; cases s)
        (auto simp: collect_map_record_def bind_res_Inr_iff Let_def dest!: mapped_store_u64 [of _ _ _ _ a n])
  qed simp
  then show ?thesis by simp
qed

lemma restore_location_mapped:
  assumes "restore_location slack i b loc v sz (fs, m) = Inr (fs', m')"
  shows "mapped m' a n = mapped m a n"
  using assms
  by (cases "location_type_of (loc_kind loc)"; cases "the (location_type_of (loc_kind loc))")
    (auto simp: restore_location_def bind_res_Inr_iff dest!: mapped_store_bytes [of _ _ _ _ a n])

lemma restore_unopt_stack_mapped:
  assumes "restore_unopt_stack slack sm st m = Inr (st', m')"
  shows "mapped m' a n = mapped m a n"
proof -
  from assms obtain locs fs x where
    loop: "fold_res (restore_frame slack sm locs) (call_indices st) ((frames st, m), 0) = Inr ((fs, m'), x)"
    by (auto simp: restore_unopt_stack_def bind_res_Inr_iff)
  let ?P = "\<lambda>s :: (frame list \<times> mem) \<times> nat. mapped (snd (fst s)) a n = mapped m a n"
  have "?P ((fs, m'), x)"
    using loop
  proof (rule fold_res_invariant)
    fix i r s assume P: "?P r" and "restore_frame slack sm locs i r = Inr s"
    then obtain u b where
      inner: "fold_res (restore_entry slack locs u i b) (pair_indices (num_locations u)) r = Inr s"
      by (cases r; cases s) (auto simp: restore_frame_def bind_res_Inr_iff)
    then show "?P s"
    proof (rule fold_res_invariant)
      show "?P r" by (rule P)
      fix j v w assume "?P v" and "restore_entry slack locs u i b j v = Inr w"
      then show "?P w"
        by (cases v; cases w) (auto simp: restore_entry_def bind_res_Inr_iff dest!: restore_location_mapped)
    qed
  qed simp
  then show ?thesis by simp
qed

section \<open>The stages\<close>

datatype stage =
    Entered mem
  | Unwound call_stack_state mem
  | Matched call_stack_state mem
  | Spliced call_stack_state bool mem
  | Framed call_stack_state bool mem
  | Restacked call_stack_state "restored_segment option" mem
  | Moved call_stack_state "restored_segment option" mem
  | Left jump_label globals mem

inductive stage_step :: "env \<Rightarrow> stack_map \<Rightarrow> stack_map_record \<Rightarrow> stack_map_record \<Rightarrow> stack_size_record \<Rightarrow>
    stack_size_record \<Rightarrow> globals \<Rightarrow> stage \<Rightarrow> stage \<Rightarrow> bool"
  for e sm u r uf f g where
  unwind: "get_call_stack_state (env_junk e) (env_cursor e) m = Inr st \<Longrightarrow>
    stage_step e sm u r uf f g (Entered m) (Unwound st m)"
| match: "collect_map_records (env_os e) sm st m = Inr (st', m') \<Longrightarrow>
    stage_step e sm u r uf f g (Unwound st m) (Matched st' m')"
| splice: "collect_inlined_frames (env_os e) sm (env_restored_junk e) (env_moves e) st = Inr (st', inl) \<Longrightarrow>
    stage_step e sm u r uf f g (Matched st m) (Spliced st' inl m)"
| add: "insert_fail_frame e sm r f uf (st, inl) = Inr (st', inl') \<Longrightarrow>
    stage_step e sm u r uf f g (Spliced st inl m) (Framed st' inl' m)"
| stay: "stage_step e sm u r uf f g (Framed st False m) (Restacked st None m)"
| restack: "get_total_stack_size st = Inr sz \<Longrightarrow>
    insert_real_addresses st \<lparr>seg_start_addr = env_malloc e sz, seg_total_size = sz\<rparr> m = Inr (st', m') \<Longrightarrow>
    stage_step e sm u r uf f g (Framed st True m)
      (Restacked st' (Some \<lparr>seg_start_addr = env_malloc e sz, seg_total_size = sz\<rparr>) m')"
| move: "restore_unopt_stack (env_slack e) sm st m = Inr (st', m') \<Longrightarrow>
    stage_step e sm u r uf f g (Restacked st seg m) (Moved st' seg m')"
| leave: "restore_register_state st = Inr regs \<Longrightarrow>
    stage_step e sm u r uf f g (Moved st None m)
      (Left Jmp_to_addr (g\<lparr>g_r := regs, g_addr := site_addr uf u\<rparr>) m)"
| grow: "restore_register_state st = Inr regs \<Longrightarrow>
    jump_inlined (env_fuel e) (env_call_image e) st seg (env_rsp e) m
      (g\<lparr>g_r := regs, g_addr := site_addr uf u\<rparr>) = Inr (g', m') \<Longrightarrow>
    stage_step e sm u r uf f g (Moved st (Some seg) m) (Left Restore_inlined g' m')"

section \<open>The machine and the function\<close>

text \<open>What the code does from a stage on.\<close>

definition from_moved :: "env \<Rightarrow> stack_map_record \<Rightarrow> stack_size_record \<Rightarrow> globals \<Rightarrow> call_stack_state \<Rightarrow>
    restored_segment option \<Rightarrow> mem \<Rightarrow> (jump_label \<times> globals \<times> mem) res" where
  "from_moved e u uf g st seg m =
     bind_res (restore_register_state st) (\<lambda>regs.
     let g = g\<lparr>g_r := regs, g_addr := site_addr uf u\<rparr> in
     case seg of
       Some seg \<Rightarrow>
         bind_res (jump_inlined (env_fuel e) (env_call_image e) st seg (env_rsp e) m g) (\<lambda>(g, m).
         Inr (Restore_inlined, g, m))
     | None \<Rightarrow> Inr (Jmp_to_addr, g, m))"

definition from_restacked :: "env \<Rightarrow> stack_map \<Rightarrow> stack_map_record \<Rightarrow> stack_size_record \<Rightarrow> globals \<Rightarrow>
    call_stack_state \<Rightarrow> restored_segment option \<Rightarrow> mem \<Rightarrow> (jump_label \<times> globals \<times> mem) res" where
  "from_restacked e sm u uf g st seg m =
     bind_res (restore_unopt_stack (env_slack e) sm st m) (\<lambda>(st, m). from_moved e u uf g st seg m)"

definition outcome :: "env \<Rightarrow> stack_map \<Rightarrow> stack_map_record \<Rightarrow> stack_map_record \<Rightarrow> stack_size_record \<Rightarrow>
    stack_size_record \<Rightarrow> globals \<Rightarrow> stage \<Rightarrow> (jump_label \<times> globals \<times> mem) res" where
  "outcome e sm u r uf f g s =
     (case s of
        Entered m \<Rightarrow> handle_failure e sm u r uf f m g
      | Unwound st m \<Rightarrow>
          bind_res (collect_map_records (env_os e) sm st m) (\<lambda>(st, m).
          bind_res (collect_inlined_frames (env_os e) sm (env_restored_junk e) (env_moves e) st) (\<lambda>si.
          bind_res (insert_fail_frame e sm r f uf si) (\<lambda>si. resume_unopt e sm u uf si m g)))
      | Matched st m \<Rightarrow>
          bind_res (collect_inlined_frames (env_os e) sm (env_restored_junk e) (env_moves e) st) (\<lambda>si.
          bind_res (insert_fail_frame e sm r f uf si) (\<lambda>si. resume_unopt e sm u uf si m g))
      | Spliced st inl m \<Rightarrow>
          bind_res (insert_fail_frame e sm r f uf (st, inl)) (\<lambda>si. resume_unopt e sm u uf si m g)
      | Framed st inl m \<Rightarrow> resume_unopt e sm u uf (st, inl) m g
      | Restacked st seg m \<Rightarrow> from_restacked e sm u uf g st seg m
      | Moved st seg m \<Rightarrow> from_moved e u uf g st seg m
      | Left l g' m \<Rightarrow> Inr (l, g', m))"

lemma resume_unopt_from:
  "resume_unopt e sm u uf (st, inl) m g =
     (if inl then
        bind_res (get_total_stack_size st) (\<lambda>sz.
        bind_res (insert_real_addresses st \<lparr>seg_start_addr = env_malloc e sz, seg_total_size = sz\<rparr> m) (\<lambda>(st, m).
        from_restacked e sm u uf g st (Some \<lparr>seg_start_addr = env_malloc e sz, seg_total_size = sz\<rparr>) m))
      else from_restacked e sm u uf g st None m)"
  by (auto simp: resume_unopt_def from_restacked_def from_moved_def Let_def bind_res_def split: sum.split)

lemma stage_step_outcome:
  "stage_step e sm u r uf f g s t \<Longrightarrow> outcome e sm u r uf f g s = outcome e sm u r uf f g t"
  by (induction rule: stage_step.induct)
    (simp_all add: outcome_def handle_failure_def resume_unopt_from from_restacked_def from_moved_def Let_def)

lemma stages_outcome:
  "(stage_step e sm u r uf f g)\<^sup>*\<^sup>* s t \<Longrightarrow> outcome e sm u r uf f g s = outcome e sm u r uf f g t"
  by (induction rule: rtranclp_induct) (auto dest: stage_step_outcome)

text \<open>A stage whose outcome is a jump makes a step towards it.\<close>

lemma outcome_step:
  assumes "outcome e sm u r uf f g s = Inr (l, g', m')"
  shows "s = Left l g' m' \<or> (\<exists>t. stage_step e sm u r uf f g s t)"
  using assms
proof (cases s)
  case (Framed st inl m)
  with assms show ?thesis
    by (cases inl) (auto simp: outcome_def resume_unopt_from bind_res_Inr_iff intro: stage_step.intros)
next
  case (Moved st seg m)
  with assms show ?thesis
    by (cases seg) (auto simp: outcome_def from_moved_def bind_res_Inr_iff Let_def intro: stage_step.intros)
qed (auto simp: outcome_def handle_failure_def from_restacked_def bind_res_Inr_iff intro: stage_step.intros)

text \<open>Every step goes to a later stage, so a run has at most seven.\<close>

fun stage_left :: "stage \<Rightarrow> nat" where
  "stage_left (Entered m) = 7"
| "stage_left (Unwound st m) = 6"
| "stage_left (Matched st m) = 5"
| "stage_left (Spliced st inl m) = 4"
| "stage_left (Framed st inl m) = 3"
| "stage_left (Restacked st seg m) = 2"
| "stage_left (Moved st seg m) = 1"
| "stage_left (Left l g m) = 0"

lemma stage_step_later: "stage_step e sm u r uf f g s t \<Longrightarrow> stage_left s = Suc (stage_left t)"
  by (induction rule: stage_step.induct) auto

text \<open>The machine is deterministic, and nothing follows the jump.\<close>

inductive_cases stage_stepE: "stage_step e sm u r uf f g s t"

inductive_simps left_step: "stage_step e sm u r uf f g (Left l g' m') t"

lemma stage_step_det:
  assumes "stage_step e sm u r uf f g s t" and "stage_step e sm u r uf f g s t'"
  shows "t = t'"
  using assms by (induction rule: stage_step.induct) (auto elim!: stage_stepE)

lemma outcome_run:
  "outcome e sm u r uf f g s = Inr (l, g', m') \<Longrightarrow> (stage_step e sm u r uf f g)\<^sup>*\<^sup>* s (Left l g' m')"
proof (induction "stage_left s" arbitrary: s rule: less_induct)
  case less
  from outcome_step [OF less.prems] consider "s = Left l g' m'" | t where "stage_step e sm u r uf f g s t" by blast
  then show ?case
  proof cases
    case (2 t)
    then have "outcome e sm u r uf f g t = Inr (l, g', m')" "stage_left t < stage_left s"
      using stage_step_outcome [OF 2] less.prems stage_step_later [OF 2] by auto
    then show ?thesis using less.hyps 2 by (meson converse_rtranclp_into_rtranclp)
  qed simp
qed

lemma handle_failure_run:
  "handle_failure e sm u r uf f m g = Inr (l, g', m') \<longleftrightarrow>
    (stage_step e sm u r uf f g)\<^sup>*\<^sup>* (Entered m) (Left l g' m')"
proof
  show "(stage_step e sm u r uf f g)\<^sup>*\<^sup>* (Entered m) (Left l g' m')"
    if "handle_failure e sm u r uf f m g = Inr (l, g', m')"
    using that by (intro outcome_run) (simp add: outcome_def)
  show "handle_failure e sm u r uf f m g = Inr (l, g', m')"
    if "(stage_step e sm u r uf f g)\<^sup>*\<^sup>* (Entered m) (Left l g' m')"
    using stages_outcome [OF that] by (simp add: outcome_def)
qed

section \<open>The invariant of the stages\<close>

text \<open>
  Every state is well formed; the memory has the addresses it had (\<open>m0\<close> is the memory on
  entry); at the end the 16 words that \<open>jump.s\<close> reads are there, the address is that of the
  unoptimized call site, and the label fits what was decided.
\<close>

definition same_addresses :: "mem \<Rightarrow> mem \<Rightarrow> bool" where
  "same_addresses m0 m \<longleftrightarrow> (\<forall>a n. mapped m a n = mapped m0 a n)"

fun stage_ok :: "mem \<Rightarrow> u64 \<Rightarrow> stage \<Rightarrow> bool" where
  "stage_ok m0 target (Entered m) = same_addresses m0 m"
| "stage_ok m0 target (Unwound st m) = (state_ok st \<and> same_addresses m0 m)"
| "stage_ok m0 target (Matched st m) = (state_ok st \<and> same_addresses m0 m)"
| "stage_ok m0 target (Spliced st inl m) = (state_ok st \<and> same_addresses m0 m)"
| "stage_ok m0 target (Framed st inl m) = (state_ok st \<and> same_addresses m0 m)"
| "stage_ok m0 target (Restacked st seg m) =
     (state_ok st \<and> same_addresses m0 m \<and>
      (\<forall>s. seg = Some s \<longrightarrow> get_total_stack_size st = Inr (seg_total_size s)))"
| "stage_ok m0 target (Moved st seg m) =
     (state_ok st \<and> same_addresses m0 m \<and>
      (\<forall>s. seg = Some s \<longrightarrow> get_total_stack_size st = Inr (seg_total_size s)))"
| "stage_ok m0 target (Left l g m) = (length (g_r g) = 16 \<and> g_addr g = target \<and> same_addresses m0 m)"

lemma total_size_cong:
  assumes "state_ok st" and "state_ok st'" and "map frame_size (frames st') = map frame_size (frames st)"
  shows "get_total_stack_size st' = get_total_stack_size st"
proof -
  have "map (\<lambda>f. frame_size f + 8) (butlast fs) = map (\<lambda>s. s + 8) (butlast (map frame_size fs))" for fs :: "frame list"
    by (simp add: map_butlast [symmetric] comp_def)
  then show ?thesis by (simp add: total_size_sum assms)
qed

lemma stage_step_ok:
  assumes "stage_step e sm u r uf f g s t" and "stmap_ok sm" and "length (env_cursor e) < 2 ^ 32"
    and "stage_ok m0 (site_addr uf u) s"
  shows "stage_ok m0 (site_addr uf u) t"
  using assms
proof (induction rule: stage_step.induct)
  case (unwind m st)
  then show ?case by (auto intro: get_call_stack_state_ok)
next
  case (match st m st' m')
  then show ?case
    by (auto simp: same_addresses_def collect_map_records_mapped dest: collect_map_records_frames(1))
next
  case (splice st st' inl m)
  then show ?case by (auto intro: collect_inlined_frames_ok)
next
  case (add st inl st' inl' m)
  then show ?case by (auto intro: insert_fail_frame_ok)
next
  case (restack st sz m st' m')
  then show ?case
    using insert_real_addresses_ok [OF _ restack(2)] total_size_cong [of st st']
    by (auto simp: same_addresses_def insert_real_addresses_mapped [OF restack(2)])
next
  case (move st m st' m' seg)
  then show ?case
    using restore_unopt_stack_keeps [OF _ move(1)] total_size_cong [of st st']
    by (auto simp: same_addresses_def restore_unopt_stack_mapped [OF move(1)])
next
  case (leave st regs m)
  then show ?case by (simp add: length_register_state)
next
  case (grow st regs seg m g' m')
  then show ?case
    using jump_inlined_globals [OF grow(2)]
    by (simp add: same_addresses_def jump_inlined_mapped [OF grow(2)] length_register_state)
qed simp

lemma stages_ok:
  assumes "(stage_step e sm u r uf f g)\<^sup>*\<^sup>* (Entered m) s" and "stmap_ok sm" and "length (env_cursor e) < 2 ^ 32"
  shows "stage_ok m (site_addr uf u) s"
  using assms(1)
  by (induction rule: rtranclp_induct) (auto simp: same_addresses_def intro: stage_step_ok [OF _ assms(2,3)])

end
