(* ===== verification/Example_Run.thy ===== *)
theory Example_Run
  imports Examples
begin

unbundle bit_operations_syntax

text \<open>
  A run of the whole handler on the example program: the guard with identifier 1 fails in
  the optimized function, the handler finds the stack map in the executable, parses it,
  unwinds two frames, adds the frame of the failed guard, moves the live values, and jumps
  to the call site with identifier -2 in the unoptimized copy.
\<close>

lemma ex_get_addr: "get_addr ex_os p ''.llvm_stackmaps'' = Inr 0x400000"
proof -
  have n: "strcmp_eq (c_bytes ''.llvm_stackmaps'') (drop 304 ex_elf) = Inr False"
    "strcmp_eq (c_bytes ''.llvm_stackmaps'') (drop 307 ex_elf) = Inr True" by code_simp+
  show ?thesis
    by (simp add: get_addr_def upt_small n free_header_def)
qed

definition ex_run_ram :: mem where
  "ex_run_ram = poke ex_call_ram 0x400000 (stmap_encode ex_sm)"

lemma ex_run_total: "ex_run_ram x \<noteq> None"
  by (simp add: ex_run_ram_def ex_call_ram_def poke_def)

lemma ex_encoded: "length (stmap_encode ex_sm) = 264"
  by (simp add: stmap_encode_def encode_map_record_def encode_size_record_def encode_location_def
        align8_def ex_map_defs)

lemma ex_run_parse: "stmap_create ex_run_ram 0x400000 = Inr ex_sm"
  by (rule stmap_create_encode [OF _ ex_wf]) (simp add: ex_run_ram_def poke_same ex_encoded)

definition ex_run_cursor :: "unw_frame list" where
  "ex_run_cursor =
     [\<lparr>unw_ip = 0x1015, unw_reg = (\<lambda>g. if g = RBP then 0x7FF0 else 0x11), unw_proc_name = ''trace''\<rparr>,
      \<lparr>unw_ip = 0x3000, unw_reg = (\<lambda>g. if g = RBP then 0x8010 else 5), unw_proc_name = ''main''\<rparr>]"

definition ex_env :: env where
  "ex_env = \<lparr>env_os = ex_os, env_cursor = ex_run_cursor, env_ret_addr = 0x1010, env_slack = ex_slack,
     env_junk = (\<lambda>_. empty_frame), env_restored_junk = (\<lambda>_. empty_frame), env_moves = (\<lambda>_. False),
     env_malloc = (\<lambda>_. 0x500000), env_rsp = 0x7FB8, env_call_image = (\<lambda>_. replicate 16 0), env_fuel = 20\<rparr>"

definition ex_unwound :: call_stack_state where
  "ex_unwound = \<lparr>frames =
     [empty_frame\<lparr>registers := get_registers (ex_run_cursor ! 0), ret_addr := 0x7FF8, stored_ret_addr := 0x1011,
        bp := 0x7FF0, real_bp := 0x7FF0\<rparr>,
      empty_frame\<lparr>registers := get_registers (ex_run_cursor ! 1), ret_addr := 0x8018, stored_ret_addr := 0,
        bp := 0x8010, real_bp := 0x8010\<rparr>], depth = 2\<rparr>"

lemma ex_call_loads: "load_u64 ex_call_ram 0x7FF8 = Inr 0x1011" "load_u64 ex_call_ram 0x8018 = Inr 0"
  by (simp add: ex_call_ram_def) code_simp

lemma ex_run_loads: "load_u64 ex_run_ram 0x7FF8 = Inr 0x1011" "load_u64 ex_run_ram 0x8018 = Inr 0"
  unfolding ex_run_ram_def
  by (subst load_u64_poke_other; simp add: ex_encoded apart_def ex_call_loads)+

lemma ex_unwind: "get_call_stack_state (env_junk ex_env) (env_cursor ex_env) ex_run_ram = Inr ex_unwound"
  by (simp add: get_call_stack_state_def ex_env_def ex_run_cursor_def get_registers_def ex_run_loads
      ex_unwound_def empty_frame_def Let_def)

text \<open>The frames once they are matched with records, and with the frame of the guard in front.\<close>

definition ex_matched :: call_stack_state where
  "ex_matched = ex_unwound\<lparr>frames := [(frames ex_unwound ! 0)\<lparr>frame_record := ex_opt1, real_record := ex_opt1,
     frame_size := 24\<rparr>, frames ex_unwound ! 1]\<rparr>"

definition ex_ready :: call_stack_state where
  "ex_ready = \<lparr>frames = make_fail_frame ex_opt1 ex_size_opt ex_size_unopt (frames ex_matched ! 0) # frames ex_matched,
     depth = 3\<rparr>"

definition ex_run_ram2 :: mem where
  "ex_run_ram2 = poke ex_run_ram 0x7FF8 (to_bytes 8 (0x203D :: u64))"

lemma ex_run_total2: "ex_run_ram2 x \<noteq> None"
  by (simp add: ex_run_ram2_def poke_total ex_run_total del: to_bytes.simps not_None_eq)

lemma ex_match: "collect_map_records ex_os ex_sm ex_unwound ex_run_ram = Inr (ex_matched, ex_run_ram2)"
proof -
  have f: "frames ex_unwound = [frames ex_unwound ! 0, frames ex_unwound ! 1]" "depth ex_unwound = 2"
    "ret_addr (frames ex_unwound ! 0) = 0x7FF8" "stored_ret_addr (frames ex_unwound ! 0) = 0x1011"
    by (simp_all add: ex_unwound_def)
  show ?thesis
    using ex_collect_at [OF ex_run_total ex_run_loads(1) f]
    by (simp add: ex_matched_def ex_run_ram2_def del: to_bytes.simps)
qed

lemma ex_not_inlined: "collect_inlined_frames ex_os ex_sm junk moves ex_matched = Inr (ex_matched, False)"
proof (rule collect_inlined_none)
  show "state_ok ex_matched" by code_simp
  fix i assume "Suc i < length (frames ex_matched)"
  moreover have "length (frames ex_matched) = 2" by (simp add: ex_matched_def)
  ultimately have "i = 0" by simp
  moreover have "frame_record (frames ex_matched ! 0) = ex_opt1" "stored_ret_addr (frames ex_matched ! 0) = 0x1011"
    "fun_addr ex_size_opt = 0x1000"
    by (simp_all add: ex_matched_def ex_unwound_def ex_size_opt_def)
  ultimately show "returns_in_own ex_os ex_sm (frames ex_matched ! i)"
    by (simp add: returns_in_own_def get_sym_end_list [OF ex_exe_symbols], simp add: sym_end_of_def ex_syms_def)
qed

lemma ex_insert: "insert_fail_frame ex_env ex_sm ex_opt1 ex_size_opt ex_size_unopt (ex_matched, False) =
    Inr (ex_ready, False)"
proof -
  have "get_sym_end ex_os 0x1000 = Inr 0x1100"
    by (simp add: get_sym_end_list [OF ex_exe_symbols] sym_end_of_def ex_syms_def)
  moreover have "fun_addr ex_size_opt = 0x1000" by (simp add: ex_size_opt_def)
  moreover have "insert_frames ex_matched 0
      [make_fail_frame ex_opt1 ex_size_opt ex_size_unopt (frames ex_matched ! 0)] 1 = Inr ex_ready"
    by (simp add: insert_frames_def ex_ready_def, simp add: make_fail_frame_def ex_matched_def ex_unwound_def
        get_registers_def)
  moreover have "frames ex_matched \<noteq> []" by (simp add: ex_matched_def)
  moreover have "env_os ex_env = ex_os" "env_ret_addr ex_env = 0x1010" by (simp_all add: ex_env_def)
  ultimately show ?thesis by (simp add: insert_fail_frame_def index_at_def Let_def)
qed

lemma ex_ready_ok: "state_ok ex_ready" "transfers_ok ex_sm ex_ready" "length (frames ex_ready) = 3"
  by code_simp+

definition ex_run_pairs :: "(u8 list \<times> u8 list) list list" where
  "ex_run_pairs = [ex_pairs ! 0, ex_pairs ! 0]"

lemma ex_run_pairs_read:
  "map_res (frame_pairs ex_slack m ex_sm ex_ready) (call_indices ex_ready) = Inr ex_run_pairs"
  by code_simp

lemma ex_run_transfer: "\<exists>st' m'. restore_unopt_stack ex_slack ex_sm ex_ready ex_run_ram2 = Inr (st', m')"
proof -
  have u: "unopt_locations ex_sm (frames ex_ready ! 0) = [ex_loc 2 6 (- 16), ex_loc 1 12 0]"
    "unopt_locations ex_sm (frames ex_ready ! Suc 0) = [ex_loc 2 6 (- 16), ex_loc 1 12 0]"
    "length (registers (frames ex_ready ! 0)) = 16" "length (registers (frames ex_ready ! Suc 0)) = 16"
    "zip (call_indices ex_ready) ex_run_pairs = [(0, ex_pairs ! 0), (Suc 0, ex_pairs ! 0)]" by code_simp+
  show ?thesis
    unfolding restore_unopt_stack_transfer [OF ex_ready_ok(1,2)] ex_run_pairs_read
    by (simp only: u bind_res_simps fold_res.simps prod.case)
      (simp add: ex_values ex_run_total2 poke_total ex_ready_ok(3) u(2-4) del: not_None_eq)
qed

lemma ex_run:
  "\<exists>g' m'. guard_failure ex_env 1 ex_run_ram g = Inr (Jmp_to_addr, g', m')"
proof -
  have e: "env_os ex_env = ex_os" "env_slack ex_env = ex_slack" by (simp_all add: ex_env_def)
  from ex_run_transfer obtain st' m' where t: "restore_unopt_stack (env_slack ex_env) ex_sm ex_ready ex_run_ram2 = Inr (st', m')"
    by (auto simp: e)
  have l: "2 \<le> length (frames ex_ready)" by (simp add: ex_ready_ok(3))
  have "\<exists>g'. resume_unopt ex_env ex_sm ex_unopt1 ex_size_unopt (ex_ready, False) ex_run_ram2 g =
      Inr (Jmp_to_addr, g', m')"
    using resume_in_place [OF ex_ready_ok(1) l ex_ready_ok(2) t] ex_run_pairs_read by (auto simp: e)
  then have "\<exists>g'. handle_failure ex_env ex_sm ex_unopt1 ex_opt1 ex_size_unopt ex_size_opt ex_run_ram g =
      Inr (Jmp_to_addr, g', m')"
    by (simp add: handle_failure_def ex_unwind e ex_match ex_not_inlined ex_insert)
  then show ?thesis
    by (auto simp: guard_failure_def e ex_get_addr ex_run_parse)
qed

section \<open>With inlining: the machine at the end\<close>

definition ex_globals :: globals where
  "ex_globals = \<lparr>g_addr = 0, g_r = replicate 16 0, g_restored_bp = 0, g_restored_stack_size = 0,
     g_restored_start_addr = 0, g_restored_total_size = 0\<rparr>"

text \<open>The CPU when the handler jumps, with RBP in the handler's frame.\<close>

definition ex_cpu :: cpu where
  "ex_cpu = \<lparr>cpu_regs = (\<lambda>x. if x = RBP then 0x7F80 else 0), cpu_rip = 0x9000\<rparr>"

definition ex_regs :: "u64 list" where
  "ex_regs = replicate 6 0x11 @ [0x7FF0] @ replicate 5 0x22 @ [7] @ replicate 3 0x22"

lemma ex_main_base: "main_base ex_state = 0x8010"
  by code_simp

lemma ex_regs_moved: "register_updates ex_slack (transfers ex_sm ex_relaid 0 (ex_pairs ! 0)) (registers (hd (frames ex_state))) = ex_regs"
  by code_simp

lemma ex_insert_real: "\<exists>m1. insert_real_addresses ex_state ex_seg ex_ram = Inr (ex_relaid, m1) \<and> (\<forall>x. m1 x \<noteq> None)"
proof -
  from insert_real_addresses_chain [OF ex_segment refl] obtain m1 where
    i: "insert_real_addresses ex_state ex_seg ex_ram = Inr (ex_relaid, m1)"
    by (auto simp: ex_relaid_def ex_seg_def ex_state_sizes)
  have "mapped m1 x 1" for x using insert_real_addresses_mapped [OF i] by simp
  then have "m1 x \<noteq> None" for x by (simp add: mapped_iff)
  with i show ?thesis by blast
qed

lemma ex_room:
  assumes "\<And>x. m x \<noteq> None"
  shows "room_to_grow ex_env 16 0x7FB0 ex_seg 0x8010 m"
proof -
  have "unat (b + of_nat i) < unat (0x7FB0 :: u64) - 16 \<or> env_rsp ex_env \<le> b + of_nat i"
    if "i < 96" "b \<in> {0x500000, 0x8010 :: u64}" for i b
  proof -
    have "unat (b + of_nat i) = unat b + i"
      using that unat_of_nat_u64 [of i] by (auto simp: unat_word_ariths)
    moreover have "0x7FB8 \<le> unat b" using that(2) by auto
    ultimately show ?thesis by (simp add: word_le_nat_alt ex_env_def)
  qed
  then show ?thesis
    using assms by (simp add: room_to_grow_def ex_env_def ex_seg_def)
qed

lemma ex_ram_load: "load_u64 ex_ram 0x7F80 = Inr 0"
proof -
  have "load_u64 ex_ram 0x7F80 = load_u64 (\<lambda>_. Some 0) 0x7F80"
    unfolding ex_ram_def by (rule load_u64_poke_other) (simp add: apart_def)
  also have "\<dots> = Inr 0"
    by (simp add: load_u64_def load_bytes_def mapped_iff upt_rec numeral_eq_Suc)
  finally show ?thesis .
qed

end
