(* ===== verification/Handler_Properties.thy ===== *)
theory Handler_Properties
  imports Stages Example_Run
begin

unbundle bit_operations_syntax

text \<open>
  The properties of the handler and of \<open>jump.s\<close>: which call site a failing guard goes to,
  with which registers, base pointer and callers, when \<open>jump_inlined\<close> ends, and what the
  handler does when records are missing.
\<close>

section \<open>From the failing guard to the jump\<close>

text \<open>C2: When the handler gets to its jump, the code behind the label runs through from every
  machine state whose RBP is mapped, and control goes to the call site, in the stack map
  that the executable's \<open>.llvm_stackmaps\<close> section holds, whose identifier is the
  complement of the guard's.\<close>

theorem guard_failure_resumes_twin:
  assumes "guard_failure e sm_id m g = Inr (l, g', m')"
  shows "\<exists>p a sm r u uf. get_binary_path (env_os e) = Inr p \<and>
    get_addr (env_os e) p ''.llvm_stackmaps'' = Inr a \<and> stmap_create m a = Inr sm \<and>
    r \<in> set (stk_map_records sm) \<and> patchpoint_id r = sm_id \<and>
    u \<in> set (stk_map_records sm) \<and> patchpoint_id u = NOT sm_id \<and>
    stmap_get_size_record sm (rec_index u) = Some uf \<and>
    (\<forall>c saved. load_u64 m' (cpu_regs c RBP) = Inr saved \<longrightarrow>
      (\<exists>c'. exec_code g' m' (resume_at l) c = Inr c' \<and> cpu_rip c' = site_addr uf u))"
proof -
  obtain p a sm u r uf f where
    sm: "get_binary_path (env_os e) = Inr p" "get_addr (env_os e) p ''.llvm_stackmaps'' = Inr a"
      "stmap_create m a = Inr sm"
    and ur: "stmap_get_map_record sm (NOT sm_id) = Some u" "stmap_get_map_record sm sm_id = Some r"
    and uf: "stmap_get_size_record sm (rec_index u) = Some uf"
    and run: "handle_failure e sm u r uf f m g = Inr (l, g', m')" by (rule guard_failure_InrD [OF assms])
  have g: "g_addr g' = site_addr uf u" "length (g_r g') = 16"
    using handle_failure_globals [OF run] handle_failure_registers [OF run] by auto
  have "\<exists>c'. exec_code g' m' (resume_at l) c = Inr c' \<and> cpu_rip c' = site_addr uf u"
    if "load_u64 m' (cpu_regs c RBP) = Inr saved" for c saved
    using jmp_to_addr_state [OF g(2) that] restore_inlined_state [OF g(2) that]
    by (cases l) (simp_all add: resume_at_def g(1))
  then have "\<forall>c saved. load_u64 m' (cpu_regs c RBP) = Inr saved \<longrightarrow>
      (\<exists>c'. exec_code g' m' (resume_at l) c = Inr c' \<and> cpu_rip c' = site_addr uf u)" by simp
  moreover have "u \<in> set (stk_map_records sm)" "patchpoint_id u = NOT sm_id"
    "r \<in> set (stk_map_records sm)" "patchpoint_id r = sm_id"
    using ur by (auto simp: stmap_get_map_record_def dest!: find_SomeD)
  ultimately show ?thesis
    using sm uf by - (intro exI conjI, assumption+)
qed

theorem guard_failure_resumes_twin_witness:
  "\<exists>g' m' p a sm r u uf. guard_failure ex_env 1 ex_run_ram ex_globals = Inr (Jmp_to_addr, g', m') \<and>
    get_binary_path (env_os ex_env) = Inr p \<and>
    get_addr (env_os ex_env) p ''.llvm_stackmaps'' = Inr a \<and> stmap_create ex_run_ram a = Inr sm \<and>
    r \<in> set (stk_map_records sm) \<and> patchpoint_id r = 1 \<and>
    u \<in> set (stk_map_records sm) \<and> patchpoint_id u = NOT 1 \<and>
    stmap_get_size_record sm (rec_index u) = Some uf \<and>
    (\<forall>c saved. load_u64 m' (cpu_regs c RBP) = Inr saved \<longrightarrow>
      (\<exists>c'. exec_code g' m' (resume_at Jmp_to_addr) c = Inr c' \<and> cpu_rip c' = site_addr uf u))"
proof -
  from ex_run obtain g' m' where run: "guard_failure ex_env 1 ex_run_ram ex_globals = Inr (Jmp_to_addr, g', m')" by blast
  then show ?thesis
    using guard_failure_resumes_twin [OF run] by (intro exI [of _ g'] exI [of _ m']) simp
qed

text \<open>C1: With inlining: from a well-formed call stack whose records pair up, a segment from
  \<open>malloc\<close> with room for the new stack, room for the recursion of \<open>jump_inlined\<close>, and live
  values that do not land on return addresses, the handler gets through to its jump, and the
  unoptimized code is entered at its call site with RSP at the frame of \<open>main\<close>, RBP at the
  first frame, the other registers as the slots of \<open>jump.s\<close> load them (\<open>entry_regs\<close>) from
  the registers of the first frame with the live ones moved, and a stack on which an unwinder
  sees every reconstructed frame in order, each with the return address of its caller.\<close>

theorem inlined_code_entered:
  assumes "segment_ok m st seg" and "get_total_stack_size st = Inr (seg_total_size seg)"
    and "seg_start_addr seg = env_malloc e (seg_total_size seg)"
    and "slot_end (frames st) (length (frames st) - 2) < 2 ^ 64"
    and "transfers_ok sm st"
    and "insert_real_addresses st seg m = Inr (st1, m1)"
    and "restore_unopt_stack (env_slack e) sm st1 m1 = Inr (st2, m2)"
    and "map_res (frame_pairs (env_slack e) m1 sm st1) (call_indices st1) = Inr pss"
    and "keeps_returns (seg_start_addr seg) (frames st) (all_cells (env_slack e) sm st1 pss)"
    and "mapped m (main_base st) (unat (seg_total_size seg))"
    and "apart (seg_start_addr seg) (unat (seg_total_size seg)) (main_base st) (unat (seg_total_size seg))"
    and "room_to_grow e w (main_base st - seg_total_size seg) seg (main_base st) m2"
    and "mapped m (cpu_regs c RBP) 8"
    and "regs = register_updates (env_slack e) (transfers sm st1 0 (pss ! 0)) (registers (hd (frames st)))"
  shows "\<exists>g' m'. resume_unopt e sm u uf (st, True) m g = Inr (Restore_inlined, g', m') \<and>
    exec_code g' m' (resume_at Restore_inlined) c = Inr (c\<lparr>
      cpu_regs := entry_regs regs (new_bp (main_base st) (frames st) 0) (main_base st),
      cpu_rip := site_addr uf u\<rparr>) \<and>
    chain_walk m' (new_bp (main_base st) (frames st) 0) (length (frames st) - 1) =
      Inr (map (\<lambda>i. (new_bp (main_base st) (frames st) i, caller_returns m (frames st) i)) [0..<length (frames st) - 1])"
  unfolding assms(14) using assms(1-13) by (rule resume_inlined_entry)

theorem inlined_code_entered_witness:
  "\<exists>g' m'. resume_unopt ex_env ex_sm ex_unopt1 ex_size_unopt (ex_state, True) ex_ram ex_globals = Inr (Restore_inlined, g', m') \<and>
    exec_code g' m' (resume_at Restore_inlined) ex_cpu = Inr (ex_cpu\<lparr>
      cpu_regs := entry_regs ex_regs 0x8030 0x8010, cpu_rip := 0x2030\<rparr>) \<and>
    chain_walk m' 0x8030 2 = Inr [(0x8030, 0x206D), (0x8060, 0x1234)]"
proof -
  obtain m1 where ins: "insert_real_addresses ex_state ex_seg ex_ram = Inr (ex_relaid, m1)"
    and total: "\<And>x. m1 x \<noteq> None" using ex_insert_real by blast
  have slack: "env_slack ex_env = ex_slack" and sz: "seg_total_size ex_seg = 96" "seg_start_addr ex_seg = 0x500000"
    by (simp_all add: ex_env_def ex_seg_def)
  have run: "restore_unopt_stack (env_slack ex_env) ex_sm ex_relaid m1 =
      Inr (ex_moved ex_relaid, poke m1 0x500010 (0x11 # replicate 7 0))"
    unfolding slack by (rule ex_restore(2)) (rule total)
  have pss: "map_res (frame_pairs (env_slack ex_env) m1 ex_sm ex_relaid) (call_indices ex_relaid) = Inr ex_pairs"
    unfolding slack by (rule ex_pairs_read(2))
  have keep: "keeps_returns (seg_start_addr ex_seg) (frames ex_state) (all_cells (env_slack ex_env) ex_sm ex_relaid ex_pairs)"
    by (simp add: slack ex_cells keeps_returns_def ex_state_sizes sz, simp add: upt_small ex_bps apart_def)
  have total_size: "get_total_stack_size ex_state = Inr (seg_total_size ex_seg)" by (simp add: sz ex_total)
  have block: "seg_start_addr ex_seg = env_malloc ex_env (seg_total_size ex_seg)" by (simp add: sz ex_env_def)
  have small: "slot_end (frames ex_state) (length (frames ex_state) - 2) < 2 ^ 64" by (simp add: ex_state_sizes)
  have place: "apart (seg_start_addr ex_seg) (unat (seg_total_size ex_seg)) (main_base ex_state) (unat (seg_total_size ex_seg))"
    by (simp add: sz ex_main_base apart_def)
  have room: "room_to_grow ex_env 16 (main_base ex_state - seg_total_size ex_seg) ex_seg (main_base ex_state)
      (poke m1 0x500010 (0x11 # replicate 7 0))"
    using ex_room [of "poke m1 0x500010 (0x11 # replicate 7 0)"] total
    by (simp add: sz ex_main_base poke_total del: not_None_eq)
  have regs: "ex_regs = register_updates (env_slack ex_env) (transfers ex_sm ex_relaid 0 (ex_pairs ! 0)) (registers (hd (frames ex_state)))"
    by (simp add: slack ex_regs_moved)
  show ?thesis
    using inlined_code_entered [OF ex_segment total_size block small ex_transfers ins run pss keep ex_ram_mapped place
        room ex_ram_mapped regs, of ex_unopt1 ex_size_unopt ex_globals]
    by (simp add: ex_main_base ex_bps ex_returns ex_state_sizes upt_small)
qed

text \<open>C11: Without inlining: the handler gets through, memory keeps only the moved values, and
  the unoptimized code is entered at its call site, with RBP as the handler's frame saved it
  and RSP just above the handler's return address. Of the registers of the first frame, the
  live ones replaced, RAX, RBX and R8 to R15 get their own value; the slots that \<open>jump.s\<close>
  takes the other four from are those of RDX for RCX, RCX for RDX, RBP for RSI and RSP for
  RDI.\<close>

theorem code_entered_in_place:
  assumes "state_ok st" and "2 \<le> length (frames st)" and "transfers_ok sm st"
    and "restore_unopt_stack (env_slack e) sm st m = Inr (st', m')"
    and "map_res (frame_pairs (env_slack e) m sm st) (call_indices st) = Inr pss"
    and "load_u64 m' (cpu_regs c RBP) = Inr saved"
    and "regs = register_updates (env_slack e) (transfers sm st 0 (pss ! 0)) (registers (hd (frames st)))"
  shows "\<exists>g' c'. resume_unopt e sm u uf (st, False) m g = Inr (Jmp_to_addr, g', m') \<and>
    exec_code g' m' (resume_at Jmp_to_addr) c = Inr c' \<and>
    c' = c\<lparr>cpu_regs := entry_regs regs saved (cpu_regs c RBP + 16), cpu_rip := site_addr uf u\<rparr> \<and>
    cpu_regs c' RBP = saved \<and> cpu_regs c' RSP = cpu_regs c RBP + 16 \<and>
    (\<forall>x \<in> {RAX, RBX, R8, R9, R10, R11, R12, R13, R14, R15}. cpu_regs c' x = regs ! unw_num x) \<and>
    cpu_regs c' RCX = regs ! unw_num RDX \<and> cpu_regs c' RDX = regs ! unw_num RCX \<and>
    cpu_regs c' RSI = regs ! unw_num RBP \<and> cpu_regs c' RDI = regs ! unw_num RSP"
proof -
  let ?c = "c\<lparr>cpu_regs := entry_regs regs saved (cpu_regs c RBP + 16), cpu_rip := site_addr uf u\<rparr>"
  have "length (registers (hd (frames st))) = 16"
    using assms(1,2) by (cases "frames st") (auto simp: state_ok_def frame_ok_def)
  then have "\<exists>g'. resume_unopt e sm u uf (st, False) m g = Inr (Jmp_to_addr, g', m') \<and>
      exec_code g' m' (resume_at Jmp_to_addr) c = Inr ?c"
    unfolding resume_in_place [OF assms(1-5)] using assms(6,7) by (simp add: resume_at_def jmp_to_addr_state)
  moreover have "cpu_regs ?c RBP = saved \<and> cpu_regs ?c RSP = cpu_regs c RBP + 16 \<and>
      (\<forall>x \<in> {RAX, RBX, R8, R9, R10, R11, R12, R13, R14, R15}. cpu_regs ?c x = regs ! unw_num x) \<and>
      cpu_regs ?c RCX = regs ! unw_num RDX \<and> cpu_regs ?c RDX = regs ! unw_num RCX \<and>
      cpu_regs ?c RSI = regs ! unw_num RBP \<and> cpu_regs ?c RDI = regs ! unw_num RSP"
    by (simp add: entry_regs_def)
  ultimately show ?thesis by blast
qed

theorem code_entered_in_place_witness:
  "\<exists>g' c'. resume_unopt ex_env ex_sm ex_unopt1 ex_size_unopt (ex_state, False) ex_ram ex_globals =
      Inr (Jmp_to_addr, g', poke ex_ram 0x7FE0 (0x11 # replicate 7 0)) \<and>
    exec_code g' (poke ex_ram 0x7FE0 (0x11 # replicate 7 0)) (resume_at Jmp_to_addr) ex_cpu = Inr c' \<and>
    cpu_rip c' = 0x2030 \<and> cpu_regs c' RBP = 0 \<and> cpu_regs c' RSP = 0x7F90 \<and>
    cpu_regs c' R12 = 7 \<and> cpu_regs c' RBX = 0x11 \<and> cpu_regs c' RSI = 0x7FF0 \<and> cpu_regs c' RDI = 0x22"
proof -
  have slack: "env_slack ex_env = ex_slack" by (simp add: ex_env_def)
  have l: "2 \<le> length (frames ex_state)" by (simp add: ex_state_sizes)
  have rbp: "load_u64 (poke ex_ram 0x7FE0 (0x11 # replicate 7 0)) (cpu_regs ex_cpu RBP) = Inr 0"
    "cpu_regs ex_cpu RBP + 16 = 0x7F90"
    by (simp_all add: ex_cpu_def load_u64_poke_other apart_def ex_ram_load)
  have regs: "ex_regs = register_updates ex_slack (transfers ex_sm ex_state 0 (ex_pairs ! 0)) (registers (hd (frames ex_state)))"
    by code_simp
  have vals: "ex_regs ! 12 = 7" "ex_regs ! 3 = 0x11" "ex_regs ! 6 = 0x7FF0" "ex_regs ! 7 = 0x22" by code_simp+
  show ?thesis
    using code_entered_in_place [of ex_state ex_sm ex_env, OF ex_state_ok l ex_transfers
        ex_restore(1) [OF ex_ram_total, folded slack] ex_pairs_read(1) [folded slack] rbp(1) regs [folded slack],
        of ex_unopt1 ex_size_unopt ex_globals]
    by (auto simp: rbp(2) vals)
qed

text \<open>C24: \<open>jump.s\<close> and \<open>get_registers\<close> number the registers differently. Entering the
  unoptimized code with the registers of a frame gives every register but RBP and RSP, which
  are set up apart, its own value, except that RCX gets the frame's RDX and RDX its RCX, RSI
  gets its RBP and RDI its RSP.\<close>

theorem jump_registers_swapped:
  assumes "restore_register_state st = Inr (g_r g)" and "index_at (frames st) 0 = Inr fr"
    and "registers fr = get_registers un" and "load_u64 m (cpu_regs c RBP) = Inr saved"
    and "exec_code g m (resume_at l) c = Inr c'"
  shows "cpu_regs c' RCX = unw_reg un RDX \<and> cpu_regs c' RDX = unw_reg un RCX \<and>
    cpu_regs c' RSI = unw_reg un RBP \<and> cpu_regs c' RDI = unw_reg un RSP \<and>
    (\<forall>x. x \<in> {RCX, RDX, RSI, RDI, RBP, RSP} \<or> cpu_regs c' x = unw_reg un x)"
proof -
  have "length (get_registers un) = 16" by (simp add: get_registers_def)
  then have "map_res (index_at (get_registers un)) [0..<16] = Inr (get_registers un)"
    unfolding map_res_Inr_iff by (intro list_all2_all_nthI) simp_all
  then have r: "g_r g = get_registers un" "length (g_r g) = 16"
    using assms(1-3) length_register_state [OF assms(1)] by (simp_all add: restore_register_state_def)
  obtain b s where c': "cpu_regs c' = entry_regs (get_registers un) b s"
    using assms(5) jmp_to_addr_state [OF r(2) assms(4)] restore_inlined_state [OF r(2) assms(4)]
    by (cases l) (auto simp: resume_at_def r(1))
  have "x \<in> {RCX, RDX, RSI, RDI, RBP, RSP} \<or> cpu_regs c' x = unw_reg un x" for x
    using entry_regs_saved [of x "get_registers un" b s] get_registers_nth [of un x] by (auto simp: c')
  moreover have "cpu_regs c' RCX = unw_reg un RDX \<and> cpu_regs c' RDX = unw_reg un RCX \<and>
    cpu_regs c' RSI = unw_reg un RBP \<and> cpu_regs c' RDI = unw_reg un RSP"
    by (simp add: c' entry_regs_def get_registers_def)
  ultimately show ?thesis by blast
qed

definition ex_numbered :: unw_frame where
  "ex_numbered = \<lparr>unw_ip = 0x1015, unw_reg = (\<lambda>g. of_nat (100 + unw_num g)), unw_proc_name = ''trace''\<rparr>"

theorem jump_registers_swapped_witness:
  "\<exists>c'. exec_code (ex_globals\<lparr>g_r := get_registers ex_numbered\<rparr>) ex_ram (resume_at Jmp_to_addr) ex_cpu = Inr c' \<and>
    cpu_regs c' RCX = 101 \<and> cpu_regs c' RDX = 102"
proof -
  let ?g = "ex_globals\<lparr>g_r := get_registers ex_numbered\<rparr>"
  let ?st = "\<lparr>frames = [ex_frame0\<lparr>registers := get_registers ex_numbered\<rparr>], depth = 1\<rparr> :: call_stack_state"
  have l: "load_u64 ex_ram (cpu_regs ex_cpu RBP) = Inr 0" by (simp add: ex_cpu_def ex_ram_load)
  have "length (g_r ?g) = 16" by (simp add: get_registers_def)
  from jmp_to_addr_state [OF this l] obtain c' where c': "exec_code ?g ex_ram (resume_at Jmp_to_addr) ex_cpu = Inr c'"
    by (simp add: resume_at_def)
  have r: "restore_register_state ?st = Inr (g_r ?g)" by code_simp
  have i: "index_at (frames ?st) 0 = Inr (ex_frame0\<lparr>registers := get_registers ex_numbered\<rparr>)" by simp
  from jump_registers_swapped [OF r i _ l c', of ex_numbered] c' show ?thesis
    by (simp add: ex_numbered_def)
qed

section \<open>Growing the stack\<close>

text \<open>C17: \<open>jump_inlined\<close> returns: when every recursive call takes at least one byte and at most
  \<open>w\<close>, and the stack is mapped down to \<open>w\<close> bytes below the target, then as many calls as
  there are bytes between the stack pointer and the target are enough to reach the \<open>else\<close>
  branch, and memory outside the new calls is untouched when it does.\<close>

theorem jump_inlined_returns:
  assumes "state_ok st" and "frames st \<noteq> []"
    and "\<And>a. 0 < length (ci a) \<and> length (ci a) \<le> w" and "t = main_base st - seg_total_size seg"
    and "w \<le> unat t" and "\<And>x. unat t - w \<le> unat x \<Longrightarrow> x < rsp \<Longrightarrow> m x \<noteq> None"
    and "unat t - w \<le> unat rsp" and "unat rsp < unat t + n" and "0 < n"
  shows "\<exists>m'. jump_inlined n ci st seg rsp m g = place_stack st seg (main_base st) m' g \<and>
    (\<forall>x. unat x < unat t - w \<or> rsp \<le> x \<longrightarrow> m' x = m x)"
  using jump_inlined_ends [OF assms(1-5) assms(6) order.refl assms(7-9)] by simp

theorem jump_inlined_returns_witness:
  "\<exists>m'. jump_inlined 20 (\<lambda>_. replicate 16 0) ex_state ex_seg 0x7FB8 ex_ram ex_globals =
      place_stack ex_state ex_seg (main_base ex_state) m' ex_globals \<and>
    (\<forall>x. unat x < unat (0x7FB0 :: u64) - 16 \<or> 0x7FB8 \<le> x \<longrightarrow> m' x = ex_ram x)"
proof (rule jump_inlined_returns)
  show "state_ok ex_state" by (rule ex_state_ok)
  show "0x7FB0 = main_base ex_state - seg_total_size ex_seg" by (simp add: ex_main_base ex_seg_def)
qed (simp_all add: ex_state_def ex_ram_total del: not_None_eq)

section \<open>Missing records\<close>

text \<open>C36: On a stack map whose record counts add up, the handler's first four look-ups have one
  outcome that stops it, a missing record for the guard or for its complement; the message
  for a missing size record is never printed.\<close>

theorem guard_failure_without_record:
  assumes "get_binary_path (env_os e) = Inr p" and "get_addr (env_os e) p ''.llvm_stackmaps'' = Inr a" and "a \<noteq> 0"
    and "stmap_create m a = Inr sm" and "stmap_ok sm"
  shows "guard_failure e sm_id m g =
    (case (stmap_get_map_record sm (NOT sm_id), stmap_get_map_record sm sm_id) of
       (Some u, Some r) \<Rightarrow>
         handle_failure e sm u r (the (stmap_get_size_record sm (rec_index u)))
           (the (stmap_get_size_record sm (rec_index r))) m g
     | _ \<Rightarrow> Inl (Errx ''Stack map record not found. Exiting.''))"
  using assms by (rule guard_failure_record)

theorem guard_failure_without_record_witness:
  "guard_failure ex_env 7 ex_run_ram ex_globals = Inl (Errx ''Stack map record not found. Exiting.'')"
proof -
  have os: "env_os ex_env = ex_os" by (simp add: ex_env_def)
  have "stmap_get_map_record ex_sm 7 = None" "stmap_get_map_record ex_sm (NOT 7) = None" by code_simp+
  then show ?thesis
    using guard_failure_without_record [where e = ex_env and a = "0x400000" and m = ex_run_ram
        and sm = ex_sm and sm_id = "7" and g = ex_globals]
    by (simp add: os ex_get_addr ex_run_parse ex_ok)
qed

section \<open>The stages of the handler\<close>

text \<open>C7: In every stage the handler can reach the call stack state is well formed (depth, and
  16 registers in every frame), memory has the addresses it had on entry, a segment is as
  large as the frames need, and at the jump the 16 words \<open>jump.s\<close> reads are there and the
  address is that of the unoptimized call site.\<close>

theorem handler_stages_invariant:
  assumes "(stage_step e sm u r uf f g)\<^sup>*\<^sup>* (Entered m) s" and "stmap_ok sm" and "length (env_cursor e) < 2 ^ 32"
  shows "stage_ok m (site_addr uf u) s"
  using assms by (rule stages_ok)

theorem handler_stages_invariant_witness:
  "stage_ok ex_run_ram 0x2030 (Matched ex_matched ex_run_ram2)"
proof -
  let ?step = "stage_step ex_env ex_sm ex_unopt1 ex_opt1 ex_size_unopt ex_size_opt ex_globals"
  have "?step (Entered ex_run_ram) (Unwound ex_unwound ex_run_ram)"
    by (rule stage_step.unwind [OF ex_unwind])
  moreover have "?step (Unwound ex_unwound ex_run_ram) (Matched ex_matched ex_run_ram2)"
    by (rule stage_step.match) (simp add: ex_match ex_env_def)
  ultimately have run: "?step\<^sup>*\<^sup>* (Entered ex_run_ram) (Matched ex_matched ex_run_ram2)" by simp
  have "length (env_cursor ex_env) < 2 ^ 32" by (simp add: ex_env_def ex_run_cursor_def)
  from handler_stages_invariant [OF run ex_ok this] show ?thesis by simp
qed

end
