(* ===== verification/Patchpoint_Ids.thy ===== *)
theory Patchpoint_Ids
  imports Prelude "HOL-Library.AList" "HOL-Library.Sublist"
begin

unbundle bit_operations_syntax

text \<open>
  The identifiers of \<open>CheckPointPass.cpp\<close>: \<open>getTwinName\<close> and \<open>getNextPatchpointID\<close> with
  its static map \<open>stackMaps\<close> from function names to the identifiers given out so far. The
  map is an association list; the only traversal, \<open>max_element\<close>, returns the first of the
  largest, of which only the value is used, so the order of the keys does not matter.
  Reading past the end of a vector, or the last element of an empty one, is \<open>OutOfBounds\<close>.

  The lemmas give the identifiers in closed form for the order in which the pass manager
  visits a module: the functions of the module, then their unoptimized copies.
\<close>

section \<open>Names\<close>

definition unopt_prefix :: string where
  "unopt_prefix = ''__unopt_''"

definition is_unopt :: "string \<Rightarrow> bool" where
  "is_unopt name \<longleftrightarrow> prefix unopt_prefix name"

definition getTwinName :: "string \<Rightarrow> string" where
  "getTwinName name =
     (if is_unopt name then drop (length unopt_prefix) name else unopt_prefix @ name)"

lemma twin_opt: "\<not> is_unopt f \<Longrightarrow> getTwinName f = unopt_prefix @ f"
  by (simp add: getTwinName_def)

lemma is_unopt_prefix [simp]: "is_unopt (unopt_prefix @ f)"
  by (simp add: is_unopt_def)

lemma twin_unopt [simp]: "getTwinName (unopt_prefix @ f) = f"
  by (simp add: getTwinName_def)

lemma unopt_prefix_neq [simp]: "unopt_prefix @ f \<noteq> f" "f \<noteq> unopt_prefix @ f"
  by (simp_all add: unopt_prefix_def)

lemma unopt_prefix_ne [simp]: "unopt_prefix \<noteq> []"
  by (simp add: unopt_prefix_def)

section \<open>The generator\<close>

type_synonym stack_maps = "(string \<times> u64 list) list"

text \<open>\<open>stackMaps[name]\<close>, which makes an empty entry when there is none.\<close>

definition ids_of :: "stack_maps \<Rightarrow> string \<Rightarrow> u64 list" where
  "ids_of sms name = (case map_of sms name of Some ids \<Rightarrow> ids | None \<Rightarrow> [])"

definition last_id :: "string \<times> u64 list \<Rightarrow> u64 res" where
  "last_id = (\<lambda>(name, ids). if ids = [] then Inl OutOfBounds else Inr (last ids))"

definition max_last_id :: "stack_maps \<Rightarrow> u64 res" where
  "max_last_id sms = bind_res (map_res last_id sms) (\<lambda>ls. Inr (fold max ls 0))"

definition getNextPatchpointID :: "string \<Rightarrow> stack_maps \<Rightarrow> (stack_maps \<times> u64) res" where
  "getNextPatchpointID funName sms =
     bind_res
       (if sms = [] then Inr (sms, 0)
        else
          let twinFun = getTwinName funName in
          case map_of sms twinFun of
            None \<Rightarrow> bind_res (max_last_id sms) (\<lambda>i. Inr (sms, i + 1))
          | Some twin_ids \<Rightarrow>
              let lastIndex = length (ids_of sms funName);
                  sms = AList.update funName (ids_of sms funName) sms in
              bind_res (index_at twin_ids lastIndex) (\<lambda>i. Inr (sms, NOT i)))
       (\<lambda>(sms, i).
        let i = (if map_of sms funName = None \<and> map_of sms (getTwinName funName) = None then i + 1 else i) in
        Inr (AList.update funName (ids_of sms funName @ [i]) sms, i))"

text \<open>The \<open>n\<close> calls the pass makes while it runs on one function, and a run on several.\<close>

fun request_ids :: "string \<Rightarrow> nat \<Rightarrow> stack_maps \<Rightarrow> (stack_maps \<times> u64 list) res" where
  "request_ids funName 0 sms = Inr (sms, [])"
| "request_ids funName (Suc n) sms =
     bind_res (getNextPatchpointID funName sms) (\<lambda>(sms, i).
     bind_res (request_ids funName n sms) (\<lambda>(sms, is).
     Inr (sms, i # is)))"

definition visit_functions :: "(string \<times> nat) list \<Rightarrow> stack_maps \<Rightarrow> stack_maps res" where
  "visit_functions = fold_res (\<lambda>(f, n) sms. bind_res (request_ids f n sms) (\<lambda>(sms, is). Inr sms))"

section \<open>One function at a time\<close>

lemma update_new: "map_of sms f = None \<Longrightarrow> AList.update f v sms = sms @ [(f, v)]"
  by (induction sms) (auto split: if_splits)

lemma update_last: "map_of sms f = None \<Longrightarrow> AList.update f v (sms @ [(f, w)]) = sms @ [(f, v)]"
  by (induction sms) (auto split: if_splits)

lemma map_of_snoc: "map_of sms f = None \<Longrightarrow> map_of (sms @ [(f, v)]) g = (if g = f then Some v else map_of sms g)"
  by (auto simp: map_add_def split: option.split)

text \<open>An optimized function after the first call, while its copy has no identifiers.\<close>

lemma next_id_opt:
  assumes "map_of sms f = None" and "map_of sms (getTwinName f) = None" and "getTwinName f \<noteq> f" and "ids \<noteq> []"
    and "max_last_id (sms @ [(f, ids)]) = Inr i"
  shows "getNextPatchpointID f (sms @ [(f, ids)]) = Inr (sms @ [(f, ids @ [i + 1])], i + 1)"
  using assms
  by (simp add: getNextPatchpointID_def map_of_snoc Let_def ids_of_def update_last del: map_of_append)

lemma next_id_first:
  assumes "map_of sms f = None" and "map_of sms (getTwinName f) = None"
    and "sms \<noteq> [] \<Longrightarrow> max_last_id sms = Inr i" and "sms = [] \<Longrightarrow> i = - 1"
  shows "getNextPatchpointID f sms = Inr (sms @ [(f, [i + 2])], i + 2)"
  using assms by (cases "sms = []") (auto simp: getNextPatchpointID_def Let_def ids_of_def update_new add.assoc)

text \<open>The copy of a function: the complements of the identifiers of the function, in order.\<close>

lemma next_id_twin:
  assumes "map_of sms f = None" and "map_of sms (getTwinName f) = Some ids" and "getTwinName f \<noteq> f"
    and "length given < length ids"
  shows "getNextPatchpointID f (sms @ [(f, given)]) =
    Inr (sms @ [(f, given @ [NOT (ids ! length given)])], NOT (ids ! length given))"
  using assms
  by (simp add: getNextPatchpointID_def map_of_snoc Let_def ids_of_def update_last del: map_of_append)

lemma fold_max_le: "(\<And>l. l \<in> set ls \<Longrightarrow> l \<le> x) \<Longrightarrow> m \<le> x \<Longrightarrow> fold max ls m \<le> (x :: u64)"
  by (induction ls arbitrary: m) auto

lemma max_last_id_snoc:
  assumes "\<And>g js. (g, js) \<in> set sms \<Longrightarrow> js \<noteq> [] \<and> last js \<le> last ids" and "ids \<noteq> []"
  shows "max_last_id (sms @ [(f, ids)]) = Inr (last ids)"
proof -
  have "last_id x = Inr (last (snd x))" if "x \<in> set (sms @ [(f, ids)])" for x
    using that assms by - (cases x, auto simp: last_id_def)
  then have "map_res last_id (sms @ [(f, ids)]) = Inr (map (\<lambda>x. last (snd x)) sms @ [last ids])"
    by (intro map_res_Inr_iff [THEN iffD2] list_all2_all_nthI) (auto simp: nth_append)
  moreover have "fold max (map (\<lambda>x. last (snd x)) sms) 0 \<le> last ids"
    using assms(1) by (intro fold_max_le) auto
  ultimately show ?thesis by (simp add: max_last_id_def max_absorb1)
qed

section \<open>Visiting a module\<close>

text \<open>
  The reference: consecutive numbers for each function, one number left out between two
  functions, starting with 1.
\<close>

fun numbering :: "nat \<Rightarrow> (string \<times> nat) list \<Rightarrow> (string \<times> nat list) list" where
  "numbering b [] = []"
| "numbering b ((f, n) # fs) = (f, [b..<b + n]) # numbering (b + n + 1) fs"

definition word_ids :: "(string \<times> nat list) list \<Rightarrow> stack_maps" where
  "word_ids = map (\<lambda>(f, ns). (f, map of_nat ns))"

definition twin_ids :: "(string \<times> nat list) list \<Rightarrow> stack_maps" where
  "twin_ids = map (\<lambda>(f, ns). (unopt_prefix @ f, map (\<lambda>n. NOT (of_nat n)) ns))"

text \<open>The first identifier behind the last one, and the functions that come into question.\<close>

fun next_base :: "nat \<Rightarrow> (string \<times> nat) list \<Rightarrow> nat" where
  "next_base b [] = b"
| "next_base b ((f, n) # fs) = next_base (b + n + 1) fs"

definition visit_ok :: "(string \<times> nat) list \<Rightarrow> bool" where
  "visit_ok fs \<longleftrightarrow> distinct (map fst fs) \<and> list_all (\<lambda>(f, n). \<not> is_unopt f \<and> 0 < n) fs"

lemma next_base_ge: "b \<le> next_base b fs"
  by (induction b fs rule: next_base.induct) auto

lemma request_opt:
  assumes new: "map_of sms f = None" "map_of sms (getTwinName f) = None" "getTwinName f \<noteq> f"
    and low: "\<And>g js. (g, js) \<in> set sms \<Longrightarrow> js \<noteq> [] \<and> last js < of_nat b"
    and k: "0 < k" and fits: "b + k + n < 2 ^ 64"
  shows "request_ids f n (sms @ [(f, map of_nat [b..<b + k])]) =
    Inr (sms @ [(f, map of_nat [b..<b + k + n])], map of_nat [b + k..<b + k + n])"
  using k fits
proof (induction n arbitrary: k)
  case 0
  then show ?case by simp
next
  case (Suc n)
  let ?ids = "map of_nat [b..<b + k] :: u64 list"
  have last: "last ?ids = of_nat (b + k - 1)" "?ids \<noteq> []" using Suc.prems(1) by (auto simp: last_map)
  have "js \<noteq> [] \<and> last js \<le> last ?ids" if "(g, js) \<in> set sms" for g js
  proof -
    have "(of_nat b :: u64) \<le> of_nat (b + k - 1)"
      using Suc.prems unat_of_nat_u64 [of b] unat_of_nat_u64 [of "b + k - 1"] by (simp only: word_le_nat_alt)
    then show ?thesis using low [OF that] last(1) by auto
  qed
  then have "max_last_id (sms @ [(f, ?ids)]) = Inr (of_nat (b + k - 1))"
    using max_last_id_snoc [of sms ?ids f] last by simp
  moreover have "(of_nat (b + k - 1) :: u64) + 1 = of_nat (b + k)"
    using Suc.prems(1) by (cases k) simp_all
  ultimately have "getNextPatchpointID f (sms @ [(f, ?ids)]) =
      Inr (sms @ [(f, map of_nat [b..<b + Suc k])], of_nat (b + k))"
    using next_id_opt [OF new last(2)] by simp
  moreover have "[b + k..<b + k + Suc n] = (b + k) # [b + Suc k..<b + Suc k + n]"
    using Suc.prems by (subst upt_rec) simp
  ultimately show ?case using Suc.IH [of "Suc k"] Suc.prems by simp
qed

lemma visit_one:
  assumes new: "map_of sms f = None" "map_of sms (getTwinName f) = None" "getTwinName f \<noteq> f"
    and low: "\<And>g js. (g, js) \<in> set sms \<Longrightarrow> js \<noteq> [] \<and> last js < of_nat b"
    and prev: "sms \<noteq> [] \<Longrightarrow> max_last_id sms = Inr (of_nat b - 2)" "sms = [] \<Longrightarrow> b = 1"
    and n: "0 < n" and fits: "b + n < 2 ^ 64"
  shows "request_ids f n sms = Inr (sms @ [(f, map of_nat [b..<b + n])], map of_nat [b..<b + n])"
proof -
  have "getNextPatchpointID f sms = Inr (sms @ [(f, map of_nat [b..<b + 1])], of_nat b)"
    using next_id_first [OF new(1,2), of "of_nat b - 2"] prev by auto
  moreover obtain k where k: "n = Suc k" using n by (cases n) auto
  moreover have "[b..<b + n] = b # [b + 1..<b + 1 + k]" using k by (subst upt_rec) simp
  ultimately show ?thesis
    using request_opt [OF new low, where k = 1 and n = k] fits by simp
qed

lemma visit_opt:
  assumes "visit_ok fs" and "0 < b" and "next_base b fs < 2 ^ 64"
    and "\<And>f n. (f, n) \<in> set fs \<Longrightarrow> map_of sms f = None \<and> map_of sms (getTwinName f) = None"
    and "\<And>g js. (g, js) \<in> set sms \<Longrightarrow> js \<noteq> [] \<and> last js < of_nat b"
    and "sms \<noteq> [] \<Longrightarrow> max_last_id sms = Inr (of_nat b - 2)" and "sms = [] \<Longrightarrow> b = 1"
  shows "visit_functions fs sms = Inr (sms @ word_ids (numbering b fs))"
  using assms
proof (induction b fs arbitrary: sms rule: numbering.induct)
  case (1 b)
  then show ?case by (simp add: visit_functions_def word_ids_def)
next
  case (2 b f n fs)
  let ?ids = "map of_nat [b..<b + n] :: u64 list" and ?b = "b + n + 1"
  let ?sms = "sms @ [(f, ?ids)]"
  have f: "\<not> is_unopt f" "0 < n" "f \<notin> fst ` set fs" "visit_ok fs"
    using "2.prems"(1) by (auto simp: visit_ok_def)
  have fits: "?b < 2 ^ 64" using next_base_ge [of ?b fs] "2.prems"(3) by simp
  have new: "map_of sms f = None" "map_of sms (getTwinName f) = None" "getTwinName f \<noteq> f"
    using "2.prems"(4) [of f n] f(1) by (simp_all add: twin_opt)
  have run: "request_ids f n sms = Inr (?sms, ?ids)"
    using fits by (intro visit_one [OF new "2.prems"(5,6,7) f(2)]) auto
  have last: "last ?ids = of_nat (b + n - 1)" "?ids \<noteq> []" using f(2) by (auto simp: last_map)
  have mono: "(of_nat b :: u64) < of_nat ?b" "(of_nat (b + n - 1) :: u64) < of_nat ?b" "(of_nat b :: u64) \<le> of_nat (b + n - 1)"
    using fits f(2) unat_of_nat_u64 [of b] unat_of_nat_u64 [of ?b] unat_of_nat_u64 [of "b + n - 1"]
    by (simp_all only: word_less_nat_alt word_le_nat_alt)
  have low: "js \<noteq> [] \<and> last js < of_nat ?b" if "(g, js) \<in> set ?sms" for g js
  proof (cases "(g, js) \<in> set sms")
    case True
    then show ?thesis using less_trans [OF _ mono(1)] "2.prems"(5) by blast
  next
    case False
    then have js: "js = ?ids" using that by simp
    have "last ?ids < of_nat ?b" by (rule ord_eq_less_trans [OF last(1) mono(2)])
    with last(2) show ?thesis unfolding js by (rule conjI)
  qed
  have b2: "(of_nat ?b :: u64) - 2 = of_nat (b + n - 1)" using f(2) by (cases n) simp_all
  have "js \<noteq> [] \<and> last js \<le> last ?ids" if "(g, js) \<in> set sms" for g js
    using "2.prems"(5) [OF that] mono(3) unfolding last(1) by (meson less_le_trans less_imp_le)
  then have "max_last_id ?sms = Inr (last ?ids)" by (rule max_last_id_snoc [OF _ last(2)])
  then have top: "max_last_id ?sms = Inr (of_nat ?b - 2)" by (simp only: last(1) b2)
  have "visit_functions fs ?sms = Inr (?sms @ word_ids (numbering ?b fs))"
  proof (rule "2.IH")
    show "map_of ?sms g = None \<and> map_of ?sms (getTwinName g) = None" if g: "(g, k) \<in> set fs" for g k
    proof -
      have "\<not> is_unopt g" "g \<noteq> f" using g f(3,4) by (force simp: visit_ok_def list_all_iff)+
      then have "getTwinName g \<noteq> f" using f(1) by (auto simp: twin_opt)
      then show ?thesis using "2.prems"(4) [of g k] g \<open>g \<noteq> f\<close> by (simp add: map_of_snoc [OF new(1)] del: map_of_append)
    qed
  qed (use f(4) fits low top "2.prems"(3) in auto)
  then show ?case using run by (simp add: visit_functions_def word_ids_def)
qed

text \<open>The unoptimized copies, visited after the functions they are copies of.\<close>

lemma request_twin:
  assumes "map_of sms f = None" and "map_of sms (getTwinName f) = Some ids" and "getTwinName f \<noteq> f"
    and "length given + n \<le> length ids"
  shows "request_ids f n (sms @ [(f, given)]) =
    Inr (sms @ [(f, given @ map (\<lambda>i. NOT i) (take n (drop (length given) ids)))],
         map (\<lambda>i. NOT i) (take n (drop (length given) ids)))"
  using assms(4)
proof (induction n arbitrary: given)
  case 0
  then show ?case by simp
next
  case (Suc n)
  then have l: "length given < length ids" by simp
  let ?i = "NOT (ids ! length given)"
  have "request_ids f n (sms @ [(f, given @ [?i])]) =
      Inr (sms @ [(f, (given @ [?i]) @ map (\<lambda>i. NOT i) (take n (drop (Suc (length given)) ids)))],
           map (\<lambda>i. NOT i) (take n (drop (Suc (length given)) ids)))"
    using Suc.IH [of "given @ [?i]"] Suc.prems by simp
  moreover have "drop (length given) ids = ids ! length given # drop (Suc (length given)) ids"
    using l by (rule Cons_nth_drop_Suc [symmetric])
  ultimately show ?case using next_id_twin [OF assms(1-3) l] by simp
qed

lemma visit_twin:
  assumes "map_of sms f = None" and "map_of sms (getTwinName f) = Some ids" and "getTwinName f \<noteq> f"
    and "0 < n" and "n \<le> length ids"
  shows "request_ids f n sms = Inr (sms @ [(f, map (\<lambda>i. NOT i) (take n ids))], map (\<lambda>i. NOT i) (take n ids))"
proof -
  obtain k where k: "n = Suc k" using assms(4) by (cases n) auto
  obtain i js where ids: "ids = i # js" using assms(4,5) by (cases ids) auto
  have "sms \<noteq> []" using assms(2) by auto
  then have "getNextPatchpointID f sms = Inr (sms @ [(f, [NOT i])], NOT i)"
    using assms(1,2) by (simp add: getNextPatchpointID_def Let_def ids_of_def update_new update_last map_of_snoc ids
        del: map_of_append)
  then show ?thesis
    using request_twin [OF assms(1-3), of "[NOT i]" k] assms(5) by (simp add: k ids)
qed

definition copy_visits :: "(string \<times> nat) list \<Rightarrow> (string \<times> nat) list" where
  "copy_visits fs = map (\<lambda>(f, n). (unopt_prefix @ f, n)) fs"

lemma numbering_keys: "(f, ns) \<in> set (numbering b fs) \<Longrightarrow> (f, length ns) \<in> set fs"
  by (induction b fs rule: numbering.induct) auto

lemma visit_twins:
  assumes "visit_ok fs"
    and "\<And>f n. (f, n) \<in> set fs \<Longrightarrow> map_of sms (unopt_prefix @ f) = None"
    and "\<And>f ns. (f, ns) \<in> set (numbering b fs) \<Longrightarrow> map_of sms f = Some (map of_nat ns)"
  shows "visit_functions (copy_visits fs) sms = Inr (sms @ twin_ids (numbering b fs))"
  using assms
proof (induction b fs arbitrary: sms rule: numbering.induct)
  case (1 b)
  then show ?case by (simp add: visit_functions_def twin_ids_def copy_visits_def)
next
  case (2 b f n fs)
  let ?ids = "map of_nat [b..<b + n] :: u64 list" and ?u = "unopt_prefix @ f"
  let ?sms = "sms @ [(?u, map (\<lambda>i. NOT i) ?ids)]"
  have f: "\<not> is_unopt f" "0 < n" "f \<notin> fst ` set fs" "visit_ok fs"
    using "2.prems"(1) by (auto simp: visit_ok_def)
  have new: "map_of sms ?u = None" by (rule "2.prems"(2) [of f n]) simp
  have "map_of sms (getTwinName ?u) = Some ?ids" using "2.prems"(3) [of f "[b..<b + n]"] by simp
  then have run: "request_ids ?u n sms = Inr (?sms, map (\<lambda>i. NOT i) ?ids)"
    using visit_twin [OF new _ _ f(2), of ?ids] by simp
  have "visit_functions (copy_visits fs) ?sms = Inr (?sms @ twin_ids (numbering (b + n + 1) fs))"
  proof (rule "2.IH")
    show "map_of ?sms (unopt_prefix @ g) = None" if g: "(g, k) \<in> set fs" for g k
    proof -
      have "g \<noteq> f" using g f(3) by force
      then show ?thesis using "2.prems"(2) [of g k] g by (simp add: map_of_snoc [OF new] del: map_of_append)
    qed
    show "map_of ?sms g = Some (map of_nat ns)" if g: "(g, ns) \<in> set (numbering (b + n + 1) fs)" for g ns
    proof -
      have "(g, length ns) \<in> set fs" using g numbering_keys by fastforce
      then have "\<not> is_unopt g" using f(4) by (auto simp: visit_ok_def list_all_iff)
      then have "g \<noteq> ?u" by auto
      then show ?thesis using "2.prems"(3) [of g ns] g by (simp add: map_of_snoc [OF new] del: map_of_append)
    qed
  qed (rule f(4))
  then show ?case using run by (simp add: visit_functions_def twin_ids_def copy_visits_def comp_def)
qed

section \<open>The identifiers of a module\<close>

lemma map_of_word_ids: "map_of (word_ids ns) f = map_option (map of_nat) (map_of ns f)"
  by (simp add: word_ids_def map_of_map)

lemma keys_numbering: "map fst (numbering b fs) = map fst fs"
  by (induction b fs rule: numbering.induct) auto

lemma visit_module:
  assumes ok: "visit_ok fs" and fits: "next_base 1 fs < 2 ^ 64"
  shows "visit_functions (fs @ copy_visits fs) [] =
    Inr (word_ids (numbering 1 fs) @ twin_ids (numbering 1 fs))"
proof -
  let ?N = "numbering 1 fs"
  have "visit_functions fs [] = Inr ([] @ word_ids ?N)" by (rule visit_opt [OF ok _ fits]) auto
  moreover have "visit_functions (copy_visits fs) (word_ids ?N) = Inr (word_ids ?N @ twin_ids ?N)"
  proof (rule visit_twins [OF ok])
    fix f n assume "(f, n) \<in> set fs"
    have "\<forall>g \<in> set (map fst fs). \<not> is_unopt g" using ok by (auto simp: visit_ok_def list_all_iff)
    then have "unopt_prefix @ f \<notin> fst ` set ?N" by (auto simp flip: set_map simp: keys_numbering)
    then show "map_of (word_ids ?N) (unopt_prefix @ f) = None" by (simp add: map_of_word_ids map_of_eq_None_iff)
  next
    fix f ns assume "(f, ns) \<in> set ?N"
    moreover have "distinct (map fst ?N)" using ok by (simp add: keys_numbering visit_ok_def)
    ultimately show "map_of (word_ids ?N) f = Some (map of_nat ns)" by (simp add: map_of_word_ids)
  qed
  ultimately show ?thesis by (simp add: visit_functions_def fold_res_append)
qed

text \<open>All numbers are distinct, ascending, and below the next one.\<close>

lemma numbering_sorted:
  "sorted_wrt (<) (concat (map snd (numbering b fs))) \<and>
   (\<forall>n \<in> set (concat (map snd (numbering b fs))). b \<le> n \<and> n < next_base b fs)"
proof (induction b fs rule: numbering.induct)
  case (1 b)
  then show ?case by simp
next
  case (2 b f n fs)
  then show ?case
    using next_base_ge [of "b + n + 1" fs] by (fastforce simp: sorted_wrt_append)
qed

lemma ids_distinct:
  assumes fits: "next_base 1 fs \<le> 2 ^ 63"
  shows "distinct (concat (map snd (word_ids (numbering 1 fs) @ twin_ids (numbering 1 fs))))"
proof -
  let ?ns = "concat (map snd (numbering 1 fs))"
  have ns: "sorted_wrt (<) ?ns" "\<And>n. n \<in> set ?ns \<Longrightarrow> n < 2 ^ 63"
    using numbering_sorted [of 1 fs] fits by (auto intro: less_le_trans)
  have small: "unat (of_nat n :: u64) = n" "n < 2 ^ 63" if "n \<in> set ?ns" for n
    using ns(2) [OF that] by (auto intro: unat_of_nat_u64)
  have inj: "inj_on (of_nat :: nat \<Rightarrow> u64) (set ?ns)"
    by (rule inj_onI) (metis small(1))
  then have inj_not: "inj_on (\<lambda>n. NOT (of_nat n :: u64)) (set ?ns)"
    by (simp add: inj_on_def)
  have apart: "(of_nat n :: u64) \<noteq> NOT (of_nat k)" if "n \<in> set ?ns" "k \<in> set ?ns" for n k
  proof
    assume "(of_nat n :: u64) = NOT (of_nat k)"
    then have "(of_nat (n + k + 1) :: u64) = 0" by (simp add: not_eq_complement)
    moreover have "n + k + 1 < 2 ^ 64" using small(2) [OF that(1)] small(2) [OF that(2)] by simp
    then have "unat (of_nat (n + k + 1) :: u64) = n + k + 1" by (rule unat_of_nat_u64)
    ultimately show False by (metis Suc_eq_plus1 nat.distinct(1) unat_0)
  qed
  have "concat (map snd (word_ids (numbering 1 fs) @ twin_ids (numbering 1 fs))) =
      map of_nat ?ns @ map (\<lambda>n. NOT (of_nat n)) ?ns"
    by (simp add: word_ids_def twin_ids_def map_concat comp_def case_prod_beta)
  moreover have "distinct ?ns" using ns(1) by (simp only: strict_sorted_iff)
  ultimately show ?thesis
    using inj inj_not apart by (simp add: distinct_map del: distinct_concat_iff) blast
qed

section \<open>Any order of visits\<close>

text \<open>The states of the static map that any sequence of requests can reach.\<close>

inductive ids_reachable :: "stack_maps \<Rightarrow> bool" where
  no_ids: "ids_reachable []"
| next_id: "ids_reachable sms \<Longrightarrow> getNextPatchpointID f sms = Inr (sms', i) \<Longrightarrow> ids_reachable sms'"

definition maps_ok :: "stack_maps \<Rightarrow> bool" where
  "maps_ok sms \<longleftrightarrow> distinct (map fst sms) \<and> list_all (\<lambda>(f, ids). ids \<noteq> []) sms"

lemma update_nonempty: "list_all (\<lambda>(f, ids). ids \<noteq> []) sms \<Longrightarrow> v \<noteq> [] \<Longrightarrow>
    list_all (\<lambda>(f, ids). ids \<noteq> []) (AList.update f v sms)"
  by (induction sms) auto

lemma update_twice: "AList.update f v (AList.update f w sms) = AList.update f v sms"
  by (induction sms) auto

lemma ids_of_touch [simp]: "ids_of (AList.update f (ids_of sms f) sms) f = ids_of sms f"
  by (simp add: ids_of_def update_conv')

lemma next_id_update:
  assumes "getNextPatchpointID f sms = Inr (sms', i)"
  shows "sms' = AList.update f (ids_of sms f @ [i]) sms"
  using assms
  by (auto simp: getNextPatchpointID_def bind_res_Inr_iff Let_def update_twice split: option.splits if_splits)

lemma ids_reachable_ok: "ids_reachable sms \<Longrightarrow> maps_ok sms"
proof (induction rule: ids_reachable.induct)
  case no_ids
  show ?case by (simp add: maps_ok_def)
next
  case (next_id sms f sms' i)
  then show ?case
    unfolding next_id_update [OF next_id(2)]
    by (simp add: maps_ok_def distinct_update update_nonempty)
qed

lemma max_last_id_defined: "list_all (\<lambda>(f, ids). ids \<noteq> []) sms \<Longrightarrow> \<exists>i. max_last_id sms = Inr i"
proof -
  assume "list_all (\<lambda>(f, ids). ids \<noteq> []) sms"
  then have "\<exists>ls. map_res last_id sms = Inr ls"
    by (induction sms) (auto simp: last_id_def)
  then show ?thesis by (auto simp: max_last_id_def)
qed

text \<open>The only access out of range: more requests for a copy than its twin has identifiers.\<close>

lemma next_id_defined:
  assumes "ids_reachable sms"
  shows "(\<exists>sms' i. getNextPatchpointID f sms = Inr (sms', i)) \<longleftrightarrow>
    (\<forall>ids. map_of sms (getTwinName f) = Some ids \<longrightarrow> length (ids_of sms f) < length ids)"
proof -
  have "list_all (\<lambda>(f, ids). ids \<noteq> []) sms"
    using ids_reachable_ok [OF assms] by (simp add: maps_ok_def)
  then obtain i where "max_last_id sms = Inr i" using max_last_id_defined by blast
  then show ?thesis
    by (cases "map_of sms (getTwinName f)")
      (auto simp: getNextPatchpointID_def Let_def index_at_def)
qed

section \<open>A function after the copies\<close>

lemma fold_max_eq: "x \<in> set ls \<Longrightarrow> (\<And>l. l \<in> set ls \<Longrightarrow> l \<le> x) \<Longrightarrow> fold max ls m = max m (x :: u64)"
proof (induction ls arbitrary: m)
  case (Cons l ls)
  show ?case
  proof (cases "x \<in> set ls")
    case True
    have "l \<le> x" using Cons.prems(2) by simp
    then have "max (max l m) x = max m x" by (auto simp: max_def)
    moreover have "fold max ls (max l m) = max (max l m) x" using Cons True by simp
    ultimately show ?thesis by simp
  next
    case False
    then have "l = x" using Cons.prems(1) by simp
    moreover have "fold max ls (max x m) \<le> max x m" using Cons.prems(2) by (intro fold_max_le) (auto simp: le_max_iff_disj)
    moreover have "z \<le> fold max ls z" for z by (induction ls arbitrary: z) (auto intro: order_trans [OF max.cobounded2])
    ultimately show ?thesis by (simp add: max.commute antisym)
  qed
qed simp

text \<open>
  The copies have the largest identifiers, and the largest last one is that of the copy of the
  function visited first. A function that is visited behind them continues there: its first
  identifier is one of that copy.
\<close>

lemma numbering_first: "(g, ms) \<in> set (numbering b fs) \<Longrightarrow> visit_ok fs \<Longrightarrow> ms \<noteq> [] \<and> b \<le> last ms \<and> last ms < next_base b fs"
proof (induction b fs rule: numbering.induct)
  case (2 b f n fs)
  have "visit_ok fs" "0 < n" using "2.prems"(2) by (auto simp: visit_ok_def)
  moreover have "b + n + 1 \<le> next_base (b + n + 1) fs" by (rule next_base_ge)
  ultimately show ?case using "2.IH" "2.prems"(1) by (auto simp: last_conv_nth)
qed simp

lemma unat_not_of_nat: "n < 2 ^ 64 \<Longrightarrow> unat (NOT (of_nat n :: u64)) = 2 ^ 64 - 1 - n"
proof -
  assume n: "n < 2 ^ 64"
  define k :: nat where "k = 2 ^ 64 - 1 - n"
  have "(of_nat k :: u64) + of_nat n = of_nat (2 ^ 64 - 1)" using n by (simp add: k_def flip: of_nat_add)
  also have "(of_nat (2 ^ 64 - 1) :: u64) = - 1" by simp
  finally have "(of_nat k :: u64) = - 1 - of_nat n" by (simp only: eq_diff_eq)
  then have "NOT (of_nat n :: u64) = of_nat k" by (simp add: not_eq_complement)
  moreover have "k < 2 ^ 64" by (simp add: k_def)
  ultimately show ?thesis by (simp only: unat_of_nat_u64 k_def)
qed

lemma map_res_append: "map_res f xs = Inr as \<Longrightarrow> map_res f ys = Inr bs \<Longrightarrow> map_res f (xs @ ys) = Inr (as @ bs)"
  unfolding map_res_Inr_iff by (rule list_all2_appendI)

lemma map_res_map: "(\<And>x. x \<in> set xs \<Longrightarrow> f (h x) = Inr (k x)) \<Longrightarrow> map_res f (map h xs) = Inr (map k xs)"
  by (induction xs) simp_all

lemma max_after_copies:
  assumes ok: "visit_ok ((f, n) # fs)" and fits: "next_base 1 ((f, n) # fs) \<le> 2 ^ 63"
  shows "max_last_id (word_ids (numbering 1 ((f, n) # fs)) @ twin_ids (numbering 1 ((f, n) # fs))) = Inr (NOT (of_nat n))"
proof -
  define N where "N = numbering 1 ((f, n) # fs)"
  have n: "0 < n" using ok by (simp add: visit_ok_def)
  have first: "(f, [1..<1 + n]) \<in> set N" "last [1..<1 + n] = n" using n by (simp_all add: N_def last_conv_nth)
  have ne: "ms \<noteq> [] \<and> n \<le> last ms \<and> last ms < 2 ^ 63" if g: "(g, ms) \<in> set N" for g ms
  proof (cases "(g, ms) = (f, [1..<1 + n])")
    case True
    then have ms: "ms = [1..<1 + n]" by simp
    have "last ms < 2 ^ 63" using conjunct2 [OF conjunct2 [OF numbering_first [OF g [unfolded N_def] ok]]] fits by (rule less_le_trans)
    moreover have "ms \<noteq> []" "n \<le> last ms" using first(2) n unfolding ms by (simp_all del: upt_Suc)
    ultimately show ?thesis by blast
  next
    case False
    then have "(g, ms) \<in> set (numbering (1 + n + 1) fs)" "visit_ok fs" using g ok by (auto simp: visit_ok_def N_def)
    then show ?thesis using numbering_first [of g ms "1 + n + 1" fs] fits by auto
  qed
  let ?ls = "map (\<lambda>x. of_nat (last (snd x)) :: u64) N @ map (\<lambda>x. NOT (of_nat (last (snd x)))) N"
  have one: "last_id (case x of (g, ms) \<Rightarrow> (g, map of_nat ms)) = Inr (of_nat (last (snd x)))"
    "last_id (case x of (g, ms) \<Rightarrow> (unopt_prefix @ g, map (\<lambda>k. NOT (of_nat k)) ms)) = Inr (NOT (of_nat (last (snd x))))"
    if "x \<in> set N" for x
  proof -
    obtain g ms where x: "x = (g, ms)" by (cases x)
    then have "ms \<noteq> []" using ne [of g ms] that by blast
    then show "last_id (case x of (g, ms) \<Rightarrow> (g, map of_nat ms)) = Inr (of_nat (last (snd x)))"
      "last_id (case x of (g, ms) \<Rightarrow> (unopt_prefix @ g, map (\<lambda>k. NOT (of_nat k)) ms)) = Inr (NOT (of_nat (last (snd x))))"
      by (simp_all add: x last_id_def last_map)
  qed
  have "map_res last_id (word_ids N @ twin_ids N) = Inr ?ls"
    unfolding word_ids_def twin_ids_def
    by (rule map_res_append; rule map_res_map) (rule one(1), assumption, rule one(2), assumption)
  moreover have "fold max ?ls 0 = max 0 (NOT (of_nat n :: u64))"
  proof (rule fold_max_eq)
    show "NOT (of_nat n :: u64) \<in> set ?ls" using first by (force simp: image_iff)
    fix l assume "l \<in> set ?ls"
    then obtain x where x: "x \<in> set N" and l: "l = of_nat (last (snd x)) \<or> l = NOT (of_nat (last (snd x)))" by auto
    have last: "n \<le> last (snd x)" "last (snd x) < 2 ^ 63" using ne [of "fst x" "snd x"] x by simp_all
    then have fits: "last (snd x) < 2 ^ 64" "last (snd x) \<le> 2 ^ 64 - 1 - n" by simp_all
    have "unat l \<le> 2 ^ 64 - 1 - n"
      using l
    proof
      assume "l = of_nat (last (snd x))"
      then have "unat l = last (snd x)" using fits(1) by (simp only: unat_of_nat_u64)
      then show ?thesis using fits(2) by simp
    next
      assume "l = NOT (of_nat (last (snd x)))"
      then have "unat l = 2 ^ 64 - 1 - last (snd x)" using fits(1) by (simp only: unat_not_of_nat)
      then show ?thesis using last(1) by simp
    qed
    moreover have "unat (NOT (of_nat n :: u64)) = 2 ^ 64 - 1 - n" using last fits(1) by (intro unat_not_of_nat) linarith
    ultimately show "l \<le> NOT (of_nat n)" by (simp only: word_le_nat_alt)
  qed
  ultimately show ?thesis by (simp add: max_last_id_def N_def)
qed

lemma visit_after_copies:
  assumes ok: "visit_ok ((f, n) # fs)" and fits: "next_base 1 ((f, n) # fs) \<le> 2 ^ 63" and n: "3 \<le> n"
    and g: "\<not> is_unopt g" "g \<notin> fst ` set ((f, n) # fs)"
  shows "\<exists>sms sms'. visit_functions (((f, n) # fs) @ copy_visits ((f, n) # fs)) [] = Inr sms \<and>
    getNextPatchpointID g sms = Inr (sms', NOT (of_nat (n - 2))) \<and> NOT (of_nat (n - 2)) \<in> set (ids_of sms (unopt_prefix @ f))"
proof -
  define N where "N = numbering 1 ((f, n) # fs)"
  let ?sms = "word_ids N @ twin_ids N"
  have "\<forall>x \<in> fst ` set ((f, n) # fs). \<not> is_unopt x" using ok by (auto simp: visit_ok_def list_all_iff)
  then have no_copy: "unopt_prefix @ x \<notin> fst ` set ((f, n) # fs)" for x by (metis is_unopt_prefix)
  have "fst ` set N = fst ` set ((f, n) # fs)"
    using arg_cong [OF keys_numbering [of 1 "(f, n) # fs"], of set] by (simp only: N_def set_map)
  then have keys: "fst ` set (word_ids N) = fst ` set ((f, n) # fs)" "fst ` set (twin_ids N) = (\<lambda>x. unopt_prefix @ x) ` fst ` set ((f, n) # fs)"
    by (simp_all only: word_ids_def twin_ids_def set_map image_image case_prod_beta fst_conv) (simp only: image_image [symmetric, of "\<lambda>x. unopt_prefix @ x" fst])
  have new: "map_of ?sms g = None" "map_of ?sms (getTwinName g) = None"
  proof -
    have "g \<notin> fst ` set ?sms" "getTwinName g \<notin> fst ` set ?sms"
      unfolding set_append image_Un keys twin_opt [OF g(1)] using g no_copy [of g] by (simp_all only: Un_iff image_iff) (auto simp only: is_unopt_prefix same_append_eq)
    then show "map_of ?sms g = None" "map_of ?sms (getTwinName g) = None" unfolding map_of_eq_None_iff by blast+
  qed
  have "(NOT (of_nat n) :: u64) + 2 = NOT (of_nat (n - 2))" using n by (simp add: not_eq_complement of_nat_diff)
  moreover have "?sms \<noteq> []" using keys(1) by auto
  then have "getNextPatchpointID g ?sms = Inr (?sms @ [(g, [NOT (of_nat n) + 2])], NOT (of_nat n) + 2)"
    by (intro next_id_first [OF new max_after_copies [OF ok fits, folded N_def]]) blast
  ultimately have next_id: "getNextPatchpointID g ?sms = Inr (?sms @ [(g, [NOT (of_nat (n - 2))])], NOT (of_nat (n - 2)))"
    by (simp only:)
  have "map_of (word_ids N) (unopt_prefix @ f) = None"
    unfolding map_of_eq_None_iff keys by (rule no_copy)
  then have "ids_of ?sms (unopt_prefix @ f) = map (\<lambda>k. NOT (of_nat k)) [1..<1 + n]"
    by (simp add: ids_of_def map_add_def twin_ids_def N_def del: upt_Suc)
  moreover have "n - 2 \<in> set [1..<1 + n]" using n by auto
  ultimately have "NOT (of_nat (n - 2)) \<in> set (ids_of ?sms (unopt_prefix @ f))" by (simp del: upt_Suc)
  moreover have "visit_functions (((f, n) # fs) @ copy_visits ((f, n) # fs)) [] = Inr ?sms"
    using visit_module [OF ok] fits by (simp add: N_def)
  ultimately show ?thesis using next_id by blast
qed

end
