(* ===== verification/Ir.thy ===== *)
theory Ir
  imports Patchpoint_Ids
begin

unbundle bit_operations_syntax

text \<open>
  The part of LLVM IR the passes look at, and \<open>Utils.h\<close>/\<open>Utils.cpp\<close>. A function is the
  list of its basic blocks, an instruction has a number that is unique in its function, and
  an operand names an instruction, an argument or a constant. Operations the passes do not
  tell apart are \<open>Other\<close> with their operands. A module is the list of its functions; the
  intrinsics that a pass declares on the way are declarations only and are left out of it.
\<close>

section \<open>Types, values, instructions\<close>

datatype ir_type = VoidTy | IntTy nat | PtrTo ir_type | OtherTy nat

text \<open>
  \<open>FunVal\<close> is a function used as a value, pointer casts stripped; \<open>NullCallback\<close> is the
  integer 0 cast to a pointer.
\<close>

datatype ir_value =
    InstVal nat
  | ArgVal nat
  | I64 u64
  | I32 u32
  | FunVal string
  | NullCallback
  | ConstVal ir_type nat

fun is_constant :: "ir_value \<Rightarrow> bool" where
  "is_constant (InstVal i) = False"
| "is_constant (ArgVal i) = False"
| "is_constant _ = True"

datatype callee = Direct string | AsmText string | Via ir_value

datatype operation =
    Call callee "ir_value list"
  | Return "ir_value option"
  | Alloca ir_type
  | TruncOrBitCast ir_value
  | IntToPtr ir_value
  | Load ir_value
  | Br nat
  | Other nat "ir_value list"

record inst =
  inst_id :: nat
  inst_type :: ir_type
  inst_op :: operation

record ir_fun =
  fun_name :: string
  ret_type :: ir_type
  is_declaration :: bool
  available_externally :: bool
  no_inline :: bool
  optimize_none :: bool
  body :: "inst list list"
  fresh_id :: nat

type_synonym ir_module = "ir_fun list"

definition getFunction :: "ir_module \<Rightarrow> string \<Rightarrow> ir_fun option" where
  "getFunction md name = find (\<lambda>f. fun_name f = name) md"

section \<open>Uses\<close>

fun operands :: "operation \<Rightarrow> ir_value list" where
  "operands (Call (Via v) args) = args @ [v]"
| "operands (Call c args) = args"
| "operands (Return v) = (case v of Some x \<Rightarrow> [x] | None \<Rightarrow> [])"
| "operands (Alloca t) = []"
| "operands (TruncOrBitCast v) = [v]"
| "operands (IntToPtr v) = [v]"
| "operands (Load v) = [v]"
| "operands (Br l) = []"
| "operands (Other k vs) = vs"

fun map_operands :: "(ir_value \<Rightarrow> ir_value) \<Rightarrow> operation \<Rightarrow> operation" where
  "map_operands h (Call (Via v) args) = Call (Via (h v)) (map h args)"
| "map_operands h (Call c args) = Call c (map h args)"
| "map_operands h (Return v) = Return (map_option h v)"
| "map_operands h (Alloca t) = Alloca t"
| "map_operands h (TruncOrBitCast v) = TruncOrBitCast (h v)"
| "map_operands h (IntToPtr v) = IntToPtr (h v)"
| "map_operands h (Load v) = Load (h v)"
| "map_operands h (Br l) = Br l"
| "map_operands h (Other k vs) = Other k (map h vs)"

text \<open>\<open>replaceAllUsesWith\<close>, for several instructions at once.\<close>

definition replace_value :: "(nat \<times> ir_value) list \<Rightarrow> ir_value \<Rightarrow> ir_value" where
  "replace_value rs v =
     (case v of InstVal i \<Rightarrow> (case map_of rs i of Some w \<Rightarrow> w | None \<Rightarrow> v) | _ \<Rightarrow> v)"

definition replace_uses :: "(nat \<times> ir_value) list \<Rightarrow> inst \<Rightarrow> inst" where
  "replace_uses rs i = i\<lparr>inst_op := map_operands (replace_value rs) (inst_op i)\<rparr>"

lemma operands_map: "operands (map_operands h x) = map h (operands x)"
  by (induction h x rule: map_operands.induct) (auto split: option.split)

lemma replace_value_none [simp]: "replace_value [] v = v"
  by (simp add: replace_value_def split: ir_value.split)

lemma map_operands_id: "(\<And>v. h v = v) \<Longrightarrow> map_operands h x = x"
  by (induction h x rule: map_operands.induct) (simp_all add: map_idI option.map_ident_strong)

lemma replace_uses_none [simp]: "replace_uses [] i = i"
  by (simp add: replace_uses_def map_operands_id)

section \<open>Calls\<close>

text \<open>\<open>getCalledFunction()\<close>: null for inline assembly and for calls through a value.\<close>

fun getCalledFunction :: "operation \<Rightarrow> string option" where
  "getCalledFunction (Call (Direct f) args) = Some f"
| "getCalledFunction _ = None"

fun isInlineAsm :: "operation \<Rightarrow> bool" where
  "isInlineAsm (Call (AsmText t) args) = True"
| "isInlineAsm _ = False"

fun isCallInst :: "operation \<Rightarrow> bool" where
  "isCallInst (Call c args) = True"
| "isCallInst _ = False"

fun isReturnInst :: "operation \<Rightarrow> bool" where
  "isReturnInst (Return v) = True"
| "isReturnInst _ = False"

definition stackmap_name :: string where
  "stackmap_name = ''llvm.experimental.stackmap''"

definition patchpoint_void_name :: string where
  "patchpoint_void_name = ''llvm.experimental.patchpoint.void''"

definition patchpoint_i64_name :: string where
  "patchpoint_i64_name = ''llvm.experimental.patchpoint.i64''"

lemmas intrinsic_names = stackmap_name_def patchpoint_void_name_def patchpoint_i64_name_def

section \<open>PatchpointType\<close>

text \<open>The bit field of 3 bits, and the kinds.\<close>

type_synonym patchpoint_type = "3 word"

definition STACKMAP :: patchpoint_type where
  "STACKMAP = push_bit 0 1"

definition PATCHPOINT_VOID :: patchpoint_type where
  "PATCHPOINT_VOID = push_bit 1 1"

definition PATCHPOINT_I64 :: patchpoint_type where
  "PATCHPOINT_I64 = push_bit 2 1"

definition isPatchpoint :: "patchpoint_type \<Rightarrow> bool" where
  "isPatchpoint t \<longleftrightarrow> (t AND PATCHPOINT_VOID) OR (t AND PATCHPOINT_I64) \<noteq> 0"

definition producesStackmapRecords :: "patchpoint_type \<Rightarrow> bool" where
  "producesStackmapRecords t \<longleftrightarrow>
     (t AND PATCHPOINT_VOID) OR (t AND PATCHPOINT_I64) OR (t AND STACKMAP) \<noteq> 0"

text \<open>A null function is dereferenced for its module.\<close>

definition getPatchpointType :: "string option \<Rightarrow> patchpoint_type res" where
  "getPatchpointType f =
     bind_res (deref f) (\<lambda>f.
     Inr (if f = stackmap_name then STACKMAP
          else if f = patchpoint_void_name then PATCHPOINT_VOID
          else if f = patchpoint_i64_name then PATCHPOINT_I64
          else 0))"

lemma patchpoint_kinds:
  "isPatchpoint PATCHPOINT_VOID" "isPatchpoint PATCHPOINT_I64" "\<not> isPatchpoint STACKMAP" "\<not> isPatchpoint 0"
  "producesStackmapRecords PATCHPOINT_VOID" "producesStackmapRecords PATCHPOINT_I64"
  "producesStackmapRecords STACKMAP" "\<not> producesStackmapRecords 0"
  by code_simp+

lemma type_isPatchpoint:
  "getPatchpointType (Some f) = Inr t \<Longrightarrow> isPatchpoint t \<longleftrightarrow> f \<in> {patchpoint_void_name, patchpoint_i64_name}"
  by (auto simp: getPatchpointType_def patchpoint_kinds intrinsic_names split: if_splits)

lemma type_producesRecords:
  "getPatchpointType (Some f) = Inr t \<Longrightarrow>
    producesStackmapRecords t \<longleftrightarrow> f \<in> {stackmap_name, patchpoint_void_name, patchpoint_i64_name}"
  by (auto simp: getPatchpointType_def patchpoint_kinds intrinsic_names split: if_splits)

end
