(* ===== verification/Checkpoints.thy ===== *)
theory Checkpoints
  imports Ir
begin

unbundle bit_operations_syntax

text \<open>
  \<open>CheckPointPass.cpp\<close>: after every call of a function with a body a \<open>stackmap\<close> call is
  inserted (optimized functions) or the call becomes a \<open>patchpoint\<close> call of the callee's
  unoptimized copy (unoptimized functions); a guard is put before the returns of functions
  whose name ends with \<open>more_indirection\<close>; an empty \<open>asm\<close> goes before every such call.

  The iterator visits the instructions in order; what it inserts behind itself is a call of
  an intrinsic or no call, which it passes over. Hence the pass is a map over the
  instructions that threads the static map, the next free instruction number, the calls to
  get an \<open>asm\<close> block and the replaced values. \<open>replaceAllUsesWith\<close> is done for all replaced
  calls together at the end: the values put in are new instructions, which are not
  replaced themselves, and the pass looks at no operand before.
\<close>

section \<open>Threading a state\<close>

fun mapfold_res :: "('a \<Rightarrow> 's \<Rightarrow> ('b \<times> 's) res) \<Rightarrow> 'a list \<Rightarrow> 's \<Rightarrow> ('b list \<times> 's) res" where
  "mapfold_res f [] s = Inr ([], s)"
| "mapfold_res f (x # xs) s =
     bind_res (f x s) (\<lambda>(y, s). bind_res (mapfold_res f xs s) (\<lambda>(ys, s). Inr (y # ys, s)))"

record cp_state =
  cp_maps :: stack_maps
  cp_fresh :: nat
  cp_calls :: "nat list"
  cp_subst :: "(nat \<times> ir_value) list"

section \<open>One instruction\<close>

definition guard_fun_name :: string where
  "guard_fun_name = ''__guard_failure''"

definition has_body :: "ir_module \<Rightarrow> string \<Rightarrow> bool" where
  "has_body md g =
     (case getFunction md g of
        Some f \<Rightarrow> \<not> available_externally f \<and> \<not> is_declaration f
      | None \<Rightarrow> False)"

text \<open>The guard before a return: with the handler as callback, or with none.\<close>

definition guard_site :: "string \<Rightarrow> inst \<Rightarrow> cp_state \<Rightarrow> (inst list \<times> cp_state) res" where
  "guard_site funName it st =
     bind_res (getNextPatchpointID funName (cp_maps st)) (\<lambda>(sms, PPID).
     let args = [I64 PPID, I32 13] @
           (if \<not> is_unopt funName then [FunVal guard_fun_name, I32 1, I64 PPID] else [NullCallback, I32 0]);
         call = \<lparr>inst_id = cp_fresh st, inst_type = VoidTy, inst_op = Call (Direct patchpoint_void_name) args\<rparr>
     in Inr ([call, it], st\<lparr>cp_maps := sms, cp_fresh := cp_fresh st + 1\<rparr>))"

text \<open>A call in an optimized function.\<close>

definition opt_call_site :: "string \<Rightarrow> inst \<Rightarrow> cp_state \<Rightarrow> (inst list \<times> cp_state) res" where
  "opt_call_site funName it st =
     bind_res (getNextPatchpointID funName (cp_maps st)) (\<lambda>(sms, PPID).
     let call = \<lparr>inst_id = cp_fresh st, inst_type = VoidTy,
                  inst_op = Call (Direct stackmap_name) [I64 PPID, I32 13]\<rparr>
     in Inr ([it, call], st\<lparr>cp_maps := sms, cp_fresh := cp_fresh st + 1, cp_calls := cp_calls st @ [inst_id it]\<rparr>))"

text \<open>
  The value that replaces the result of a call of a function that is not void: the 64-bit
  result of the patchpoint truncated, or taken as the address the value is loaded from.
  \<open>CreateTruncOrBitCast\<close> gives back a value that has the type already.
\<close>

definition converted :: "nat \<Rightarrow> ir_type \<Rightarrow> ir_type \<Rightarrow> ir_value \<Rightarrow> inst list \<times> ir_value" where
  "converted n calledFunRetTy retTy v =
     (case calledFunRetTy of
        IntTy w \<Rightarrow>
          if retTy = IntTy 64 then ([], v)
          else ([\<lparr>inst_id = n, inst_type = retTy, inst_op = TruncOrBitCast v\<rparr>], InstVal n)
      | _ \<Rightarrow>
          ([\<lparr>inst_id = n, inst_type = PtrTo retTy, inst_op = IntToPtr v\<rparr>,
            \<lparr>inst_id = n + 1, inst_type = retTy, inst_op = Load (InstVal n)\<rparr>], InstVal (n + 1)))"

text \<open>A call in an unoptimized function.\<close>

definition unopt_call_site :: "ir_module \<Rightarrow> string \<Rightarrow> string \<Rightarrow> ir_value list \<Rightarrow> inst \<Rightarrow> cp_state \<Rightarrow>
    (inst list \<times> cp_state) res" where
  "unopt_call_site md funName g call_args it st =
     bind_res (getNextPatchpointID funName (cp_maps st)) (\<lambda>(sms, PPID).
     bind_res (deref (getFunction md (if \<not> is_unopt g then getTwinName g else g))) (\<lambda>calledFun.
     bind_res (deref (getFunction md g)) (\<lambda>oldFun.
     let args = [I64 PPID, I32 13, FunVal (fun_name calledFun), I32 (of_nat (length call_args))] @ call_args;
         void = (ret_type calledFun = VoidTy);
         n = cp_fresh st;
         call = \<lparr>inst_id = n, inst_type = (if void then VoidTy else IntTy 64),
                 inst_op = Call (Direct (if void then patchpoint_void_name else patchpoint_i64_name)) args\<rparr>;
         (conv, v) = (if void then ([], InstVal n)
                      else converted (n + 1) (ret_type calledFun) (ret_type oldFun) (InstVal n))
     in Inr (call # conv, st\<lparr>cp_maps := sms, cp_fresh := n + 1 + length conv, cp_calls := cp_calls st @ [n],
               cp_subst := cp_subst st @ [(inst_id it, v)]\<rparr>))))"

definition checkpoint_inst :: "ir_module \<Rightarrow> string \<Rightarrow> inst \<Rightarrow> cp_state \<Rightarrow> (inst list \<times> cp_state) res" where
  "checkpoint_inst md funName it st =
     (if suffix ''more_indirection'' funName \<and> isReturnInst (inst_op it) then guard_site funName it st
      else
        case inst_op it of
          Call c args \<Rightarrow>
            (case c of
               AsmText t \<Rightarrow> Inr ([it], st)
             | Via v \<Rightarrow> Inl NullDeref
             | Direct g \<Rightarrow>
                 if has_body md g then
                   (if is_unopt funName then unopt_call_site md funName g args it st
                    else opt_call_site funName it st)
                 else Inr ([it], st))
        | _ \<Rightarrow> Inr ([it], st))"

section \<open>A function\<close>

definition checkpoint_block :: "ir_module \<Rightarrow> string \<Rightarrow> inst list \<Rightarrow> cp_state \<Rightarrow> (inst list \<times> cp_state) res" where
  "checkpoint_block md funName b st =
     bind_res (mapfold_res (checkpoint_inst md funName) b st) (\<lambda>(bs, st). Inr (concat bs, st))"

text \<open>The empty \<open>asm\<close> blocks.\<close>

definition asm_block :: "nat \<Rightarrow> inst" where
  "asm_block n = \<lparr>inst_id = n, inst_type = VoidTy, inst_op = Call (AsmText '''') []\<rparr>"

definition insert_asm :: "nat list \<Rightarrow> inst \<Rightarrow> nat \<Rightarrow> (inst list \<times> nat) res" where
  "insert_asm callInsts it n =
     Inr (if inst_id it \<in> set callInsts then ([asm_block n, it], n + 1) else ([it], n))"

definition insert_asm_block :: "nat list \<Rightarrow> inst list \<Rightarrow> nat \<Rightarrow> (inst list \<times> nat) res" where
  "insert_asm_block callInsts b n =
     bind_res (mapfold_res (insert_asm callInsts) b n) (\<lambda>(bs, n). Inr (concat bs, n))"

definition checkpoint_function :: "ir_module \<Rightarrow> ir_fun \<Rightarrow> stack_maps \<Rightarrow> (ir_fun \<times> stack_maps) res" where
  "checkpoint_function md f sms =
     bind_res (deref (getFunction md guard_fun_name)) (\<lambda>guardHandler.
     bind_res (mapfold_res (checkpoint_block md (fun_name f)) (body f)
       \<lparr>cp_maps = sms, cp_fresh = fresh_id f, cp_calls = [], cp_subst = []\<rparr>) (\<lambda>(bs, st).
     bind_res (mapfold_res (insert_asm_block (cp_calls st)) (map (map (replace_uses (cp_subst st))) bs) (cp_fresh st))
       (\<lambda>(bs, n).
     Inr (f\<lparr>body := bs, fresh_id := n\<rparr>, cp_maps st))))"

text \<open>
  \<open>doInitialization\<close> declares the handler; the pass manager then runs the pass on the
  functions of the module that are not declarations, in order.
\<close>

definition declare_guard :: "ir_module \<Rightarrow> ir_module" where
  "declare_guard md = md @
     [\<lparr>fun_name = guard_fun_name, ret_type = VoidTy, is_declaration = True, available_externally = False,
       no_inline = False, optimize_none = False, body = [], fresh_id = 0\<rparr>]"

definition checkpoint_module :: "ir_module \<Rightarrow> stack_maps \<Rightarrow> (ir_module \<times> stack_maps) res" where
  "checkpoint_module md sms =
     mapfold_res (\<lambda>f sms. if is_declaration f then Inr (f, sms) else checkpoint_function md f sms) md sms"

section \<open>Which identifiers go where\<close>

text \<open>The identifier an instruction records, and the instructions that get one.\<close>

definition ppid_of :: "inst \<Rightarrow> u64 option" where
  "ppid_of it =
     (case inst_op it of
        Call (Direct n) (I64 p # args) \<Rightarrow>
          if n \<in> {stackmap_name, patchpoint_void_name, patchpoint_i64_name} then Some p else None
      | _ \<Rightarrow> None)"

definition ppids :: "inst list \<Rightarrow> u64 list" where
  "ppids = List.map_filter ppid_of"

definition is_site :: "ir_module \<Rightarrow> string \<Rightarrow> inst \<Rightarrow> bool" where
  "is_site md funName it \<longleftrightarrow>
     suffix ''more_indirection'' funName \<and> isReturnInst (inst_op it) \<or>
     (case getCalledFunction (inst_op it) of Some g \<Rightarrow> has_body md g | None \<Rightarrow> False)"

definition no_records :: "inst list list \<Rightarrow> bool" where
  "no_records bs \<longleftrightarrow> list_all (list_all (\<lambda>it. ppid_of it = None)) bs"

lemma ppids_simps [simp]:
  "ppids [] = []" "ppids (xs @ ys) = ppids xs @ ppids ys"
  "ppids (it # xs) = (case ppid_of it of Some p \<Rightarrow> p # ppids xs | None \<Rightarrow> ppids xs)"
  by (auto simp: ppids_def List.map_filter_def split: option.split)

lemma request_ids_add:
  "request_ids f (m + n) sms =
     bind_res (request_ids f m sms) (\<lambda>(sms, is). bind_res (request_ids f n sms) (\<lambda>(sms, js). Inr (sms, is @ js)))"
  by (induction m arbitrary: sms) (auto simp: bind_res_def split: sum.split)

lemma request_ids_length: "request_ids f n sms = Inr (sms', ids) \<Longrightarrow> length ids = n"
  by (induction n arbitrary: sms ids) (auto simp: bind_res_Inr_iff)

lemma converted_ppids: "ppids (fst (converted n t r v)) = []"
  by (auto simp: converted_def ppid_of_def split: ir_type.split)

lemma unopt_call_siteD:
  assumes "unopt_call_site md funName g args it st = Inr (out, st')"
  obtains sms p n conv where "getNextPatchpointID funName (cp_maps st) = Inr (sms, p)"
    "cp_maps st' = sms" "out = n # conv" "ppid_of n = Some p" "ppids conv = []"
proof -
  from assms obtain sms p cf old where id: "getNextPatchpointID funName (cp_maps st) = Inr (sms, p)"
    and "deref (getFunction md (if \<not> is_unopt g then getTwinName g else g)) = Inr cf"
    and "deref (getFunction md g) = Inr old"
    by (auto simp: unopt_call_site_def bind_res_Inr_iff)
  then show ?thesis
    using assms that converted_ppids [of "cp_fresh st + 1" "ret_type cf" "ret_type old" "InstVal (cp_fresh st)"]
    by (cases "ret_type cf = VoidTy")
      (auto simp: unopt_call_site_def Let_def ppid_of_def split: prod.splits)
qed

lemma checkpoint_inst_ids:
  assumes run: "checkpoint_inst md funName it st = Inr (out, st')" and none: "ppid_of it = None"
  shows "request_ids funName (if is_site md funName it then 1 else 0) (cp_maps st) = Inr (cp_maps st', ppids out)"
proof (cases "suffix ''more_indirection'' funName \<and> isReturnInst (inst_op it)")
  case True
  then have "is_site md funName it" by (simp add: is_site_def)
  moreover have "guard_site funName it st = Inr (out, st')" using run True by (simp add: checkpoint_inst_def)
  ultimately show ?thesis
    using none by (auto simp: guard_site_def bind_res_Inr_iff Let_def ppid_of_def)
next
  case False
  show ?thesis
  proof (cases "\<exists>g args. inst_op it = Call (Direct g) args \<and> has_body md g")
    case True
    then obtain g args where g: "inst_op it = Call (Direct g) args" "has_body md g" by blast
    have site: "is_site md funName it" by (simp add: is_site_def g)
    show ?thesis
    proof (cases "is_unopt funName")
      case True
      then have "unopt_call_site md funName g args it st = Inr (out, st')"
        using run g False by (simp add: checkpoint_inst_def)
      then obtain sms p n conv where "getNextPatchpointID funName (cp_maps st) = Inr (sms, p)"
        "cp_maps st' = sms" "out = n # conv" "ppid_of n = Some p" "ppids conv = []"
        by (rule unopt_call_siteD)
      then show ?thesis using site by simp
    next
      case False
      with \<open>\<not> (suffix ''more_indirection'' funName \<and> isReturnInst (inst_op it))\<close>
      have "opt_call_site funName it st = Inr (out, st')"
        using run g by (simp add: checkpoint_inst_def)
      then show ?thesis
        using site none by (auto simp: opt_call_site_def bind_res_Inr_iff Let_def ppid_of_def)
    qed
  next
    case no: False
    then have "\<not> is_site md funName it"
      using False by (auto simp: is_site_def split: option.splits elim!: getCalledFunction.elims)
    moreover have "out = [it]" "st' = st"
      using run False no by (auto simp: checkpoint_inst_def split: operation.splits callee.splits if_splits)
    ultimately show ?thesis using none by simp
  qed
qed

lemma checkpoint_block_ids:
  assumes "mapfold_res (checkpoint_inst md funName) b st = Inr (bs, st')" and "list_all (\<lambda>it. ppid_of it = None) b"
  shows "request_ids funName (length (filter (is_site md funName) b)) (cp_maps st) = Inr (cp_maps st', ppids (concat bs))"
  using assms
proof (induction b arbitrary: st bs)
  case Nil
  then show ?case by simp
next
  case (Cons it b)
  then obtain out st1 bs1 where run: "checkpoint_inst md funName it st = Inr (out, st1)"
    "mapfold_res (checkpoint_inst md funName) b st1 = Inr (bs1, st')" "bs = out # bs1"
    by (auto simp: bind_res_Inr_iff)
  have "length (filter (is_site md funName) (it # b)) =
      (if is_site md funName it then 1 else 0) + length (filter (is_site md funName) b)" by simp
  moreover have "request_ids funName (if is_site md funName it then 1 else 0) (cp_maps st) = Inr (cp_maps st1, ppids out)"
    using checkpoint_inst_ids [OF run(1)] Cons.prems(2) by simp
  ultimately show ?case
    using Cons.IH [OF run(2)] Cons.prems(2) run(3) by (simp only: request_ids_add) simp
qed

definition sites_in :: "ir_module \<Rightarrow> string \<Rightarrow> inst list list \<Rightarrow> nat" where
  "sites_in md funName bs = length (filter (is_site md funName) (concat bs))"

lemma checkpoint_blocks_ids:
  assumes "mapfold_res (checkpoint_block md funName) bs st = Inr (bs', st')" and "no_records bs"
  shows "request_ids funName (sites_in md funName bs) (cp_maps st) = Inr (cp_maps st', ppids (concat bs'))"
  using assms
proof (induction bs arbitrary: st bs')
  case Nil
  then show ?case by (simp add: sites_in_def)
next
  case (Cons b bs)
  then obtain c st1 bs1 where block: "checkpoint_block md funName b st = Inr (c, st1)"
    and rest: "mapfold_res (checkpoint_block md funName) bs st1 = Inr (bs1, st')" "bs' = c # bs1"
    by (auto simp: bind_res_Inr_iff)
  from block obtain out where out: "mapfold_res (checkpoint_inst md funName) b st = Inr (out, st1)" "c = concat out"
    by (auto simp: checkpoint_block_def bind_res_Inr_iff)
  have "sites_in md funName (b # bs) = length (filter (is_site md funName) b) + sites_in md funName bs"
    by (simp add: sites_in_def)
  moreover have "no_records bs" "list_all (\<lambda>it. ppid_of it = None) b" using Cons.prems(2) by (simp_all add: no_records_def)
  ultimately show ?case
    using Cons.IH [OF rest(1)] checkpoint_block_ids [OF out(1)] rest(2) out(2) by (simp only: request_ids_add) simp
qed

text \<open>Replacing values and adding \<open>asm\<close> blocks does not touch identifiers.\<close>

fun is_inst_val :: "ir_value \<Rightarrow> bool" where
  "is_inst_val (InstVal i) = True"
| "is_inst_val _ = False"

definition new_results :: "(nat \<times> ir_value) list \<Rightarrow> bool" where
  "new_results rs \<longleftrightarrow> list_all (\<lambda>(i, v). is_inst_val v) rs"

lemma mapfold_res_invariant:
  assumes "mapfold_res h xs s = Inr (ys, t)" and "P s"
    and "\<And>x s y t. P s \<Longrightarrow> h x s = Inr (y, t) \<Longrightarrow> P t"
  shows "P t"
  using assms(1,2) by (induction xs arbitrary: s ys) (auto simp: bind_res_Inr_iff intro: assms(3))

lemma converted_inst_val: "is_inst_val v \<Longrightarrow> is_inst_val (snd (converted n t r v))"
  by (auto simp: converted_def split: ir_type.split)

lemma unopt_call_site_results:
  assumes "unopt_call_site md funName g args it st = Inr (out, st')" and "new_results (cp_subst st)"
  shows "new_results (cp_subst st')"
proof -
  from assms(1) obtain sms p cf old where "getNextPatchpointID funName (cp_maps st) = Inr (sms, p)"
    and "deref (getFunction md (if \<not> is_unopt g then getTwinName g else g)) = Inr cf"
    and "deref (getFunction md g) = Inr old"
    by (auto simp: unopt_call_site_def bind_res_Inr_iff)
  then show ?thesis
    using assms converted_inst_val [of "InstVal (cp_fresh st)" "cp_fresh st + 1" "ret_type cf" "ret_type old"]
    by (cases "ret_type cf = VoidTy")
      (auto simp: unopt_call_site_def Let_def new_results_def split: prod.splits)
qed

lemma checkpoint_inst_results:
  assumes "checkpoint_inst md funName it st = Inr (out, st')" and "new_results (cp_subst st)"
  shows "new_results (cp_subst st')"
  using assms unopt_call_site_results
  by (auto simp: checkpoint_inst_def guard_site_def opt_call_site_def bind_res_Inr_iff Let_def
      split: operation.splits callee.splits if_splits)

lemma checkpoint_blocks_results:
  assumes "mapfold_res (checkpoint_block md funName) bs st = Inr (bs', st')" and "new_results (cp_subst st)"
  shows "new_results (cp_subst st')"
  using assms
  by (rule mapfold_res_invariant)
    (auto simp: checkpoint_block_def bind_res_Inr_iff
      elim: mapfold_res_invariant [where P = "\<lambda>st. new_results (cp_subst st)"] intro: checkpoint_inst_results)

lemma replace_value_I64: "new_results rs \<Longrightarrow> replace_value rs v = I64 p \<longleftrightarrow> v = I64 p"
  by (cases v) (auto simp: replace_value_def new_results_def list_all_iff split: option.split dest!: map_of_SomeD)

lemma replace_ppid:
  assumes "new_results rs"
  shows "ppid_of (replace_uses rs it) = ppid_of it"
proof (cases "inst_op it")
  case (Call c args)
  show ?thesis
  proof (cases args)
    case Nil
    then show ?thesis using Call by (cases c) (simp_all add: ppid_of_def replace_uses_def)
  next
    case (Cons v vs)
    show ?thesis
    proof (cases "\<exists>p. v = I64 p")
      case True
      then show ?thesis using Call Cons by (cases c) (auto simp: ppid_of_def replace_uses_def replace_value_def)
    next
      case False
      then have "\<And>p. replace_value rs v \<noteq> I64 p" using replace_value_I64 [OF assms] by blast
      with False show ?thesis
        using Call Cons by (cases c) (auto simp: ppid_of_def replace_uses_def split: ir_value.split)
    qed
  qed
qed (simp_all add: ppid_of_def replace_uses_def)

lemma replace_ppids: "new_results rs \<Longrightarrow> ppids (map (replace_uses rs) b) = ppids b"
  by (induction b) (simp_all add: replace_ppid split: option.split)

lemma insert_asm_ppids:
  "mapfold_res (insert_asm calls) b n = Inr (bs, n') \<Longrightarrow> ppids (concat bs) = ppids b"
  by (induction b arbitrary: n bs) (auto simp: insert_asm_def bind_res_Inr_iff asm_block_def ppid_of_def split: if_splits option.split)

lemma insert_asm_blocks_ppids:
  "mapfold_res (insert_asm_block calls) bs n = Inr (bs', n') \<Longrightarrow> ppids (concat bs') = ppids (concat bs)"
  by (induction bs arbitrary: n bs') (auto simp: insert_asm_block_def bind_res_Inr_iff insert_asm_ppids)

lemma checkpoint_function_ids:
  assumes "checkpoint_function md f sms = Inr (f', sms')" and "no_records (body f)"
  shows "request_ids (fun_name f) (sites_in md (fun_name f) (body f)) sms = Inr (sms', ppids (concat (body f')))"
    and "fun_name f' = fun_name f"
proof -
  from assms(1) obtain bs st bs' n where
    run: "mapfold_res (checkpoint_block md (fun_name f)) (body f)
       \<lparr>cp_maps = sms, cp_fresh = fresh_id f, cp_calls = [], cp_subst = []\<rparr> = Inr (bs, st)"
    and asm: "mapfold_res (insert_asm_block (cp_calls st)) (map (map (replace_uses (cp_subst st))) bs) (cp_fresh st) = Inr (bs', n)"
    and f': "f' = f\<lparr>body := bs', fresh_id := n\<rparr>" "sms' = cp_maps st"
    by (auto simp: checkpoint_function_def bind_res_Inr_iff)
  have "new_results (cp_subst st)"
    by (rule checkpoint_blocks_results [OF run]) (simp add: new_results_def)
  then have "ppids (concat bs') = ppids (concat bs)"
    using insert_asm_blocks_ppids [OF asm] replace_ppids [of "cp_subst st" "concat bs"] by (simp add: map_concat)
  then show "request_ids (fun_name f) (sites_in md (fun_name f) (body f)) sms = Inr (sms', ppids (concat (body f')))"
    using checkpoint_blocks_ids [OF run assms(2)] by (simp add: f')
  show "fun_name f' = fun_name f" by (simp add: f')
qed

section \<open>A module\<close>

lemma request_ids_map:
  assumes "request_ids f n sms = Inr (sms', ids)"
  shows "ids_of sms' f = ids_of sms f @ ids" and "g \<noteq> f \<Longrightarrow> map_of sms' g = map_of sms g"
proof -
  have "ids_of sms' f = ids_of sms f @ ids \<and> (g \<noteq> f \<longrightarrow> map_of sms' g = map_of sms g)"
    using assms
  proof (induction n arbitrary: sms ids)
    case 0
    then show ?case by simp
  next
    case (Suc n)
    then obtain t i js where t: "getNextPatchpointID f sms = Inr (t, i)" "request_ids f n t = Inr (sms', js)" "ids = i # js"
      by (auto simp: bind_res_Inr_iff)
    have "t = AList.update f (ids_of sms f @ [i]) sms" by (rule next_id_update [OF t(1)])
    then have "ids_of t f = ids_of sms f @ [i]" "g \<noteq> f \<longrightarrow> map_of t g = map_of sms g"
      by (simp_all add: ids_of_def update_conv')
    then show ?case using Suc.IH [OF t(2)] t(3) by simp
  qed
  then show "ids_of sms' f = ids_of sms f @ ids" and "g \<noteq> f \<Longrightarrow> map_of sms' g = map_of sms g" by auto
qed

definition visits :: "ir_module \<Rightarrow> ir_fun list \<Rightarrow> (string \<times> nat) list" where
  "visits md fs = map (\<lambda>f. (fun_name f, sites_in md (fun_name f) (body f))) (filter (\<lambda>f. \<not> is_declaration f) fs)"

text \<open>What the pass makes of a function: the identifiers in its instructions are those of the map.\<close>

definition checkpointed :: "stack_maps \<Rightarrow> ir_fun \<Rightarrow> ir_fun \<Rightarrow> bool" where
  "checkpointed sms f f' \<longleftrightarrow> fun_name f' = fun_name f \<and> is_declaration f' = is_declaration f \<and>
     (if is_declaration f then f' = f else ppids (concat (body f')) = ids_of sms (fun_name f))"

lemma checkpoint_function_decl: "checkpoint_function md f sms = Inr (f', sms') \<Longrightarrow> is_declaration f' = is_declaration f"
  by (auto simp: checkpoint_function_def bind_res_Inr_iff)

lemma checkpoint_functions_ids:
  assumes "mapfold_res (\<lambda>f sms. if is_declaration f then Inr (f, sms) else checkpoint_function md f sms) fs sms = Inr (out, sms')"
    and "distinct (map fun_name fs)" and "list_all (\<lambda>f. no_records (body f)) fs"
    and "\<And>f. f \<in> set fs \<Longrightarrow> map_of sms (fun_name f) = None"
  shows "visit_functions (visits md fs) sms = Inr sms' \<and> list_all2 (checkpointed sms') fs out \<and>
    (\<forall>g. g \<notin> fun_name ` set fs \<longrightarrow> map_of sms' g = map_of sms g)"
  using assms
proof (induction fs arbitrary: sms out)
  case Nil
  then show ?case by (simp add: visits_def visit_functions_def)
next
  case (Cons f fs)
  let ?step = "\<lambda>f sms. if is_declaration f then Inr (f, sms) else checkpoint_function md f sms"
  from Cons.prems(1) obtain f' t out' where f': "?step f sms = Inr (f', t)"
    and rest: "mapfold_res ?step fs t = Inr (out', sms')" "out = f' # out'"
    by (auto simp: bind_res_Inr_iff simp del: if_split_asm split del: if_split)
  have t: "g \<noteq> fun_name f \<Longrightarrow> map_of t g = map_of sms g" for g
  proof (cases "is_declaration f")
    case True
    then show ?thesis using f' by simp
  next
    case False
    assume "g \<noteq> fun_name f"
    with False f' Cons.prems(3) show ?thesis
      using request_ids_map(2) [OF checkpoint_function_ids(1)] by simp
  qed
  have "map_of t (fun_name g) = None" if "g \<in> set fs" for g
  proof -
    have "fun_name f \<notin> fun_name ` set fs" using Cons.prems(2) by simp
    then have "fun_name g \<noteq> fun_name f" using imageI [OF that, of fun_name] by metis
    then show ?thesis using t [of "fun_name g"] Cons.prems(4) [of g] that by simp
  qed
  then have ih: "visit_functions (visits md fs) t = Inr sms'" "list_all2 (checkpointed sms') fs out'"
    "\<And>g. g \<notin> fun_name ` set fs \<Longrightarrow> map_of sms' g = map_of t g"
    using Cons.IH [OF rest(1)] Cons.prems(2,3) by auto
  have own: "map_of sms' (fun_name f) = map_of t (fun_name f)" using ih(3) Cons.prems(2) by force
  have "visit_functions (visits md (f # fs)) sms = Inr sms' \<and> checkpointed sms' f f'"
  proof (cases "is_declaration f")
    case True
    then show ?thesis using f' ih(1) by (auto simp: visits_def checkpointed_def)
  next
    case False
    then have run: "checkpoint_function md f sms = Inr (f', t)" using f' by simp
    have ids: "request_ids (fun_name f) (sites_in md (fun_name f) (body f)) sms = Inr (t, ppids (concat (body f')))"
      using checkpoint_function_ids(1) [OF run] Cons.prems(3) by simp
    have "ids_of t (fun_name f) = ppids (concat (body f'))"
      using request_ids_map(1) [OF ids] Cons.prems(4) [of f] by (simp add: ids_of_def)
    then show ?thesis
      using ids ih(1) False own checkpoint_function_ids(2) [OF run] Cons.prems(3) checkpoint_function_decl [OF run]
      by (simp add: visits_def visit_functions_def checkpointed_def ids_of_def)
  qed
  then show ?case using ih(2,3) t rest(2) by auto
qed

text \<open>Functions without sites leave the map alone.\<close>

lemma visit_functions_filter: "visit_functions fs sms = visit_functions (filter (\<lambda>(f, n). 0 < n) fs) sms"
  by (induction fs arbitrary: sms) (auto simp: visit_functions_def bind_res_def split: sum.split)

end
