(* ===== verification/Checkpoint_Output.thy ===== *)
theory Checkpoint_Output
  imports Checkpoints
begin

unbundle bit_operations_syntax

text \<open>
  What holds of every instruction \<open>CheckPointPass\<close> leaves in a function. The locale
  \<open>checkpoint_output\<close> says what has to be shown for that: the output of one instruction, the
  \<open>asm\<close> blocks, and that replacing the results of calls keeps the property. It is
  interpreted twice: unoptimized functions call no function with a body themselves and have
  unoptimized callbacks only (\<open>settled\<close>), and every call that makes records has its
  identifier in front (\<open>numbered\<close>).
\<close>

section \<open>Instruction by instruction\<close>

text \<open>The map with a threaded state, element by element.\<close>

lemma mapfold_res_all:
  assumes "mapfold_res h xs s = Inr (ys, t)" and "list_all P xs"
    and "\<And>x s y t. P x \<Longrightarrow> h x s = Inr (y, t) \<Longrightarrow> Q y"
  shows "list_all Q ys"
  using assms(1,2) by (induction xs arbitrary: s ys) (auto simp: bind_res_Inr_iff intro: assms(3))

lemma list_all_concat: "list_all P (concat xss) \<longleftrightarrow> list_all (list_all P) xss"
  by (induction xss) simp_all

locale checkpoint_output =
  fixes md :: ir_module and funName :: string and P :: "inst \<Rightarrow> bool" and Q :: "inst \<Rightarrow> bool"
  assumes inst_out: "P it \<Longrightarrow> checkpoint_inst md funName it st = Inr (out, st') \<Longrightarrow> list_all Q out"
    and asm_out: "Q (asm_block n)"
    and replaced: "new_results rs \<Longrightarrow> Q it \<Longrightarrow> Q (replace_uses rs it)"
begin

lemma block_out: "checkpoint_block md funName b st = Inr (c, st') \<Longrightarrow> list_all P b \<Longrightarrow> list_all Q c"
proof -
  assume run: "checkpoint_block md funName b st = Inr (c, st')" and b: "list_all P b"
  from run obtain bs where "mapfold_res (checkpoint_inst md funName) b st = Inr (bs, st')" "c = concat bs"
    by (auto simp: checkpoint_block_def bind_res_Inr_iff)
  then show ?thesis using mapfold_res_all [OF _ b inst_out] by (simp add: list_all_concat)
qed

lemma asm_block_out:
  assumes "insert_asm_block calls b n = Inr (c, n')" and "list_all Q b"
  shows "list_all Q c"
proof -
  from assms(1) obtain bs where bs: "mapfold_res (insert_asm calls) b n = Inr (bs, n')" "c = concat bs"
    by (auto simp: insert_asm_block_def bind_res_Inr_iff)
  have "list_all (list_all Q) bs"
    using bs(1) assms(2) by (rule mapfold_res_all) (auto simp: insert_asm_def asm_out split: if_splits)
  then show ?thesis by (simp add: bs(2) list_all_concat)
qed

lemma function_out:
  assumes run: "checkpoint_function md f sms = Inr (f', sms')" and f: "fun_name f = funName"
    and b: "list_all (list_all P) (body f)"
  shows "list_all (list_all Q) (body f')"
proof -
  from run obtain bs st bs' n where
    blocks: "mapfold_res (checkpoint_block md funName) (body f)
       \<lparr>cp_maps = sms, cp_fresh = fresh_id f, cp_calls = [], cp_subst = []\<rparr> = Inr (bs, st)"
    and asm: "mapfold_res (insert_asm_block (cp_calls st)) (map (map (replace_uses (cp_subst st))) bs) (cp_fresh st) = Inr (bs', n)"
    and f': "f' = f\<lparr>body := bs', fresh_id := n\<rparr>"
    by (auto simp: checkpoint_function_def bind_res_Inr_iff f)
  have "new_results (cp_subst st)"
    by (rule checkpoint_blocks_results [OF blocks]) (simp add: new_results_def)
  moreover have "list_all (list_all Q) bs" by (rule mapfold_res_all [OF blocks b]) (rule block_out)
  ultimately have "list_all (list_all Q) (map (map (replace_uses (cp_subst st))) bs)"
    by (auto simp: list_all_iff intro: replaced)
  then have "list_all (list_all Q) bs'" by (rule mapfold_res_all [OF asm]) (rule asm_block_out)
  then show ?thesis by (simp add: f')
qed

end

section \<open>Unoptimized functions\<close>

text \<open>
  An instruction that calls no function with a body, calls through no value, and whose
  callback, when it is a patchpoint with one, is an unoptimized function.
\<close>

definition settled :: "ir_module \<Rightarrow> inst \<Rightarrow> bool" where
  "settled md it =
     (case inst_op it of
        Call c args \<Rightarrow>
          (case c of
             Direct n \<Rightarrow> \<not> has_body md n \<and> (n \<in> {patchpoint_void_name, patchpoint_i64_name} \<longrightarrow>
               2 < length args \<and> (case args ! 2 of FunVal g \<Rightarrow> is_unopt g | _ \<Rightarrow> True))
           | Via v \<Rightarrow> False
           | AsmText t \<Rightarrow> True)
      | _ \<Rightarrow> True)"

lemma replace_value_FunVal: "new_results rs \<Longrightarrow> replace_value rs v = FunVal g \<longleftrightarrow> v = FunVal g"
  by (cases v) (auto simp: replace_value_def new_results_def list_all_iff split: option.split dest!: map_of_SomeD)

lemma settled_replace:
  assumes rs: "new_results rs" and s: "settled md it"
  shows "settled md (replace_uses rs it)"
proof (cases "inst_op it")
  case (Call c args)
  show ?thesis
  proof (cases c)
    case (Direct n)
    have "(case replace_value rs v of FunVal g \<Rightarrow> is_unopt g | _ \<Rightarrow> True)"
      if "case v of FunVal g \<Rightarrow> is_unopt g | _ \<Rightarrow> True" for v
      using that replace_value_FunVal [OF rs, of v] by (auto split: ir_value.splits)
    then show ?thesis using s by (auto simp: settled_def replace_uses_def Call Direct)
  qed (use s in \<open>simp_all add: settled_def replace_uses_def Call\<close>)
qed (simp_all add: settled_def replace_uses_def)

definition no_intrinsic :: "inst \<Rightarrow> bool" where
  "no_intrinsic it \<longleftrightarrow>
     (case getCalledFunction (inst_op it) of
        Some n \<Rightarrow> n \<notin> {stackmap_name, patchpoint_void_name, patchpoint_i64_name}
      | None \<Rightarrow> True)"

definition intrinsics_declared :: "ir_module \<Rightarrow> bool" where
  "intrinsics_declared md \<longleftrightarrow> list_all (\<lambda>n. \<not> has_body md n) [stackmap_name, patchpoint_void_name, patchpoint_i64_name]"

lemma getFunction_name: "getFunction md g = Some f \<Longrightarrow> fun_name f = g"
  by (auto simp: getFunction_def dest: find_SomeD)

lemma converted_settled: "list_all (settled md) (fst (converted n t r v))"
  by (auto simp: converted_def settled_def split: ir_type.split)

lemma unopt_call_site_settled:
  assumes run: "unopt_call_site md funName g args it st = Inr (out, st')" and md: "intrinsics_declared md"
  shows "list_all (settled md) out"
proof -
  from run obtain sms p cf old where a: "getNextPatchpointID funName (cp_maps st) = Inr (sms, p)"
    and cf: "deref (getFunction md (if \<not> is_unopt g then getTwinName g else g)) = Inr cf"
    and old: "deref (getFunction md g) = Inr old"
    by (auto simp: unopt_call_site_def bind_res_Inr_iff)
  from cf have "fun_name cf = (if \<not> is_unopt g then getTwinName g else g)"
    by (auto simp: deref_def split: option.splits dest: getFunction_name)
  then have "is_unopt (fun_name cf)" by (auto simp: twin_opt)
  then show ?thesis
    using run a cf old md converted_settled [of md "cp_fresh st + 1" "ret_type cf" "ret_type old" "InstVal (cp_fresh st)"]
    by (cases "ret_type cf = VoidTy")
      (auto simp: unopt_call_site_def Let_def settled_def intrinsics_declared_def split: prod.splits)
qed

lemma checkpoint_inst_settled:
  assumes run: "checkpoint_inst md funName it st = Inr (out, st')" and "is_unopt funName"
    and md: "intrinsics_declared md" and it: "no_intrinsic it"
  shows "list_all (settled md) out"
proof (cases "inst_op it")
  case (Call c args)
  show ?thesis
  proof (cases c)
    case (Direct g)
    show ?thesis
    proof (cases "has_body md g")
      case True
      then have "unopt_call_site md funName g args it st = Inr (out, st')"
        using run assms(2) by (simp add: checkpoint_inst_def Call Direct)
      then show ?thesis using md by (rule unopt_call_site_settled)
    next
      case False
      then have "out = [it]" using run by (simp add: checkpoint_inst_def Call Direct)
      then show ?thesis using False it by (simp add: settled_def no_intrinsic_def Call Direct)
    qed
  qed (use run in \<open>auto simp: checkpoint_inst_def Call settled_def\<close>)
next
  case (Return v)
  then show ?thesis
    using run assms(2) md
    by (auto simp: checkpoint_inst_def guard_site_def bind_res_Inr_iff Let_def settled_def intrinsics_declared_def
        split: if_splits)
qed (use run in \<open>auto simp: checkpoint_inst_def settled_def\<close>)

lemma asm_settled: "settled md (asm_block n)"
  by (simp add: settled_def asm_block_def)

interpretation settled_out: checkpoint_output md funName
    "\<lambda>it. is_unopt funName \<and> intrinsics_declared md \<and> no_intrinsic it" "settled md" for md funName
  by unfold_locales (auto intro: checkpoint_inst_settled settled_replace asm_settled)

lemma checkpoint_function_settled:
  assumes "checkpoint_function md f sms = Inr (f', sms')" and "is_unopt (fun_name f)"
    and "intrinsics_declared md" and "list_all (list_all no_intrinsic) (body f)"
  shows "list_all (list_all (settled md)) (body f')"
  using settled_out.function_out [OF assms(1) refl] assms(2-4) by simp

section \<open>Identifiers in front\<close>

text \<open>A call that makes records has an identifier as its first argument.\<close>

definition numbered :: "inst \<Rightarrow> bool" where
  "numbered it \<longleftrightarrow> no_intrinsic it \<or> ppid_of it \<noteq> None"

lemma no_intrinsic_ppid: "no_intrinsic it \<Longrightarrow> ppid_of it = None"
  by (auto simp: no_intrinsic_def ppid_of_def split: operation.splits callee.splits list.splits ir_value.splits)

lemma replace_no_intrinsic: "no_intrinsic (replace_uses rs it) = no_intrinsic it"
  by (cases "inst_op it" rule: getCalledFunction.cases)
    (auto simp: no_intrinsic_def replace_uses_def elim: map_operands.elims)

lemma replace_numbered: "new_results rs \<Longrightarrow> numbered (replace_uses rs it) = numbered it"
  by (simp add: numbered_def replace_no_intrinsic replace_ppid)

lemma asm_numbered: "numbered (asm_block n)"
  by (simp add: numbered_def no_intrinsic_def asm_block_def)

lemma converted_numbered: "list_all numbered (fst (converted n t r v))"
  by (auto simp: converted_def numbered_def no_intrinsic_def split: ir_type.split)

lemma unopt_call_site_numbered:
  assumes run: "unopt_call_site md funName g args it st = Inr (out, st')"
  shows "list_all numbered out"
proof -
  from run obtain sms p cf old where a: "getNextPatchpointID funName (cp_maps st) = Inr (sms, p)"
    and cf: "deref (getFunction md (if \<not> is_unopt g then getTwinName g else g)) = Inr cf"
    and old: "deref (getFunction md g) = Inr old"
    by (auto simp: unopt_call_site_def bind_res_Inr_iff)
  then show ?thesis
    using run converted_numbered [of "cp_fresh st + 1" "ret_type cf" "ret_type old" "InstVal (cp_fresh st)"]
    by (cases "ret_type cf = VoidTy")
      (auto simp: unopt_call_site_def Let_def numbered_def ppid_of_def split: prod.splits)
qed

lemma checkpoint_inst_numbered:
  assumes run: "checkpoint_inst md funName it st = Inr (out, st')" and it: "no_intrinsic it"
  shows "list_all numbered out"
proof -
  have new: "numbered it" using it by (simp add: numbered_def)
  consider (guard) "guard_site funName it st = Inr (out, st')" | (opt) "opt_call_site funName it st = Inr (out, st')"
    | (unopt) g args where "unopt_call_site md funName g args it st = Inr (out, st')" | (same) "out = [it]"
    using run by (auto simp: checkpoint_inst_def split: operation.splits callee.splits if_splits)
  then show ?thesis
  proof cases
    case (unopt g args)
    then show ?thesis by (rule unopt_call_site_numbered)
  qed (use new in \<open>auto simp: guard_site_def opt_call_site_def bind_res_Inr_iff Let_def numbered_def ppid_of_def\<close>)
qed

interpretation numbered_out: checkpoint_output md funName no_intrinsic numbered for md funName
  by unfold_locales (auto intro: checkpoint_inst_numbered asm_numbered simp: replace_numbered)

lemma checkpoint_function_numbered:
  assumes "checkpoint_function md f sms = Inr (f', sms')" and "list_all (list_all no_intrinsic) (body f)"
  shows "list_all (list_all numbered) (body f')"
  by (rule numbered_out.function_out [OF assms(1) refl assms(2)])

end
