(* ===== verification/Unopt_Copies.thy ===== *)
theory Unopt_Copies
  imports Checkpoint_Output
begin

unbundle bit_operations_syntax

text \<open>
  \<open>UnoptimizedCopyPass.cpp\<close>: \<open>doInitialization\<close> clones every function with a body;
  \<open>runOnFunction\<close> redirects the callbacks of patchpoint calls in unoptimized functions to
  unoptimized functions. \<open>CloneFunction\<close> appends the clone to the module the loop runs
  over, so the loop visits the clones too; it has fuel for twice the functions. The name a
  clone gets is the one asked for unless it is taken; what LLVM picks then is the parameter
  \<open>uniq\<close>, applied to the names in use and the name asked for.
\<close>

section \<open>Cloning\<close>

definition to_copy :: "ir_fun \<Rightarrow> bool" where
  "to_copy f \<longleftrightarrow> \<not> is_unopt (fun_name f) \<and> \<not> is_declaration f \<and> \<not> available_externally f"

definition clone :: "(string list \<Rightarrow> string \<Rightarrow> string) \<Rightarrow> string list \<Rightarrow> ir_fun \<Rightarrow> ir_fun" where
  "clone uniq used f =
     f\<lparr>fun_name := (let n = unopt_prefix @ fun_name f in if n \<in> set used then uniq used n else n),
       no_inline := True, optimize_none := True\<rparr>"

text \<open>\<open>before\<close> are the functions the loop has passed, \<open>rest\<close> those it has yet to visit.\<close>

fun copy_loop :: "nat \<Rightarrow> (string list \<Rightarrow> string \<Rightarrow> string) \<Rightarrow> ir_module \<Rightarrow> ir_fun list \<Rightarrow> ir_module res" where
  "copy_loop n uniq before [] = Inr before"
| "copy_loop 0 uniq before (f # rest) = Inl NoReturn"
| "copy_loop (Suc n) uniq before (f # rest) =
     (if to_copy f
      then copy_loop n uniq (before @ [f]) (rest @ [clone uniq (map fun_name (before @ f # rest)) f])
      else copy_loop n uniq (before @ [f]) rest)"

definition add_unopt_copies :: "(string list \<Rightarrow> string \<Rightarrow> string) \<Rightarrow> ir_module \<Rightarrow> ir_module res" where
  "add_unopt_copies uniq md = copy_loop (2 * length md) uniq [] md"

section \<open>Redirecting callbacks\<close>

text \<open>Argument 2 of a patchpoint is its callback; an access past the arguments is out of bounds.\<close>

definition redirect_call :: "ir_module \<Rightarrow> inst \<Rightarrow> inst res" where
  "redirect_call md it =
     (case inst_op it of
        Call c args \<Rightarrow>
          if isInlineAsm (inst_op it) then Inr it
          else
            bind_res (getPatchpointType (getCalledFunction (inst_op it))) (\<lambda>t.
            if isPatchpoint t then
              bind_res (index_at args 2) (\<lambda>callback.
              case callback of
                FunVal calledFunName \<Rightarrow>
                  if calledFunName \<noteq> guard_fun_name \<and> \<not> is_unopt calledFunName then
                    case getFunction md (unopt_prefix @ calledFunName) of
                      Some newFun \<Rightarrow> Inr (it\<lparr>inst_op := Call c (args[2 := FunVal (fun_name newFun)])\<rparr>)
                    | None \<Rightarrow> Inr it
                  else Inr it
              | _ \<Rightarrow> Inr it)
            else Inr it)
      | _ \<Rightarrow> Inr it)"

definition redirect_function :: "ir_module \<Rightarrow> ir_fun \<Rightarrow> ir_fun res" where
  "redirect_function md f =
     (if is_unopt (fun_name f)
      then bind_res (map_res (map_res (redirect_call md)) (body f)) (\<lambda>bs. Inr (f\<lparr>body := bs\<rparr>))
      else Inr f)"

section \<open>What the loop makes of a module\<close>

text \<open>
  A module whose names are distinct and not those of copies: it keeps its functions and
  gets the copies of those with a body behind them, in order.
\<close>

definition plain_copy :: "ir_fun \<Rightarrow> ir_fun" where
  "plain_copy f = f\<lparr>fun_name := unopt_prefix @ fun_name f, no_inline := True, optimize_none := True\<rparr>"

lemma not_to_copy_plain [simp]: "\<not> to_copy (plain_copy f)"
  by (simp add: to_copy_def plain_copy_def)

lemma copy_loop_tail:
  "list_all (\<lambda>f. \<not> to_copy f) rest \<Longrightarrow> length rest \<le> n \<Longrightarrow> copy_loop n uniq before rest = Inr (before @ rest)"
proof (induction rest arbitrary: n before)
  case (Cons f rest)
  then show ?case by (cases n) auto
qed (cases n; simp)

lemma copy_loop_plain:
  assumes "distinct (map fun_name (before @ rest))" and "list_all (\<lambda>f. \<not> is_unopt (fun_name f)) (before @ rest)"
    and "2 * length rest + length copies \<le> n"
    and "copies = map plain_copy (filter to_copy before)"
  shows "copy_loop n uniq before (rest @ copies) = Inr (before @ rest @ copies @ map plain_copy (filter to_copy rest))"
  using assms
proof (induction rest arbitrary: n before copies)
  case Nil
  have "list_all (\<lambda>f. \<not> to_copy f) copies" by (simp add: Nil.prems(4) list_all_iff)
  then show ?case using Nil.prems(3) by (simp add: copy_loop_tail)
next
  case (Cons f rest)
  then obtain k where n: "n = Suc k" by (cases n) auto
  show ?case
  proof (cases "to_copy f")
    case True
    let ?used = "map fun_name (before @ f # rest @ copies)"
    have own: "unopt_prefix @ fun_name f \<noteq> fun_name g" if "g \<in> set (before @ f # rest)" for g
    proof -
      have "\<not> is_unopt (fun_name g)" using Cons.prems(2) that by (auto simp: list_all_iff)
      then show ?thesis by (metis is_unopt_prefix)
    qed
    have copied: "fun_name f \<noteq> fun_name g" if "g \<in> set before" for g
      using imageI [OF that, of fun_name] Cons.prems(1) by (metis Int_iff distinct_append empty_iff list.set_intros(1)
          list.set_map list.simps(9) map_append)
    have "unopt_prefix @ fun_name f \<notin> fun_name ` set (before @ f # rest)" using own by blast
    moreover have "unopt_prefix @ fun_name f \<notin> fun_name ` set copies"
      using copied by (auto simp: Cons.prems(4) plain_copy_def)
    ultimately have "unopt_prefix @ fun_name f \<notin> set ?used" by (simp add: image_Un)
    then have "clone uniq ?used f = plain_copy f" by (simp add: clone_def plain_copy_def Let_def)
    moreover have "copy_loop k uniq (before @ [f]) (rest @ (copies @ [plain_copy f])) =
        Inr ((before @ [f]) @ rest @ (copies @ [plain_copy f]) @ map plain_copy (filter to_copy rest))"
      using Cons.prems True n by (intro Cons.IH) auto
    ultimately show ?thesis using True by (simp add: n)
  next
    case False
    have "copy_loop k uniq (before @ [f]) (rest @ copies) =
        Inr ((before @ [f]) @ rest @ copies @ map plain_copy (filter to_copy rest))"
      using Cons.prems False n by (intro Cons.IH) auto
    then show ?thesis using False by (simp add: n)
  qed
qed

lemma add_unopt_copies_plain:
  assumes "distinct (map fun_name md)" and "list_all (\<lambda>f. \<not> is_unopt (fun_name f)) md"
  shows "add_unopt_copies uniq md = Inr (md @ map plain_copy (filter to_copy md))"
  using copy_loop_plain [of "[]" md "[]" "2 * length md" uniq] assms by (simp add: add_unopt_copies_def)

lemma copies_distinct:
  assumes "distinct (map fun_name md)" and "list_all (\<lambda>f. \<not> is_unopt (fun_name f)) md"
  shows "distinct (map fun_name (md @ map plain_copy (filter to_copy md)))"
proof -
  have "distinct (map fun_name (filter to_copy md))" using assms(1) by (rule distinct_map_filter)
  moreover have "map fun_name (map plain_copy (filter to_copy md)) = map ((@) unopt_prefix) (map fun_name (filter to_copy md))"
    by (simp add: plain_copy_def)
  ultimately have "distinct (map fun_name (map plain_copy (filter to_copy md)))" by (simp add: distinct_map inj_on_def)
  moreover have "fun_name f \<noteq> fun_name (plain_copy g)" if "f \<in> set md" for f g
    using that assms(2) by (auto simp: plain_copy_def list_all_iff)
  ultimately show ?thesis using assms(1) by (auto simp: disjoint_iff)
qed

section \<open>The identifiers of functions and copies\<close>

text \<open>A copy has as many sites as the function it is a copy of.\<close>

lemma suffix_unopt: "suffix ''more_indirection'' (unopt_prefix @ f) = suffix ''more_indirection'' f"
proof
  assume "suffix ''more_indirection'' (unopt_prefix @ f)"
  then consider "suffix ''more_indirection'' f" | xs where "''more_indirection'' = xs @ f" "suffix xs unopt_prefix"
    by (auto simp: suffix_append)
  then show "suffix ''more_indirection'' f"
  proof cases
    case (2 xs)
    have "xs = []"
    proof (rule ccontr)
      assume "xs \<noteq> []"
      then have "hd xs = CHR ''m''" using arg_cong [OF 2(1), of hd] by simp
      moreover have "hd xs \<in> set unopt_prefix"
        using \<open>xs \<noteq> []\<close> set_mono_suffix [OF 2(2)] by (auto intro: hd_in_set)
      ultimately show False by (simp add: unopt_prefix_def)
    qed
    then show ?thesis using 2(1) by simp
  qed simp
qed (simp add: suffix_append)

lemma is_site_unopt: "is_site md (unopt_prefix @ f) = is_site md f"
  by (rule ext) (simp add: is_site_def suffix_unopt)

lemma sites_in_unopt: "sites_in md (unopt_prefix @ f) bs = sites_in md f bs"
  by (simp add: sites_in_def is_site_unopt)

definition plain_module :: "ir_module \<Rightarrow> bool" where
  "plain_module md \<longleftrightarrow> distinct (map fun_name md) \<and>
     list_all (\<lambda>f. \<not> is_unopt (fun_name f) \<and> \<not> available_externally f \<and> no_records (body f)) md"

lemma plain_names:
  assumes "plain_module md" and "add_unopt_copies uniq md = Inr md2"
  shows "md2 = md @ map plain_copy (filter to_copy md)" and "distinct (map fun_name md2)"
    and "list_all (\<lambda>f. no_records (body f)) md2"
proof -
  have names: "distinct (map fun_name md)" "list_all (\<lambda>f. \<not> is_unopt (fun_name f)) md"
    using assms(1) by (simp_all add: plain_module_def list_all_iff)
  show md2: "md2 = md @ map plain_copy (filter to_copy md)"
    using add_unopt_copies_plain [OF names] assms(2) by simp
  show "distinct (map fun_name md2)" unfolding md2 by (rule copies_distinct [OF names])
  show "list_all (\<lambda>f. no_records (body f)) md2"
    using assms(1) by (auto simp: md2 plain_module_def list_all_iff plain_copy_def)
qed

lemma visits_copies:
  assumes "list_all (\<lambda>f. \<not> is_unopt (fun_name f) \<and> \<not> available_externally f) fs"
  shows "visits md (map plain_copy (filter to_copy fs)) = copy_visits (visits md fs)"
  using assms
  by (induction fs) (auto simp: visits_def copy_visits_def to_copy_def plain_copy_def sites_in_unopt)

lemma map_of_copies: "map_of (twin_ids ns) (unopt_prefix @ f) = map_option (map (\<lambda>n. NOT (of_nat n))) (map_of ns f)"
  by (induction ns) (auto simp: twin_ids_def)

lemma map_of_twins_plain: "\<not> is_unopt f \<Longrightarrow> map_of (twin_ids ns) f = None"
  by (induction ns) (auto simp: twin_ids_def)

lemma map_of_plain: "list_all (\<lambda>(f, ns). \<not> is_unopt f) ns \<Longrightarrow> map_of ns (unopt_prefix @ f) = None"
  by (induction ns) auto

lemma map_of_numbering:
  "distinct (map fst fs) \<Longrightarrow> (f, n) \<in> set fs \<Longrightarrow> \<exists>b'. map_of (numbering b fs) f = Some [b'..<b' + n]"
proof (induction b fs rule: numbering.induct)
  case (2 b g k fs)
  show ?case
  proof (cases "g = f")
    case True
    then have "n = k" using "2.prems" by force
    then show ?thesis using True by auto
  next
    case False
    then show ?thesis using 2 by auto
  qed
qed simp

lemma numbering_unknown: "f \<notin> fst ` set fs \<Longrightarrow> map_of (numbering b fs) f = None"
  by (metis keys_numbering list.set_map map_of_eq_None_iff)

text \<open>The functions with sites, and how many they have.\<close>

definition site_counts :: "ir_module \<Rightarrow> ir_module \<Rightarrow> (string \<times> nat) list" where
  "site_counts md2 md = filter (\<lambda>(f, n). 0 < n) (visits md2 md)"

lemma distinct_visits: "distinct (map fun_name fs) \<Longrightarrow> distinct (map fst (visits md fs))"
  by (induction fs) (auto simp: visits_def)

lemma site_counts_ok:
  assumes "plain_module md"
  shows "visit_ok (site_counts md2 md)"
proof -
  have "distinct (map fst (visits md2 md))" using assms by (simp add: plain_module_def distinct_visits)
  then have "distinct (map fst (site_counts md2 md))"
    unfolding site_counts_def by (rule distinct_map_filter)
  moreover have "list_all (\<lambda>(f, n). \<not> is_unopt f) (visits md2 md)"
    using assms by (auto simp: plain_module_def visits_def list_all_iff)
  ultimately show ?thesis by (auto simp: visit_ok_def site_counts_def list_all_iff)
qed

lemma copy_visits_filter:
  "filter (\<lambda>(f, n). 0 < n) (copy_visits fs) = copy_visits (filter (\<lambda>(f, n). 0 < n) fs)"
  by (induction fs) (auto simp: copy_visits_def)

lemma module_ids:
  assumes plain: "plain_module md" and copies: "add_unopt_copies uniq md = Inr md2"
    and fits: "next_base 1 (site_counts md2 md) \<le> 2 ^ 63"
    and run: "checkpoint_module md2 [] = Inr (out, sms)"
  shows "sms = word_ids (numbering 1 (site_counts md2 md)) @ twin_ids (numbering 1 (site_counts md2 md))"
    and "list_all2 (checkpointed sms) md2 out"
proof -
  note names = plain_names [OF plain copies]
  have v: "visit_functions (visits md2 md2) [] = Inr sms" and c: "list_all2 (checkpointed sms) md2 out"
    using checkpoint_functions_ids [OF run [unfolded checkpoint_module_def] names(2,3)] by auto
  show "list_all2 (checkpointed sms) md2 out" by (rule c)
  have "visits md2 md2 = visits md2 md @ copy_visits (visits md2 md)"
    using plain visits_copies [of md md2] by (simp add: names(1) visits_def plain_module_def list_all_iff)
  then have "visit_functions (site_counts md2 md @ copy_visits (site_counts md2 md)) [] = Inr sms"
    using v visit_functions_filter [of "visits md2 md2" "[]"] by (simp add: site_counts_def copy_visits_filter)
  moreover have "next_base 1 (site_counts md2 md) < 2 ^ 64" using fits by simp
  ultimately show "sms = word_ids (numbering 1 (site_counts md2 md)) @ twin_ids (numbering 1 (site_counts md2 md))"
    using visit_module [OF site_counts_ok [OF plain]] by simp
qed

text \<open>Function and copy: as many identifiers as sites, and complements of each other.\<close>

lemma module_twins:
  assumes plain: "plain_module md" and copies: "add_unopt_copies uniq md = Inr md2"
    and fits: "next_base 1 (site_counts md2 md) \<le> 2 ^ 63"
    and run: "checkpoint_module md2 [] = Inr (out, sms)"
    and f: "f \<in> set md" "\<not> is_declaration f"
  shows "\<exists>b. ids_of sms (fun_name f) = map of_nat [b..<b + sites_in md2 (fun_name f) (body f)]"
    and "ids_of sms (unopt_prefix @ fun_name f) = map (\<lambda>i. NOT i) (ids_of sms (fun_name f))"
proof -
  let ?N = "numbering 1 (site_counts md2 md)"
  note sms = module_ids(1) [OF plain copies fits run]
  have ok: "visit_ok (site_counts md2 md)" by (rule site_counts_ok [OF plain])
  then have "list_all (\<lambda>(f, ns). \<not> is_unopt f) ?N"
    using numbering_keys by (fastforce simp: visit_ok_def list_all_iff)
  moreover have nf: "\<not> is_unopt (fun_name f)" using plain f(1) by (auto simp: plain_module_def list_all_iff)
  ultimately have own: "map_of sms (fun_name f) = map_option (map of_nat) (map_of ?N (fun_name f))"
    and twin: "map_of sms (unopt_prefix @ fun_name f) = map_option (map (\<lambda>n. NOT (of_nat n))) (map_of ?N (fun_name f))"
    by (simp_all add: sms map_add_def map_of_twins_plain map_of_word_ids map_of_copies map_of_plain
        split: option.split)
  have v: "(fun_name f, sites_in md2 (fun_name f) (body f)) \<in> set (visits md2 md)" using f by (auto simp: visits_def)
  have "\<exists>b. (case map_of ?N (fun_name f) of Some ns \<Rightarrow> ns | None \<Rightarrow> []) = [b..<b + sites_in md2 (fun_name f) (body f)]"
  proof (cases "sites_in md2 (fun_name f) (body f) = 0")
    case True
    have "distinct (map fst (visits md2 md))" using plain by (simp add: plain_module_def distinct_visits)
    then have "fun_name f \<notin> fst ` set (site_counts md2 md)"
      using v True by (auto simp: site_counts_def distinct_map inj_on_def) (metis fst_conv snd_conv not_less_zero)
    then show ?thesis using True by (simp add: numbering_unknown)
  next
    case False
    then have "(fun_name f, sites_in md2 (fun_name f) (body f)) \<in> set (site_counts md2 md)"
      using v by (simp add: site_counts_def)
    then have "\<exists>b'. map_of ?N (fun_name f) = Some [b'..<b' + sites_in md2 (fun_name f) (body f)]"
      using ok by (intro map_of_numbering) (simp add: visit_ok_def)
    then show ?thesis by auto
  qed
  moreover have "ids_of sms (fun_name f) = map of_nat (case map_of ?N (fun_name f) of Some ns \<Rightarrow> ns | None \<Rightarrow> [])"
    by (simp add: ids_of_def own split: option.split)
  ultimately show "\<exists>b. ids_of sms (fun_name f) = map of_nat [b..<b + sites_in md2 (fun_name f) (body f)]"
    by fastforce
  show "ids_of sms (unopt_prefix @ fun_name f) = map (\<lambda>i. NOT i) (ids_of sms (fun_name f))"
    by (simp add: ids_of_def own twin split: option.split)
qed

section \<open>Callbacks after CheckPointPass\<close>

lemma settled_redirect: "settled md it \<Longrightarrow> redirect_call md' it = Inr it"
proof (cases "inst_op it")
  case (Call c args)
  assume s: "settled md it"
  show ?thesis
  proof (cases c)
    case (Direct n)
    obtain t where t: "getPatchpointType (Some n) = Inr t" by (simp add: getPatchpointType_def)
    show ?thesis
      using s type_isPatchpoint [OF t] by (auto simp: settled_def redirect_call_def Call Direct t split: ir_value.split)
  qed (use s in \<open>simp_all add: settled_def redirect_call_def Call\<close>)
qed (simp_all add: redirect_call_def)

lemma redirect_settled: "list_all (list_all (settled md)) (body f) \<Longrightarrow> redirect_function md' f = Inr f"
proof -
  assume s: "list_all (list_all (settled md)) (body f)"
  have "map_res (redirect_call md') b = Inr b" if "list_all (settled md) b" for b
    using that by (induction b) (simp_all add: settled_redirect [of md _ md'])
  then have "map_res (map_res (redirect_call md')) bs = Inr bs" if "list_all (list_all (settled md)) bs" for bs
    using that by (induction bs) simp_all
  then show "redirect_function md' f = Inr f" using s by (simp add: redirect_function_def)
qed

end
