(* ===== verification/Marks.thy ===== *)
theory Marks
  imports Unopt_Copies
begin

text \<open>
  \<open>MarkUnoptimizedPass.cpp\<close>, a pass of the control flow tests: the values that unoptimized
  functions return are replaced by 100, so that the output of a test program shows which
  version of a function returned. The lemmas say that nothing but returned values changes,
  and that an unoptimized function stays as \<open>CheckPointPass\<close> leaves it.
\<close>

definition mark_inst :: "inst \<Rightarrow> inst" where
  "mark_inst it =
     (if isReturnInst (inst_op it) \<and> length (operands (inst_op it)) = 1
      then it\<lparr>inst_op := Return (Some (I32 100))\<rparr> else it)"

definition mark_block :: "string \<Rightarrow> inst list \<Rightarrow> inst list" where
  "mark_block funName b = (if \<not> is_unopt funName then b else map mark_inst b)"

definition mark_function :: "ir_fun \<Rightarrow> ir_fun" where
  "mark_function f = f\<lparr>body := map (mark_block (fun_name f)) (body f)\<rparr>"

lemma mark_inst_Return: "inst_op it = Return v \<Longrightarrow> inst_op (mark_inst it) = Return (map_option (\<lambda>v. I32 100) v)"
  by (cases v) (simp_all add: mark_inst_def)

lemma mark_inst_other: "\<not> isReturnInst (inst_op it) \<Longrightarrow> mark_inst it = it"
  by (simp add: mark_inst_def)

lemma mark_inst_id [simp]: "inst_id (mark_inst it) = inst_id it"
  by (simp add: mark_inst_def)

lemma mark_inst_settled: "settled md it \<Longrightarrow> settled md (mark_inst it)"
  by (simp add: mark_inst_def settled_def)

lemma mark_inst_idem: "mark_inst (mark_inst it) = mark_inst it"
  by (simp add: mark_inst_def)

lemma mark_function_opt: "\<not> is_unopt (fun_name f) \<Longrightarrow> mark_function f = f"
proof -
  assume "\<not> is_unopt (fun_name f)"
  then have "mark_block (fun_name f) = (\<lambda>b. b)" by (intro ext) (simp add: mark_block_def)
  then show ?thesis by (simp add: mark_function_def)
qed

text \<open>Checkpoints first, then marks: the order of the test build.\<close>

lemma mark_function_settled:
  assumes "checkpoint_function md f sms = Inr (f', sms')" and "is_unopt (fun_name f)"
    and "intrinsics_declared md" and "list_all (list_all no_intrinsic) (body f)"
  shows "list_all (list_all (settled md)) (body (mark_function f'))"
    and "map (map inst_id) (body (mark_function f')) = map (map inst_id) (body f')"
proof -
  have "list_all (list_all (settled md)) (body f')" by (rule checkpoint_function_settled [OF assms])
  then show "list_all (list_all (settled md)) (body (mark_function f'))"
    by (auto simp: mark_function_def mark_block_def list_all_iff mark_inst_settled)
  show "map (map inst_id) (body (mark_function f')) = map (map inst_id) (body f')"
    by (simp add: mark_function_def mark_block_def)
qed

end
