(* ===== verification/Live_Variables.thy ===== *)
theory Live_Variables
  imports Checkpoints
begin

unbundle bit_operations_syntax

text \<open>
  \<open>LiveVariablesPass.cpp\<close>: every \<open>stackmap\<close> and \<open>patchpoint\<close> call gets the values that are
  live across it as further arguments, each followed by its size in bytes.

  LLVM's dominator tree and data layout are parameters: \<open>dominates f i j\<close> says whether the
  definition \<open>i\<close> dominates the instruction \<open>j\<close> in \<open>f\<close>, \<open>alloc_size t\<close> is the size of an
  object of a type. The pass edits the function while it goes through it, so each call sees
  the arguments that earlier ones got.
\<close>

section \<open>getLiveRegisters\<close>

fun value_type :: "ir_value \<Rightarrow> ir_type" where
  "value_type (I64 n) = IntTy 64"
| "value_type (I32 n) = IntTy 32"
| "value_type (FunVal f) = PtrTo (OtherTy 0)"
| "value_type NullCallback = PtrTo (IntTy 8)"
| "value_type (ConstVal t n) = t"
| "value_type (InstVal i) = VoidTy"
| "value_type (ArgVal i) = VoidTy"

definition users :: "ir_fun \<Rightarrow> nat \<Rightarrow> nat list" where
  "users f i = map inst_id (filter (\<lambda>u. InstVal i \<in> set (operands (inst_op u))) (concat (body f)))"

definition live_size :: "(ir_type \<Rightarrow> u64) \<Rightarrow> inst \<Rightarrow> u64" where
  "live_size alloc_size it = alloc_size (case inst_op it of Alloca t \<Rightarrow> t | _ \<Rightarrow> inst_type it)"

definition live_entry :: "(ir_fun \<Rightarrow> nat \<Rightarrow> nat \<Rightarrow> bool) \<Rightarrow> (ir_type \<Rightarrow> u64) \<Rightarrow> ir_fun \<Rightarrow> nat \<Rightarrow> inst \<Rightarrow>
    ir_value list" where
  "live_entry dominates alloc_size f at it =
     (if users f (inst_id it) \<noteq> [] \<and> dominates f (inst_id it) at then
        (if list_ex (\<lambda>u. \<not> dominates f u at) (users f (inst_id it))
         then [InstVal (inst_id it), I64 (live_size alloc_size it)] else [])
      else
        case inst_op it of
          Return (Some v) \<Rightarrow> if is_constant v then [v, I64 (alloc_size (value_type v))] else []
        | _ \<Rightarrow> [])"

definition getLiveRegisters :: "(ir_fun \<Rightarrow> nat \<Rightarrow> nat \<Rightarrow> bool) \<Rightarrow> (ir_type \<Rightarrow> u64) \<Rightarrow> ir_fun \<Rightarrow> nat \<Rightarrow>
    ir_value list" where
  "getLiveRegisters dominates alloc_size f at = concat (map (live_entry dominates alloc_size f at) (concat (body f)))"

section \<open>runOnFunction\<close>

text \<open>The call at position \<open>k\<close> of block \<open>b\<close>; a \<open>stackmap\<close> takes what is live at the instruction before it.\<close>

definition record_live :: "(ir_fun \<Rightarrow> nat \<Rightarrow> nat \<Rightarrow> bool) \<Rightarrow> (ir_type \<Rightarrow> u64) \<Rightarrow> nat \<times> nat \<Rightarrow> ir_fun \<Rightarrow>
    ir_fun res" where
  "record_live dominates alloc_size = (\<lambda>(b, k) f.
     let it = body f ! b ! k in
     case inst_op it of
       Call c args \<Rightarrow>
         if isInlineAsm (inst_op it) then Inr f
         else
           bind_res (getPatchpointType (getCalledFunction (inst_op it))) (\<lambda>type.
           if producesStackmapRecords type then
             let at = (if type = STACKMAP \<and> 0 < k then body f ! b ! (k - 1) else it);
                 liveVariables = getLiveRegisters dominates alloc_size f (inst_id at);
                 newCall = it\<lparr>inst_id := fresh_id f, inst_op := Call c (args @ liveVariables)\<rparr>;
                 bs = (if users f (inst_id it) \<noteq> []
                       then map (map (replace_uses [(inst_id it, InstVal (fresh_id f))])) (body f) else body f)
             in Inr (f\<lparr>body := bs[b := (bs ! b)[k := newCall]], fresh_id := fresh_id f + 1\<rparr>)
           else Inr f)
     | _ \<Rightarrow> Inr f)"

definition positions :: "ir_fun \<Rightarrow> (nat \<times> nat) list" where
  "positions f = concat (map (\<lambda>b. map (Pair b) [0..<length (body f ! b)]) [0..<length (body f)])"

definition live_variables_function :: "(ir_fun \<Rightarrow> nat \<Rightarrow> nat \<Rightarrow> bool) \<Rightarrow> (ir_type \<Rightarrow> u64) \<Rightarrow> ir_fun \<Rightarrow>
    ir_fun res" where
  "live_variables_function dominates alloc_size f = fold_res (record_live dominates alloc_size) (positions f) f"

section \<open>Values with their sizes\<close>

definition flat :: "(ir_value \<times> u64) list \<Rightarrow> ir_value list" where
  "flat ps = concat (map (\<lambda>(v, s). [v, I64 s]) ps)"

lemma flat_simps [simp]: "flat [] = []" "flat ((v, s) # ps) = v # I64 s # flat ps" "flat (ps @ qs) = flat ps @ flat qs"
  by (simp_all add: flat_def)

lemma length_flat [simp]: "length (flat ps) = 2 * length ps"
  by (induction ps) auto

text \<open>The instructions whose results are live at an instruction, and the constants returned.\<close>

definition is_live :: "(ir_fun \<Rightarrow> nat \<Rightarrow> nat \<Rightarrow> bool) \<Rightarrow> ir_fun \<Rightarrow> nat \<Rightarrow> inst \<Rightarrow> bool" where
  "is_live dominates f at it \<longleftrightarrow> dominates f (inst_id it) at \<and> list_ex (\<lambda>u. \<not> dominates f u at) (users f (inst_id it))"

definition returned_constant :: "(ir_fun \<Rightarrow> nat \<Rightarrow> nat \<Rightarrow> bool) \<Rightarrow> ir_fun \<Rightarrow> nat \<Rightarrow> inst \<Rightarrow> ir_value option" where
  "returned_constant dominates f at it =
     (case inst_op it of
        Return (Some v) \<Rightarrow>
          if is_constant v \<and> \<not> (users f (inst_id it) \<noteq> [] \<and> dominates f (inst_id it) at) then Some v else None
      | _ \<Rightarrow> None)"

definition live_pairs :: "(ir_fun \<Rightarrow> nat \<Rightarrow> nat \<Rightarrow> bool) \<Rightarrow> (ir_type \<Rightarrow> u64) \<Rightarrow> ir_fun \<Rightarrow> nat \<Rightarrow> inst list \<Rightarrow>
    (ir_value \<times> u64) list" where
  "live_pairs dominates alloc_size f at its = concat (map (\<lambda>it.
     if is_live dominates f at it then [(InstVal (inst_id it), live_size alloc_size it)]
     else case returned_constant dominates f at it of
       Some v \<Rightarrow> [(v, alloc_size (value_type v))] | None \<Rightarrow> []) its)"

lemma live_entry_pairs:
  "live_entry dominates alloc_size f at it =
     flat (if is_live dominates f at it then [(InstVal (inst_id it), live_size alloc_size it)]
       else case returned_constant dominates f at it of Some v \<Rightarrow> [(v, alloc_size (value_type v))] | None \<Rightarrow> [])"
proof (cases "users f (inst_id it) = []")
  case True
  then show ?thesis
    by (auto simp: live_entry_def is_live_def returned_constant_def split: operation.split option.split)
next
  case False
  then show ?thesis
    by (auto simp: live_entry_def is_live_def returned_constant_def split: operation.split option.split)
qed

lemma getLiveRegisters_pairs:
  "getLiveRegisters dominates alloc_size f at = flat (live_pairs dominates alloc_size f at (concat (body f)))"
proof -
  have "concat (map (live_entry dominates alloc_size f at) its) = flat (live_pairs dominates alloc_size f at its)" for "its"
    by (induction "its") (simp_all only: list.map concat.simps live_entry_pairs live_pairs_def flat_simps(3), simp)
  then show ?thesis by (simp add: getLiveRegisters_def)
qed

section \<open>The whole function\<close>

text \<open>Functions on values that at most exchange the results of instructions.\<close>

definition renaming :: "(ir_value \<Rightarrow> ir_value) \<Rightarrow> bool" where
  "renaming h \<longleftrightarrow> (\<forall>v. h v = v \<or> is_inst_val v \<and> is_inst_val (h v))"

lemma renaming_id: "renaming (\<lambda>v. v)"
  by (simp add: renaming_def)

lemma renaming_comp: "renaming h \<Longrightarrow> renaming h' \<Longrightarrow> renaming (\<lambda>v. h' (h v))"
  unfolding renaming_def by metis

lemma renaming_I64: "renaming h \<Longrightarrow> h (I64 n) = I64 n"
  using is_inst_val.simps(3) [of n] by (auto simp: renaming_def)

lemma map_flat: "renaming h \<Longrightarrow> map h (flat ps) = flat (map (\<lambda>(v, s). (h v, s)) ps)"
  by (induction ps) (auto simp: renaming_I64)

lemma map_operands_comp: "map_operands h' (map_operands h x) = map_operands (\<lambda>v. h' (h v)) x"
  by (induction h x rule: map_operands.induct) (auto simp: option.map_comp comp_def)

text \<open>Functions of the same shape.\<close>

definition same_shape :: "ir_fun \<Rightarrow> ir_fun \<Rightarrow> bool" where
  "same_shape f g \<longleftrightarrow> map length (body g) = map length (body f)"

definition op_at :: "ir_fun \<Rightarrow> nat \<times> nat \<Rightarrow> operation" where
  "op_at f = (\<lambda>(b, k). inst_op (body f ! b ! k))"

lemma same_shape_positions: "same_shape f g \<Longrightarrow> positions g = positions f"
proof -
  assume s: "same_shape f g"
  then have l: "length (body g) = length (body f)" by (auto simp: same_shape_def dest: map_eq_imp_length_eq)
  moreover have "length (body g ! b) = length (body f ! b)" if "b < length (body f)" for b
    using s that l nth_map [of b "body g" length] nth_map [of b "body f" length] by (simp add: same_shape_def)
  ultimately have "map (\<lambda>b. map (Pair b) [0..<length (body g ! b)]) [0..<length (body g)] =
      map (\<lambda>b. map (Pair b) [0..<length (body f ! b)]) [0..<length (body f)]" by (intro map_cong) auto
  then show ?thesis by (simp add: positions_def)
qed

lemma set_positions: "(b, k) \<in> set (positions f) \<longleftrightarrow> b < length (body f) \<and> k < length (body f ! b)"
  by (auto simp: positions_def intro: bexI [of _ b])

lemma distinct_positions: "distinct (positions f)"
proof -
  have "distinct (concat (map (\<lambda>b. map (Pair b) (xs b)) bs))" if "distinct bs" "\<And>b. distinct (xs b)"
    for bs :: "nat list" and xs :: "nat \<Rightarrow> nat list"
    using that by (induction bs) (auto simp: distinct_map inj_on_def)
  then show ?thesis by (simp add: positions_def)
qed

text \<open>One step: what happens at its own position, and elsewhere.\<close>

lemma record_liveD:
  assumes "record_live dominates alloc_size (b, k) f = Inr g"
  obtains "g = f"
    | rs x where "body g = (map (map (replace_uses rs)) (body f))[b := (map (map (replace_uses rs)) (body f) ! b)[k := x]]"
      "\<forall>(i, v) \<in> set rs. is_inst_val v"
proof -
  have "replace_uses [] = id" by (rule ext) simp
  then have none: "map (map (replace_uses [])) (body f) = body f" by simp
  then show ?thesis
    using assms that(1) that(2) [of "[]", unfolded none] that(2) [of "[(inst_id (body f ! b ! k), InstVal (fresh_id f))]"]
    by (auto simp: record_live_def Let_def bind_res_Inr_iff split: operation.splits if_splits)
qed

lemma record_live_shape:
  assumes "record_live dominates alloc_size (b, k) f = Inr g"
  shows "same_shape f g"
  using assms
proof (cases rule: record_liveD)
  case (2 rs x)
  let ?bs = "map (map (replace_uses rs)) (body f)"
  have "map length (?bs[b := (?bs ! b)[k := x]]) = map length ?bs"
    by (cases "b < length ?bs") (simp_all add: map_update list_update_same_conv list_update_beyond)
  then show ?thesis by (simp add: 2(1) same_shape_def comp_def)
qed (simp add: same_shape_def)

lemma renaming_small:
  assumes "\<forall>(i, v) \<in> set rs. is_inst_val v"
  shows "renaming (replace_value rs)"
  using assms by (auto simp: renaming_def replace_value_def split: ir_value.split option.split dest!: map_of_SomeD)

lemma record_live_other:
  assumes "record_live dominates alloc_size p f = Inr g" and "q \<noteq> p" and "q \<in> set (positions f)"
  shows "\<exists>h. renaming h \<and> op_at g q = map_operands h (op_at f q)"
proof -
  obtain b k b' k' where p: "p = (b, k)" "q = (b', k')" by (cases p; cases q)
  have q: "b' < length (body f)" "k' < length (body f ! b')" using assms(3) p(2) by (simp_all add: set_positions)
  from assms(1) [unfolded p(1)] show ?thesis
  proof (cases rule: record_liveD)
    case 1
    then show ?thesis using renaming_id map_operands_id [of "\<lambda>v. v" "op_at f q"] by auto
  next
    case (2 rs x)
    let ?bs = "map (map (replace_uses rs)) (body f)"
    have "?bs[b := (?bs ! b)[k := x]] ! b' ! k' = ?bs ! b' ! k'"
      using assms(2) unfolding p by (cases "b = b'"; cases "b < length ?bs") (auto simp: list_update_beyond)
    then have "op_at g q = map_operands (replace_value rs) (op_at f q)"
      using q by (simp add: op_at_def p(2) 2(1) replace_uses_def)
    then show ?thesis using renaming_small [OF 2(2)] by blast
  qed
qed

lemma record_live_all_other:
  assumes "fold_res (record_live dominates alloc_size) ps f = Inr g" and "q \<notin> set ps" and "q \<in> set (positions f)"
  shows "\<exists>h. renaming h \<and> op_at g q = map_operands h (op_at f q)"
    and "same_shape f g"
proof -
  have "(\<exists>h. renaming h \<and> op_at g q = map_operands h (op_at f q)) \<and> same_shape f g"
    using assms
  proof (induction ps arbitrary: f)
    case Nil
    then show ?case using renaming_id map_operands_id [of "\<lambda>v. v" "op_at f q"] by (auto simp: same_shape_def)
  next
    case (Cons p ps)
    then obtain f1 where f1: "record_live dominates alloc_size p f = Inr f1"
      "fold_res (record_live dominates alloc_size) ps f1 = Inr g"
      by (auto simp: bind_res_Inr_iff)
    have sh: "same_shape f f1" using f1(1) by (cases p) (auto intro: record_live_shape)
    obtain h where h: "renaming h" "op_at f1 q = map_operands h (op_at f q)"
      using record_live_other [OF f1(1), of q] Cons.prems(2,3) by auto
    obtain h' where h': "renaming h'" "op_at g q = map_operands h' (op_at f1 q)" "same_shape f1 g"
      using Cons.IH [OF f1(2)] Cons.prems(2,3) same_shape_positions [OF sh] by auto
    have "op_at g q = map_operands (\<lambda>v. h' (h v)) (op_at f q)" using h(2) h'(2) by (simp add: map_operands_comp)
    then show ?case using renaming_comp [OF h(1) h'(1)] sh h'(3) by (auto simp: same_shape_def)
  qed
  then show "\<exists>h. renaming h \<and> op_at g q = map_operands h (op_at f q)" and "same_shape f g" by auto
qed

text \<open>The instruction at which the values recorded by a call have to be live.\<close>

definition live_anchor :: "string \<Rightarrow> ir_fun \<Rightarrow> nat \<times> nat \<Rightarrow> nat" where
  "live_anchor n g = (\<lambda>(b, k). inst_id (if n = stackmap_name \<and> 0 < k then body g ! b ! (k - 1) else body g ! b ! k))"

lemma record_live_own:
  assumes "record_live dominates alloc_size p f = Inr g" and "p \<in> set (positions f)"
    and "op_at f p = Call (Direct n) args" and "n \<in> {stackmap_name, patchpoint_void_name, patchpoint_i64_name}"
  shows "op_at g p = Call (Direct n) (args @ getLiveRegisters dominates alloc_size f (live_anchor n f p))"
proof -
  obtain b k where p: "p = (b, k)" by (cases p)
  have q: "b < length (body f)" "k < length (body f ! b)" using assms(2) p by (simp_all add: set_positions)
  obtain t where t: "getPatchpointType (Some n) = Inr t" by (simp add: getPatchpointType_def)
  have "producesStackmapRecords t" using type_producesRecords [OF t] assms(4) by simp
  moreover have "t = STACKMAP \<longleftrightarrow> n = stackmap_name"
    using t assms(4) by (auto simp: getPatchpointType_def intrinsic_names STACKMAP_def PATCHPOINT_VOID_def PATCHPOINT_I64_def)
  moreover have "inst_op (body f ! b ! k) = Call (Direct n) args" using assms(3) by (simp add: op_at_def p)
  ultimately show ?thesis
    using assms(1) q t by (auto simp: p record_live_def Let_def op_at_def live_anchor_def split: if_splits)
qed

lemma live_variables_recorded:
  assumes run: "live_variables_function dominates alloc_size f = Inr f'"
    and j: "j < length (positions f)" "positions f ! j = p"
    and call: "op_at f p = Call (Direct n) args" "n \<in> {stackmap_name, patchpoint_void_name, patchpoint_i64_name}"
  shows "\<exists>g h h'. fold_res (record_live dominates alloc_size) (take j (positions f)) f = Inr g \<and>
    renaming h \<and> renaming h' \<and>
    op_at f' p = Call (Direct n) (map h args @
      flat (map (\<lambda>(v, s). (h' v, s)) (live_pairs dominates alloc_size g (live_anchor n g p) (concat (body g)))))"
proof -
  have split: "positions f = take j (positions f) @ p # drop (Suc j) (positions f)"
    using id_take_nth_drop [OF j(1)] j(2) by simp
  then have "fold_res (record_live dominates alloc_size) (take j (positions f) @ p # drop (Suc j) (positions f)) f = Inr f'"
    using run by (simp add: live_variables_function_def)
  then obtain g g1 where g: "fold_res (record_live dominates alloc_size) (take j (positions f)) f = Inr g"
    and g1: "record_live dominates alloc_size p g = Inr g1"
    and rest: "fold_res (record_live dominates alloc_size) (drop (Suc j) (positions f)) g1 = Inr f'"
    by (auto simp: fold_res_append bind_res_Inr_iff)
  have "distinct (take j (positions f) @ p # drop (Suc j) (positions f))" using distinct_positions [of f] split by simp
  then have notin: "p \<notin> set (take j (positions f))" "p \<notin> set (drop (Suc j) (positions f))" by auto
  have p: "p \<in> set (positions f)" using j by auto
  obtain h0 where h0: "renaming h0" "op_at g p = map_operands h0 (op_at f p)" and sh: "same_shape f g"
    using record_live_all_other [OF g notin(1) p] by blast
  have pg: "p \<in> set (positions g)" using p same_shape_positions [OF sh] by simp
  have "op_at g p = Call (Direct n) (map h0 args)" using h0(2) call(1) by simp
  then have own: "op_at g1 p = Call (Direct n) (map h0 args @ getLiveRegisters dominates alloc_size g (live_anchor n g p))"
    by (rule record_live_own [OF g1 pg _ call(2)])
  have "same_shape g g1" using g1 by (cases p) (auto intro: record_live_shape)
  then have "p \<in> set (positions g1)" using pg same_shape_positions by simp
  then obtain h1 where h1: "renaming h1" "op_at f' p = map_operands h1 (op_at g1 p)"
    using record_live_all_other(1) [OF rest notin(2)] by blast
  have "op_at f' p = Call (Direct n) (map (\<lambda>v. h1 (h0 v)) args @
      flat (map (\<lambda>(v, s). (h1 v, s)) (live_pairs dominates alloc_size g (live_anchor n g p) (concat (body g)))))"
    using h1(2) own by (simp add: getLiveRegisters_pairs map_flat [OF h1(1)])
  then show ?thesis using g renaming_comp [OF h0(1) h1(1)] h1(1) by blast
qed

end
