(* ===== verification/Pipeline.thy ===== *)
theory Pipeline
  imports Unopt_Copies Live_Variables
begin

unbundle bit_operations_syntax

text \<open>
  The function passes together, in the order in which the Makefiles load them: the module
  gets the declaration of the handler (\<open>CheckPointPass\<close>) and the copies
  (\<open>UnoptimizedCopyPass\<close>); then \<open>CheckPointPass\<close>, \<open>LiveVariablesPass\<close> and
  \<open>UnoptimizedCopyPass\<close> run on one function after the other.

  The locale \<open>id_preserving\<close> is what the identifiers rely on: a pass after \<open>CheckPointPass\<close>
  leaves the identifiers where they are. It is interpreted on \<open>LiveVariablesPass\<close>, on the
  redirection of callbacks, and on both in sequence.
\<close>

section \<open>The passes in sequence\<close>

definition later_passes :: "(ir_fun \<Rightarrow> nat \<Rightarrow> nat \<Rightarrow> bool) \<Rightarrow> (ir_type \<Rightarrow> u64) \<Rightarrow> ir_module \<Rightarrow> ir_fun \<Rightarrow> ir_fun res" where
  "later_passes dominates alloc_size md f =
     bind_res (live_variables_function dominates alloc_size f) (redirect_function md)"

definition function_passes :: "(ir_fun \<Rightarrow> ir_fun res) \<Rightarrow> ir_module \<Rightarrow> ir_fun \<Rightarrow> stack_maps \<Rightarrow>
    (ir_fun \<times> stack_maps) res" where
  "function_passes run md f sms =
     (if is_declaration f then Inr (f, sms)
      else bind_res (checkpoint_function md f sms) (\<lambda>(f, sms). bind_res (run f) (\<lambda>f. Inr (f, sms))))"

definition module_passes :: "(ir_fun \<Rightarrow> nat \<Rightarrow> nat \<Rightarrow> bool) \<Rightarrow> (ir_type \<Rightarrow> u64) \<Rightarrow> (string list \<Rightarrow> string \<Rightarrow> string) \<Rightarrow>
    ir_module \<Rightarrow> (ir_module \<times> stack_maps) res" where
  "module_passes dominates alloc_size uniq md =
     bind_res (add_unopt_copies uniq (declare_guard md)) (\<lambda>md.
     mapfold_res (function_passes (later_passes dominates alloc_size md) md) md [])"

section \<open>Where the identifiers are\<close>

definition id_rows :: "ir_fun \<Rightarrow> (u64 option \<times> bool) list list" where
  "id_rows f = map (map (\<lambda>it. (ppid_of it, no_intrinsic it))) (body f)"

lemma ppids_rows: "ppids (concat (body f)) = List.map_filter fst (concat (id_rows f))"
proof -
  have "ppids b = List.map_filter fst (map (\<lambda>it. (ppid_of it, no_intrinsic it)) b)" for b
    by (induction b) (auto simp: List.map_filter_def split: option.split)
  then show ?thesis by (simp add: id_rows_def map_concat)
qed

lemma numbered_rows: "list_all (list_all numbered) (body f) \<longleftrightarrow> list_all (list_all (\<lambda>(p, n). n \<or> p \<noteq> None)) (id_rows f)"
  by (auto simp: id_rows_def numbered_def list_all_iff)

locale id_preserving =
  fixes run :: "ir_fun \<Rightarrow> ir_fun res"
  assumes keeps_rows: "list_all (list_all numbered) (body f) \<Longrightarrow> run f = Inr f' \<Longrightarrow> id_rows f' = id_rows f"
    and keeps_name: "run f = Inr f' \<Longrightarrow> fun_name f' = fun_name f"
begin

lemma keeps_numbered:
  "list_all (list_all numbered) (body f) \<Longrightarrow> run f = Inr f' \<Longrightarrow> list_all (list_all numbered) (body f')"
  by (simp add: numbered_rows keeps_rows)

lemma keeps_ids:
  "list_all (list_all numbered) (body f) \<Longrightarrow> run f = Inr f' \<Longrightarrow> ppids (concat (body f')) = ppids (concat (body f))"
  by (simp add: ppids_rows keeps_rows)

text \<open>On a whole module: the identifiers are those of \<open>CheckPointPass\<close> alone.\<close>

lemma functions_ids:
  assumes "mapfold_res (function_passes run md) fs sms = Inr (out, sms')"
    and "list_all (\<lambda>f. list_all (list_all no_intrinsic) (body f)) fs"
  shows "\<exists>mid. mapfold_res (\<lambda>f sms. if is_declaration f then Inr (f, sms) else checkpoint_function md f sms) fs sms = Inr (mid, sms') \<and>
    list_all2 (\<lambda>f' f. fun_name f' = fun_name f \<and> ppids (concat (body f')) = ppids (concat (body f)) \<and>
      (if is_declaration f then f' = f else run f = Inr f')) out mid"
  using assms
proof (induction fs arbitrary: sms out)
  case Nil
  then show ?case by simp
next
  case (Cons f fs)
  from Cons.prems(1) obtain g sms1 out1 where g: "function_passes run md f sms = Inr (g, sms1)"
    and rest: "mapfold_res (function_passes run md) fs sms1 = Inr (out1, sms')" and out: "out = g # out1"
    by (auto simp: bind_res_Inr_iff)
  have later: "list_all (\<lambda>f. list_all (list_all no_intrinsic) (body f)) fs" using Cons.prems(2) by simp
  obtain m where m: "(if is_declaration f then Inr (f, sms) else checkpoint_function md f sms) = Inr (m, sms1)"
    "fun_name g = fun_name m \<and> ppids (concat (body g)) = ppids (concat (body m)) \<and>
      (if is_declaration m then g = m else run m = Inr g)"
  proof (cases "is_declaration f")
    case True
    then show ?thesis using g that [of f] by (simp add: function_passes_def)
  next
    case False
    then obtain m where m: "checkpoint_function md f sms = Inr (m, sms1)" "run m = Inr g"
      using g by (auto simp: function_passes_def bind_res_Inr_iff)
    have "list_all (list_all numbered) (body m)" using checkpoint_function_numbered [OF m(1)] Cons.prems(2) by simp
    moreover have "\<not> is_declaration m" using False checkpoint_function_decl [OF m(1)] by simp
    ultimately show ?thesis using False m that [of m] keeps_ids [of m g] keeps_name [OF m(2)] by simp
  qed
  obtain mid where mid: "mapfold_res (\<lambda>f sms. if is_declaration f then Inr (f, sms) else checkpoint_function md f sms) fs sms1 = Inr (mid, sms')"
    "list_all2 (\<lambda>f' f. fun_name f' = fun_name f \<and> ppids (concat (body f')) = ppids (concat (body f)) \<and>
      (if is_declaration f then f' = f else run f = Inr f')) out1 mid"
    using Cons.IH [OF rest later] by blast
  show ?case
    using m mid by (intro exI [of _ "m # mid"]) (simp add: out)
qed

end

section \<open>LiveVariablesPass\<close>

lemma ppid_renamed:
  assumes h: "renaming h" and op: "inst_op y = map_operands h (inst_op x)"
  shows "ppid_of y = ppid_of x" and "no_intrinsic y = no_intrinsic x"
proof -
  have I64: "h v = I64 p \<longleftrightarrow> v = I64 p" for v p
  proof
    assume v: "h v = I64 p"
    then have "\<not> is_inst_val (h v)" by simp
    then have "h v = v" using h unfolding renaming_def by blast
    then show "v = I64 p" using v by simp
  qed (simp add: renaming_I64 [OF h])
  have first: "(case map h args of I64 p # vs \<Rightarrow> F p | _ \<Rightarrow> G) = (case args of I64 p # vs \<Rightarrow> F p | _ \<Rightarrow> G)"
    for args and F :: "u64 \<Rightarrow> u64 option" and G
  proof (cases args)
    case (Cons v vs)
    show ?thesis
    proof (cases "\<exists>p. v = I64 p")
      case True
      then obtain p where "v = I64 p" by blast
      then show ?thesis using Cons by (simp add: renaming_I64 [OF h])
    next
      case False
      then have "\<And>p. h v \<noteq> I64 p" using I64 by blast
      then show ?thesis using Cons False by (cases v; cases "h v") simp_all
    qed
  qed simp
  show "ppid_of y = ppid_of x"
    using op first by (cases "inst_op x" rule: getCalledFunction.cases)
      (auto simp: ppid_of_def split: callee.split)
  show "no_intrinsic y = no_intrinsic x"
    using op by (cases "inst_op x" rule: getCalledFunction.cases) (auto simp: no_intrinsic_def split: callee.split)
qed

lemma rows_eq:
  assumes "same_shape f g"
    and "\<And>b k. (b, k) \<in> set (positions f) \<Longrightarrow> ppid_of (body g ! b ! k) = ppid_of (body f ! b ! k) \<and>
      no_intrinsic (body g ! b ! k) = no_intrinsic (body f ! b ! k)"
  shows "id_rows g = id_rows f"
proof -
  have l: "length (body g) = length (body f)" using assms(1) by (auto simp: same_shape_def dest: map_eq_imp_length_eq)
  moreover have "length (body g ! b) = length (body f ! b)" if "b < length (body f)" for b
    using assms(1) that l nth_map [of b "body g" length] nth_map [of b "body f" length] by (simp add: same_shape_def)
  ultimately show ?thesis
    using assms(2) by (auto simp: id_rows_def set_positions intro!: nth_equalityI)
qed

lemma rows_at: "id_rows g = id_rows f \<Longrightarrow> (b, k) \<in> set (positions f) \<Longrightarrow>
    ppid_of (body g ! b ! k) = ppid_of (body f ! b ! k) \<and> no_intrinsic (body g ! b ! k) = no_intrinsic (body f ! b ! k)"
proof -
  assume rows: "id_rows g = id_rows f" and bk: "(b, k) \<in> set (positions f)"
  then have b: "b < length (body f)" "k < length (body f ! b)" by (simp_all add: set_positions)
  then have g: "b < length (body g)" using rows by (auto simp: id_rows_def dest: map_eq_imp_length_eq)
  let ?F = "\<lambda>it. (ppid_of it, no_intrinsic it)"
  have row: "map ?F (body g ! b) = map ?F (body f ! b)"
    using arg_cong [OF rows, of "\<lambda>r. r ! b"] b(1) g by (simp add: id_rows_def)
  then have "k < length (body g ! b)" using b(2) map_eq_imp_length_eq [OF row] by simp
  then show ?thesis using arg_cong [OF row, of "\<lambda>r. r ! k"] b(2) by simp
qed

text \<open>A call without record is left alone; one with a record keeps its first argument.\<close>

lemma record_live_plain:
  assumes "record_live dominates alloc_size (b, k) f = Inr g" and "no_intrinsic (body f ! b ! k)"
  shows "g = f"
proof (cases "inst_op (body f ! b ! k)")
  case (Call c args)
  show ?thesis
  proof (cases c)
    case (Direct n)
    obtain t where t: "getPatchpointType (Some n) = Inr t" by (simp add: getPatchpointType_def)
    have "\<not> producesStackmapRecords t"
      using type_producesRecords [OF t] assms(2) by (simp add: no_intrinsic_def Call Direct)
    then show ?thesis using assms(1) t by (simp add: record_live_def Let_def Call Direct)
  next
    case (Via v)
    then show ?thesis using assms(1) by (simp add: record_live_def Let_def Call getPatchpointType_def)
  qed (use assms(1) in \<open>simp add: record_live_def Let_def Call\<close>)
qed (use assms(1) in \<open>simp_all add: record_live_def Let_def\<close>)

lemma record_live_rows:
  assumes run: "record_live dominates alloc_size p f = Inr g" and p: "p \<in> set (positions f)"
    and num: "list_all (list_all numbered) (body f)"
  shows "id_rows g = id_rows f"
proof (cases p)
  case (Pair b k)
  have at: "b < length (body f)" "k < length (body f ! b)" using p Pair by (simp_all add: set_positions)
  show ?thesis
  proof (cases "no_intrinsic (body f ! b ! k)")
    case True
    then show ?thesis using record_live_plain run Pair by blast
  next
    case False
    moreover have "numbered (body f ! b ! k)" using num at by (simp add: list_all_length)
    ultimately obtain i where i: "ppid_of (body f ! b ! k) = Some i" by (auto simp: numbered_def)
    then obtain n args where call: "op_at f p = Call (Direct n) (I64 i # args)"
      "n \<in> {stackmap_name, patchpoint_void_name, patchpoint_i64_name}"
      by (auto simp: ppid_of_def op_at_def Pair split: operation.splits callee.splits list.splits ir_value.splits if_splits)
    note own = record_live_own [OF run p call]
    have "same_shape f g" using run Pair by (auto intro: record_live_shape)
    then show ?thesis
    proof (rule rows_eq)
      fix b' k' assume q: "(b', k') \<in> set (positions f)"
      show "ppid_of (body g ! b' ! k') = ppid_of (body f ! b' ! k') \<and>
        no_intrinsic (body g ! b' ! k') = no_intrinsic (body f ! b' ! k')"
      proof (cases "(b', k') = p")
        case True
        then show ?thesis using own call by (auto simp: op_at_def ppid_of_def no_intrinsic_def)
      next
        case False
        then obtain h where "renaming h" "op_at g (b', k') = map_operands h (op_at f (b', k'))"
          using record_live_other [OF run _ q] by blast
        then show ?thesis using ppid_renamed [of h] by (simp add: op_at_def)
      qed
    qed
  qed
qed

lemma record_live_name: "record_live dominates alloc_size p f = Inr g \<Longrightarrow> fun_name g = fun_name f"
  by (cases p) (auto simp: record_live_def Let_def bind_res_Inr_iff split: operation.splits if_splits)

lemma rows_positions: "id_rows g = id_rows f \<Longrightarrow> positions g = positions f"
proof -
  assume "id_rows g = id_rows f"
  then have "map length (id_rows g) = map length (id_rows f)" by simp
  then have "same_shape f g" by (simp add: id_rows_def same_shape_def comp_def)
  then show ?thesis by (rule same_shape_positions)
qed

lemma record_live_all_rows:
  assumes "fold_res (record_live dominates alloc_size) ps f = Inr g" and "set ps \<subseteq> set (positions f)"
    and "list_all (list_all numbered) (body f)"
  shows "id_rows g = id_rows f \<and> fun_name g = fun_name f"
  using assms
proof (induction ps arbitrary: f)
  case Nil
  then show ?case by simp
next
  case (Cons p ps)
  then obtain f1 where f1: "record_live dominates alloc_size p f = Inr f1"
    "fold_res (record_live dominates alloc_size) ps f1 = Inr g" by (auto simp: bind_res_Inr_iff)
  have rows: "id_rows f1 = id_rows f" using record_live_rows [OF f1(1)] Cons.prems(2,3) by simp
  then have "list_all (list_all numbered) (body f1)" using Cons.prems(3) by (simp add: numbered_rows)
  then show ?case
    using Cons.IH [OF f1(2)] Cons.prems(2) rows rows_positions [OF rows] record_live_name [OF f1(1)] by simp
qed

interpretation live_pass: id_preserving "live_variables_function dominates alloc_size" for dominates alloc_size
proof
  fix f f' assume run: "live_variables_function dominates alloc_size f = Inr f'"
  show "list_all (list_all numbered) (body f) \<Longrightarrow> id_rows f' = id_rows f"
    using record_live_all_rows [of dominates alloc_size "positions f"] run by (simp add: live_variables_function_def)
  show "fun_name f' = fun_name f"
    using run unfolding live_variables_function_def
    by (rule fold_res_invariant [where P = "\<lambda>g. fun_name g = fun_name f"]) (auto dest: record_live_name)
qed

section \<open>UnoptimizedCopyPass\<close>

lemma redirect_call_row:
  assumes "redirect_call md it = Inr it'"
  shows "ppid_of it' = ppid_of it" and "no_intrinsic it' = no_intrinsic it"
proof -
  have third: "(case args[2 := x] of I64 p # vs \<Rightarrow> F p | _ \<Rightarrow> G) = (case args of I64 p # vs \<Rightarrow> F p | _ \<Rightarrow> G)"
    for args x and F :: "u64 \<Rightarrow> u64 option" and G
    by (cases args) (simp_all add: numeral_2_eq_2 split: ir_value.split)
  have called: "getCalledFunction (Call c (args[2 := x])) = getCalledFunction (Call c args)" for c args x
    by (cases c) simp_all
  have "it' = it \<or> (\<exists>c args x. inst_op it = Call c args \<and> inst_op it' = Call c (args[2 := x]))"
  proof (cases "inst_op it")
    case (Call c args)
    show ?thesis
    proof (cases "it' = it")
      case False
      with assms obtain v where "(case v of
          FunVal g \<Rightarrow> if g \<noteq> guard_fun_name \<and> \<not> is_unopt g then
            case getFunction md (unopt_prefix @ g) of
              Some newFun \<Rightarrow> Inr (it\<lparr>inst_op := Call c (args[2 := FunVal (fun_name newFun)])\<rparr>)
            | None \<Rightarrow> Inr it else Inr it
        | _ \<Rightarrow> Inr it) = (Inr it' :: inst res)"
        by (auto simp: redirect_call_def Call bind_res_Inr_iff split: if_splits)
      with False Call show ?thesis by (cases v) (auto split: if_splits option.splits)
    qed simp
  qed (use assms in \<open>auto simp: redirect_call_def\<close>)
  then show "ppid_of it' = ppid_of it" and "no_intrinsic it' = no_intrinsic it"
    by (auto simp: ppid_of_def no_intrinsic_def third called split: callee.splits)
qed

lemma redirect_rows: "redirect_function md f = Inr f' \<Longrightarrow> id_rows f' = id_rows f"
proof (cases "is_unopt (fun_name f)")
  case True
  assume "redirect_function md f = Inr f'"
  then obtain bs where bs: "map_res (map_res (redirect_call md)) (body f) = Inr bs" and f': "f' = f\<lparr>body := bs\<rparr>"
    using True by (auto simp: redirect_function_def bind_res_Inr_iff)
  let ?F = "\<lambda>it. (ppid_of it, no_intrinsic it)"
  have "map ?F c = map ?F b" if "map_res (redirect_call md) b = Inr c" for b c
    using that by (induction b arbitrary: c) (auto simp: bind_res_Inr_iff redirect_call_row)
  then have "map (map ?F) cs = map (map ?F) bs" if "map_res (map_res (redirect_call md)) bs = Inr cs" for bs cs
    using that by (induction bs arbitrary: cs) (auto simp: bind_res_Inr_iff)
  from this [OF bs] show ?thesis by (simp add: id_rows_def f')
qed (simp add: redirect_function_def)

interpretation redirect_pass: id_preserving "redirect_function md" for md
proof
  fix f f' assume run: "redirect_function md f = Inr f'"
  show "id_rows f' = id_rows f" by (rule redirect_rows [OF run])
  show "fun_name f' = fun_name f" using run by (auto simp: redirect_function_def bind_res_Inr_iff split: if_splits)
qed

interpretation both_passes: id_preserving "later_passes dominates alloc_size md" for dominates alloc_size md
proof
  fix f f' assume "later_passes dominates alloc_size md f = Inr f'"
  then obtain g where g: "live_variables_function dominates alloc_size f = Inr g" "redirect_function md g = Inr f'"
    by (auto simp: later_passes_def bind_res_Inr_iff)
  show "fun_name f' = fun_name f" using live_pass.keeps_name [OF g(1)] redirect_pass.keeps_name [OF g(2)] by simp
  show "list_all (list_all numbered) (body f) \<Longrightarrow> id_rows f' = id_rows f"
    using live_pass.keeps_rows [OF _ g(1)] redirect_rows [OF g(2)] by simp
qed

section \<open>The identifiers of a compiled module\<close>

text \<open>Rows taken from a table without repetitions, under distinct names, have none.\<close>

lemma distinct_row: "distinct (concat (map snd t)) \<Longrightarrow> (n, a) \<in> set t \<Longrightarrow> distinct a"
  by (induction t) auto

lemma disjoint_rows:
  "distinct (concat (map snd t)) \<Longrightarrow> (n, a) \<in> set t \<Longrightarrow> (m, b) \<in> set t \<Longrightarrow> n \<noteq> m \<Longrightarrow> set a \<inter> set b = {}"
proof (induction t)
  case (Cons x t)
  have d: "distinct (concat (map snd t))" "set (snd x) \<inter> set (concat (map snd t)) = {}"
    using Cons.prems(1) by (simp_all del: distinct_concat_iff)
  have sub: "set r \<subseteq> set (concat (map snd t))" if "(k, r) \<in> set t" for k r using that by force
  show ?case
  proof (cases "x = (n, a) \<or> x = (m, b)")
    case True
    then show ?thesis
    proof
      assume "x = (n, a)"
      then have "(m, b) \<in> set t" using Cons.prems(3,4) by auto
      then show ?thesis using sub d(2) \<open>x = (n, a)\<close> by fastforce
    next
      assume "x = (m, b)"
      then have "(n, a) \<in> set t" using Cons.prems(2,4) by auto
      then show ?thesis using sub d(2) \<open>x = (m, b)\<close> by fastforce
    qed
  next
    case False
    then show ?thesis using Cons.IH [OF d(1)] Cons.prems(2-4) by auto
  qed
qed simp

lemma distinct_rows:
  assumes t: "distinct (concat (map snd t))"
  shows "distinct (map fst rs) \<Longrightarrow> list_all (\<lambda>(n, r). r = [] \<or> (n, r) \<in> set t) rs \<Longrightarrow> distinct (concat (map snd rs))"
proof (induction rs)
  case (Cons x rs)
  obtain n r where x: "x = (n, r)" by (cases x)
  have "set r \<inter> set b = {}" if "(m, b) \<in> set rs" for m b
  proof -
    have "m \<noteq> n" using that Cons.prems(1) x by force
    moreover have "b = [] \<or> (m, b) \<in> set t" "r = [] \<or> (n, r) \<in> set t"
      using that Cons.prems(2) by (auto simp: x list_all_iff)
    ultimately show ?thesis using disjoint_rows [OF t] by fastforce
  qed
  moreover have "distinct r" using Cons.prems(2) distinct_row [OF t] by (auto simp: x)
  ultimately show ?case using Cons by (force simp: x simp del: distinct_concat_iff)
qed simp

lemma list_all2_source: "list_all2 P xs ys \<Longrightarrow> y \<in> set ys \<Longrightarrow> \<exists>x \<in> set xs. P x y"
  by (induction xs ys rule: list_all2_induct) auto

lemma no_records_ppids: "no_records bs \<Longrightarrow> ppids (concat bs) = []"
proof -
  have "list_all (\<lambda>it. ppid_of it = None) b \<Longrightarrow> ppids b = []" for b by (induction b) auto
  then show "no_records bs \<Longrightarrow> ppids (concat bs) = []" by (induction bs) (auto simp: no_records_def)
qed

lemma plain_declared:
  assumes "plain_module md" and "guard_fun_name \<notin> set (map fun_name md)"
  shows "plain_module (declare_guard md)"
proof -
  have "\<not> is_unopt guard_fun_name" by code_simp
  then show ?thesis using assms by (auto simp: plain_module_def declare_guard_def no_records_def)
qed

lemma no_intrinsic_copies:
  assumes "list_all (\<lambda>f. list_all (list_all no_intrinsic) (body f)) md"
  shows "list_all (\<lambda>f. list_all (list_all no_intrinsic) (body f)) (declare_guard md @ map plain_copy (filter to_copy (declare_guard md)))"
  using assms by (auto simp: declare_guard_def plain_copy_def list_all_iff)

lemma module_passes_ids:
  assumes plain: "plain_module md" "guard_fun_name \<notin> set (map fun_name md)"
    and source: "list_all (\<lambda>f. list_all (list_all no_intrinsic) (body f)) md"
    and copies: "add_unopt_copies uniq (declare_guard md) = Inr md2"
    and fits: "next_base 1 (site_counts md2 (declare_guard md)) \<le> 2 ^ 63"
    and run: "module_passes dominates alloc_size uniq md = Inr (out, sms)"
  shows "\<exists>mid. checkpoint_module md2 [] = Inr (mid, sms)"
    and "list_all2 (\<lambda>g g'. fun_name g' = fun_name g \<and>
      ppids (concat (body g')) = (if is_declaration g then [] else ids_of sms (fun_name g))) md2 out"
    and "distinct (concat (map (\<lambda>g. ppids (concat (body g))) out))"
proof -
  let ?later = "later_passes dominates alloc_size md2"
  note declared = plain_declared [OF plain] and names = plain_names [OF plain_declared [OF plain] copies]
  have "mapfold_res (function_passes ?later md2) md2 [] = Inr (out, sms)"
    using run copies by (simp add: module_passes_def)
  moreover have "list_all (\<lambda>f. list_all (list_all no_intrinsic) (body f)) md2"
    using no_intrinsic_copies [OF source] by (simp add: names(1))
  ultimately obtain mid where mid: "checkpoint_module md2 [] = Inr (mid, sms)"
    and same: "list_all2 (\<lambda>f' f. fun_name f' = fun_name f \<and> ppids (concat (body f')) = ppids (concat (body f)) \<and>
      (if is_declaration f then f' = f else ?later f = Inr f')) out mid"
    using both_passes.functions_ids unfolding checkpoint_module_def by blast
  show "\<exists>mid. checkpoint_module md2 [] = Inr (mid, sms)" using mid by blast
  note ids = module_ids [OF declared copies fits mid]
  have len: "length out = length mid" "length mid = length md2"
    using same ids(2) by (auto dest: list_all2_lengthD)
  have at: "fun_name (out ! i) = fun_name (md2 ! i) \<and>
      ppids (concat (body (out ! i))) = (if is_declaration (md2 ! i) then [] else ids_of sms (fun_name (md2 ! i)))"
    if i: "i < length md2" for i
  proof -
    have c: "checkpointed sms (md2 ! i) (mid ! i)" using list_all2_nthD [OF ids(2) i] .
    have "no_records (body (md2 ! i))" using names(3) i by (simp add: list_all_length)
    then have "ppids (concat (body (mid ! i))) = (if is_declaration (md2 ! i) then [] else ids_of sms (fun_name (md2 ! i)))"
      using c by (auto simp: checkpointed_def no_records_ppids)
    then show ?thesis using list_all2_nthD [OF same, of i] c len i by (simp add: checkpointed_def)
  qed
  show "list_all2 (\<lambda>g g'. fun_name g' = fun_name g \<and>
      ppids (concat (body g')) = (if is_declaration g then [] else ids_of sms (fun_name g))) md2 out"
    using at len by (intro list_all2_all_nthI) auto
  have entry: "ids_of sms n = [] \<or> (n, ids_of sms n) \<in> set sms" for n
    by (auto simp: ids_of_def split: option.split dest: map_of_SomeD)
  let ?rs = "map (\<lambda>g. (fun_name g, ppids (concat (body g)))) out"
  have "map fun_name out = map fun_name md2" using at len by (intro nth_equalityI) auto
  then have "distinct (map fst ?rs)" using names(2) by (simp add: comp_def)
  moreover have "list_all (\<lambda>(n, r). r = [] \<or> (n, r) \<in> set sms) ?rs"
    using entry at len by (simp add: list_all_length)
  moreover have "distinct (concat (map snd sms))" unfolding ids(1) by (rule ids_distinct [OF fits])
  ultimately have "distinct (concat (map snd ?rs))" using distinct_rows by blast
  then show "distinct (concat (map (\<lambda>g. ppids (concat (body g))) out))" by (simp only: list.map_comp comp_def snd_conv)
qed

lemma module_passes_twins:
  assumes plain: "plain_module md" "guard_fun_name \<notin> set (map fun_name md)"
    and source: "list_all (\<lambda>f. list_all (list_all no_intrinsic) (body f)) md"
    and copies: "add_unopt_copies uniq (declare_guard md) = Inr md2"
    and fits: "next_base 1 (site_counts md2 (declare_guard md)) \<le> 2 ^ 63"
    and run: "module_passes dominates alloc_size uniq md = Inr (out, sms)"
    and f: "f \<in> set md" "\<not> is_declaration f"
    and f': "f' \<in> set out" "fun_name f' = fun_name f" and u': "u' \<in> set out" "fun_name u' = unopt_prefix @ fun_name f"
  shows "\<exists>b. ppids (concat (body f')) = map of_nat [b..<b + sites_in md2 (fun_name f) (body f)]"
    and "ppids (concat (body u')) = map (\<lambda>i. NOT i) (ppids (concat (body f')))"
proof -
  note declared = plain_declared [OF plain] and names = plain_names [OF plain_declared [OF plain] copies]
    and ids = module_passes_ids [OF plain source copies fits run]
  obtain mid where mid: "checkpoint_module md2 [] = Inr (mid, sms)" using ids(1) by blast
  have own: "ppids (concat (body g')) = ids_of sms (fun_name g)"
    if g': "g' \<in> set out" and g: "g \<in> set md2" "fun_name g' = fun_name g" "\<not> is_declaration g" for g g'
  proof -
    obtain h where h: "h \<in> set md2" "fun_name g' = fun_name h"
      "ppids (concat (body g')) = (if is_declaration h then [] else ids_of sms (fun_name h))"
      using list_all2_source [OF ids(2) g'] by blast
    then have "h = g" using names(2) g(1,2) by (metis distinct_map inj_onD)
    then show ?thesis using h(3) g(3) by simp
  qed
  have "\<not> is_unopt (fun_name f)" "\<not> available_externally f" using plain(1) f(1) by (auto simp: plain_module_def list_all_iff)
  then have "f \<in> set md2" "plain_copy f \<in> set md2"
    using f by (auto simp: names(1) declare_guard_def to_copy_def)
  then have ppids: "ppids (concat (body f')) = ids_of sms (fun_name f)"
    "ppids (concat (body u')) = ids_of sms (unopt_prefix @ fun_name f)"
    using own [OF f'(1), of f] own [OF u'(1), of "plain_copy f"] f(2) f'(2) u'(2) by (simp_all add: plain_copy_def)
  have "f \<in> set (declare_guard md)" using f(1) by (simp add: declare_guard_def)
  then show "\<exists>b. ppids (concat (body f')) = map of_nat [b..<b + sites_in md2 (fun_name f) (body f)]"
    and "ppids (concat (body u')) = map (\<lambda>i. NOT i) (ppids (concat (body f')))"
    using module_twins [OF declared copies fits mid _ f(2)] by (simp_all add: ppids)
qed

end
