(* ===== verification/Barriers.thy ===== *)
theory Barriers
  imports Ir
begin

unbundle bit_operations_syntax

text \<open>
  \<open>BarrierPass.cpp\<close>: a basic block is split before every inline \<open>asm\<close> that something
  precedes, and behind every call that produces stack map records and that something
  follows. A block is its label and its instructions; splitting ends the first part with a
  branch to the second, and fresh labels and instruction numbers are counted up.
\<close>

type_synonym labelled_block = "nat \<times> inst list"

text \<open>The instructions in \<open>callInsts\<close>; \<open>prev\<close> is whether the block has an instruction before.\<close>

definition points_at :: "bool \<Rightarrow> inst \<Rightarrow> inst list \<Rightarrow> nat list res" where
  "points_at prev it its =
     (if isCallInst (inst_op it) then
        (if isInlineAsm (inst_op it) then Inr (if prev then [inst_id it] else [])
         else
           bind_res (getPatchpointType (getCalledFunction (inst_op it))) (\<lambda>t.
           Inr (if producesStackmapRecords t
                then (case its of [] \<Rightarrow> [] | next # _ \<Rightarrow> [inst_id next]) else [])))
      else Inr [])"

fun split_points :: "bool \<Rightarrow> inst list \<Rightarrow> nat list res" where
  "split_points prev [] = Inr []"
| "split_points prev (it # its) =
     bind_res (points_at prev it its) (\<lambda>here.
     bind_res (split_points True its) (\<lambda>later. Inr (here @ later)))"

text \<open>\<open>inst->getParent()->splitBasicBlock(inst)\<close>, in the blocks that came of the one block.\<close>

definition branch :: "nat \<Rightarrow> nat \<Rightarrow> inst" where
  "branch n l = \<lparr>inst_id = n, inst_type = VoidTy, inst_op = Br l\<rparr>"

fun split_block :: "nat \<Rightarrow> nat \<Rightarrow> nat \<Rightarrow> labelled_block list \<Rightarrow> labelled_block list" where
  "split_block i l n [] = []"
| "split_block i l n ((lb, its) # bs) =
     (if i \<in> set (map inst_id its)
      then (lb, takeWhile (\<lambda>x. inst_id x \<noteq> i) its @ [branch n l]) # (l, dropWhile (\<lambda>x. inst_id x \<noteq> i) its) # bs
      else (lb, its) # split_block i l n bs)"

fun split_all :: "nat list \<Rightarrow> nat \<Rightarrow> nat \<Rightarrow> labelled_block list \<Rightarrow> labelled_block list" where
  "split_all [] l n bs = bs"
| "split_all (i # ks) l n bs = split_all ks (l + 1) (n + 1) (split_block i l n bs)"

definition barrier_block :: "nat \<Rightarrow> nat \<Rightarrow> labelled_block \<Rightarrow> labelled_block list res" where
  "barrier_block l n b =
     bind_res (split_points False (snd b)) (\<lambda>callInsts. Inr (split_all callInsts l n [b]))"

section \<open>What splitting keeps\<close>

definition ids_in :: "labelled_block list \<Rightarrow> nat set" where
  "ids_in bs = inst_id ` set (concat (map snd bs))"

text \<open>The instructions of the original block, which have numbers below \<open>n0\<close>.\<close>

definition contents :: "nat \<Rightarrow> labelled_block list \<Rightarrow> inst list" where
  "contents n0 bs = filter (\<lambda>x. inst_id x < n0) (concat (map snd bs))"

fun linked :: "labelled_block list \<Rightarrow> bool" where
  "linked (a # b # bs) \<longleftrightarrow> snd a \<noteq> [] \<and> inst_op (last (snd a)) = Br (fst b) \<and> linked (b # bs)"
| "linked bs \<longleftrightarrow> True"

definition heads :: "labelled_block list \<Rightarrow> nat set" where
  "heads bs = {inst_id (hd its) | lb its. (lb, its) \<in> set bs \<and> its \<noteq> []}"

lemma contents_split: "n0 \<le> n \<Longrightarrow> contents n0 (split_block i l n bs) = contents n0 bs"
proof (induction bs)
  case (Cons b bs)
  obtain lb its where b: "b = (lb, its)" by (cases b)
  have "filter (\<lambda>x. inst_id x < n0) its = filter (\<lambda>x. inst_id x < n0) (takeWhile (\<lambda>x. inst_id x \<noteq> i) its) @
      filter (\<lambda>x. inst_id x < n0) (dropWhile (\<lambda>x. inst_id x \<noteq> i) its)"
    by (metis filter_append takeWhile_dropWhile_id)
  then show ?case using Cons by (auto simp: b contents_def branch_def)
qed (simp add: contents_def)

lemma ids_in_Cons [simp]: "ids_in [] = {}" "ids_in ((lb, its) # bs) = inst_id ` set its \<union> ids_in bs"
  by (auto simp: ids_in_def)

lemma ids_split: "ids_in bs \<subseteq> ids_in (split_block i l n bs)"
proof (induction bs)
  case (Cons b bs)
  obtain lb its where b: "b = (lb, its)" by (cases b)
  have "inst_id ` set its = inst_id ` set (takeWhile (\<lambda>x. inst_id x \<noteq> i) its) \<union>
      inst_id ` set (dropWhile (\<lambda>x. inst_id x \<noteq> i) its)"
    by (metis image_Un set_append takeWhile_dropWhile_id)
  then show ?case using Cons by (cases "i \<in> set (map inst_id its)") (simp_all add: b, blast+)
qed simp

lemma drop_to:
  assumes "i \<in> set (map inst_id its)"
  shows "dropWhile (\<lambda>x. inst_id x \<noteq> i) its \<noteq> []" and "inst_id (hd (dropWhile (\<lambda>x. inst_id x \<noteq> i) its)) = i"
    and "last (dropWhile (\<lambda>x. inst_id x \<noteq> i) its) = last its"
proof -
  show ne: "dropWhile (\<lambda>x. inst_id x \<noteq> i) its \<noteq> []" using assms by (auto simp: dropWhile_eq_Nil_conv)
  then show "inst_id (hd (dropWhile (\<lambda>x. inst_id x \<noteq> i) its)) = i" using hd_dropWhile [OF ne] by simp
  show "last (dropWhile (\<lambda>x. inst_id x \<noteq> i) its) = last its"
    using last_appendR [OF ne, of "takeWhile (\<lambda>x. inst_id x \<noteq> i) its"] by simp
qed

lemma length_split: "i \<in> ids_in bs \<Longrightarrow> length (split_block i l n bs) = Suc (length bs)"
  by (induction bs) auto

lemma split_first: "bs \<noteq> [] \<Longrightarrow> split_block i l n bs \<noteq> [] \<and> fst (hd (split_block i l n bs)) = fst (hd bs)"
  by (cases bs) (auto split: if_splits)

lemma linked_Cons: "bs \<noteq> [] \<Longrightarrow> linked (a # bs) \<longleftrightarrow> snd a \<noteq> [] \<and> inst_op (last (snd a)) = Br (fst (hd bs)) \<and> linked bs"
  by (cases bs) auto

lemma linked_split: "linked bs \<Longrightarrow> linked (split_block i l n bs)"
proof (induction bs)
  case (Cons b bs)
  obtain lb its where b: "b = (lb, its)" by (cases b)
  show ?case
  proof (cases "i \<in> set (map inst_id its)")
    case True
    have "linked ((l, dropWhile (\<lambda>x. inst_id x \<noteq> i) its) # bs)"
      using Cons.prems drop_to [OF True] by (cases bs) (auto simp: b)
    then show ?thesis using True by (simp add: b branch_def)
  next
    case False
    then show ?thesis
      using Cons split_first [of bs i l n] by (cases "bs = []") (auto simp: b linked_Cons)
  qed
qed simp

lemma heads_split:
  shows "heads bs \<subseteq> heads (split_block i l n bs)"
    and "i \<in> ids_in bs \<Longrightarrow> i \<in> heads (split_block i l n bs)"
proof -
  have cons: "heads ((lb, its) # bs) = (if its = [] then {} else {inst_id (hd its)}) \<union> heads bs" for lb its bs
    by (auto simp: heads_def)
  show "heads bs \<subseteq> heads (split_block i l n bs)"
  proof (induction bs)
    case (Cons b bs)
    obtain lb its where b: "b = (lb, its)" by (cases b)
    show ?case
    proof (cases "i \<in> set (map inst_id its)")
      case True
      then obtain x xs where its: "its = x # xs" by (cases its) auto
      have "inst_id (hd its) \<in> heads (split_block i l n (b # bs))"
        using True drop_to(1,2) [OF True] by (cases "inst_id x = i") (auto simp: b its cons)
      then show ?thesis using True by (auto simp: b cons split: if_splits)
    next
      case False
      then show ?thesis using Cons by (auto simp: b cons)
    qed
  qed (simp add: heads_def)
  show "i \<in> ids_in bs \<Longrightarrow> i \<in> heads (split_block i l n bs)"
  proof (induction bs)
    case (Cons b bs)
    obtain lb its where b: "b = (lb, its)" by (cases b)
    show ?case
      using Cons drop_to(1,2) [of i its] by (auto simp: b cons ids_in_def)
  qed (simp add: ids_in_def)
qed

text \<open>Splitting at all points.\<close>

lemma split_all_ok:
  assumes "set ks \<subseteq> ids_in bs" and "n0 \<le> n" and "linked bs"
  shows "contents n0 (split_all ks l n bs) = contents n0 bs" and "linked (split_all ks l n bs)"
    and "length (split_all ks l n bs) = length bs + length ks"
    and "heads bs \<union> set ks \<subseteq> heads (split_all ks l n bs)"
proof -
  have "contents n0 (split_all ks l n bs) = contents n0 bs \<and> linked (split_all ks l n bs) \<and>
      length (split_all ks l n bs) = length bs + length ks \<and> heads bs \<union> set ks \<subseteq> heads (split_all ks l n bs)"
    using assms
  proof (induction ks arbitrary: l n bs)
    case (Cons i js)
    have "set js \<subseteq> ids_in (split_block i l n bs)" using Cons.prems(1) ids_split [of bs i l n] by auto
    moreover have "n0 \<le> n + 1" "linked (split_block i l n bs)"
      using Cons.prems(2,3) by (simp_all add: linked_split)
    ultimately have ih: "contents n0 (split_all js (l + 1) (n + 1) (split_block i l n bs)) = contents n0 (split_block i l n bs)"
      "linked (split_all js (l + 1) (n + 1) (split_block i l n bs))"
      "length (split_all js (l + 1) (n + 1) (split_block i l n bs)) = length (split_block i l n bs) + length js"
      "heads (split_block i l n bs) \<union> set js \<subseteq> heads (split_all js (l + 1) (n + 1) (split_block i l n bs))"
      using Cons.IH by blast+
    have i: "i \<in> ids_in bs" using Cons.prems(1) by simp
    show ?case
      using ih contents_split [OF Cons.prems(2), of i l bs] length_split [OF i, of l n]
        heads_split(1) [of bs i l n] heads_split(2) [OF i, of l n] by auto
  qed simp
  then show "contents n0 (split_all ks l n bs) = contents n0 bs" and "linked (split_all ks l n bs)"
    and "length (split_all ks l n bs) = length bs + length ks"
    and "heads bs \<union> set ks \<subseteq> heads (split_all ks l n bs)" by auto
qed

lemma split_points_ids: "split_points prev its = Inr ks \<Longrightarrow> set ks \<subseteq> inst_id ` set its"
proof (induction its arbitrary: prev ks)
  case (Cons it its)
  then obtain here later where here: "points_at prev it its = Inr here"
    and later: "split_points True its = Inr later" and ks: "ks = here @ later"
    by (auto simp: bind_res_Inr_iff)
  from here have "set here \<subseteq> insert (inst_id it) (inst_id ` set its)"
    by (cases its) (auto simp: points_at_def bind_res_Inr_iff split: if_splits)
  then show ?case using Cons.IH [OF later] by (auto simp: ks)
qed simp

text \<open>Which instructions are collected: calls that produce records, and what follows them.\<close>

definition makes_record :: "inst \<Rightarrow> bool" where
  "makes_record it \<longleftrightarrow>
     (case getCalledFunction (inst_op it) of
        Some n \<Rightarrow> n \<in> {stackmap_name, patchpoint_void_name, patchpoint_i64_name}
      | None \<Rightarrow> False)"

definition starts_part :: "inst list \<Rightarrow> nat \<Rightarrow> bool" where
  "starts_part its i \<longleftrightarrow> isInlineAsm (inst_op (its ! i)) \<or> 0 < i \<and> makes_record (its ! (i - 1))"

lemma points_at_Inr:
  assumes "points_at prev it its = Inr ks"
  shows "ks = (if isInlineAsm (inst_op it) then (if prev then [inst_id it] else [])
    else if makes_record it then (case its of [] \<Rightarrow> [] | next # _ \<Rightarrow> [inst_id next]) else [])"
proof (cases "inst_op it")
  case (Call c args)
  show ?thesis
  proof (cases c)
    case (Direct n)
    obtain t where t: "getPatchpointType (Some n) = Inr t" by (simp add: getPatchpointType_def)
    have "producesStackmapRecords t \<longleftrightarrow> makes_record it"
      using type_producesRecords [OF t] by (simp add: makes_record_def Call Direct)
    then show ?thesis using assms t by (simp add: points_at_def Call Direct)
  next
    case (Via v)
    then show ?thesis using assms by (simp add: points_at_def Call getPatchpointType_def)
  qed (use assms in \<open>simp add: points_at_def Call\<close>)
qed (use assms in \<open>simp_all add: points_at_def makes_record_def\<close>)

lemma asm_no_record: "isInlineAsm (inst_op it) \<Longrightarrow> \<not> makes_record it"
  by (auto simp: makes_record_def elim!: isInlineAsm.elims)

lemma split_points_count:
  assumes "split_points prev its = Inr ks"
  shows "length ks = length (filter (\<lambda>x. isInlineAsm (inst_op x)) (if prev then its else tl its)) +
    length (filter makes_record (butlast its))"
  using assms
proof (induction its arbitrary: prev ks)
  case (Cons it its)
  then obtain here later where here: "points_at prev it its = Inr here"
    and later: "split_points True its = Inr later" and ks: "ks = here @ later"
    by (auto simp: bind_res_Inr_iff)
  show ?case
    using Cons.IH [OF later] points_at_Inr [OF here] asm_no_record [of it]
    by (cases its) (auto simp: ks)
qed simp

lemma split_points_mem:
  assumes "split_points prev its = Inr ks" and "i < length its" and "starts_part its i" and "prev \<or> 0 < i"
  shows "inst_id (its ! i) \<in> set ks"
  using assms
proof (induction its arbitrary: prev ks i)
  case (Cons it its)
  then obtain here later where here: "points_at prev it its = Inr here"
    and later: "split_points True its = Inr later" and ks: "ks = here @ later"
    by (auto simp: bind_res_Inr_iff)
  note pts = points_at_Inr [OF here]
  show ?case
  proof (cases i)
    case 0
    then show ?thesis using Cons.prems(3,4) pts by (auto simp: ks starts_part_def)
  next
    case (Suc j)
    show ?thesis
    proof (cases "starts_part its j")
      case True
      then show ?thesis using Cons.IH [OF later, of j] Cons.prems(2) Suc by (simp add: ks)
    next
      case False
      then have "j = 0" "makes_record it"
        using Cons.prems(3) Suc by (cases j; auto simp: starts_part_def)+
      then show ?thesis using pts asm_no_record [of it] Cons.prems(2) Suc by (cases its) (auto simp: ks)
    qed
  qed
qed simp

lemma barrier_block_ok:
  assumes "barrier_block l n (lb, its) = Inr bs" and "list_all (\<lambda>x. inst_id x < n) its"
  shows "contents n bs = its" and "linked bs"
    and "length bs = 1 + length (filter (\<lambda>x. isInlineAsm (inst_op x)) (tl its)) + length (filter makes_record (butlast its))"
    and "i < length its \<Longrightarrow> starts_part its i \<Longrightarrow> inst_id (its ! i) \<in> heads bs"
proof -
  from assms(1) obtain js where p: "split_points False its = Inr js" and bs: "bs = split_all js l n [(lb, its)]"
    by (auto simp: barrier_block_def bind_res_Inr_iff)
  have ids: "set js \<subseteq> ids_in [(lb, its)]" using split_points_ids [OF p] by (simp add: ids_in_def)
  note ok = split_all_ok [OF ids order.refl, where l = l and n = n, folded bs]
  show "contents n bs = its" using ok(1) assms(2) by (simp add: contents_def list_all_iff)
  show "linked bs" using ok(2) by simp
  show "length bs = 1 + length (filter (\<lambda>x. isInlineAsm (inst_op x)) (tl its)) + length (filter makes_record (butlast its))"
    using ok(3) split_points_count [OF p] by simp
  show "inst_id (its ! i) \<in> heads bs" if i: "i < length its" "starts_part its i"
  proof (cases "i = 0")
    case True
    then have "inst_id (its ! i) \<in> heads [(lb, its)]" using i(1) by (auto simp: heads_def hd_conv_nth)
    then show ?thesis using ok(4) by auto
  next
    case False
    then show ?thesis using split_points_mem [OF p i] ok(4) by auto
  qed
qed

end
