(* ===== verification/Barrier_Functions.thy ===== *)
theory Barrier_Functions
  imports Barriers
begin

unbundle bit_operations_syntax

text \<open>
  \<open>BarrierPass\<close> on a function: the pass manager goes through the list of its blocks, and the parts
  a block is cut into are behind it in this list, so they are visited too. A part that ends with a
  call that makes a record, and the branch put behind it, is cut once more, before the branch. The
  visits end, each block becomes a chain of parts, and in the end every \<open>asm\<close> is the first
  instruction of its block and every call that makes a record is followed by one instruction at
  most, so call sites are alone in their blocks.
\<close>

section \<open>The visits\<close>

text \<open>\<open>seen\<close> are the blocks behind the iterator, \<open>l\<close> and \<open>n\<close> the next label and number.\<close>

fun barrier_visits :: "nat \<Rightarrow> nat \<Rightarrow> nat \<Rightarrow> labelled_block list \<Rightarrow> labelled_block list \<Rightarrow> labelled_block list res" where
  "barrier_visits k l n seen [] = Inr seen"
| "barrier_visits 0 l n seen (b # bs) = Inl NoReturn"
| "barrier_visits (Suc k) l n seen (b # bs) =
     bind_res (barrier_block l n b) (\<lambda>ps.
     barrier_visits k (l + (length ps - 1)) (n + (length ps - 1)) (seen @ [hd ps]) (tl ps @ bs))"

definition barrier_function :: "nat \<Rightarrow> nat \<Rightarrow> labelled_block list \<Rightarrow> labelled_block list res" where
  "barrier_function l n bs = barrier_visits (length bs + 2 * length (concat (map snd bs))) l n [] bs"

section \<open>The parts of one block\<close>

text \<open>A part: a piece of the block, perhaps with a branch behind it.\<close>

definition piece_of :: "nat \<Rightarrow> inst list \<Rightarrow> inst list \<Rightarrow> bool" where
  "piece_of n0 its js \<longleftrightarrow> (\<exists>us xs vs. its = us @ xs @ vs \<and> (js = xs \<or> (\<exists>m l. js = xs @ [branch m l] \<and> n0 \<le> m)))"

text \<open>Blocks with unique numbers, those of the original block below \<open>n0\<close>, others up to \<open>n\<close>.\<close>

definition fresh_ids :: "nat \<Rightarrow> labelled_block list \<Rightarrow> bool" where
  "fresh_ids n bs \<longleftrightarrow> distinct (map inst_id (concat (map snd bs))) \<and> list_all (\<lambda>x. inst_id x < n) (concat (map snd bs))"

lemma fresh_ids_Cons:
  "fresh_ids n ((lb, its) # bs) \<longleftrightarrow> distinct (map inst_id its) \<and> list_all (\<lambda>x. inst_id x < n) its \<and> fresh_ids n bs \<and>
     inst_id ` set its \<inter> ids_in bs = {}"
  by (auto simp: fresh_ids_def ids_in_def)

lemma split_cut:
  assumes "i \<in> set (map inst_id its)"
  obtains xs y ys where "its = xs @ y # ys" and "inst_id y = i" and "takeWhile (\<lambda>x. inst_id x \<noteq> i) its = xs"
    and "dropWhile (\<lambda>x. inst_id x \<noteq> i) its = y # ys"
proof -
  obtain y ys where y: "dropWhile (\<lambda>x. inst_id x \<noteq> i) its = y # ys" using drop_to(1) [OF assms] by (cases "dropWhile (\<lambda>x. inst_id x \<noteq> i) its") auto
  then have "inst_id y = i" using drop_to(2) [OF assms] by simp
  moreover have "its = takeWhile (\<lambda>x. inst_id x \<noteq> i) its @ y # ys" using y by (metis takeWhile_dropWhile_id)
  ultimately show ?thesis using that y by blast
qed

lemma ids_split_sub: "ids_in (split_block i l n bs) \<subseteq> insert n (ids_in bs)"
proof (induction bs)
  case (Cons b bs)
  obtain lb its where b: "b = (lb, its)" by (cases b)
  show ?case
  proof (cases "i \<in> set (map inst_id its)")
    case True
    then obtain xs y ys where "its = xs @ y # ys" "takeWhile (\<lambda>x. inst_id x \<noteq> i) its = xs" "dropWhile (\<lambda>x. inst_id x \<noteq> i) its = y # ys"
      by (rule split_cut)
    then show ?thesis using True by (auto simp: b branch_def)
  qed (use Cons in \<open>auto simp: b\<close>)
qed simp

lemma fresh_split: "fresh_ids n bs \<Longrightarrow> fresh_ids (n + 1) (split_block i l n bs)"
proof (induction bs)
  case (Cons b bs)
  obtain lb its where b: "b = (lb, its)" by (cases b)
  have n: "n \<notin> inst_id ` set its" "n \<notin> ids_in bs"
    using Cons.prems by (auto simp: b fresh_ids_def ids_in_def list_all_iff)
  show ?case
  proof (cases "i \<in> set (map inst_id its)")
    case True
    then obtain xs y ys where cut: "its = xs @ y # ys" "takeWhile (\<lambda>x. inst_id x \<noteq> i) its = xs" "dropWhile (\<lambda>x. inst_id x \<noteq> i) its = y # ys"
      by (rule split_cut)
    have "fresh_ids (n + 1) bs" using Cons.prems by (auto simp: b fresh_ids_def list_all_iff less_SucI)
    then show ?thesis
      using True Cons.prems n unfolding b split_block.simps if_P [OF True] cut(2,3) fresh_ids_Cons
      by (auto simp: cut(1) branch_def list_all_iff fresh_ids_Cons less_SucI)
  next
    case False
    have "inst_id ` set its \<inter> ids_in (split_block i l n bs) = {}"
      using ids_split_sub [of i l n bs] n(1) Cons.prems by (auto simp: b fresh_ids_Cons)
    then show ?thesis using False Cons by (auto simp: b fresh_ids_Cons list_all_iff less_SucI)
  qed
qed (simp add: fresh_ids_def)

lemma piece_split:
  assumes "piece_of n0 its js" and "i < n0" and "i \<in> set (map inst_id js)" and "n0 \<le> n"
  shows "piece_of n0 its (takeWhile (\<lambda>x. inst_id x \<noteq> i) js @ [branch n l])" and "piece_of n0 its (dropWhile (\<lambda>x. inst_id x \<noteq> i) js)"
proof -
  from assms(3) obtain as y bs where cut: "js = as @ y # bs" "inst_id y = i" "takeWhile (\<lambda>x. inst_id x \<noteq> i) js = as"
    "dropWhile (\<lambda>x. inst_id x \<noteq> i) js = y # bs" by (rule split_cut)
  from assms(1) obtain us xs vs where its: "its = us @ xs @ vs" and js: "js = xs \<or> (\<exists>m l. js = xs @ [branch m l] \<and> n0 \<le> m)"
    unfolding piece_of_def by blast
  have "\<exists>ys. xs = as @ y # ys \<and> (bs = ys \<or> (\<exists>m l. bs = ys @ [branch m l] \<and> n0 \<le> m))"
    using js
  proof (elim disjE exE conjE)
    fix m l assume m: "js = xs @ [branch m l]" "n0 \<le> m"
    show ?thesis
    proof (cases bs rule: rev_cases)
      case Nil
      then have "y = branch m l" using cut(1) m(1) by simp
      then show ?thesis using cut(2) assms(2) m(2) by (simp add: branch_def)
    next
      case (snoc ys z)
      then have "xs @ [branch m l] = (as @ y # ys) @ [z]" using cut(1) m(1) by simp
      then show ?thesis using snoc m(2) by auto
    qed
  qed (use cut(1) in auto)
  then obtain ys where ys: "xs = as @ y # ys" "bs = ys \<or> (\<exists>m l. bs = ys @ [branch m l] \<and> n0 \<le> m)" by blast
  show "piece_of n0 its (takeWhile (\<lambda>x. inst_id x \<noteq> i) js @ [branch n l])"
    unfolding piece_of_def cut(3) using its ys(1) assms(4)
    by (intro exI [of _ us] exI [of _ as] exI [of _ "y # ys @ vs"]) auto
  show "piece_of n0 its (dropWhile (\<lambda>x. inst_id x \<noteq> i) js)"
    unfolding piece_of_def cut(4) using its ys
    by (intro exI [of _ "us @ as"] exI [of _ "y # ys"] exI [of _ vs]) auto
qed

lemma pieces_split:
  "list_all (\<lambda>b. piece_of n0 its (snd b)) bs \<Longrightarrow> i < n0 \<Longrightarrow> n0 \<le> n \<Longrightarrow> list_all (\<lambda>b. piece_of n0 its (snd b)) (split_block i l n bs)"
proof (induction bs)
  case (Cons b bs)
  obtain lb js where b: "b = (lb, js)" by (cases b)
  show ?case
    using Cons piece_split [of n0 its js i n] by (cases "i \<in> set (map inst_id js)") (simp_all add: b)
qed simp

text \<open>The end of the last part is that of the block.\<close>

definition ends_as :: "inst list \<Rightarrow> labelled_block list \<Rightarrow> bool" where
  "ends_as its bs \<longleftrightarrow> bs \<noteq> [] \<and> (its \<noteq> [] \<longrightarrow> snd (last bs) \<noteq> [] \<and> last (snd (last bs)) = last its)"

lemma ends_split: "ends_as its bs \<Longrightarrow> ends_as its (split_block i l n bs)"
proof (induction bs)
  case (Cons b bs)
  obtain lb js where b: "b = (lb, js)" by (cases b)
  show ?case
  proof (cases "i \<in> set (map inst_id js)")
    case True
    then show ?thesis using Cons.prems drop_to [OF True] by (auto simp: b ends_as_def)
  next
    case False
    show ?thesis
    proof (cases "bs = []")
      case True
      then show ?thesis using Cons.prems False by (simp add: b)
    next
      case ne: False
      then have "ends_as its bs" using Cons.prems by (simp add: ends_as_def)
      then have "ends_as its (split_block i l n bs)" by (rule Cons.IH)
      then show ?thesis using False by (simp add: b ends_as_def)
    qed
  qed
qed (simp add: ends_as_def)

lemma split_all_parts:
  assumes "set ks \<subseteq> {i. i < n0}" and "n0 \<le> n" and "fresh_ids n bs" and "list_all (\<lambda>b. piece_of n0 its (snd b)) bs" and "ends_as its bs"
  shows "fresh_ids (n + length ks) (split_all ks l n bs) \<and> list_all (\<lambda>b. piece_of n0 its (snd b)) (split_all ks l n bs) \<and>
    ends_as its (split_all ks l n bs) \<and> fst (hd (split_all ks l n bs)) = fst (hd bs)"
  using assms
proof (induction ks arbitrary: l n bs)
  case (Cons i ks)
  have "bs \<noteq> []" using Cons.prems(5) by (simp add: ends_as_def)
  then show ?case
    using Cons.IH [of "n + 1" "split_block i l n bs" "l + 1"] Cons.prems fresh_split [of n bs i l] pieces_split [of n0 its bs i n l]
      ends_split [of its bs i l n] split_first [of bs i l n] by simp
qed simp

section \<open>Call sites alone\<close>

text \<open>Nothing in the block starts a part but its first instruction and a branch at its end.\<close>

definition separated :: "inst list \<Rightarrow> bool" where
  "separated js \<longleftrightarrow> list_all (\<lambda>i. starts_part js i \<longrightarrow> Suc i = length js \<and> (case inst_op (js ! i) of Br l \<Rightarrow> True | _ \<Rightarrow> False)) [1..<length js]"

lemma separatedD: "separated js \<Longrightarrow> 0 < i \<Longrightarrow> i < length js \<Longrightarrow> starts_part js i \<Longrightarrow> Suc i = length js \<and> (\<exists>l. inst_op (js ! i) = Br l)"
proof -
  assume "separated js" and i: "0 < i" "i < length js" and part: "starts_part js i"
  then have "\<forall>i \<in> set [1..<length js]. starts_part js i \<longrightarrow> Suc i = length js \<and> (case inst_op (js ! i) of Br l \<Rightarrow> True | _ \<Rightarrow> False)"
    unfolding separated_def list_all_iff by blast
  moreover have "i \<in> set [1..<length js]" using i by simp
  ultimately have "Suc i = length js \<and> (case inst_op (js ! i) of Br l \<Rightarrow> True | _ \<Rightarrow> False)" using part by blast
  moreover have "\<exists>l. x = Br l" if "case x of Br l \<Rightarrow> True | _ \<Rightarrow> False" for x
    using that by (cases x) simp_all
  ultimately show ?thesis by blast
qed

lemma head_unique:
  "distinct (map inst_id (concat L)) \<Longrightarrow> js \<in> set L \<Longrightarrow> hs \<in> set L \<Longrightarrow> hs \<noteq> [] \<Longrightarrow> i < length js \<Longrightarrow>
    inst_id (hd hs) = inst_id (js ! i) \<Longrightarrow> i = 0"
proof (induction L)
  case (Cons l L)
  have own: "i = 0" if "js = hs" "distinct (map inst_id js)"
  proof -
    have "0 < length js" using Cons.prems(5) by linarith
    moreover from this have "map inst_id js ! 0 = map inst_id js ! i" using that(1) Cons.prems(4-6) by (simp add: hd_conv_nth)
    ultimately show ?thesis using nth_eq_iff_index_eq [OF that(2), of 0 i] Cons.prems(5) by (simp del: nth_map)
  qed
  have apart: "False" if "xs \<in> set L" "x \<in> set xs" "y \<in> set l" "inst_id x = inst_id y" for xs x y
    using Cons.prems(1) that by (auto simp: disjoint_iff)
  have mem: "hd hs \<in> set hs" "js ! i \<in> set js" using Cons.prems(4,5) by simp_all
  consider "js = l \<and> hs = l" | "js \<in> set L \<and> hs \<in> set L" | "js = l \<and> hs \<in> set L" | "js \<in> set L \<and> hs = l"
    using Cons.prems(2,3) by auto
  then show ?case
  proof cases
    case 1
    then show ?thesis using own Cons.prems(1) by auto
  next
    case 2
    have "distinct (map inst_id (concat L))" using Cons.prems(1) by simp
    from Cons.IH [OF this _ _ Cons.prems(4-6)] 2 show ?thesis by blast
  next
    case 3
    then show ?thesis using apart [of hs "hd hs" "js ! i"] mem Cons.prems(6) by auto
  next
    case 4
    then show ?thesis using apart [of js "js ! i" "hd hs"] mem Cons.prems(6) by auto
  qed
qed simp

lemma starts_part_piece:
  assumes "starts_part xs i" and "i < length xs" and "0 < i"
  shows "starts_part (us @ xs @ vs) (length us + i)"
  using assms by (auto simp: starts_part_def nth_append)

text \<open>What a visit makes of a block.\<close>

definition cuts :: "inst list \<Rightarrow> nat" where
  "cuts its = length (filter (\<lambda>x. isInlineAsm (inst_op x)) (tl its)) + length (filter makes_record (butlast its))"

lemma barrier_block_parts:
  assumes run: "barrier_block l n (lb, its) = Inr ps" and ids: "fresh_ids n [(lb, its)]"
  shows "length ps = Suc (cuts its)" and "linked ps" and "ends_as its ps" and "fst (hd ps) = lb"
    and "fresh_ids (n + cuts its) ps" and "n0 \<le> n \<Longrightarrow> contents n0 ps = filter (\<lambda>x. inst_id x < n0) its"
    and "b \<in> set ps \<Longrightarrow> separated (snd b) \<and> piece_of n its (snd b)"
proof -
  from run obtain ks where p: "split_points False its = Inr ks" and ps: "ps = split_all ks l n [(lb, its)]"
    by (auto simp: barrier_block_def bind_res_Inr_iff)
  have small: "list_all (\<lambda>x. inst_id x < n) its" using ids by (simp add: fresh_ids_def)
  have pts: "set ks \<subseteq> ids_in [(lb, its)]" "set ks \<subseteq> {i. i < n}"
    using split_points_ids [OF p] small by (auto simp: ids_in_def list_all_iff)
  note ok = barrier_block_ok [OF run small]
  show "length ps = Suc (cuts its)" "linked ps" using ok(2,3) by (simp_all add: cuts_def)
  have len: "length ks = cuts its" using split_points_count [OF p] by (simp add: cuts_def)
  have "piece_of n its its" unfolding piece_of_def by (intro exI [of _ "[]"] exI [of _ its]) simp
  then have parts: "fresh_ids (n + cuts its) ps \<and> list_all (\<lambda>b. piece_of n its (snd b)) ps \<and> ends_as its ps \<and> fst (hd ps) = lb"
    using split_all_parts [OF pts(2) order.refl ids, of its l] by (simp add: ends_as_def ps len)
  then show "ends_as its ps" "fst (hd ps) = lb" "fresh_ids (n + cuts its) ps" by blast+
  show "contents n0 ps = filter (\<lambda>x. inst_id x < n0) its" if "n0 \<le> n"
    using split_all_ok(1) [OF pts(1) that, of l] by (simp add: ps contents_def)
  show "separated (snd b) \<and> piece_of n its (snd b)" if b: "b \<in> set ps"
  proof
    show piece: "piece_of n its (snd b)" using parts b by (auto simp: list_all_iff)
    then obtain us xs vs where its: "its = us @ xs @ vs" and js: "snd b = xs \<or> (\<exists>m l. snd b = xs @ [branch m l])"
      unfolding piece_of_def by blast
    have no: "\<not> starts_part xs i" if i: "0 < i" "i < length xs" for i
    proof
      assume "starts_part xs i"
      then have "starts_part its (length us + i)" using starts_part_piece i its by blast
      moreover have "length us + i < length its" "its ! (length us + i) = xs ! i" using i by (auto simp: its nth_append)
      ultimately have "inst_id (xs ! i) \<in> heads ps" using ok(4) by metis
      then obtain lh hs where hs: "(lh, hs) \<in> set ps" "hs \<noteq> []" "inst_id (hd hs) = inst_id (xs ! i)" by (auto simp: heads_def)
      have "snd b ! i = xs ! i" "i < length (snd b)" using js i by (auto simp: nth_append)
      moreover have "distinct (map inst_id (concat (map snd ps)))" using parts by (simp add: fresh_ids_def)
      ultimately have "i = 0" using head_unique [of "map snd ps" "snd b" hs i] b hs by force
      then show False using i by simp
    qed
    show "separated (snd b)"
      using js
    proof (elim disjE exE)
      assume "snd b = xs"
      then show ?thesis using no by (auto simp: separated_def list_all_iff)
    next
      fix m l assume j: "snd b = xs @ [branch m l]"
      have "starts_part xs i" if "starts_part (xs @ [branch m l]) i" "i < length xs" for i
        using that by (auto simp: starts_part_def nth_append split: if_splits)
      with no have "\<not> starts_part (xs @ [branch m l]) i" if "0 < i" "i < length xs" for i using that by blast
      then show ?thesis
        unfolding separated_def list_all_iff j by (auto simp: less_Suc_eq) (simp add: branch_def)
    qed
  qed
qed

section \<open>The visits end\<close>

definition visit_measure :: "labelled_block list \<Rightarrow> nat" where
  "visit_measure bs = sum_list (map (\<lambda>b. if separated (snd b) then 1 + cuts (snd b) else 1 + 2 * cuts (snd b)) bs)"

lemma separated_cuts:
  assumes "separated its"
  shows "cuts its \<le> 1" and "cuts its = 1 \<Longrightarrow> starts_part its (length its - 1) \<and> 1 < length its"
proof -
  note D = separatedD [OF assms]
  have "\<not> isInlineAsm (inst_op (its ! i))" if "0 < i" "i < length its" for i
    using D [OF that] by (auto simp: starts_part_def)
  then have asm: "filter (\<lambda>x. isInlineAsm (inst_op x)) (tl its) = []"
    by (auto simp: filter_empty_conv in_set_conv_nth nth_tl)
  have "\<not> makes_record (its ! i)" if "Suc (Suc i) < length its" for i
    using D [of "Suc i"] that by (auto simp: starts_part_def)
  then have "filter makes_record (butlast (butlast its)) = []"
    by (auto simp: filter_empty_conv in_set_conv_nth nth_butlast)
  moreover have "butlast its = (if butlast its = [] then [] else butlast (butlast its) @ [last (butlast its)])"
    using append_butlast_last_id [of "butlast its"] by simp
  ultimately have rec: "filter makes_record (butlast its) =
      (if butlast its \<noteq> [] \<and> makes_record (last (butlast its)) then [last (butlast its)] else [])"
    by (metis append_Nil filter.simps filter_append)
  show "cuts its \<le> 1" by (simp add: cuts_def asm rec)
  assume "cuts its = 1"
  then have b: "butlast its \<noteq> []" "makes_record (last (butlast its))" by (auto simp: cuts_def asm rec split: if_splits)
  then have len: "1 < length its" by (cases its) (auto split: if_splits)
  then have "last (butlast its) = its ! (length its - 2)" using b(1) by (simp add: last_conv_nth nth_butlast numeral_2_eq_2)
  then show "starts_part its (length its - 1) \<and> 1 < length its"
    using b(2) len by (auto simp: starts_part_def numeral_2_eq_2)
qed

lemma visit_decreases:
  assumes run: "barrier_block l n (lb, its) = Inr ps" and ids: "fresh_ids n [(lb, its)]"
  shows "visit_measure (tl ps) < visit_measure [(lb, its)]"
proof -
  note parts = barrier_block_parts [OF run ids]
  show ?thesis
  proof (cases "separated its \<and> cuts its = 1")
    case True
    then have last: "starts_part its (length its - 1)" "1 < length its" using separated_cuts(2) by auto
    from run obtain ks where p: "split_points False its = Inr ks" and ps: "ps = split_all ks l n [(lb, its)]"
      by (auto simp: barrier_block_def bind_res_Inr_iff)
    have "length ks = 1" using split_points_count [OF p] True by (simp add: cuts_def)
    moreover have "inst_id (last its) \<in> set ks"
      using split_points_mem [OF p, of "length its - 1"] last last_conv_nth [of its] by (cases its) auto
    ultimately have ks: "ks = [inst_id (last its)]" by (auto simp: length_Suc_conv)
    have its: "its = butlast its @ [last its]" using last(2) by (cases its) simp_all
    have "distinct (map inst_id its)" using ids by (simp add: fresh_ids_def)
    then have "distinct (map inst_id (butlast its @ [last its]))" by (simp only: its [symmetric])
    then have "\<forall>x \<in> set (butlast its). inst_id x \<noteq> inst_id (last its)" by (auto simp: image_def)
    then have "dropWhile (\<lambda>x. inst_id x \<noteq> inst_id (last its)) (butlast its @ [last its]) = [last its]" by (simp add: dropWhile_append2)
    then have "dropWhile (\<lambda>x. inst_id x \<noteq> inst_id (last its)) its = [last its]" by (simp only: its [symmetric])
    moreover have "inst_id (last its) \<in> set (map inst_id its)" using last(2) by (cases its) auto
    ultimately have "tl ps = [(l, [last its])]" by (simp add: ps ks)
    then show ?thesis using True by (simp add: visit_measure_def cuts_def)
  next
    case False
    have one: "(if separated (snd b) then 1 + cuts (snd b) else 1 + 2 * cuts (snd b)) \<le> 2" if "b \<in> set (tl ps)" for b
    proof -
      have "b \<in> set ps" using that by (cases ps) auto
      then have "separated (snd b)" using parts(7) by blast
      then show ?thesis using separated_cuts(1) by auto
    qed
    have "visit_measure bs \<le> 2 * length bs" if "\<And>b. b \<in> set bs \<Longrightarrow> (if separated (snd b) then 1 + cuts (snd b) else 1 + 2 * cuts (snd b)) \<le> 2" for bs
      using that by (induction bs) (fastforce simp: visit_measure_def)+
    then have "visit_measure (tl ps) \<le> 2 * cuts its" using one parts(1) by force
    moreover have "separated its \<Longrightarrow> cuts its = 0" using False separated_cuts(1) [of its] by auto
    moreover have "visit_measure [(lb, its)] = (if separated its then 1 + cuts its else 1 + 2 * cuts its)" by (simp add: visit_measure_def)
    ultimately show ?thesis by (simp split: if_splits)
  qed
qed

section \<open>All blocks\<close>

text \<open>No call goes through a value, so \<open>getCalledFunction\<close> has a function to look at.\<close>

definition calls_named :: "inst \<Rightarrow> bool" where
  "calls_named x \<longleftrightarrow> (isCallInst (inst_op x) \<longrightarrow> isInlineAsm (inst_op x) \<or> getCalledFunction (inst_op x) \<noteq> None)"

lemma points_found: "list_all calls_named its \<Longrightarrow> \<exists>ks. split_points prev its = Inr ks"
proof (induction its arbitrary: prev)
  case (Cons it its)
  then obtain later where "split_points True its = Inr later" by auto
  moreover have "\<exists>here. points_at prev it its = Inr here"
    using Cons.prems by (auto simp: points_at_def calls_named_def getPatchpointType_def)
  ultimately show ?case by auto
qed simp

lemma branch_named [simp]: "calls_named (branch m l)"
  by (simp add: calls_named_def branch_def)

lemma piece_named: "piece_of n its js \<Longrightarrow> list_all calls_named its \<Longrightarrow> list_all calls_named js"
  by (auto simp: piece_of_def)

lemma piece_ids: "piece_of n its js \<Longrightarrow> inst_id ` set js \<subseteq> inst_id ` set its \<union> {n..}"
  by (auto simp: piece_of_def branch_def)

text \<open>The blocks that came of one block.\<close>

definition chain :: "nat \<Rightarrow> labelled_block \<Rightarrow> labelled_block list \<Rightarrow> bool" where
  "chain n0 b cs \<longleftrightarrow> fst (hd cs) = fst b \<and> linked cs \<and> ends_as (snd b) cs \<and>
     contents n0 cs = filter (\<lambda>x. inst_id x < n0) (snd b) \<and> list_all (\<lambda>c. separated (snd c)) cs"

lemma linked_append:
  "linked xs \<Longrightarrow> linked ys \<Longrightarrow> xs \<noteq> [] \<Longrightarrow> ys \<noteq> [] \<Longrightarrow> snd (last xs) \<noteq> [] \<Longrightarrow>
    inst_op (last (snd (last xs))) = Br (fst (hd ys)) \<Longrightarrow> linked (xs @ ys)"
  by (induction xs rule: linked.induct) (auto simp: linked_Cons)

lemma contents_append: "contents n (xs @ ys) = contents n xs @ contents n ys"
  by (simp add: contents_def)

lemma chain_concat:
  assumes "list_all2 (chain n0) ps css" and "linked ps" and "ps \<noteq> []"
  shows "concat css \<noteq> [] \<and> fst (hd (concat css)) = fst (hd ps) \<and> linked (concat css) \<and> contents n0 (concat css) = contents n0 ps \<and>
    list_all (\<lambda>c. separated (snd c)) (concat css) \<and>
    (snd (last ps) \<noteq> [] \<longrightarrow> snd (last (concat css)) \<noteq> [] \<and> last (snd (last (concat css))) = last (snd (last ps)))"
  using assms
proof (induction rule: list_all2_induct)
  case (Cons p ps cs css)
  note c = Cons.hyps(1) [unfolded chain_def ends_as_def]
  show ?case
  proof (cases "ps = []")
    case True
    then have "css = []" using Cons.hyps(2) by simp
    then show ?thesis using c True by (simp add: contents_def)
  next
    case False
    then have l: "snd p \<noteq> []" "inst_op (last (snd p)) = Br (fst (hd ps))" "linked ps" using Cons.prems(1) by (simp_all add: linked_Cons)
    note ih = Cons.IH [OF l(3) False]
    have "linked (cs @ concat css)" using c l ih by (intro linked_append) simp_all
    then show ?thesis using c ih False by (simp add: contents_append) (simp add: contents_def)
  qed
qed simp

lemma visit_measure_append [simp]: "visit_measure (xs @ ys) = visit_measure xs + visit_measure ys"
  by (simp add: visit_measure_def)

lemma fresh_ids_append:
  "fresh_ids n (xs @ ys) \<longleftrightarrow> fresh_ids n xs \<and> fresh_ids n ys \<and> ids_in xs \<inter> ids_in ys = {}"
  by (auto simp: fresh_ids_def ids_in_def)

lemma fresh_ids_mono: "fresh_ids n xs \<Longrightarrow> n \<le> m \<Longrightarrow> fresh_ids m xs"
  unfolding fresh_ids_def list_all_iff by (blast intro: less_le_trans)

lemma visits_end:
  assumes "visit_measure bs \<le> k" and "fresh_ids n bs" and "n0 \<le> n" and "list_all (\<lambda>b. list_all calls_named (snd b)) bs"
  shows "\<exists>css. barrier_visits k l n seen bs = Inr (seen @ concat css) \<and> list_all2 (chain n0) bs css"
  using assms
proof (induction k arbitrary: l n seen bs)
  case 0
  then show ?case by (cases bs) (auto simp: visit_measure_def split: if_splits)
next
  case (Suc k)
  show ?case
  proof (cases bs)
    case Nil
    then show ?thesis by simp
  next
    case (Cons b rest)
    obtain lb its where b: "b = (lb, its)" by (cases b)
    have named: "list_all calls_named its" "list_all (\<lambda>b. list_all calls_named (snd b)) rest" using Suc.prems(4) by (simp_all add: Cons b)
    have own: "fresh_ids n [(lb, its)]" and rest: "fresh_ids n rest" and apart: "inst_id ` set its \<inter> ids_in rest = {}"
      using Suc.prems(2) fresh_ids_append [of n "[(lb, its)]" rest] by (simp_all add: Cons b)
    obtain ks where "split_points False its = Inr ks" using points_found [OF named(1)] by blast
    then obtain ps where run: "barrier_block l n (lb, its) = Inr ps" by (simp add: barrier_block_def)
    note parts = barrier_block_parts [OF run own]
    obtain p ps' where ps: "ps = p # ps'" using parts(1) by (cases ps) auto
    have piece: "piece_of n its (snd c)" "separated (snd c)" if "c \<in> set ps" for c using parts(7) [OF that] by blast+
    have "visit_measure ps' < visit_measure [(lb, its)]" using visit_decreases [OF run own] by (simp add: ps)
    then have meas: "visit_measure (ps' @ rest) \<le> k" using Suc.prems(1) by (simp add: Cons b visit_measure_def)
    have "ids_in ps' \<subseteq> inst_id ` set its \<union> {n..}" using piece_ids piece(1) by (fastforce simp: ps ids_in_def)
    moreover have "ids_in rest \<subseteq> {..<n}" using rest by (auto simp: fresh_ids_def ids_in_def list_all_iff)
    ultimately have "ids_in ps' \<inter> ids_in rest = {}" using apart by fastforce
    moreover have "fresh_ids (n + cuts its) ps'" using parts(5) fresh_ids_append [of "n + cuts its" "[p]" ps'] by (simp add: ps)
    ultimately have fresh: "fresh_ids (n + cuts its) (ps' @ rest)"
      using fresh_ids_mono [OF rest, of "n + cuts its"] by (simp add: fresh_ids_append)
    have "list_all (\<lambda>b. list_all calls_named (snd b)) ps'"
      unfolding list_all_iff [of _ ps'] using piece_named [OF piece(1) named(1)] by (simp add: ps)
    then have nm: "list_all (\<lambda>b. list_all calls_named (snd b)) (ps' @ rest)" using named(2) by simp
    obtain css where css: "barrier_visits k (l + cuts its) (n + cuts its) (seen @ [p]) (ps' @ rest) = Inr ((seen @ [p]) @ concat css)"
      "list_all2 (chain n0) (ps' @ rest) css"
      using Suc.IH [OF meas fresh _ nm, of "l + cuts its" "seen @ [p]"] Suc.prems(3) by auto
    then obtain cs1 cs2 where cs: "css = cs1 @ cs2" "list_all2 (chain n0) ps' cs1" "list_all2 (chain n0) rest cs2"
      by (auto simp: list_all2_append1)
    have "chain n0 p [p]" using piece(2) [of p] by (simp add: ps chain_def ends_as_def contents_def)
    then have all: "list_all2 (chain n0) ps ([p] # cs1)" using cs(2) by (simp add: ps)
    have "chain n0 (lb, its) (concat ([p] # cs1))"
      using chain_concat [OF all parts(2)] parts(3,4) parts(6) [OF Suc.prems(3)] unfolding chain_def ends_as_def by (simp add: ps)
    then have "list_all2 (chain n0) bs (concat ([p] # cs1) # cs2)" using cs(3) by (simp add: Cons b)
    moreover have "barrier_visits (Suc k) l n seen bs = Inr (seen @ concat (concat ([p] # cs1) # cs2))"
      using css(1) run parts(1) by (simp add: Cons b ps cs(1))
    ultimately show ?thesis by blast
  qed
qed

text \<open>The fuel is enough: a block is cut at most once for each of its instructions.\<close>

lemma cuts_le: "cuts its \<le> length its"
proof -
  have "length (filter (\<lambda>x. isInlineAsm (inst_op x)) its) + length (filter makes_record its) \<le> length its"
    using asm_no_record by (induction its) auto
  moreover have "length (filter (\<lambda>x. isInlineAsm (inst_op x)) (tl its)) \<le> length (filter (\<lambda>x. isInlineAsm (inst_op x)) its)"
    by (cases its) simp_all
  moreover have "length (filter makes_record (butlast its)) \<le> length (filter makes_record its)"
    by (cases its rule: rev_cases) simp_all
  ultimately show ?thesis by (simp add: cuts_def)
qed

lemma visit_fuel: "visit_measure bs \<le> length bs + 2 * length (concat (map snd bs))"
proof (induction bs)
  case (Cons b bs)
  then show ?case using cuts_le [of "snd b"] by (auto simp: visit_measure_def)
qed (simp add: visit_measure_def)

lemma barrier_function_chains:
  assumes "fresh_ids n bs" and "list_all (\<lambda>b. list_all calls_named (snd b)) bs"
  obtains css where "barrier_function l n bs = Inr (concat css)" and "list_all2 (chain n) bs css"
  using visits_end [OF visit_fuel assms(1) order.refl assms(2), of l "[]"] by (auto simp: barrier_function_def)

lemma chain_all: "fresh_ids n bs \<Longrightarrow> b \<in> set bs \<Longrightarrow> chain n b cs \<Longrightarrow>
    fst (hd cs) = fst b \<and> linked cs \<and> ends_as (snd b) cs \<and> contents n cs = snd b"
proof -
  assume "fresh_ids n bs" and b: "b \<in> set bs" and "chain n b cs"
  then have "\<forall>x \<in> set (snd b). inst_id x < n" by (auto simp: fresh_ids_def list_all_iff)
  then have "filter (\<lambda>x. inst_id x < n) (snd b) = snd b" by (simp add: filter_id_conv)
  then show ?thesis using \<open>chain n b cs\<close> by (simp add: chain_def)
qed

lemma chain_separated: "list_all2 (chain n) bs css \<Longrightarrow> \<forall>c \<in> set (concat css). separated (snd c)"
  by (induction rule: list_all2_induct) (auto simp: chain_def list_all_iff)

section \<open>Labels\<close>

text \<open>The new labels are new, so a branch has one block to go to.\<close>

definition fresh_labels :: "nat \<Rightarrow> labelled_block list \<Rightarrow> bool" where
  "fresh_labels l bs \<longleftrightarrow> distinct (map fst bs) \<and> list_all (\<lambda>b. fst b < l) bs"

lemma split_labels: "fst ` set (split_block i l n bs) \<subseteq> insert l (fst ` set bs)"
proof (induction bs)
  case (Cons b bs)
  then show ?case by (cases b) (auto split: if_splits)
qed simp

lemma fresh_labels_split: "fresh_labels l bs \<Longrightarrow> fresh_labels (l + 1) (split_block i l n bs)"
proof (induction bs)
  case (Cons b bs)
  obtain lb its where b: "b = (lb, its)" by (cases b)
  have "lb \<notin> fst ` set (split_block i l n bs)" if "lb \<notin> fst ` set bs" "lb < l"
    using split_labels [of i l n bs] that by auto
  then show ?case using Cons by (auto simp: b fresh_labels_def list_all_iff less_SucI)
qed (simp add: fresh_labels_def)

lemma split_all_labels:
  "fst ` set (split_all ks l n bs) \<subseteq> fst ` set bs \<union> {l..<l + length ks} \<and>
    (fresh_labels l bs \<longrightarrow> fresh_labels (l + length ks) (split_all ks l n bs))"
proof (induction ks arbitrary: l n bs)
  case (Cons i ks)
  note ih = Cons.IH [of "l + 1" "n + 1" "split_block i l n bs"]
  have "{l + 1..<l + 1 + length ks} \<subseteq> {l..<l + length (i # ks)}" "l \<in> {l..<l + length (i # ks)}" by auto
  then have "fst ` set (split_all (i # ks) l n bs) \<subseteq> fst ` set bs \<union> {l..<l + length (i # ks)}"
    unfolding split_all.simps using ih split_labels [of i l n bs] by blast
  then show ?case using ih fresh_labels_split [of l bs i n] by simp
qed simp

lemma barrier_block_labels:
  assumes "barrier_block l n b = Inr ps"
  shows "fst ` set ps \<subseteq> {fst b} \<union> {l..<l + (length ps - 1)}" and "fst b < l \<Longrightarrow> fresh_labels (l + (length ps - 1)) ps" and "ps \<noteq> []"
proof -
  from assms obtain ks where p: "split_points False (snd b) = Inr ks" and ps: "ps = split_all ks l n [b]"
    by (auto simp: barrier_block_def bind_res_Inr_iff)
  have "set ks \<subseteq> ids_in [b]" using split_points_ids [OF p] by (simp add: ids_in_def)
  then have "length ps = Suc (length ks)" using split_all_ok(3) [of ks "[b]" n n l] by (simp add: ps)
  then show "fst ` set ps \<subseteq> {fst b} \<union> {l..<l + (length ps - 1)}" "fst b < l \<Longrightarrow> fresh_labels (l + (length ps - 1)) ps" "ps \<noteq> []"
    using split_all_labels [of ks l n "[b]"] by (auto simp: ps fresh_labels_def)
qed

lemma fresh_labels_append:
  "fresh_labels l (xs @ ys) \<longleftrightarrow> fresh_labels l xs \<and> fresh_labels l ys \<and> fst ` set xs \<inter> fst ` set ys = {}"
  by (auto simp: fresh_labels_def)

lemma fresh_labels_mono: "fresh_labels l xs \<Longrightarrow> l \<le> m \<Longrightarrow> fresh_labels m xs"
  unfolding fresh_labels_def list_all_iff by (blast intro: less_le_trans)

lemma fresh_labels_small: "fresh_labels l xs \<Longrightarrow> fst ` set xs \<subseteq> {..<l}"
  by (auto simp: fresh_labels_def list_all_iff)

lemma visits_labels:
  "barrier_visits k l n seen bs = Inr r \<Longrightarrow> fresh_labels l (seen @ bs) \<Longrightarrow> distinct (map fst r)"
proof (induction k l n seen bs rule: barrier_visits.induct)
  case (3 k l n seen b bs)
  from 3(2) obtain ps where ps: "barrier_block l n b = Inr ps"
    and r: "barrier_visits k (l + (length ps - 1)) (n + (length ps - 1)) (seen @ [hd ps]) (tl ps @ bs) = Inr r"
    by (auto simp: bind_res_Inr_iff)
  note lab = barrier_block_labels [OF ps]
  let ?m = "l + (length ps - 1)"
  have old: "fresh_labels l seen" "fresh_labels l bs" "fst b < l" "fst ` set seen \<inter> fst ` set bs = {}" "fst b \<notin> fst ` set seen" "fst b \<notin> fst ` set bs"
    using 3(3) fresh_labels_append [of l seen "b # bs"] by (auto simp: fresh_labels_def)
  have away: "fst ` set ps \<inter> A = {}" if A: "A \<subseteq> {..<l}" "fst b \<notin> A" for A
  proof -
    have "{l..<?m} \<inter> A = {}" using A(1) by auto
    then have "({fst b} \<union> {l..<?m}) \<inter> A = {}" using A(2) by (simp add: Int_Un_distrib2)
    then show ?thesis using Int_mono [OF lab(1) order.refl, of A] by (simp only: subset_empty)
  qed
  have "fst ` set ps \<inter> fst ` set seen = {}" "fst ` set ps \<inter> fst ` set bs = {}"
    by (rule away [OF fresh_labels_small [OF old(1)] old(5)], rule away [OF fresh_labels_small [OF old(2)] old(6)])
  then have "fresh_labels ?m (seen @ ps @ bs)"
    using fresh_labels_mono [OF old(1), of ?m] fresh_labels_mono [OF old(2), of ?m] lab(2) [OF old(3)] old(4)
    by (auto simp: fresh_labels_append)
  then have "fresh_labels ?m ((seen @ [hd ps]) @ tl ps @ bs)" using lab(3) by (cases ps) simp_all
  with 3(1) [OF ps r] show ?case by blast
qed (auto simp: fresh_labels_def)

end
