(* ===== verification/Call_Shapes.thy ===== *)
theory Call_Shapes
  imports Pipeline
begin

unbundle bit_operations_syntax

text \<open>
  What holds of every instruction after all function passes. The locale \<open>later_output\<close> says
  what the passes behind \<open>CheckPointPass\<close> do to an instruction: rename results of calls, append
  values with their sizes to the arguments of calls that make records, redirect callbacks. A
  property that each of these keeps holds of the whole compiled module. It is interpreted on
  \<open>settled\<close> (what unoptimized functions call) and on \<open>paired\<close>: behind its fixed arguments a
  call that makes records has only values with their sizes, an even number of arguments.
\<close>

section \<open>Behind CheckPointPass\<close>

abbreviation record_calls :: "string set" where
  "record_calls \<equiv> {stackmap_name, patchpoint_void_name, patchpoint_i64_name}"

lemma record_call_cases:
  assumes "\<not> no_intrinsic it"
  obtains n args where "inst_op it = Call (Direct n) args" and "n \<in> record_calls"
  using assms by (cases "inst_op it" rule: getCalledFunction.cases) (auto simp: no_intrinsic_def)

lemma positions_all: "list_all (list_all P) (body f) \<longleftrightarrow> (\<forall>(b, k) \<in> set (positions f). P (body f ! b ! k))"
  by (auto simp: list_all_length set_positions)

text \<open>Each function that is not a declaration goes through all passes.\<close>

lemma function_passes_runs:
  assumes "mapfold_res (function_passes run md) fs sms = Inr (out, sms')"
  shows "list_all2 (\<lambda>f g. if is_declaration f then g = f
    else \<exists>m s s'. checkpoint_function md f s = Inr (m, s') \<and> run m = Inr g) fs out"
  using assms
proof (induction fs arbitrary: sms out)
  case (Cons f fs)
  from Cons.prems obtain g sms1 out1 where g: "function_passes run md f sms = Inr (g, sms1)"
    and rest: "mapfold_res (function_passes run md) fs sms1 = Inr (out1, sms')" and out: "out = g # out1"
    by (auto simp: bind_res_Inr_iff)
  have "if is_declaration f then g = f else \<exists>m s s'. checkpoint_function md f s = Inr (m, s') \<and> run m = Inr g"
  proof (cases "is_declaration f")
    case False
    then obtain m where "checkpoint_function md f sms = Inr (m, sms1)" "run m = Inr g"
      using g by (auto simp: function_passes_def bind_res_Inr_iff)
    then show ?thesis using False by auto
  qed (use g in \<open>simp add: function_passes_def\<close>)
  then show ?case using Cons.IH [OF rest] by (simp add: out)
qed simp

lemma checkpoint_function_name: "checkpoint_function md f s = Inr (m, s') \<Longrightarrow> fun_name m = fun_name f"
  by (auto simp: checkpoint_function_def bind_res_Inr_iff)

locale later_output =
  fixes md :: ir_module and P :: "inst \<Rightarrow> bool"
  assumes renamed: "renaming h \<Longrightarrow> inst_op y = map_operands h (inst_op x) \<Longrightarrow> P x \<Longrightarrow> P y"
    and recorded: "inst_op x = Call (Direct n) args \<Longrightarrow> n \<in> record_calls \<Longrightarrow> P x \<Longrightarrow>
      inst_op y = Call (Direct n) (args @ flat ps) \<Longrightarrow> P y"
    and redirected: "redirect_call md x = Inr y \<Longrightarrow> P x \<Longrightarrow> P y"
begin

lemma record_out:
  assumes run: "record_live dominates alloc_size p f = Inr g" and p: "p \<in> set (positions f)"
    and P: "list_all (list_all P) (body f)"
  shows "list_all (list_all P) (body g)"
proof (cases p)
  case (Pair b k)
  have shape: "positions g = positions f"
    using run Pair by (auto intro: same_shape_positions record_live_shape)
  have at: "P (body f ! b' ! k')" if "(b', k') \<in> set (positions f)" for b' k' using P that by (auto simp: positions_all)
  show ?thesis
  proof (cases "no_intrinsic (body f ! b ! k)")
    case True
    then show ?thesis using record_live_plain run Pair P by blast
  next
    case False
    then obtain n args where call: "inst_op (body f ! b ! k) = Call (Direct n) args" "n \<in> record_calls"
      by (rule record_call_cases)
    then have "op_at f p = Call (Direct n) args" by (simp add: op_at_def Pair)
    note own = record_live_own [OF run p this call(2), unfolded getLiveRegisters_pairs]
    have "P (body g ! b' ! k')" if q: "(b', k') \<in> set (positions f)" for b' k'
    proof (cases "(b', k') = p")
      case True
      then show ?thesis using recorded [OF call at] own p Pair by (simp add: op_at_def)
    next
      case False
      then obtain h where "renaming h" "op_at g (b', k') = map_operands h (op_at f (b', k'))"
        using record_live_other [OF run _ q] by blast
      then show ?thesis using renamed at [OF q] by (simp add: op_at_def)
    qed
    then show ?thesis by (auto simp: positions_all shape)
  qed
qed

lemma live_out:
  assumes "live_variables_function dominates alloc_size f = Inr g" and "list_all (list_all P) (body f)"
  shows "list_all (list_all P) (body g)"
proof -
  have "list_all (list_all P) (body g)"
    if "fold_res (record_live dominates alloc_size) ps f = Inr g" "set ps \<subseteq> set (positions f)" "list_all (list_all P) (body f)" for ps f
    using that
  proof (induction ps arbitrary: f)
    case (Cons p ps)
    then obtain f1 where f1: "record_live dominates alloc_size p f = Inr f1" "fold_res (record_live dominates alloc_size) ps f1 = Inr g"
      by (auto simp: bind_res_Inr_iff)
    have "positions f1 = positions f" using f1(1) by (cases p) (auto intro: same_shape_positions record_live_shape)
    then show ?case using Cons.IH [OF f1(2)] record_out [OF f1(1)] Cons.prems(2,3) by simp
  qed simp
  then show ?thesis using assms by (simp add: live_variables_function_def)
qed

lemma redirect_out:
  assumes "redirect_function md f = Inr g" and "list_all (list_all P) (body f)"
  shows "list_all (list_all P) (body g)"
proof (cases "is_unopt (fun_name f)")
  case True
  then obtain bs where bs: "map_res (map_res (redirect_call md)) (body f) = Inr bs" "g = f\<lparr>body := bs\<rparr>"
    using assms(1) by (auto simp: redirect_function_def bind_res_Inr_iff)
  have inner: "list_all P c" if "map_res (redirect_call md) b = Inr c" "list_all P b" for b c
    using that by (induction b arbitrary: c) (auto simp: bind_res_Inr_iff intro: redirected)
  have "list_all (list_all P) cs" if "map_res (map_res (redirect_call md)) bs = Inr cs" "list_all (list_all P) bs" for bs cs
    using that by (induction bs arbitrary: cs) (auto simp: bind_res_Inr_iff intro: inner)
  then show ?thesis using bs assms(2) by simp
qed (use assms in \<open>simp add: redirect_function_def\<close>)

lemma later_out:
  assumes "later_passes dominates alloc_size md f = Inr g" and "list_all (list_all P) (body f)"
  shows "list_all (list_all P) (body g)"
  using assms live_out redirect_out by (auto simp: later_passes_def bind_res_Inr_iff)

text \<open>On a whole module, for the functions that have the property behind \<open>CheckPointPass\<close>.\<close>

lemma functions_out:
  assumes run: "mapfold_res (function_passes (later_passes dominates alloc_size md) md') fs sms = Inr (out, sms')"
    and cp: "\<And>f f' s s'. f \<in> set fs \<Longrightarrow> Q f \<Longrightarrow> checkpoint_function md' f s = Inr (f', s') \<Longrightarrow> list_all (list_all P) (body f')"
  shows "list_all2 (\<lambda>f g. fun_name g = fun_name f \<and>
      (if is_declaration f then g = f else Q f \<longrightarrow> list_all (list_all P) (body g))) fs out"
  using function_passes_runs [OF run]
proof (rule list.rel_mono_strong)
  fix f g assume f: "f \<in> set fs"
    and fg: "if is_declaration f then g = f
      else \<exists>m s s'. checkpoint_function md' f s = Inr (m, s') \<and> later_passes dominates alloc_size md m = Inr g"
  show "fun_name g = fun_name f \<and> (if is_declaration f then g = f else Q f \<longrightarrow> list_all (list_all P) (body g))"
  proof (cases "is_declaration f")
    case False
    then obtain m s s' where m: "checkpoint_function md' f s = Inr (m, s')" "later_passes dominates alloc_size md m = Inr g"
      using fg by auto
    show ?thesis
      using both_passes.keeps_name [OF m(2)] checkpoint_function_name [OF m(1)] later_out [OF m(2)] cp [OF f _ m(1)] False by auto
  qed (use fg in simp)
qed

lemma module_out:
  assumes "module_passes dominates alloc_size uniq src = Inr (out, sms)" and "add_unopt_copies uniq (declare_guard src) = Inr md"
    and "\<And>f f' s s'. f \<in> set md \<Longrightarrow> Q f \<Longrightarrow> checkpoint_function md f s = Inr (f', s') \<Longrightarrow> list_all (list_all P) (body f')"
    and "g \<in> set out"
  obtains f where "f \<in> set md" and "fun_name g = fun_name f" and "is_declaration f \<Longrightarrow> g = f"
    and "\<not> is_declaration f \<Longrightarrow> Q f \<Longrightarrow> list_all (list_all P) (body g)"
proof -
  have "mapfold_res (function_passes (later_passes dominates alloc_size md) md) md [] = Inr (out, sms)"
    using assms(1,2) by (simp add: module_passes_def)
  then have "list_all2 (\<lambda>f g. fun_name g = fun_name f \<and>
      (if is_declaration f then g = f else Q f \<longrightarrow> list_all (list_all P) (body g))) md out"
    using assms(3) by (rule functions_out)
  from list_all2_source [OF this assms(4)] show ?thesis by (auto intro: that split: if_splits)
qed

end

section \<open>Unoptimized functions\<close>

lemma renaming_FunVal: "renaming h \<Longrightarrow> h v = FunVal g \<longleftrightarrow> v = FunVal g"
  by (metis is_inst_val.simps renaming_def)

lemma renaming_I32: "renaming h \<Longrightarrow> h v = I32 n \<longleftrightarrow> v = I32 n"
  by (metis is_inst_val.simps renaming_def)

lemma settled_renamed:
  assumes h: "renaming h" and op: "inst_op y = map_operands h (inst_op x)" and s: "settled md x"
  shows "settled md y"
proof (cases "inst_op x" rule: getCalledFunction.cases)
  case (1 f args)
  have "case h v of FunVal g \<Rightarrow> is_unopt g | _ \<Rightarrow> True" if "case v of FunVal g \<Rightarrow> is_unopt g | _ \<Rightarrow> True" for v
    using that renaming_FunVal [OF h, of v] by (auto split: ir_value.splits)
  then show ?thesis using s op 1 by (auto simp: settled_def)
qed (use s op in \<open>auto simp: settled_def\<close>)

interpretation settled_later: later_output md' "settled md" for md md'
proof unfold_locales
  fix x y :: inst and n :: string and args :: "ir_value list" and ps
  assume "inst_op x = Call (Direct n) args" "n \<in> record_calls" "settled md x" "inst_op y = Call (Direct n) (args @ flat ps)"
  then show "settled md y" by (auto simp: settled_def nth_append)
next
  fix x y :: inst assume "redirect_call md' x = Inr y" and "settled md x"
  then show "settled md y" using settled_redirect [of md x md'] by simp
qed (rule settled_renamed)

section \<open>Values with their sizes\<close>

text \<open>A list of values, each followed by a size.\<close>

fun is_flat :: "ir_value list \<Rightarrow> bool" where
  "is_flat [] \<longleftrightarrow> True"
| "is_flat (v # I64 s # vs) \<longleftrightarrow> is_flat vs"
| "is_flat vs \<longleftrightarrow> False"

text \<open>
  The arguments that LLVM does not record: identifier and shadow of a \<open>stackmap\<close>; of a \<open>patchpoint\<close>
  also the callback, the number of its arguments, and these.
\<close>

fun callback_arguments :: "ir_value list \<Rightarrow> nat option" where
  "callback_arguments (i # shadow # callback # I32 n # args) = Some (unat n)"
| "callback_arguments args = None"

definition fixed_arguments :: "string \<Rightarrow> ir_value list \<Rightarrow> nat option" where
  "fixed_arguments n args = (if n = stackmap_name then Some 2 else map_option (\<lambda>k. 4 + k) (callback_arguments args))"

definition recorded_values :: "inst \<Rightarrow> ir_value list option" where
  "recorded_values it =
     (case inst_op it of
        Call (Direct n) args \<Rightarrow>
          (case fixed_arguments n args of
             Some k \<Rightarrow> if n \<in> record_calls \<and> k \<le> length args then Some (drop k args) else None
           | None \<Rightarrow> None)
      | _ \<Rightarrow> None)"

definition paired :: "inst \<Rightarrow> bool" where
  "paired it \<longleftrightarrow> no_intrinsic it \<or> (case recorded_values it of Some vs \<Rightarrow> is_flat vs | None \<Rightarrow> False)"

lemma is_flat_append: "is_flat vs \<Longrightarrow> is_flat (vs @ flat ps)"
proof (induction vs rule: is_flat.induct)
  case 1
  have "is_flat (flat ps)" by (induction ps) auto
  then show ?case by simp
qed auto

lemma is_flat_even: "is_flat vs \<Longrightarrow> even (length vs)"
  by (induction vs rule: is_flat.induct) auto

lemma is_flat_renamed: "renaming h \<Longrightarrow> is_flat vs \<Longrightarrow> is_flat (map h vs)"
  by (induction vs rule: is_flat.induct) (auto simp: renaming_I64)

lemma callback_arguments_append: "callback_arguments args = Some k \<Longrightarrow> callback_arguments (args @ vs) = Some k"
  by (induction args rule: callback_arguments.induct) auto

lemma callback_arguments_renamed: "renaming h \<Longrightarrow> callback_arguments args = Some k \<Longrightarrow> callback_arguments (map h args) = Some k"
proof (induction args rule: callback_arguments.induct)
  case (1 i s c n args)
  then have "h (I32 n) = I32 n" by (simp add: renaming_I32)
  then show ?case using 1(2) by simp
qed auto

lemma callback_arguments_update: "callback_arguments (args[2 := v]) = callback_arguments args"
  by (induction args rule: callback_arguments.induct) (auto simp: numeral_2_eq_2)

lemma recorded_values_iff:
  "recorded_values it = Some vs \<longleftrightarrow> (\<exists>n args k. inst_op it = Call (Direct n) args \<and> n \<in> record_calls \<and>
     fixed_arguments n args = Some k \<and> k \<le> length args \<and> vs = drop k args)"
  by (auto simp: recorded_values_def split: operation.splits callee.splits option.splits)

lemma recorded_valuesI:
  "inst_op it = Call (Direct n) args \<Longrightarrow> fixed_arguments n args = Some k \<Longrightarrow> k \<le> length args \<Longrightarrow> n \<in> record_calls \<Longrightarrow>
    recorded_values it = Some (drop k args)"
  by (auto simp: recorded_values_def)

lemma recorded_renamed:
  assumes h: "renaming h" and op: "inst_op y = map_operands h (inst_op x)" and x: "recorded_values x = Some vs"
  shows "recorded_values y = Some (map h vs)"
proof -
  obtain n args k where call: "inst_op x = Call (Direct n) args" "n \<in> record_calls"
    and k: "fixed_arguments n args = Some k" "k \<le> length args" and vs: "vs = drop k args" using x by (auto simp: recorded_values_iff)
  have "fixed_arguments n (map h args) = Some k"
    using k(1) callback_arguments_renamed [OF h] by (auto simp: fixed_arguments_def split: if_splits)
  from recorded_valuesI [of y n "map h args", OF _ this] show ?thesis using op call k(2) by (simp add: vs drop_map)
qed

lemma recorded_appended:
  assumes call: "inst_op x = Call (Direct n) args" and y: "inst_op y = Call (Direct n) (args @ ws)" and x: "recorded_values x = Some vs"
  shows "recorded_values y = Some (vs @ ws)"
proof -
  obtain k where k: "fixed_arguments n args = Some k" "k \<le> length args" "vs = drop k args" "n \<in> record_calls"
    using x by (auto simp: recorded_values_iff call)
  have "fixed_arguments n (args @ ws) = Some k"
    using k(1) callback_arguments_append by (auto simp: fixed_arguments_def split: if_splits)
  from recorded_valuesI [OF y this] show ?thesis using k(2-4) by simp
qed

lemma redirect_call_cases:
  assumes "redirect_call md x = Inr y"
  obtains "y = x" | n args v where "inst_op x = Call (Direct n) args" and "n \<in> {patchpoint_void_name, patchpoint_i64_name}"
    and "inst_op y = Call (Direct n) (args[2 := v])"
proof (cases "y = x")
  case False
  obtain c args where call: "inst_op x = Call c args" "\<not> isInlineAsm (Call c args)"
    using assms False by (auto simp: redirect_call_def split: operation.splits if_splits)
  obtain t where t: "getPatchpointType (getCalledFunction (Call c args)) = Inr t" "isPatchpoint t"
    using assms False call by (auto simp: redirect_call_def bind_res_Inr_iff split: if_splits)
  obtain n where n: "c = Direct n" using t(1) by (cases c) (auto simp: getPatchpointType_def)
  have "\<exists>v. inst_op y = Call c (args[2 := v])"
  proof -
    obtain w where "index_at args 2 = Inr w" using assms call t by (auto simp: redirect_call_def bind_res_Inr_iff)
    then have "(case w of
        FunVal g \<Rightarrow>
          if g \<noteq> guard_fun_name \<and> \<not> is_unopt g then
            case getFunction md (unopt_prefix @ g) of
              Some newFun \<Rightarrow> Inr (x\<lparr>inst_op := Call c (args[2 := FunVal (fun_name newFun)])\<rparr>)
            | None \<Rightarrow> Inr x
          else Inr x
      | _ \<Rightarrow> Inr x) = (Inr y :: inst res)"
      using assms call t by (simp add: redirect_call_def)
    then show ?thesis using False by (cases w) (auto split: if_splits option.splits)
  qed
  then show ?thesis using that(2) call(1) n t type_isPatchpoint [of n t] by auto
qed (rule that(1))

lemma recorded_redirected:
  assumes "redirect_call md x = Inr y" and x: "recorded_values x = Some vs"
  shows "recorded_values y = Some vs"
  using assms(1)
proof (cases rule: redirect_call_cases)
  case (2 n args v)
  obtain k where k: "fixed_arguments n args = Some k" "k \<le> length args" "vs = drop k args" "n \<in> record_calls"
    using x by (auto simp: recorded_values_iff 2(1))
  have "n \<noteq> stackmap_name" using 2(2) by (auto simp: intrinsic_names)
  then have f: "fixed_arguments n (args[2 := v]) = Some k" "4 \<le> k"
    using k(1) by (auto simp: fixed_arguments_def callback_arguments_update)
  then have "drop k (args[2 := v]) = drop k args" by simp
  then show ?thesis using recorded_valuesI [OF 2(3) f(1)] k(2-4) by simp
qed (use x in simp)

text \<open>So the number of values stays even.\<close>

lemma pairedE:
  assumes "paired it"
  obtains "no_intrinsic it" | vs where "recorded_values it = Some vs" and "is_flat vs"
  using assms by (auto simp: paired_def split: option.splits)

lemma pairedI: "recorded_values it = Some vs \<Longrightarrow> is_flat vs \<Longrightarrow> paired it"
  by (simp add: paired_def)

lemma recorded_intrinsic: "recorded_values it = Some vs \<Longrightarrow> \<not> no_intrinsic it"
  by (auto simp: recorded_values_iff no_intrinsic_def)

interpretation paired_later: later_output md paired for md
proof unfold_locales
  fix h and x y :: inst assume h: "renaming h" "inst_op y = map_operands h (inst_op x)" and x: "paired x"
  from x show "paired y"
  proof (cases rule: pairedE)
    case 1
    then show ?thesis using ppid_renamed(2) [OF h] by (simp add: paired_def)
  next
    case (2 vs)
    then show ?thesis using recorded_renamed [OF h] is_flat_renamed [OF h(1)] by (auto intro: pairedI)
  qed
next
  fix x y :: inst and n :: string and args :: "ir_value list" and ps
  assume call: "inst_op x = Call (Direct n) args" "n \<in> record_calls" "paired x" "inst_op y = Call (Direct n) (args @ flat ps)"
  from call(3) show "paired y"
  proof (cases rule: pairedE)
    case 1
    then show ?thesis using call by (simp add: no_intrinsic_def)
  next
    case (2 vs)
    then show ?thesis using recorded_appended [OF call(1,4)] is_flat_append by (auto intro: pairedI)
  qed
next
  fix x y :: inst assume xy: "redirect_call md x = Inr y" "paired x"
  from xy(2) show "paired y"
  proof (cases rule: pairedE)
    case 1
    then show ?thesis using redirect_call_row(2) [OF xy(1)] by (simp add: paired_def)
  next
    case (2 vs)
    then show ?thesis using recorded_redirected [OF xy(1)] by (auto intro: pairedI)
  qed
qed

section \<open>What CheckPointPass makes\<close>

text \<open>A call whose arguments can be counted in 32 bits, and a record that has no values yet.\<close>

definition few_arguments :: "inst \<Rightarrow> bool" where
  "few_arguments it = (case inst_op it of Call c args \<Rightarrow> length args < 2 ^ 32 | _ \<Rightarrow> True)"

definition bare :: "inst \<Rightarrow> bool" where
  "bare it \<longleftrightarrow> no_intrinsic it \<or> recorded_values it = Some []"

lemma bare_paired: "bare it \<Longrightarrow> paired it"
  by (auto simp: bare_def paired_def)

lemma new_results_renaming: "new_results rs \<Longrightarrow> renaming (replace_value rs)"
  by (rule renaming_small) (auto simp: new_results_def list_all_iff)

lemma bare_renamed:
  assumes "renaming h" and "inst_op y = map_operands h (inst_op x)" and "bare x"
  shows "bare y"
  using assms(3) recorded_renamed [OF assms(1,2)] ppid_renamed(2) [OF assms(1,2)] by (auto simp: bare_def)

lemma asm_bare: "bare (asm_block n)"
  by (simp add: bare_def no_intrinsic_def asm_block_def)

lemma converted_bare: "list_all bare (fst (converted n t r v))"
  by (auto simp: converted_def bare_def no_intrinsic_def split: ir_type.split)

lemma unopt_call_site_bare:
  assumes run: "unopt_call_site md funName g args it st = Inr (out, st')" and few: "length args < 2 ^ 32"
  shows "list_all bare out"
proof -
  from run obtain sms p cf old where a: "getNextPatchpointID funName (cp_maps st) = Inr (sms, p)"
    and cf: "deref (getFunction md (if \<not> is_unopt g then getTwinName g else g)) = Inr cf"
    and old: "deref (getFunction md g) = Inr old"
    by (auto simp: unopt_call_site_def bind_res_Inr_iff)
  have call: "bare \<lparr>inst_id = i, inst_type = t, inst_op = Call (Direct n) ([I64 p, I32 13, f, I32 (of_nat (length args))] @ args)\<rparr>"
    if "n \<in> {patchpoint_void_name, patchpoint_i64_name}" for i t n f
  proof -
    have "unat (of_nat (length args) :: u32) = length args" using few by (simp add: unat_of_nat)
    moreover have "n \<noteq> stackmap_name" using that by (auto simp: intrinsic_names)
    ultimately show ?thesis
      using that unfolding bare_def
      by (subst recorded_valuesI [of _ n _ "4 + length args"]) (auto simp: fixed_arguments_def simp del: unsigned_of_nat)
  qed
  show ?thesis
    using run a cf old call converted_bare [of "cp_fresh st + 1" "ret_type cf" "ret_type old" "InstVal (cp_fresh st)"]
    by (cases "ret_type cf = VoidTy") (auto simp: unopt_call_site_def Let_def split: prod.splits)
qed

lemma checkpoint_inst_bare:
  assumes run: "checkpoint_inst md funName it st = Inr (out, st')" and it: "no_intrinsic it" "few_arguments it"
  shows "list_all bare out"
proof -
  have new: "bare it" using it(1) by (simp add: bare_def)
  consider (guard) "guard_site funName it st = Inr (out, st')" | (opt) "opt_call_site funName it st = Inr (out, st')"
    | (unopt) g c args where "inst_op it = Call c args" "unopt_call_site md funName g args it st = Inr (out, st')" | (same) "out = [it]"
    using run by (auto simp: checkpoint_inst_def split: operation.splits callee.splits if_splits)
  then show ?thesis
  proof cases
    case (unopt g c args)
    then have "length args < 2 ^ 32" using it(2) by (simp add: few_arguments_def)
    then show ?thesis using unopt(2) by (intro unopt_call_site_bare)
  next
    case guard
    have "patchpoint_void_name \<noteq> stackmap_name" by (simp add: intrinsic_names)
    then show ?thesis
      using guard new by (auto simp: guard_site_def bind_res_Inr_iff Let_def bare_def recorded_values_def fixed_arguments_def)
  next
    case opt
    then show ?thesis
      using new by (auto simp: opt_call_site_def bind_res_Inr_iff Let_def bare_def recorded_values_def fixed_arguments_def)
  qed (use new in simp)
qed

interpretation bare_out: checkpoint_output md funName "\<lambda>it. no_intrinsic it \<and> few_arguments it" bare for md funName
proof unfold_locales
  fix rs it assume "new_results rs" and "bare it"
  then show "bare (replace_uses rs it)"
    by (auto simp: replace_uses_def intro: bare_renamed [OF new_results_renaming])
qed (auto intro: checkpoint_inst_bare asm_bare)

section \<open>A compiled module\<close>

lemma compiled_source:
  assumes "plain_module md" and "guard_fun_name \<notin> set (map fun_name md)"
    and "list_all (\<lambda>f. list_all (list_all no_intrinsic) (body f)) md" and "add_unopt_copies uniq (declare_guard md) = Inr md2"
    and "f \<in> set md2"
  shows "list_all (list_all no_intrinsic) (body f)" and "is_unopt (fun_name f) \<Longrightarrow> \<not> is_declaration f"
    and "list_all (\<lambda>f. list_all (list_all P) (body f)) md \<Longrightarrow> list_all (list_all P) (body f)"
proof -
  note declared = plain_declared [OF assms(1,2)]
  note md2 = plain_names(1) [OF declared assms(4)]
  show "list_all (list_all no_intrinsic) (body f)"
    using no_intrinsic_copies [OF assms(3)] assms(5) by (simp add: md2 list_all_iff)
  show "is_unopt (fun_name f) \<Longrightarrow> \<not> is_declaration f"
    using declared assms(5) by (auto simp: md2 plain_module_def list_all_iff plain_copy_def to_copy_def)
  show "list_all (\<lambda>f. list_all (list_all P) (body f)) md \<Longrightarrow> list_all (list_all P) (body f)"
    using assms(5) by (auto simp: md2 list_all_iff declare_guard_def plain_copy_def split: if_splits)
qed

text \<open>Unoptimized functions stay settled through all passes.\<close>

lemma compiled_settled:
  assumes src: "plain_module md" "guard_fun_name \<notin> set (map fun_name md)"
    "list_all (\<lambda>f. list_all (list_all no_intrinsic) (body f)) md" "add_unopt_copies uniq (declare_guard md) = Inr md2"
    and md2: "intrinsics_declared md2" and run: "module_passes dominates alloc_size uniq md = Inr (out, sms)"
    and u: "u \<in> set out" "is_unopt (fun_name u)"
  shows "list_all (list_all (settled md2)) (body u)"
proof (rule settled_later.module_out [OF run src(4) _ u(1), where Q = "\<lambda>f. is_unopt (fun_name f)"])
  fix f f' s s' assume "f \<in> set md2" and "is_unopt (fun_name f)" and "checkpoint_function md2 f s = Inr (f', s')"
  then show "list_all (list_all (settled md2)) (body f')"
    using checkpoint_function_settled md2 compiled_source(1) [OF src] by blast
next
  fix f assume "f \<in> set md2" and "fun_name u = fun_name f"
    and "\<not> is_declaration f \<Longrightarrow> is_unopt (fun_name f) \<Longrightarrow> list_all (list_all (settled md2)) (body u)"
  then show ?thesis using compiled_source(2) [OF src] u(2) by simp
qed

text \<open>Every call that makes records has values with their sizes.\<close>

lemma compiled_paired:
  assumes src: "plain_module md" "guard_fun_name \<notin> set (map fun_name md)"
    "list_all (\<lambda>f. list_all (list_all no_intrinsic) (body f)) md" "add_unopt_copies uniq (declare_guard md) = Inr md2"
    and few: "list_all (\<lambda>f. list_all (list_all few_arguments) (body f)) md"
    and run: "module_passes dominates alloc_size uniq md = Inr (out, sms)"
    and g: "g \<in> set out"
  shows "list_all (list_all paired) (body g)"
proof (rule paired_later.module_out [OF run src(4) _ g, where Q = "\<lambda>f. True"])
  have inputs: "list_all (list_all (\<lambda>it. no_intrinsic it \<and> few_arguments it)) (body f)" if "f \<in> set md2" for f
    using compiled_source(1) [OF src that] compiled_source(3) [OF src that few] by (simp add: list_all_iff)
  fix f f' s s' assume "f \<in> set md2" and "checkpoint_function md2 f s = Inr (f', s')"
  then have "list_all (list_all bare) (body f')" using bare_out.function_out [OF _ refl] inputs by blast
  then show "list_all (list_all paired) (body f')" by (auto simp: list_all_iff intro: bare_paired)
next
  fix f assume "f \<in> set md2" and "is_declaration f \<Longrightarrow> g = f" and "\<not> is_declaration f \<Longrightarrow> True \<Longrightarrow> list_all (list_all paired) (body g)"
  moreover have "list_all (list_all paired) (body f)"
    using compiled_source(1) [OF src \<open>f \<in> set md2\<close>] by (auto simp: list_all_iff paired_def)
  ultimately show ?thesis by (cases "is_declaration f") auto
qed

end
