(* ===== verification/Live_Graphs.thy ===== *)
theory Live_Graphs
  imports Call_Shapes
begin

unbundle bit_operations_syntax

text \<open>
  \<open>LiveVariablesPass\<close> on the uses of a function: which position uses the result of which. The
  pass gives calls new numbers and renames results, but positions stay, so that recording the
  values live at a call is adding edges from these values to the call. How many values each call
  gets is a function of this graph.
\<close>

section \<open>Positions\<close>

definition inst_at :: "ir_fun \<Rightarrow> nat \<times> nat \<Rightarrow> inst" where
  "inst_at g = (\<lambda>(b, k). body g ! b ! k)"

lemma op_at_inst: "op_at g p = inst_op (inst_at g p)"
  by (cases p) (simp add: op_at_def inst_at_def)

lemma concat_positions: "concat (body g) = map (inst_at g) (positions g)"
proof -
  have "map (inst_at g) (map (Pair b) [0..<length (body g ! b)]) = body g ! b" for b
    by (simp add: inst_at_def comp_def map_nth)
  then have "map (map (inst_at g)) (map (\<lambda>b. map (Pair b) [0..<length (body g ! b)]) [0..<length (body g)]) = body g"
    unfolding list.map_comp comp_def by (simp only: map_nth)
  then show ?thesis unfolding positions_def map_concat by (simp only:)
qed

text \<open>Numbers of instructions are unique and below the next free one, and so are those in operands.\<close>

definition well_numbered :: "ir_fun \<Rightarrow> bool" where
  "well_numbered g \<longleftrightarrow> distinct (map inst_id (concat (body g))) \<and>
     list_all (\<lambda>it. inst_id it < fresh_id g \<and>
       list_all (\<lambda>v. case v of InstVal i \<Rightarrow> i < fresh_id g | _ \<Rightarrow> True) (operands (inst_op it))) (concat (body g))"

lemma well_numberedD:
  assumes "well_numbered g"
  shows "p \<in> set (positions g) \<Longrightarrow> q \<in> set (positions g) \<Longrightarrow> inst_id (inst_at g p) = inst_id (inst_at g q) \<longleftrightarrow> p = q"
    and "p \<in> set (positions g) \<Longrightarrow> inst_id (inst_at g p) < fresh_id g"
    and "p \<in> set (positions g) \<Longrightarrow> InstVal i \<in> set (operands (op_at g p)) \<Longrightarrow> i < fresh_id g"
proof -
  have w: "distinct (map (\<lambda>p. inst_id (inst_at g p)) (positions g))"
    "\<forall>p \<in> set (positions g). inst_id (inst_at g p) < fresh_id g \<and>
      (\<forall>v \<in> set (operands (op_at g p)). case v of InstVal i \<Rightarrow> i < fresh_id g | _ \<Rightarrow> True)"
    using assms by (simp_all add: well_numbered_def concat_positions list_all_iff op_at_inst comp_def)
  show "p \<in> set (positions g) \<Longrightarrow> q \<in> set (positions g) \<Longrightarrow> inst_id (inst_at g p) = inst_id (inst_at g q) \<longleftrightarrow> p = q"
    using w(1) by (auto simp: distinct_map inj_on_def)
  show "p \<in> set (positions g) \<Longrightarrow> inst_id (inst_at g p) < fresh_id g" using w(2) by blast
  show "p \<in> set (positions g) \<Longrightarrow> InstVal i \<in> set (operands (op_at g p)) \<Longrightarrow> i < fresh_id g" using w(2) by fastforce
qed

definition place :: "ir_fun \<Rightarrow> nat \<Rightarrow> (nat \<times> nat) option" where
  "place g i = find (\<lambda>p. inst_id (inst_at g p) = i) (positions g)"

lemma place_at:
  assumes "well_numbered g" and "p \<in> set (positions g)"
  shows "place g (inst_id (inst_at g p)) = Some p"
proof -
  have "place g (inst_id (inst_at g p)) \<noteq> None"
    using assms(2) unfolding place_def find_None_iff by blast
  then obtain q where q: "place g (inst_id (inst_at g p)) = Some q" by blast
  then have "q \<in> set (positions g)" "inst_id (inst_at g q) = inst_id (inst_at g p)"
    unfolding place_def by (auto dest: find_SomeD)
  then show ?thesis using q well_numberedD(1) [OF assms(1)] assms(2) by simp
qed

text \<open>
  Dominance in a function: within a block the order of the instructions, and across blocks
  dominance of the blocks.
\<close>

definition before :: "(nat \<Rightarrow> nat \<Rightarrow> bool) \<Rightarrow> nat \<times> nat \<Rightarrow> nat \<times> nat \<Rightarrow> bool" where
  "before bdom = (\<lambda>(b, k) (b', k'). if b = b' then k < k' else bdom b b')"

definition by_blocks :: "(ir_fun \<Rightarrow> nat \<Rightarrow> nat \<Rightarrow> bool) \<Rightarrow> (nat \<Rightarrow> nat \<Rightarrow> bool) \<Rightarrow> ir_fun \<Rightarrow> bool" where
  "by_blocks dominates bdom g \<longleftrightarrow> (\<forall>i j. dominates g i j =
     (case (place g i, place g j) of (Some p, Some q) \<Rightarrow> before bdom p q | _ \<Rightarrow> False))"

lemma by_blocks_at:
  assumes "well_numbered g" and "by_blocks dominates bdom g" and "p \<in> set (positions g)" and "q \<in> set (positions g)"
  shows "dominates g (inst_id (inst_at g p)) (inst_id (inst_at g q)) = before bdom p q"
  using assms by (simp add: by_blocks_def place_at)

lemma before_irrefl [simp]: "\<not> before bdom p p"
  by (cases p) (simp add: before_def)

section \<open>Uses\<close>

definition use_at :: "ir_fun \<Rightarrow> nat \<times> nat \<Rightarrow> nat \<times> nat \<Rightarrow> bool" where
  "use_at g p q \<longleftrightarrow> InstVal (inst_id (inst_at g p)) \<in> set (operands (op_at g q))"

text \<open>The value of \<open>p\<close> is live at \<open>a\<close>: \<open>p\<close> dominates \<open>a\<close>, and some user does not.\<close>

definition live_in :: "(nat \<Rightarrow> nat \<Rightarrow> bool) \<Rightarrow> (nat \<times> nat) set \<Rightarrow> (nat \<times> nat \<Rightarrow> nat \<times> nat \<Rightarrow> bool) \<Rightarrow>
    nat \<times> nat \<Rightarrow> nat \<times> nat \<Rightarrow> bool" where
  "live_in bdom P U p a \<longleftrightarrow> before bdom p a \<and> (\<exists>q \<in> P. U p q \<and> \<not> before bdom q a)"

lemma users_at: "set (users g i) = {inst_id (inst_at g q) | q. q \<in> set (positions g) \<and> InstVal i \<in> set (operands (op_at g q))}"
  by (auto simp: users_def concat_positions op_at_inst)

lemma is_live_at:
  assumes g: "well_numbered g" "by_blocks dominates bdom g" and p: "p \<in> set (positions g)" and a: "a \<in> set (positions g)"
  shows "is_live dominates g (inst_id (inst_at g a)) (inst_at g p) \<longleftrightarrow> live_in bdom (set (positions g)) (use_at g) p a"
proof -
  have "list_ex (\<lambda>u. \<not> dominates g u (inst_id (inst_at g a))) (users g (inst_id (inst_at g p))) \<longleftrightarrow>
      (\<exists>q \<in> set (positions g). use_at g p q \<and> \<not> before bdom q a)"
    using by_blocks_at [OF g _ a] by (auto simp: list_ex_iff users_at use_at_def)
  then show ?thesis using by_blocks_at [OF g p a] by (simp add: is_live_def live_in_def)
qed

definition returns_constant :: "operation \<Rightarrow> bool" where
  "returns_constant x = (case x of Return (Some v) \<Rightarrow> is_constant v | _ \<Rightarrow> False)"

text \<open>Results of returns are not used, so a returned constant is always recorded.\<close>

definition returns_unused :: "ir_fun \<Rightarrow> bool" where
  "returns_unused g \<longleftrightarrow> (\<forall>p \<in> set (positions g). returns_constant (op_at g p) \<longrightarrow> (\<forall>q \<in> set (positions g). \<not> use_at g p q))"

lemma live_pairs_count:
  assumes g: "well_numbered g" "by_blocks dominates bdom g" "returns_unused g" and a: "a \<in> set (positions g)"
  shows "length (live_pairs dominates alloc_size g (inst_id (inst_at g a)) (concat (body g))) =
    card {p \<in> set (positions g). live_in bdom (set (positions g)) (use_at g) p a} +
    card {p \<in> set (positions g). returns_constant (op_at g p)}"
proof -
  let ?at = "inst_id (inst_at g a)" and ?P = "set (positions g)"
  let ?live = "\<lambda>p. live_in bdom ?P (use_at g) p a" and ?const = "\<lambda>p. returns_constant (op_at g p)"
  let ?one = "\<lambda>it. if is_live dominates g ?at it then [(InstVal (inst_id it), live_size alloc_size it)]
     else case returned_constant dominates g ?at it of Some v \<Rightarrow> [(v, alloc_size (value_type v))] | None \<Rightarrow> []"
  have one: "length (?one (inst_at g p)) = (if ?live p then 1 else 0) + (if ?const p then 1 else 0)" if p: "p \<in> ?P" for p
  proof (cases "?const p")
    case True
    then obtain v where v: "inst_op (inst_at g p) = Return (Some v)" "is_constant v"
      by (auto simp: returns_constant_def op_at_inst split: operation.splits option.splits)
    have none: "users g (inst_id (inst_at g p)) = []"
      using g(3) p True unfolding set_empty [symmetric] users_at returns_unused_def use_at_def by blast
    then have "\<not> ?live p" using is_live_at [OF g(1,2) p a] by (simp add: is_live_def)
    then show ?thesis using v none is_live_at [OF g(1,2) p a] True by (simp add: returned_constant_def)
  next
    case False
    then have "returned_constant dominates g ?at (inst_at g p) = None"
      by (auto simp: returned_constant_def returns_constant_def op_at_inst split: operation.splits option.splits)
    then show ?thesis using is_live_at [OF g(1,2) p a] False by simp
  qed
  have sum: "sum_list (map (\<lambda>p. (if A p then 1 else 0) + (if B p then 1 else 0)) ps) = length (filter A ps) + length (filter B ps)"
    for A B :: "nat \<times> nat \<Rightarrow> bool" and ps by (induction ps) auto
  have "length (concat (map ?one (map (inst_at g) (positions g)))) = sum_list (map (\<lambda>p. length (?one (inst_at g p))) (positions g))"
    unfolding length_concat list.map_comp comp_def ..
  also have "\<dots> = sum_list (map (\<lambda>p. (if ?live p then 1 else 0) + (if ?const p then 1 else 0)) (positions g))"
    by (intro arg_cong [of _ _ sum_list] map_cong refl one)
  finally have "length (live_pairs dominates alloc_size g ?at (concat (body g))) = length (filter ?live (positions g)) + length (filter ?const (positions g))"
    unfolding live_pairs_def concat_positions sum .
  then show ?thesis by (simp add: distinct_card [symmetric] distinct_positions set_filter)
qed

section \<open>Recording adds edges\<close>

definition records_at :: "ir_fun \<Rightarrow> nat \<times> nat \<Rightarrow> bool" where
  "records_at g p \<longleftrightarrow> \<not> no_intrinsic (inst_at g p)"

text \<open>The position at which the values recorded by a call have to be live.\<close>

definition anchor_at :: "ir_fun \<Rightarrow> nat \<times> nat \<Rightarrow> nat \<times> nat" where
  "anchor_at g p =
     (if getCalledFunction (op_at g p) = Some stackmap_name \<and> 0 < snd p then (fst p, snd p - 1) else p)"

definition add_live :: "(nat \<Rightarrow> nat \<Rightarrow> bool) \<Rightarrow> (nat \<times> nat) set \<Rightarrow> nat \<times> nat \<Rightarrow> nat \<times> nat \<Rightarrow>
    (nat \<times> nat \<Rightarrow> nat \<times> nat \<Rightarrow> bool) \<Rightarrow> nat \<times> nat \<Rightarrow> nat \<times> nat \<Rightarrow> bool" where
  "add_live bdom P a p U = (\<lambda>x y. U x y \<or> (y = p \<and> live_in bdom P U x a))"

lemma anchor_in: "p \<in> set (positions g) \<Longrightarrow> anchor_at g p \<in> set (positions g)"
  by (cases p) (auto simp: anchor_at_def set_positions)

lemma anchor_before: "\<not> before bdom p (anchor_at g p)"
  by (cases p) (auto simp: anchor_at_def before_def)

lemma live_anchor_at:
  "op_at g p = Call (Direct n) args \<Longrightarrow> live_anchor n g p = inst_id (inst_at g (anchor_at g p))"
  by (cases p) (auto simp: live_anchor_def anchor_at_def inst_at_def)

lemma records_call:
  assumes "records_at g p"
  obtains n args where "op_at g p = Call (Direct n) args" and "n \<in> record_calls"
  using record_call_cases assms unfolding records_at_def op_at_inst by blast

lemma record_live_exact:
  assumes run: "record_live dominates alloc_size p g = Inr g'" and p: "p \<in> set (positions g)"
    and call: "op_at g p = Call (Direct n) args" "n \<in> record_calls"
  shows "fresh_id g' = Suc (fresh_id g)" and "fun_name g' = fun_name g"
    and "inst_id (inst_at g' p) = fresh_id g"
    and "op_at g' p = Call (Direct n) (args @ getLiveRegisters dominates alloc_size g (inst_id (inst_at g (anchor_at g p))))"
    and "q \<in> set (positions g) \<Longrightarrow> q \<noteq> p \<Longrightarrow> inst_at g' q =
      replace_uses (if users g (inst_id (inst_at g p)) \<noteq> [] then [(inst_id (inst_at g p), InstVal (fresh_id g))] else []) (inst_at g q)"
proof -
  obtain b k where bk: "p = (b, k)" by (cases p)
  let ?it = "body g ! b ! k"
  let ?rs = "if users g (inst_id ?it) \<noteq> [] then [(inst_id ?it, InstVal (fresh_id g))] else []"
  let ?bs = "map (map (replace_uses ?rs)) (body g)"
  have at: "inst_at g p = ?it" by (simp add: inst_at_def bk)
  have in_body: "b < length (body g)" "k < length (body g ! b)" using p by (simp_all add: bk set_positions)
  obtain t where t: "getPatchpointType (Some n) = Inr t" by (simp add: getPatchpointType_def)
  have "producesStackmapRecords t" using type_producesRecords [OF t] call(2) by simp
  moreover have "inst_op ?it = Call (Direct n) args" using call(1) by (simp add: op_at_def bk)
  moreover have "(if users g (inst_id ?it) \<noteq> [] then map (map (replace_uses [(inst_id ?it, InstVal (fresh_id g))])) (body g) else body g) = ?bs"
  proof -
    have "replace_uses [] = id" by (rule ext) simp
    then show ?thesis by simp
  qed
  ultimately have "g' = g\<lparr>body := ?bs[b := (?bs ! b)[k := ?it\<lparr>inst_id := fresh_id g, inst_op := Call (Direct n)
      (args @ getLiveRegisters dominates alloc_size g (inst_id (if t = STACKMAP \<and> 0 < k then body g ! b ! (k - 1) else ?it)))\<rparr>]],
      fresh_id := fresh_id g + 1\<rparr>" (is "_ = g\<lparr>body := ?bs[b := (?bs ! b)[k := ?call]], fresh_id := _\<rparr>")
    using run t by (simp add: bk record_live_def Let_def)
  then obtain as where g': "g' = g\<lparr>body := ?bs[b := (?bs ! b)[k := ?it\<lparr>inst_id := fresh_id g, inst_op := Call (Direct n) as\<rparr>]],
      fresh_id := fresh_id g + 1\<rparr>" by blast
  then show "fresh_id g' = Suc (fresh_id g)" and "fun_name g' = fun_name g" and "inst_id (inst_at g' p) = fresh_id g"
    using in_body by (simp_all add: inst_at_def bk)
  show "op_at g' p = Call (Direct n) (args @ getLiveRegisters dominates alloc_size g (inst_id (inst_at g (anchor_at g p))))"
    using record_live_own [OF run p call] by (simp add: live_anchor_at [OF call(1)])
  assume q: "q \<in> set (positions g)" "q \<noteq> p"
  obtain b' k' where bk': "q = (b', k')" by (cases q)
  have in_body': "b' < length (body g)" "k' < length (body g ! b')" using q by (simp_all add: bk' set_positions)
  show "inst_at g' q = replace_uses (if users g (inst_id (inst_at g p)) \<noteq> [] then [(inst_id (inst_at g p), InstVal (fresh_id g))] else []) (inst_at g q)"
    using q(2) in_body in_body' unfolding at by (cases "b = b'") (auto simp: g' inst_at_def bk bk')
qed

lemma live_registers_values:
  "InstVal i \<in> set (getLiveRegisters dominates alloc_size g at) \<longleftrightarrow>
    (\<exists>it \<in> set (concat (body g)). inst_id it = i \<and> is_live dominates g at it)"
proof -
  have flat: "InstVal i \<in> set (flat ps) \<longleftrightarrow> InstVal i \<in> fst ` set ps" for ps by (induction ps) auto
  have const: "returned_constant dominates g at it \<noteq> Some (InstVal i)" for it
    by (auto simp: returned_constant_def split: operation.splits option.splits)
  have one: "InstVal i \<in> fst ` set (if is_live dominates g at it then [(InstVal (inst_id it), live_size alloc_size it)]
      else case returned_constant dominates g at it of Some v \<Rightarrow> [(v, alloc_size (value_type v))] | None \<Rightarrow> []) \<longleftrightarrow>
      inst_id it = i \<and> is_live dominates g at it" for it
    using const [of it] by (cases "returned_constant dominates g at it") auto
  have "InstVal i \<in> fst ` set (concat (map F its)) \<longleftrightarrow> (\<exists>it \<in> set its. InstVal i \<in> fst ` set (F it))"
    for F :: "inst \<Rightarrow> (ir_value \<times> u64) list" and "its" by (induction "its") auto
  then show ?thesis unfolding getLiveRegisters_pairs flat live_pairs_def by (simp only: one)
qed

lemma replace_value_one:
  "replace_value (if P then [(i, InstVal n)] else []) v = (if P \<and> v = InstVal i then InstVal n else v)"
  by (cases v) (auto simp: replace_value_def)

lemma getCalledFunction_renamed [simp]: "getCalledFunction (map_operands h x) = getCalledFunction x"
  by (cases x rule: getCalledFunction.cases) auto

lemma returns_constant_renamed: "renaming h \<Longrightarrow> returns_constant (map_operands h x) = returns_constant x"
proof (cases x)
  case (Return v)
  assume h: "renaming h"
  have "is_constant (h w) = is_constant w" for w
    using h unfolding renaming_def by (metis is_constant.simps(1) is_inst_val.elims(2))
  then show ?thesis by (simp add: Return returns_constant_def split: option.split)
next
  case (Call c args)
  then show ?thesis by (cases c) (simp_all add: returns_constant_def)
qed (simp_all add: returns_constant_def)

lemma record_step:
  assumes run: "record_live dominates alloc_size p g = Inr g'" and p: "p \<in> set (positions g)"
    and g: "well_numbered g" "by_blocks dominates bdom g" and rec: "records_at g p" and own: "\<not> use_at g p p"
  shows "well_numbered g'" and "positions g' = positions g" and "fun_name g' = fun_name g"
    and "x \<in> set (positions g) \<Longrightarrow> y \<in> set (positions g) \<Longrightarrow>
      use_at g' x y = add_live bdom (set (positions g)) (anchor_at g p) p (use_at g) x y"
    and "x \<in> set (positions g) \<Longrightarrow> getCalledFunction (op_at g' x) = getCalledFunction (op_at g x) \<and>
      returns_constant (op_at g' x) = returns_constant (op_at g x)"
proof -
  let ?P = "set (positions g)" and ?old = "inst_id (inst_at g p)" and ?a = "anchor_at g p"
  let ?live = "getLiveRegisters dominates alloc_size g (inst_id (inst_at g ?a))"
  let ?Q = "users g ?old \<noteq> []"
  let ?rs = "if ?Q then [(?old, InstVal (fresh_id g))] else []"
  obtain n args where call: "op_at g p = Call (Direct n) args" "n \<in> record_calls" using rec by (rule records_call)
  note exact = record_live_exact [OF run p call] and num = well_numberedD [OF g(1)]
  show pos: "positions g' = positions g"
    using run by (cases p) (auto intro: same_shape_positions record_live_shape)
  show "fun_name g' = fun_name g" by (rule exact(2))
  have id: "inst_id (inst_at g' x) = (if x = p then fresh_id g else inst_id (inst_at g x))" if "x \<in> ?P" for x
    using exact(3,5) that by (auto simp: replace_uses_def)
  have ops: "operands (op_at g' y) = (if y = p then args @ ?live else map (replace_value ?rs) (operands (op_at g y)))" if "y \<in> ?P" for y
    using exact(4,5) that by (auto simp: op_at_inst replace_uses_def operands_map)
  have live: "InstVal i \<in> set ?live \<longleftrightarrow> (\<exists>x \<in> ?P. inst_id (inst_at g x) = i \<and> live_in bdom ?P (use_at g) x ?a)" for i
    using is_live_at [OF g _ anchor_in [OF p]] by (auto simp: live_registers_values concat_positions)
  have unused: "\<not> use_at g p y" if "\<not> ?Q" "y \<in> ?P" for y
  proof
    assume "use_at g p y"
    then have "inst_id (inst_at g y) \<in> set (users g ?old)" using that(2) unfolding users_at use_at_def by blast
    then show False using that(1) by simp
  qed
  have small: "InstVal (fresh_id g) \<notin> set (operands (op_at g y))" if "y \<in> ?P" for y
    using num(3) [OF that, of "fresh_id g"] by blast
  show use: "use_at g' x y = add_live bdom ?P ?a p (use_at g) x y" if x: "x \<in> ?P" and y: "y \<in> ?P" for x y
  proof (cases "y = p")
    case True
    have args: "operands (op_at g p) = args" using call(1) by simp
    show ?thesis
    proof (cases "x = p")
      case same: True
      have "InstVal (fresh_id g) \<notin> set ?live" using num(2) live [of "fresh_id g"] by (metis less_irrefl)
      moreover have "\<not> live_in bdom ?P (use_at g) p ?a" by (simp add: live_in_def anchor_before)
      ultimately show ?thesis
        using small [OF p] own True same by (simp add: use_at_def id [OF p] ops [OF p] args add_live_def)
    next
      case False
      have "InstVal (inst_id (inst_at g x)) \<in> set ?live \<longleftrightarrow> live_in bdom ?P (use_at g) x ?a"
        using num(1) [OF _ x] x by (auto simp: live)
      then show ?thesis
        using True False by (simp add: use_at_def id [OF x] ops [OF p] args add_live_def)
    qed
  next
    case False
    have "InstVal (inst_id (inst_at g' x)) \<in> replace_value ?rs ` set (operands (op_at g y)) \<longleftrightarrow> use_at g x y"
    proof (cases "x = p")
      case True
      then show ?thesis
        using small [OF y] unused [OF _ y] by (auto simp: id [OF p] replace_value_one use_at_def image_iff)
    next
      case other: False
      have "inst_id (inst_at g x) \<noteq> ?old" "inst_id (inst_at g x) \<noteq> fresh_id g" using num(1) [OF x p] num(2) [OF x] other by auto
      then show ?thesis using other by (auto simp: id [OF x] replace_value_one use_at_def image_iff)
    qed
    then show ?thesis using False by (simp add: use_at_def ops [OF y] add_live_def)
  qed
  show "getCalledFunction (op_at g' x) = getCalledFunction (op_at g x) \<and> returns_constant (op_at g' x) = returns_constant (op_at g x)"
    if x: "x \<in> ?P" for x
  proof (cases "x = p")
    case True
    then show ?thesis using call(1) exact(4) by (simp add: returns_constant_def)
  next
    case False
    have "renaming (replace_value ?rs)" by (rule renaming_small) simp
    then show ?thesis using exact(5) [OF x False] by (simp add: op_at_inst replace_uses_def returns_constant_renamed)
  qed
  have "inst_id (inst_at g' x) < fresh_id g'" if "x \<in> ?P" for x
    using num(2) [OF that] by (auto simp: id [OF that] exact(1))
  moreover have "i < fresh_id g'" if y: "y \<in> ?P" and i: "InstVal i \<in> set (operands (op_at g' y))" for i y
  proof (cases "y = p")
    case True
    then have "InstVal i \<in> set args \<or> InstVal i \<in> set ?live" using i by (simp add: ops [OF p])
    then have "i < fresh_id g" using num(3) [OF p] call(1) num(2) by (auto simp: live)
    then show ?thesis by (simp add: exact(1))
  next
    case False
    then obtain v where "v \<in> set (operands (op_at g y))" "InstVal i = replace_value ?rs v" using i by (auto simp: ops [OF y])
    then show ?thesis using num(3) [OF y, of i] by (auto simp: replace_value_one exact(1) split: if_splits)
  qed
  moreover have "inj_on (\<lambda>x. inst_id (inst_at g' x)) ?P"
  proof (rule inj_onI)
    fix x y assume xy: "x \<in> ?P" "y \<in> ?P" "inst_id (inst_at g' x) = inst_id (inst_at g' y)"
    then show "x = y" using num(1) [OF xy(1,2)] num(2) [OF xy(1)] num(2) [OF xy(2)] by (auto simp: id split: if_splits)
  qed
  ultimately show "well_numbered g'"
    by (auto simp: well_numbered_def concat_positions pos list_all_iff distinct_map distinct_positions comp_def op_at_inst
        split: ir_value.split)
qed

section \<open>The pass on the graph\<close>

definition live_graph :: "(nat \<Rightarrow> nat \<Rightarrow> bool) \<Rightarrow> (nat \<times> nat) set \<Rightarrow> (nat \<times> nat \<Rightarrow> nat \<times> nat) \<Rightarrow> (nat \<times> nat) list \<Rightarrow>
    (nat \<times> nat \<Rightarrow> nat \<times> nat \<Rightarrow> bool) \<Rightarrow> nat \<times> nat \<Rightarrow> nat \<times> nat \<Rightarrow> bool" where
  "live_graph bdom P A ps U = fold (\<lambda>p. add_live bdom P (A p) p) ps U"

lemma live_graph_simps [simp]:
  "live_graph bdom P A [] U = U"
  "live_graph bdom P A (p # ps) U = live_graph bdom P A ps (add_live bdom P (A p) p U)"
  by (simp_all add: live_graph_def)

text \<open>Two graphs that agree on the positions of the function.\<close>

definition same_uses :: "(nat \<times> nat) set \<Rightarrow> (nat \<times> nat \<Rightarrow> nat \<times> nat \<Rightarrow> bool) \<Rightarrow> (nat \<times> nat \<Rightarrow> nat \<times> nat \<Rightarrow> bool) \<Rightarrow> bool" where
  "same_uses P U V \<longleftrightarrow> (\<forall>x \<in> P. \<forall>y \<in> P. U x y = V x y)"

lemma same_uses_live: "same_uses P U V \<Longrightarrow> x \<in> P \<Longrightarrow> live_in bdom P U x a = live_in bdom P V x a"
  by (auto simp: same_uses_def live_in_def)

lemma same_uses_step: "same_uses P U V \<Longrightarrow> same_uses P (add_live bdom P a p U) (add_live bdom P a p V)"
  using same_uses_live [of P U V] by (simp add: same_uses_def add_live_def)

lemma same_uses_trans: "same_uses P U V \<Longrightarrow> same_uses P V W \<Longrightarrow> same_uses P U W"
  by (simp add: same_uses_def)

lemma same_uses_graph: "same_uses P U V \<Longrightarrow> same_uses P (live_graph bdom P A ps U) (live_graph bdom P A ps V)"
  by (induction ps arbitrary: U V) (auto intro: same_uses_step)

text \<open>
  Dominance in all functions with a name and a number of blocks: the passes keep both, and all
  edges between blocks.
\<close>

definition blocks_dominate :: "(ir_fun \<Rightarrow> nat \<Rightarrow> nat \<Rightarrow> bool) \<Rightarrow> (nat \<Rightarrow> nat \<Rightarrow> bool) \<Rightarrow> string \<Rightarrow> nat \<Rightarrow> bool" where
  "blocks_dominate dominates bdom n k \<longleftrightarrow> (\<forall>h. fun_name h = n \<longrightarrow> length (body h) = k \<longrightarrow> by_blocks dominates bdom h)"

text \<open>What the graph needs of a function, and keeps.\<close>

definition graph_ok :: "(ir_fun \<Rightarrow> nat \<Rightarrow> nat \<Rightarrow> bool) \<Rightarrow> (nat \<Rightarrow> nat \<Rightarrow> bool) \<Rightarrow> ir_fun \<Rightarrow> bool" where
  "graph_ok dominates bdom g \<longleftrightarrow> well_numbered g \<and> blocks_dominate dominates bdom (fun_name g) (length (body g)) \<and> returns_unused g \<and>
     (\<forall>p \<in> set (positions g). records_at g p \<longrightarrow> \<not> use_at g p p)"

lemma record_graph_step:
  assumes run: "record_live dominates alloc_size p g = Inr g'" and p: "p \<in> set (positions g)"
    and g: "graph_ok dominates bdom g"
  shows "graph_ok dominates bdom g'" and "positions g' = positions g"
    and "\<And>x. x \<in> set (positions g) \<Longrightarrow> records_at g' x = records_at g x \<and> anchor_at g' x = anchor_at g x \<and>
      returns_constant (op_at g' x) = returns_constant (op_at g x)"
    and "same_uses (set (positions g)) (use_at g')
      (live_graph bdom (set (positions g)) (anchor_at g) (filter (records_at g) [p]) (use_at g))"
proof -
  let ?P = "set (positions g)"
  have "graph_ok dominates bdom g' \<and> positions g' = positions g \<and>
      (\<forall>x \<in> ?P. records_at g' x = records_at g x \<and> anchor_at g' x = anchor_at g x \<and>
        returns_constant (op_at g' x) = returns_constant (op_at g x)) \<and>
      same_uses ?P (use_at g') (live_graph bdom ?P (anchor_at g) (filter (records_at g) [p]) (use_at g))"
  proof (cases "records_at g p")
    case False
    then have "g' = g" using record_live_plain run by (cases p) (auto simp: records_at_def inst_at_def)
    then show ?thesis using g False by (simp add: same_uses_def)
  next
    case True
    have wn: "well_numbered g" "by_blocks dominates bdom g" "returns_unused g" using g by (auto simp: graph_ok_def blocks_dominate_def)
    have own: "\<not> use_at g p p" using g p True by (simp add: graph_ok_def)
    note step = record_step [OF run p wn(1,2) True own]
    have same: "records_at g' x = records_at g x" "anchor_at g' x = anchor_at g x" if "x \<in> ?P" for x
      using step(5) [OF that] by (simp_all add: records_at_def no_intrinsic_def anchor_at_def op_at_inst)
    have dead: "\<not> live_in bdom ?P (use_at g) x a" if "\<forall>y \<in> ?P. \<not> use_at g x y" for x a
      using that by (auto simp: live_in_def)
    have "returns_unused g'"
      using wn(3) step(5) dead unfolding returns_unused_def step(2) by (auto simp: step(4) add_live_def)
    moreover have "\<not> use_at g' q q" if "q \<in> ?P" "records_at g' q" for q
      using that g same(1) anchor_before [of bdom p g]
      by (cases "q = p") (simp_all add: step(4) add_live_def live_in_def graph_ok_def)
    moreover have "length (body g') = length (body g)"
      using run by (cases p) (auto simp: same_shape_def dest!: record_live_shape map_eq_imp_length_eq)
    then have "blocks_dominate dominates bdom (fun_name g') (length (body g'))" using g step(3) by (simp add: graph_ok_def)
    ultimately have "graph_ok dominates bdom g'" using step(1,2) by (simp add: graph_ok_def)
    then show ?thesis using step same True by (simp add: same_uses_def)
  qed
  then show "graph_ok dominates bdom g'" and "positions g' = positions g"
    and "\<And>x. x \<in> ?P \<Longrightarrow> records_at g' x = records_at g x \<and> anchor_at g' x = anchor_at g x \<and>
      returns_constant (op_at g' x) = returns_constant (op_at g x)"
    and "same_uses ?P (use_at g') (live_graph bdom ?P (anchor_at g) (filter (records_at g) [p]) (use_at g))"
    by blast+
qed

lemma record_graph:
  assumes "fold_res (record_live dominates alloc_size) ps g = Inr g'" and "set ps \<subseteq> set (positions g)"
    and "graph_ok dominates bdom g"
  shows "graph_ok dominates bdom g' \<and> positions g' = positions g \<and>
    (\<forall>x \<in> set (positions g). records_at g' x = records_at g x \<and> anchor_at g' x = anchor_at g x \<and>
      returns_constant (op_at g' x) = returns_constant (op_at g x)) \<and>
    same_uses (set (positions g)) (use_at g')
      (live_graph bdom (set (positions g)) (anchor_at g) (filter (records_at g) ps) (use_at g))"
  using assms
proof (induction ps arbitrary: g)
  case Nil
  then show ?case by (simp add: same_uses_def)
next
  case (Cons p ps)
  let ?P = "set (positions g)"
  obtain g1 where g1: "record_live dominates alloc_size p g = Inr g1" "fold_res (record_live dominates alloc_size) ps g1 = Inr g'"
    using Cons.prems(1) by (auto simp: bind_res_Inr_iff)
  have p: "p \<in> ?P" "set ps \<subseteq> ?P" using Cons.prems(2) by auto
  note step = record_graph_step [OF g1(1) p(1) Cons.prems(3)]
  have IH: "graph_ok dominates bdom g' \<and> positions g' = positions g \<and>
    (\<forall>x \<in> ?P. records_at g' x = records_at g1 x \<and> anchor_at g' x = anchor_at g1 x \<and>
      returns_constant (op_at g' x) = returns_constant (op_at g1 x)) \<and>
    same_uses ?P (use_at g') (live_graph bdom ?P (anchor_at g1) (filter (records_at g1) ps) (use_at g1))"
    using Cons.IH [OF g1(2) _ step(1)] p(2) by (simp add: step(2))
  have "filter (records_at g1) ps = filter (records_at g) ps" using p(2) step(3) by (intro filter_cong) auto
  moreover have "live_graph bdom ?P (anchor_at g1) qs U = live_graph bdom ?P (anchor_at g) qs U" if "set qs \<subseteq> ?P" for qs U
    using that step(3) by (induction qs arbitrary: U) auto
  ultimately have "same_uses ?P (use_at g') (live_graph bdom ?P (anchor_at g) (filter (records_at g) ps) (use_at g1))"
    using IH p(2) by (metis (no_types, lifting) filter_is_subset subset_trans)
  moreover have "same_uses ?P (live_graph bdom ?P (anchor_at g) (filter (records_at g) ps) (use_at g1))
      (live_graph bdom ?P (anchor_at g) (filter (records_at g) ps) (live_graph bdom ?P (anchor_at g) (filter (records_at g) [p]) (use_at g)))"
    by (rule same_uses_graph [OF step(4)])
  ultimately have "same_uses ?P (use_at g') (live_graph bdom ?P (anchor_at g) (filter (records_at g) (p # ps)) (use_at g))"
    by (auto intro: same_uses_trans split: if_splits)
  then show ?case using IH step(3) by simp
qed

text \<open>How many values a call records.\<close>

lemma recorded_count:
  assumes run: "live_variables_function dominates alloc_size g = Inr g'" and g: "graph_ok dominates bdom g"
    and j: "j < length (positions g)" "positions g ! j = p" and rec: "records_at g p"
  shows "\<exists>n args h ps. n \<in> record_calls \<and> op_at g p = Call (Direct n) args \<and> op_at g' p = Call (Direct n) (map h args @ flat ps) \<and>
    renaming h \<and> length ps =
      card {x \<in> set (positions g). live_in bdom (set (positions g))
        (live_graph bdom (set (positions g)) (anchor_at g) (filter (records_at g) (take j (positions g))) (use_at g)) x (anchor_at g p)} +
      card {x \<in> set (positions g). returns_constant (op_at g x)}"
proof -
  let ?P = "set (positions g)"
  obtain n args where call: "op_at g p = Call (Direct n) args" "n \<in> record_calls" using rec by (rule records_call)
  from live_variables_recorded [OF run j call] obtain m h h' where
    m: "fold_res (record_live dominates alloc_size) (take j (positions g)) g = Inr m" and h: "renaming h"
    and op: "op_at g' p = Call (Direct n) (map h args @
      flat (map (\<lambda>(v, s). (h' v, s)) (live_pairs dominates alloc_size m (live_anchor n m p) (concat (body m)))))" by blast
  have "set (take j (positions g)) \<subseteq> ?P" by (rule set_take_subset)
  note graph = record_graph [OF m this g]
  then have ok: "well_numbered m" "by_blocks dominates bdom m" "returns_unused m" and pos: "positions m = positions g"
    by (auto simp: graph_ok_def blocks_dominate_def)
  have p: "p \<in> ?P" using j by auto
  then have a: "anchor_at g p \<in> ?P" by (rule anchor_in)
  have p_notin: "p \<notin> set (take j (positions g))"
    using j distinct_positions [of g] by (auto simp: in_set_conv_nth nth_eq_iff_index_eq)
  obtain h0 where "op_at m p = map_operands h0 (op_at g p)" using record_live_all_other(1) [OF m p_notin p] by blast
  then have "live_anchor n m p = inst_id (inst_at m (anchor_at g p))"
    using live_anchor_at [of m p n] call(1) graph p by simp
  then have "length (live_pairs dominates alloc_size m (live_anchor n m p) (concat (body m))) =
      card {x \<in> ?P. live_in bdom ?P (use_at m) x (anchor_at g p)} + card {x \<in> ?P. returns_constant (op_at m x)}"
    using live_pairs_count [OF ok, of "anchor_at g p"] a by (simp add: pos)
  also have "{x \<in> ?P. live_in bdom ?P (use_at m) x (anchor_at g p)} = {x \<in> ?P. live_in bdom ?P
      (live_graph bdom ?P (anchor_at g) (filter (records_at g) (take j (positions g))) (use_at g)) x (anchor_at g p)}"
    using same_uses_live [of ?P "use_at m"] graph by blast
  also have "{x \<in> ?P. returns_constant (op_at m x)} = {x \<in> ?P. returns_constant (op_at g x)}" using graph by blast
  finally show ?thesis
    using call op h
    by (intro exI [of _ n] exI [of _ args] exI [of _ h]
        exI [of _ "map (\<lambda>(v, s). (h' v, s)) (live_pairs dominates alloc_size m (live_anchor n m p) (concat (body m)))"]) simp
qed

end
