(* ===== verification/Live_Records.thy ===== *)
theory Live_Records
  imports Live_Graphs
begin

unbundle bit_operations_syntax

text \<open>
  What \<open>LiveVariablesPass\<close> leaves in a recording call, in terms of the function it is given: the
  arguments the call has, and the values live there, each with its size. Calls get new numbers,
  so a result is named by the number its instruction has at the end; \<open>moved\<close> is this renaming,
  which is fixed by the positions of the two functions.
\<close>

section \<open>Renaming by positions\<close>

definition moved :: "ir_fun \<Rightarrow> ir_fun \<Rightarrow> ir_value \<Rightarrow> ir_value" where
  "moved f g v =
     (case v of InstVal i \<Rightarrow> (case place f i of Some p \<Rightarrow> InstVal (inst_id (inst_at g p)) | None \<Rightarrow> v) | _ \<Rightarrow> v)"

lemma moved_at [simp]:
  "well_numbered f \<Longrightarrow> p \<in> set (positions f) \<Longrightarrow> moved f g (InstVal (inst_id (inst_at f p))) = InstVal (inst_id (inst_at g p))"
  by (simp add: moved_def place_at)

lemma moved_constant [simp]: "\<not> is_inst_val v \<Longrightarrow> moved f g v = v"
  by (cases v) (simp_all add: moved_def)

lemma constant_value [simp]: "is_constant v \<Longrightarrow> \<not> is_inst_val v"
  by (cases v) simp_all

lemma renaming_moved: "renaming (moved f g)"
  by (auto simp: renaming_def moved_def split: ir_value.split option.split)

lemma moved_same [simp]: "moved f f v = v"
proof (cases v)
  case (InstVal i)
  show ?thesis
  proof (cases "place f i")
    case (Some p)
    then have "inst_id (inst_at f p) = i" unfolding place_def by (auto dest: find_SomeD)
    then show ?thesis by (simp add: moved_def InstVal Some)
  qed (simp add: moved_def InstVal)
qed (simp_all add: moved_def)

lemma place_NoneD: "place g i = None \<Longrightarrow> p \<in> set (positions g) \<Longrightarrow> inst_id (inst_at g p) \<noteq> i"
  unfolding place_def find_None_iff by blast

lemma map_operands_cong: "(\<And>v. v \<in> set (operands x) \<Longrightarrow> h v = h' v) \<Longrightarrow> map_operands h x = map_operands h' x"
  by (cases "(h, x)" rule: map_operands.cases) (auto split: option.splits intro: option.map_cong)

text \<open>Numbers stay, or are new.\<close>

definition renumbered :: "ir_fun \<Rightarrow> ir_fun \<Rightarrow> bool" where
  "renumbered f g \<longleftrightarrow> positions g = positions f \<and> well_numbered f \<and> well_numbered g \<and> fresh_id f \<le> fresh_id g \<and>
     (\<forall>p \<in> set (positions f). inst_id (inst_at g p) = inst_id (inst_at f p) \<or> fresh_id f \<le> inst_id (inst_at g p))"

lemma renumbered_trans: "renumbered f g \<Longrightarrow> renumbered g h \<Longrightarrow> renumbered f h"
  unfolding renumbered_def by (metis (no_types, lifting) le_trans)

definition small_operands :: "ir_fun \<Rightarrow> ir_value list \<Rightarrow> bool" where
  "small_operands f vs \<longleftrightarrow> (\<forall>i. InstVal i \<in> set vs \<longrightarrow> i < fresh_id f)"

lemma small_operands_at: "well_numbered f \<Longrightarrow> p \<in> set (positions f) \<Longrightarrow> small_operands f (operands (op_at f p))"
  using well_numberedD(3) by (simp add: small_operands_def)

lemma moved_moved:
  assumes fg: "renumbered f g" and v: "small_operands f vs" "v \<in> set vs"
  shows "moved g h (moved f g v) = moved f h v"
proof (cases v)
  case (InstVal i)
  note pos = fg [unfolded renumbered_def]
  show ?thesis
  proof (cases "place f i")
    case None
    have "i < fresh_id f" using v InstVal by (simp add: small_operands_def)
    then have "inst_id (inst_at g p) \<noteq> i" if "p \<in> set (positions g)" for p
      using that pos place_NoneD [OF None, of p] by (metis leD)
    then have "place g i = None" by (simp add: place_def find_None_iff)
    then show ?thesis by (simp add: moved_def InstVal None)
  next
    case (Some p)
    then have p: "p \<in> set (positions f)" "inst_id (inst_at f p) = i"
      unfolding place_def by (auto dest: find_SomeD)
    then show ?thesis using pos moved_at [of g p h] by (simp add: moved_def InstVal Some)
  qed
qed (simp_all add: moved_def)

section \<open>One call\<close>

text \<open>What is recorded of an operation besides its operands.\<close>

definition alloca_or_constant :: "inst \<Rightarrow> ir_type \<times> ir_type option \<times> ir_value option" where
  "alloca_or_constant it = (inst_type it,
     (case inst_op it of Alloca t \<Rightarrow> Some t | _ \<Rightarrow> None),
     (case inst_op it of Return (Some v) \<Rightarrow> if is_constant v then Some v else None | _ \<Rightarrow> None))"

lemma alloca_or_constant_renamed:
  assumes "renaming h"
  shows "alloca_or_constant (it\<lparr>inst_op := map_operands h (inst_op it)\<rparr>) = alloca_or_constant it"
proof (cases "inst_op it")
  case (Return v)
  have "h w = w" if "is_constant w" for w
    using assms that unfolding renaming_def by (metis is_constant.simps(1) is_inst_val.elims(2))
  moreover have "is_constant (h w) = is_constant w" for w
    using assms unfolding renaming_def by (metis is_constant.simps(1) is_inst_val.elims(2))
  ultimately show ?thesis by (auto simp: Return alloca_or_constant_def split: option.split)
next
  case (Call c args)
  then show ?thesis by (cases c) (simp_all add: alloca_or_constant_def)
qed (simp_all add: alloca_or_constant_def)

lemma record_live_type:
  assumes "record_live dominates alloc_size p g = Inr g'" and "p \<in> set (positions g)"
  shows "inst_type (inst_at g' p) = inst_type (inst_at g p)"
proof -
  obtain b k where p: "p = (b, k)" by (cases p)
  have at: "b < length (body g)" "k < length (body g ! b)" using assms(2) by (simp_all add: p set_positions)
  have "replace_uses [] = id" by (rule ext) simp
  then show ?thesis
    using assms(1) at by (auto simp: p record_live_def Let_def inst_at_def bind_res_Inr_iff split: operation.splits if_splits)
qed

lemma record_moves:
  assumes run: "record_live dominates alloc_size p g = Inr g'" and p: "p \<in> set (positions g)"
    and g: "graph_ok dominates bdom g"
  shows "renumbered g g'"
    and "q \<in> set (positions g) \<Longrightarrow> alloca_or_constant (inst_at g' q) = alloca_or_constant (inst_at g q)"
    and "q \<in> set (positions g) \<Longrightarrow> q \<noteq> p \<Longrightarrow> op_at g' q = map_operands (moved g g') (op_at g q)"
    and "q \<in> set (positions g) \<Longrightarrow> q \<noteq> p \<Longrightarrow> inst_id (inst_at g' q) = inst_id (inst_at g q)"
proof -
  let ?P = "set (positions g)" and ?old = "inst_id (inst_at g p)"
  let ?rs = "if users g ?old \<noteq> [] then [(?old, InstVal (fresh_id g))] else []"
  have wn: "well_numbered g" "by_blocks dominates bdom g" using g by (auto simp: graph_ok_def blocks_dominate_def)
  note num = well_numberedD [OF wn(1)]
  have all: "renumbered g g' \<and> (\<forall>q \<in> ?P. alloca_or_constant (inst_at g' q) = alloca_or_constant (inst_at g q)) \<and>
    (\<forall>q \<in> ?P. q \<noteq> p \<longrightarrow> op_at g' q = map_operands (moved g g') (op_at g q)) \<and>
    (\<forall>q \<in> ?P. q \<noteq> p \<longrightarrow> inst_id (inst_at g' q) = inst_id (inst_at g q))"
  proof (cases "records_at g p")
    case False
    then have "g' = g" using record_live_plain run by (cases p) (auto simp: records_at_def inst_at_def)
    then show ?thesis using wn(1) by (simp add: renumbered_def map_operands_id)
  next
    case True
    obtain n args where call: "op_at g p = Call (Direct n) args" "n \<in> record_calls" using True by (rule records_call)
    note exact = record_live_exact [OF run p call]
    have own: "\<not> use_at g p p" using g p True by (simp add: graph_ok_def)
    note step = record_step [OF run p wn True own]
    have id: "inst_id (inst_at g' q) = (if q = p then fresh_id g else inst_id (inst_at g q))" if "q \<in> ?P" for q
      using exact(3,5) that by (auto simp: replace_uses_def)
    have ren: "renumbered g g'" using step(1,2) wn(1) exact(1) id by (simp add: renumbered_def)
    have op: "op_at g' q = map_operands (moved g g') (op_at g q)" if q: "q \<in> ?P" "q \<noteq> p" for q
    proof -
      have "replace_value ?rs v = moved g g' v" if v: "v \<in> set (operands (op_at g q))" for v
      proof (cases v)
        case (InstVal i)
        show ?thesis
        proof (cases "i = ?old")
          case True
          then have "inst_id (inst_at g q) \<in> set (users g ?old)" using v q(1) InstVal unfolding users_at by blast
          then show ?thesis using True p wn(1) id [OF p] by (auto simp: InstVal replace_value_one)
        next
          case False
          show ?thesis
          proof (cases "place g i")
            case (Some x)
            then have "x \<in> ?P" "inst_id (inst_at g x) = i" unfolding place_def by (auto dest: find_SomeD)
            then show ?thesis using False id [of x] Some by (auto simp: InstVal replace_value_one moved_def)
          qed (use False in \<open>simp add: InstVal replace_value_one moved_def\<close>)
        qed
      qed (simp_all add: moved_def replace_value_def)
      then have "map_operands (replace_value ?rs) (op_at g q) = map_operands (moved g g') (op_at g q)"
        by (rule map_operands_cong)
      then show ?thesis using exact(5) [OF q] by (simp add: op_at_inst replace_uses_def)
    qed
    have "alloca_or_constant (inst_at g' q) = alloca_or_constant (inst_at g q)" if q: "q \<in> ?P" for q
    proof (cases "q = p")
      case True
      then show ?thesis
        using record_live_type [OF run p] call(1) exact(4) by (simp add: alloca_or_constant_def op_at_inst)
    next
      case False
      have "renaming (replace_value ?rs)" by (rule renaming_small) simp
      then show ?thesis using exact(5) [OF q False] by (simp add: replace_uses_def alloca_or_constant_renamed)
    qed
    then show ?thesis using ren op id by simp
  qed
  then show "renumbered g g'"
    and "q \<in> ?P \<Longrightarrow> q \<noteq> p \<Longrightarrow> inst_id (inst_at g' q) = inst_id (inst_at g q)"
    and "q \<in> ?P \<Longrightarrow> alloca_or_constant (inst_at g' q) = alloca_or_constant (inst_at g q)"
    and "q \<in> ?P \<Longrightarrow> q \<noteq> p \<Longrightarrow> op_at g' q = map_operands (moved g g') (op_at g q)" by blast+
qed

section \<open>All calls\<close>

lemma records_move:
  assumes "fold_res (record_live dominates alloc_size) ps g = Inr g'" and "set ps \<subseteq> set (positions g)"
    and "graph_ok dominates bdom g"
  shows "renumbered g g' \<and>
    (\<forall>q \<in> set (positions g). alloca_or_constant (inst_at g' q) = alloca_or_constant (inst_at g q)) \<and>
    (\<forall>q \<in> set (positions g). q \<notin> set ps \<longrightarrow> op_at g' q = map_operands (moved g g') (op_at g q))"
  using assms
proof (induction ps arbitrary: g)
  case Nil
  then show ?case by (simp add: renumbered_def graph_ok_def map_operands_id)
next
  case (Cons p ps)
  obtain g1 where g1: "record_live dominates alloc_size p g = Inr g1" "fold_res (record_live dominates alloc_size) ps g1 = Inr g'"
    using Cons.prems(1) by (auto simp: bind_res_Inr_iff)
  have p: "p \<in> set (positions g)" "set ps \<subseteq> set (positions g)" using Cons.prems(2) by auto
  note graph = record_graph_step [OF g1(1) p(1) Cons.prems(3)] and step = record_moves [OF g1(1) p(1) Cons.prems(3)]
  have wn: "well_numbered g" using Cons.prems(3) by (simp add: graph_ok_def)
  note IH = Cons.IH [OF g1(2) _ graph(1), unfolded graph(2), OF p(2)]
  have "op_at g' q = map_operands (moved g g') (op_at g q)" if q: "q \<in> set (positions g)" "q \<notin> set (p # ps)" for q
  proof -
    have "op_at g' q = map_operands (\<lambda>v. moved g1 g' (moved g g1 v)) (op_at g q)"
      using IH q step(3) by (simp add: map_operands_comp)
    also have "\<dots> = map_operands (moved g g') (op_at g q)"
      by (rule map_operands_cong) (rule moved_moved [OF step(1) small_operands_at [OF wn q(1)]])
    finally show ?thesis .
  qed
  moreover have "renumbered g g'" using IH step(1) renumbered_trans by blast
  moreover have "\<forall>q \<in> set (positions g). alloca_or_constant (inst_at g' q) = alloca_or_constant (inst_at g q)"
    using IH step(2) by simp
  ultimately show ?case by blast
qed

text \<open>A result that no call but \<open>p\<close> was renamed to keeps its name.\<close>

lemma moved_other:
  assumes "\<And>q. q \<in> set (positions g) \<Longrightarrow> q \<noteq> p \<Longrightarrow> inst_id (inst_at g' q) = inst_id (inst_at g q)"
    and "v \<noteq> InstVal (inst_id (inst_at g p))"
  shows "moved g g' v = v"
proof (cases v)
  case (InstVal i)
  show ?thesis
  proof (cases "place g i")
    case (Some q)
    then have "q \<in> set (positions g)" "inst_id (inst_at g q) = i" unfolding place_def by (auto dest: find_SomeD)
    then show ?thesis using assms(1) [of q] assms(2) by (auto simp: moved_def InstVal Some)
  qed (simp add: moved_def InstVal)
qed simp_all

lemma not_live_here:
  assumes "graph_ok dominates bdom g" and "p \<in> set (positions g)"
  shows "InstVal (inst_id (inst_at g p)) \<notin> set (flat (live_pairs dominates alloc_size g (inst_id (inst_at g (anchor_at g p))) (concat (body g))))"
proof
  have wn: "well_numbered g" "by_blocks dominates bdom g" using assms(1) by (auto simp: graph_ok_def blocks_dominate_def)
  assume "InstVal (inst_id (inst_at g p)) \<in> set (flat (live_pairs dominates alloc_size g (inst_id (inst_at g (anchor_at g p))) (concat (body g))))"
  then obtain q where "q \<in> set (positions g)" "inst_id (inst_at g q) = inst_id (inst_at g p)"
    "is_live dominates g (inst_id (inst_at g (anchor_at g p))) (inst_at g q)"
    unfolding getLiveRegisters_pairs [symmetric] live_registers_values by (auto simp: concat_positions)
  then show False
    using is_live_at [OF wn assms(2) anchor_in [OF assms(2)]] well_numberedD(1) [OF wn(1) _ assms(2)] anchor_before
    by (auto simp: live_in_def)
qed

text \<open>The values live at a position, under the names they have at the end, with their sizes.\<close>

definition values_live :: "(nat \<Rightarrow> nat \<Rightarrow> bool) \<Rightarrow> (ir_type \<Rightarrow> u64) \<Rightarrow> ir_fun \<Rightarrow> ir_fun \<Rightarrow>
    (nat \<times> nat \<Rightarrow> nat \<times> nat \<Rightarrow> bool) \<Rightarrow> nat \<times> nat \<Rightarrow> (ir_value \<times> u64) list" where
  "values_live bdom alloc_size f f' U a = concat (map (\<lambda>q.
     if live_in bdom (set (positions f)) U q a then [(InstVal (inst_id (inst_at f' q)), live_size alloc_size (inst_at f q))]
     else case op_at f q of
       Return (Some v) \<Rightarrow> if is_constant v then [(v, alloc_size (value_type v))] else []
     | _ \<Rightarrow> []) (positions f))"

lemma live_size_cong: "alloca_or_constant it' = alloca_or_constant it \<Longrightarrow> live_size alloc_size it' = live_size alloc_size it"
  by (auto simp: alloca_or_constant_def live_size_def split: operation.splits)

lemma live_pairs_moved:
  assumes g: "graph_ok dominates bdom g" and ren: "renumbered g g'" and pos: "positions g = positions f"
    and same: "\<forall>q \<in> set (positions f). alloca_or_constant (inst_at g q) = alloca_or_constant (inst_at f q)"
    and uses: "same_uses (set (positions f)) (use_at g) U" and a: "a \<in> set (positions f)"
  shows "map (\<lambda>(v, s). (moved g g' v, s)) (live_pairs dominates alloc_size g (inst_id (inst_at g a)) (concat (body g))) =
    values_live bdom alloc_size f g' U a"
proof -
  let ?P = "set (positions f)" and ?at = "inst_id (inst_at g a)"
  have wn: "well_numbered g" "by_blocks dominates bdom g" "returns_unused g" using g by (auto simp: graph_ok_def blocks_dominate_def)
  let ?one = "\<lambda>it. if is_live dominates g ?at it then [(InstVal (inst_id it), live_size alloc_size it)]
     else case returned_constant dominates g ?at it of Some v \<Rightarrow> [(v, alloc_size (value_type v))] | None \<Rightarrow> []"
  let ?two = "\<lambda>q. if live_in bdom ?P U q a then [(InstVal (inst_id (inst_at g' q)), live_size alloc_size (inst_at f q))]
     else case op_at f q of Return (Some v) \<Rightarrow> if is_constant v then [(v, alloc_size (value_type v))] else [] | _ \<Rightarrow> []"
  have one: "map (\<lambda>(v, s). (moved g g' v, s)) (?one (inst_at g q)) = ?two q" if q: "q \<in> ?P" for q
  proof -
    have live: "is_live dominates g ?at (inst_at g q) \<longleftrightarrow> live_in bdom ?P U q a"
      using is_live_at [OF wn(1,2), of q a] same_uses_live [OF uses q] q a by (simp add: pos)
    have eq: "alloca_or_constant (inst_at g q) = alloca_or_constant (inst_at f q)" using same q by blast
    have "returned_constant dominates g ?at (inst_at g q) =
      (case op_at f q of Return (Some v) \<Rightarrow> if is_constant v then Some v else None | _ \<Rightarrow> None)"
    proof -
      have "(case op_at g q of Return (Some v) \<Rightarrow> if is_constant v then Some v else None | _ \<Rightarrow> None) =
          (case op_at f q of Return (Some v) \<Rightarrow> if is_constant v then Some v else None | _ \<Rightarrow> None)"
        using eq by (simp add: alloca_or_constant_def op_at_inst)
      moreover have "users g (inst_id (inst_at g q)) = []" if "returns_constant (op_at g q)"
        using wn(3) q that unfolding set_empty [symmetric] users_at returns_unused_def use_at_def pos by blast
      ultimately show ?thesis
        by (auto simp: returned_constant_def returns_constant_def op_at_inst split: operation.splits option.splits if_splits)
    qed
    moreover have "moved g g' (InstVal (inst_id (inst_at g q))) = InstVal (inst_id (inst_at g' q))"
      using wn(1) q pos by simp
    ultimately show ?thesis
      using live live_size_cong [OF eq, of alloc_size] by (auto split: operation.split option.split)
  qed
  have "map (\<lambda>(v, s). (moved g g' v, s)) (concat (map ?one (map (inst_at g) (positions f)))) =
      concat (map (\<lambda>q. map (\<lambda>(v, s). (moved g g' v, s)) (?one (inst_at g q))) (positions f))"
    unfolding map_concat list.map_comp comp_def ..
  also have "\<dots> = concat (map ?two (positions f))" by (intro arg_cong [of _ _ concat] map_cong refl one)
  finally show ?thesis unfolding live_pairs_def concat_positions pos values_live_def .
qed

text \<open>
  A call has the arguments it had and what is live at its anchor, where the values that earlier
  calls record count as used by them.
\<close>

definition uses_before :: "(nat \<Rightarrow> nat \<Rightarrow> bool) \<Rightarrow> ir_fun \<Rightarrow> nat \<Rightarrow> nat \<times> nat \<Rightarrow> nat \<times> nat \<Rightarrow> bool" where
  "uses_before bdom f j =
     live_graph bdom (set (positions f)) (anchor_at f) (filter (records_at f) (take j (positions f))) (use_at f)"

lemma live_variables_exact:
  assumes run: "live_variables_function dominates alloc_size f = Inr f'" and f: "graph_ok dominates bdom f"
    and j: "j < length (positions f)" "positions f ! j = p"
    and call: "op_at f p = Call (Direct n) args" "n \<in> record_calls"
  shows "op_at f' p = Call (Direct n) (map (moved f f') args @
    flat (values_live bdom alloc_size f f' (uses_before bdom f j) (anchor_at f p)))"
proof -
  let ?P = "set (positions f)" and ?ps = "take j (positions f)" and ?qs = "drop (Suc j) (positions f)"
  have split: "positions f = ?ps @ p # ?qs" using id_take_nth_drop [OF j(1)] j(2) by simp
  then have "fold_res (record_live dominates alloc_size) (?ps @ p # ?qs) f = Inr f'"
    using run by (simp add: live_variables_function_def)
  then obtain g g1 where g: "fold_res (record_live dominates alloc_size) ?ps f = Inr g"
    and g1: "record_live dominates alloc_size p g = Inr g1"
    and rest: "fold_res (record_live dominates alloc_size) ?qs g1 = Inr f'"
    by (auto simp: fold_res_append bind_res_Inr_iff)
  have "distinct (?ps @ p # ?qs)" using distinct_positions [of f] split by simp
  then have notin: "p \<notin> set ?ps" "p \<notin> set ?qs" by auto
  have p: "p \<in> ?P" using j by auto
  note first = records_move [OF g set_take_subset f] and graph = record_graph [OF g set_take_subset f]
  have g_ok: "graph_ok dominates bdom g" and pos: "positions g = positions f" using graph by auto
  have pg: "p \<in> set (positions g)" using p pos by simp
  have "records_at f p" using call by (auto simp: records_at_def no_intrinsic_def op_at_inst)
  note second = record_moves [OF g1 pg g_ok] and graph1 = record_graph_step [OF g1 pg g_ok]
  have "set ?qs \<subseteq> set (positions g1)" using graph1(2) pos set_drop_subset by metis
  note third = records_move [OF rest this graph1(1)]
  have wn: "well_numbered f" "well_numbered g" using f g_ok by (auto simp: graph_ok_def)
  let ?a = "inst_id (inst_at g (anchor_at f p))" and ?live = "\<lambda>at. live_pairs dominates alloc_size g at (concat (body g))"
  have opg: "op_at g p = Call (Direct n) (map (moved f g) args)" using first p notin(1) call(1) by simp
  have "anchor_at g p = anchor_at f p" using graph p by simp
  then have opg1: "op_at g1 p = Call (Direct n) (map (moved f g) args @ flat (?live ?a))"
    using record_live_own [OF g1 pg opg] call(2) live_anchor_at [OF opg] by (simp add: getLiveRegisters_pairs)
  let ?vs = "map (moved f g) args @ flat (?live ?a)"
  have own: "InstVal (inst_id (inst_at g p)) \<notin> set ?vs"
  proof -
    have "records_at g p" using graph \<open>records_at f p\<close> p by simp
    then have "\<not> use_at g p p" using g_ok pg by (simp add: graph_ok_def)
    then show ?thesis
      using not_live_here [OF g_ok pg, of alloc_size] \<open>anchor_at g p = anchor_at f p\<close> by (simp add: use_at_def opg)
  qed
  have small: "small_operands g ?vs"
  proof -
    have "small_operands g (operands (op_at g p))" by (rule small_operands_at [OF wn(2) pg])
    moreover have "i < fresh_id g" if "InstVal i \<in> set (flat (?live ?a))" for i
      using that well_numberedD(2) [OF wn(2)]
      unfolding getLiveRegisters_pairs [symmetric] live_registers_values by (auto simp: concat_positions)
    ultimately show ?thesis by (auto simp: small_operands_def opg)
  qed
  have late: "moved g1 f' v = moved g f' v" if v: "v \<in> set ?vs" for v
  proof -
    have "v \<noteq> InstVal (inst_id (inst_at g p))" using own v by auto
    then have "moved g g1 v = v" by (rule moved_other [where p = p, rotated]) (rule second(4))
    then show ?thesis using moved_moved [OF second(1) small v, of f'] by simp
  qed
  have "op_at f' p = map_operands (moved g1 f') (op_at g1 p)" using third graph1(2) pg notin(2) by simp
  also have "\<dots> = Call (Direct n) (map (moved g1 f') ?vs)" by (simp add: opg1)
  also have "map (moved g1 f') ?vs = map (moved g f') ?vs" by (rule map_cong [OF refl late])
  also have "\<dots> = map (\<lambda>v. moved g f' (moved f g v)) args @ flat (map (\<lambda>(v, s). (moved g f' v, s)) (?live ?a))"
    by (simp add: map_flat [OF renaming_moved])
  also have "map (\<lambda>v. moved g f' (moved f g v)) args = map (moved f f') args"
  proof (rule map_cong [OF refl])
    fix v assume v: "v \<in> set args"
    have "small_operands f args" using small_operands_at [OF wn(1) p] by (simp add: call(1))
    then show "moved g f' (moved f g v) = moved f f' v" using moved_moved v first by blast
  qed
  also have "map (\<lambda>(v, s). (moved g f' v, s)) (?live ?a) = values_live bdom alloc_size f f' (uses_before bdom f j) (anchor_at f p)"
  proof (rule live_pairs_moved [OF g_ok _ pos])
    show "renumbered g f'" using second(1) third renumbered_trans by blast
    show "\<forall>q \<in> ?P. alloca_or_constant (inst_at g q) = alloca_or_constant (inst_at f q)" using first by blast
    show "same_uses ?P (use_at g) (uses_before bdom f j)" using graph by (simp add: uses_before_def)
    show "anchor_at f p \<in> ?P" using p by (rule anchor_in)
  qed
  finally show ?thesis .
qed

end
