(* ===== verification/Pass_Properties.thy ===== *)
theory Pass_Properties
  imports Marks Pipeline Barrier_Functions Live_Records
begin

unbundle bit_operations_syntax

text \<open>
  The properties of the compiler passes: the identifiers of a function and of its
  unoptimized copy, what the unoptimized functions call, which values calls record, and how
  blocks are split. Each is followed by an instance on a small module.
\<close>

section \<open>A module\<close>

definition ex_fun :: "string \<Rightarrow> ir_type \<Rightarrow> inst list list \<Rightarrow> nat \<Rightarrow> ir_fun" where
  "ex_fun n t bs k = \<lparr>fun_name = n, ret_type = t, is_declaration = False, available_externally = False,
     no_inline = False, optimize_none = False, body = bs, fresh_id = k\<rparr>"

definition ex_inst :: "nat \<Rightarrow> ir_type \<Rightarrow> operation \<Rightarrow> inst" where
  "ex_inst i t x = \<lparr>inst_id = i, inst_type = t, inst_op = x\<rparr>"

text \<open>\<open>int more_indirection()\<close>, and \<open>main\<close>, which calls it twice and returns the second result.\<close>

definition ex_leaf :: ir_fun where
  "ex_leaf = ex_fun ''more_indirection'' (IntTy 32) [[ex_inst 0 VoidTy (Return (Some (I32 5)))]] 1"

definition ex_caller :: ir_fun where
  "ex_caller = ex_fun ''main'' (IntTy 32)
     [[ex_inst 0 (IntTy 32) (Call (Direct ''more_indirection'') []),
       ex_inst 1 (IntTy 32) (Call (Direct ''more_indirection'') [InstVal 0]),
       ex_inst 2 VoidTy (Return (Some (InstVal 1)))]] 3"

definition ex_md :: ir_module where
  "ex_md = declare_guard [ex_leaf, ex_caller]"

definition ex_uniq :: "string list \<Rightarrow> string \<Rightarrow> string" where
  "ex_uniq used n = n @ ''.1''"

definition ex_md2 :: ir_module where
  "ex_md2 = ex_md @ map plain_copy [ex_leaf, ex_caller]"

definition ex_ids :: stack_maps where
  "ex_ids = [(''more_indirection'', [1]), (''main'', [3, 4]),
     (''__unopt_more_indirection'', [- 2]), (''__unopt_main'', [- 4, - 5])]"

definition ex_dominates :: "ir_fun \<Rightarrow> nat \<Rightarrow> nat \<Rightarrow> bool" where
  "ex_dominates f i j \<longleftrightarrow> i \<in> set (takeWhile (\<lambda>k. k \<noteq> j) (map inst_id (concat (body f))))"

fun ex_size :: "ir_type \<Rightarrow> u64" where
  "ex_size (IntTy w) = of_nat (w div 8)"
| "ex_size t = 8"

lemma ex_md_source: "plain_module [ex_leaf, ex_caller]" "guard_fun_name \<notin> set (map fun_name [ex_leaf, ex_caller])"
  "list_all (\<lambda>f. list_all (list_all no_intrinsic) (body f)) [ex_leaf, ex_caller]"
  "add_unopt_copies ex_uniq (declare_guard [ex_leaf, ex_caller]) = Inr ex_md2"
  "site_counts ex_md2 (declare_guard [ex_leaf, ex_caller]) = [(''more_indirection'', 1), (''main'', 2)]"
  by code_simp+

lemma ex_md_fits: "next_base 1 (site_counts ex_md2 (declare_guard [ex_leaf, ex_caller])) \<le> 2 ^ 63"
  by (simp add: ex_md_source(5))

text \<open>The functions are compiled, and the static map is \<open>ex_ids\<close> at the end.\<close>

lemma ex_md_run: "\<exists>out. module_passes ex_dominates ex_size ex_uniq [ex_leaf, ex_caller] = Inr (out, ex_ids)"
proof -
  have "(case mapfold_res (function_passes (later_passes ex_dominates ex_size ex_md2) ex_md2) ex_md2 [] of
      Inr (out, sms) \<Rightarrow> sms = ex_ids | Inl e \<Rightarrow> False)" by code_simp
  then show ?thesis by (auto simp: module_passes_def ex_md_source(4) split: sum.splits)
qed

section \<open>Identifiers\<close>

text \<open>C8: The identifiers of a compiled module whose functions have distinct names and bodies of their own:
  after all function passes a function records consecutive identifiers, one for each guard
  and each call of a function with a body; its copy records their complements at the same
  sites; and no identifier occurs twice in the module.\<close>

theorem module_twin_ids:
  assumes "plain_module md" and "guard_fun_name \<notin> set (map fun_name md)"
    and "list_all (\<lambda>f. list_all (list_all no_intrinsic) (body f)) md"
    and "add_unopt_copies uniq (declare_guard md) = Inr md2"
    and "next_base 1 (site_counts md2 (declare_guard md)) \<le> 2 ^ 63"
    and "module_passes dominates alloc_size uniq md = Inr (out, sms)"
    and "f \<in> set md" and "\<not> is_declaration f"
    and "f' \<in> set out" and "fun_name f' = fun_name f" and "u' \<in> set out" and "fun_name u' = unopt_prefix @ fun_name f"
  shows "(\<exists>b. ppids (concat (body f')) = map of_nat [b..<b + sites_in md2 (fun_name f) (body f)]) \<and>
    ppids (concat (body u')) = map (\<lambda>i. NOT i) (ppids (concat (body f'))) \<and>
    distinct (concat (map (\<lambda>g. ppids (concat (body g))) out))"
  using module_passes_twins [OF assms] module_passes_ids(3) [OF assms(1-6)] by blast

theorem module_twin_ids_witness:
  "\<exists>out f' u'. module_passes ex_dominates ex_size ex_uniq [ex_leaf, ex_caller] = Inr (out, ex_ids) \<and> f' \<in> set out \<and> u' \<in> set out \<and>
    fun_name f' = ''main'' \<and> fun_name u' = ''__unopt_main'' \<and>
    ppids (concat (body u')) = map (\<lambda>i. NOT i) (ppids (concat (body f')))"
proof -
  obtain out where run: "module_passes ex_dominates ex_size ex_uniq [ex_leaf, ex_caller] = Inr (out, ex_ids)"
    using ex_md_run by blast
  have names: "map fun_name out = map fun_name ex_md2"
    using module_passes_ids(2) [OF ex_md_source(1-4) ex_md_fits run] by (auto simp: list_all2_conv_all_nth intro: nth_equalityI)
  have "''main'' \<in> set (map fun_name ex_md2)" "''__unopt_main'' \<in> set (map fun_name ex_md2)" by code_simp+
  then obtain f' u' where f': "f' \<in> set out" "fun_name f' = ''main''" and u': "u' \<in> set out" "fun_name u' = ''__unopt_main''"
    unfolding names [symmetric] by auto
  have f: "ex_caller \<in> set [ex_leaf, ex_caller]" "\<not> is_declaration ex_caller" "fun_name ex_caller = ''main''"
    by (simp_all add: ex_caller_def ex_fun_def)
  have n: "fun_name f' = fun_name ex_caller" "fun_name u' = unopt_prefix @ fun_name ex_caller"
    using f'(2) u'(2) f(3) by (simp_all add: unopt_prefix_def)
  show ?thesis using module_twin_ids [OF ex_md_source(1-4) ex_md_fits run f(1,2) f'(1) n(1) u'(1) n(2)] run f' u' by blast
qed

text \<open>C23: In every state of the static map that requests lead to, each function is listed once and with
  identifiers, so that taking the last identifier is safe; and a request succeeds unless the
  twin of the function has identifiers, but no more of them than the function itself. Then
  the code reads past the end of the vector.\<close>

theorem id_requests_safe:
  assumes "ids_reachable sms"
  shows "maps_ok sms \<and> (\<exists>i. max_last_id sms = Inr i) \<and>
    ((\<exists>sms' i. getNextPatchpointID f sms = Inr (sms', i)) \<longleftrightarrow>
      (\<forall>ids. map_of sms (getTwinName f) = Some ids \<longrightarrow> length (ids_of sms f) < length ids))"
  using ids_reachable_ok [OF assms] next_id_defined [OF assms, of f] max_last_id_defined [of sms]
  by (simp add: maps_ok_def)

theorem id_requests_safe_witness:
  "(\<exists>sms' i. getNextPatchpointID ''__unopt_f'' [(''f'', [1 :: u64])] = Inr (sms', i)) \<and>
   \<not> (\<exists>sms' i. getNextPatchpointID ''f'' [(''f'', [1 :: u64]), (''__unopt_f'', [- 2])] = Inr (sms', i))"
proof -
  have "getNextPatchpointID ''f'' [] = Inr ([(''f'', [1])], 1)"
    "getNextPatchpointID ''__unopt_f'' [(''f'', [1])] = Inr ([(''f'', [1]), (''__unopt_f'', [- 2])], - 2)"
    by code_simp+
  then have r: "ids_reachable [(''f'', [1])]" "ids_reachable [(''f'', [1]), (''__unopt_f'', [- 2])]"
    using no_ids next_id by blast+
  have t: "getTwinName ''f'' = ''__unopt_f''" "getTwinName ''__unopt_f'' = ''f''" by code_simp+
  show ?thesis
    using id_requests_safe [OF r(1), of "''__unopt_f''"] id_requests_safe [OF r(2), of "''f''"] t
    by (simp add: ids_of_def)
qed



section \<open>Copies\<close>

text \<open>C29: Cloning ends although the loop runs over the list it appends to: a module whose functions have
  distinct names and are no copies keeps them, in order, and gets behind them a copy of each
  function with a body, and no copy of a copy.\<close>

theorem copies_added_once:
  assumes "distinct (map fun_name md)" and "list_all (\<lambda>f. \<not> is_unopt (fun_name f)) md"
  shows "add_unopt_copies uniq md = Inr (md @ map (\<lambda>f. f\<lparr>fun_name := unopt_prefix @ fun_name f,
      no_inline := True, optimize_none := True\<rparr>) (filter to_copy md)) \<and>
    distinct (map fun_name (md @ map plain_copy (filter to_copy md)))"
proof -
  have "plain_copy = (\<lambda>f. f\<lparr>fun_name := unopt_prefix @ fun_name f, no_inline := True, optimize_none := True\<rparr>)"
    by (rule ext) (simp add: plain_copy_def)
  then show ?thesis using add_unopt_copies_plain [OF assms, of uniq] copies_distinct [OF assms] by simp
qed

theorem copies_added_once_witness:
  "\<exists>md2. add_unopt_copies ex_uniq ex_md = Inr md2 \<and>
    map fun_name md2 = [''more_indirection'', ''main'', ''__guard_failure'', ''__unopt_more_indirection'', ''__unopt_main'']"
proof -
  have "distinct (map fun_name ex_md)" "list_all (\<lambda>f. \<not> is_unopt (fun_name f)) ex_md" by code_simp+
  note copied = copies_added_once [OF this, of ex_uniq, THEN conjunct1]
  have "map fun_name (ex_md @ map (\<lambda>f. f\<lparr>fun_name := unopt_prefix @ fun_name f,
      no_inline := True, optimize_none := True\<rparr>) (filter to_copy ex_md)) =
    [''more_indirection'', ''main'', ''__guard_failure'', ''__unopt_more_indirection'', ''__unopt_main'']"
    by (simp add: ex_md_def declare_guard_def ex_leaf_def ex_caller_def ex_fun_def to_copy_def is_unopt_def
        unopt_prefix_def guard_fun_name_def)
  with copied show ?thesis by (metis (no_types))
qed

text \<open>\<open>CheckPointPass\<close> leaves an unoptimized function without direct calls of functions with a
  body and with unoptimized callbacks only, so the redirection of callbacks in
  \<open>UnoptimizedCopyPass\<close>, run on its result in any module, succeeds and changes nothing.\<close>

theorem unopt_functions_settled:
  assumes "is_unopt (fun_name f)" and "intrinsics_declared md" and "list_all (list_all no_intrinsic) (body f)"
    and "checkpoint_function md f sms = Inr (f', sms')"
  shows "list_all (list_all (settled md)) (body f') \<and> redirect_function md' f' = Inr f'"
  using checkpoint_function_settled [OF assms(4,1-3)] redirect_settled by blast

theorem unopt_functions_settled_witness:
  "\<exists>f' sms'. checkpoint_function ex_md2 (plain_copy ex_caller)
      [(''more_indirection'', [1]), (''main'', [3, 4]), (''__unopt_more_indirection'', [- 2])] = Inr (f', sms') \<and>
    list_all (list_all (settled ex_md2)) (body f') \<and> redirect_function ex_md2 f' = Inr f'"
proof -
  let ?sms = "[(''more_indirection'', [1]), (''main'', [3, 4]), (''__unopt_more_indirection'', [- 2])] :: stack_maps"
  have "(case checkpoint_function ex_md2 (plain_copy ex_caller) ?sms of Inr r \<Rightarrow> True | Inl e \<Rightarrow> False)" by code_simp
  then obtain f' sms' where run: "checkpoint_function ex_md2 (plain_copy ex_caller) ?sms = Inr (f', sms')"
    by (auto split: sum.splits)
  have "is_unopt (fun_name (plain_copy ex_caller))" "intrinsics_declared ex_md2"
    "list_all (list_all no_intrinsic) (body (plain_copy ex_caller))" by code_simp+
  then show ?thesis using unopt_functions_settled [OF _ _ _ run, of ex_md2] run by blast
qed

section \<open>Live values\<close>


definition ex_order :: "ir_fun \<Rightarrow> nat \<Rightarrow> nat \<Rightarrow> bool" where
  "ex_order g i j = (case (place g i, place g j) of (Some p, Some q) \<Rightarrow> before (<) p q | _ \<Rightarrow> False)"

text \<open>An object, a call of a number through a \<open>patchpoint\<close>, a \<open>stackmap\<close> behind it, and uses of both.\<close>

definition ex_live :: ir_fun where
  "ex_live = ex_fun ''main'' (IntTy 32)
     [[ex_inst 0 (PtrTo (IntTy 32)) (Alloca (IntTy 32)),
       ex_inst 1 (IntTy 64) (Call (Direct patchpoint_i64_name) [I64 2, I32 13, InstVal 0]),
       ex_inst 2 VoidTy (Call (Direct stackmap_name) [I64 3, I32 13, InstVal 1]),
       ex_inst 3 VoidTy (Other 0 [InstVal 0, InstVal 1]),
       ex_inst 4 VoidTy (Return (Some (I32 0)))]] 5"

lemma ex_live_graph: "graph_ok ex_order (<) ex_live"
proof -
  have "well_numbered ex_live" "returns_unused ex_live"
    "\<forall>p \<in> set (positions ex_live). records_at ex_live p \<longrightarrow> \<not> use_at ex_live p p" by code_simp+
  then show ?thesis by (simp add: graph_ok_def blocks_dominate_def by_blocks_def ex_order_def)
qed


section \<open>Barriers\<close>

text \<open>C25: \<open>BarrierPass\<close> keeps the instructions of a block and their order; the parts it cuts the
  block into are chained by branches; every \<open>asm\<close> and every instruction behind a call that
  produces stack map records is the first of a part; and there are no other cuts than one
  before each such \<open>asm\<close> that is not first, and one behind each such call that is not last.\<close>

theorem barriers_split:
  assumes "barrier_block l n (lb, its) = Inr bs" and "list_all (\<lambda>x. inst_id x < n) its"
  shows "contents n bs = its \<and> linked bs \<and> (\<forall>i < length its. starts_part its i \<longrightarrow> inst_id (its ! i) \<in> heads bs) \<and>
    length bs = 1 + length (filter (\<lambda>x. isInlineAsm (inst_op x)) (tl its)) + length (filter makes_record (butlast its))"
  using barrier_block_ok [OF assms] by blast

definition ex_block :: "inst list" where
  "ex_block = [ex_inst 0 VoidTy (Other 0 []), ex_inst 1 VoidTy (Call (AsmText []) []),
     ex_inst 2 VoidTy (Call (Direct ''get_number'') []), ex_inst 3 VoidTy (Call (Direct stackmap_name) [I64 3, I32 13]),
     ex_inst 4 VoidTy (Return None)]"

theorem barriers_split_witness:
  "\<exists>bs. barrier_block 10 20 (0, ex_block) = Inr bs \<and> contents 20 bs = ex_block \<and> linked bs \<and>
    length bs = 3 \<and> {1, 4} \<subseteq> heads bs"
proof -
  have "(case barrier_block 10 20 (0, ex_block) of Inr r \<Rightarrow> True | Inl e \<Rightarrow> False)" by code_simp
  then obtain bs where run: "barrier_block 10 20 (0, ex_block) = Inr bs" by (auto split: sum.splits)
  have fresh: "list_all (\<lambda>x. inst_id x < 20) ex_block"
    and parts: "1 < length ex_block" "4 < length ex_block" "starts_part ex_block 1" "starts_part ex_block 4"
      "inst_id (ex_block ! 1) = 1" "inst_id (ex_block ! 4) = 4"
      "length (filter (\<lambda>x. isInlineAsm (inst_op x)) (tl ex_block)) = 1" "length (filter makes_record (butlast ex_block)) = 1"
    by code_simp+
  note split = barriers_split [OF run fresh, THEN conjunct2, THEN conjunct2]
  have "1 \<in> heads bs" "4 \<in> heads bs" using split parts(1-6) by (metis, metis)
  then show ?thesis using barriers_split [OF run fresh] parts(7,8) run by simp
qed

text \<open>C26: When no call of a function goes through a value, the visits of \<open>BarrierPass\<close> to its blocks, the
  parts of blocks cut before included, end. Each block has become a chain of blocks with labels of
  their own, which starts at its label, ends with its last instruction and holds its instructions
  in their order; and call sites are alone: in no block an \<open>asm\<close> has an instruction before it, and
  nothing but a branch follows a call that makes a record.\<close>

theorem barrier_function_separates:
  assumes "fresh_ids n bs" and "fresh_labels l bs" and "list_all (\<lambda>b. list_all calls_named (snd b)) bs"
  shows "\<exists>css. barrier_function l n bs = Inr (concat css) \<and> distinct (map fst (concat css)) \<and>
    list_all2 (\<lambda>b cs. fst (hd cs) = fst b \<and> linked cs \<and> ends_as (snd b) cs \<and> contents n cs = snd b) bs css \<and>
    (\<forall>c \<in> set (concat css). separated (snd c))"
proof -
  obtain css where css: "barrier_function l n bs = Inr (concat css)" "list_all2 (chain n) bs css"
    by (rule barrier_function_chains [OF assms(1,3)])
  have "list_all2 (\<lambda>b cs. fst (hd cs) = fst b \<and> linked cs \<and> ends_as (snd b) cs \<and> contents n cs = snd b) bs css"
    by (rule list.rel_mono_strong [OF css(2)]) (rule chain_all [OF assms(1)])
  moreover have "distinct (map fst (concat css))"
    using visits_labels [OF css(1) [unfolded barrier_function_def]] assms(2) by simp
  ultimately show ?thesis using css chain_separated by blast
qed

definition ex_tail :: "inst list" where
  "ex_tail = [ex_inst 5 (IntTy 32) (Call (Direct ''get_number'') []), ex_inst 6 VoidTy (Call (Direct stackmap_name) [I64 4, I32 13]),
     ex_inst 7 VoidTy (Call (AsmText []) []), ex_inst 8 VoidTy (Return None)]"

theorem barrier_function_separates_witness:
  "\<exists>cs ds. barrier_function 10 20 [(0, ex_block), (1, ex_tail)] = Inr (cs @ ds) \<and> distinct (map fst (cs @ ds)) \<and>
    contents 20 cs = ex_block \<and> contents 20 ds = ex_tail \<and> linked cs \<and> linked ds \<and> (\<forall>c \<in> set (cs @ ds). separated (snd c))"
proof -
  have h: "fresh_ids 20 [(0, ex_block), (1, ex_tail)]" "fresh_labels 10 [(0, ex_block), (1, ex_tail)]"
    "list_all (\<lambda>b. list_all calls_named (snd b)) [(0, ex_block), (1, ex_tail)]"
    by code_simp+
  from barrier_function_separates [OF h] obtain css where css: "barrier_function 10 20 [(0, ex_block), (1, ex_tail)] = Inr (concat css)"
    "distinct (map fst (concat css))" "\<forall>c \<in> set (concat css). separated (snd c)"
    "list_all2 (\<lambda>b cs. fst (hd cs) = fst b \<and> linked cs \<and> ends_as (snd b) cs \<and> contents 20 cs = snd b) [(0, ex_block), (1, ex_tail)] css"
    by blast
  from css(4) obtain cs ds where "css = [cs, ds]" and parts: "linked cs" "contents 20 cs = ex_block" "linked ds" "contents 20 ds = ex_tail"
    by (auto simp: list_all2_Cons1)
  then show ?thesis using css(1-3) by (intro exI [of _ cs] exI [of _ ds]) simp
qed

end
