(* ===== verification/Resources.thy ===== *)
theory Resources
  imports Prelude "HOL-Library.Multiset"
begin

text \<open>
  What the runtime takes from the C library and the operating system and has to give back:
  blocks of \<open>malloc\<close>, \<open>calloc\<close> and \<open>realloc\<close>, mappings of \<open>mmap\<close>, and open files. The
  heap is the set of what is held, and a counter that gives every new resource a number
  of its own. Giving back something that is not held is \<open>BadFree\<close>, so a second \<open>free\<close> of
  the same block is an error. The contents of blocks are not here: the definitions that
  use this theory run the operations of the other theories for their values.

  \<open>triple R c Q\<close> says that \<open>c\<close>, run when exactly \<open>R\<close> is held besides anything else, succeeds
  and leaves the rest alone, with \<open>Q\<close> of its value and of what is held then. The rules
  follow the structure of the code. The locale \<open>balanced\<close> is the contract of operations
  that give back everything they take.
\<close>

section \<open>The heap\<close>

datatype resource = Block nat | Mapping nat | File nat

primrec number :: "resource \<Rightarrow> nat" where
  "number (Block n) = n"
| "number (Mapping n) = n"
| "number (File n) = n"

record heap =
  live :: "resource set"
  next_number :: nat

type_synonym 'a heap_res = "heap \<Rightarrow> ('a \<times> heap) res"

definition return_h :: "'a \<Rightarrow> 'a heap_res" where
  "return_h x h = Inr (x, h)"

definition lift_h :: "'a res \<Rightarrow> 'a heap_res" where
  "lift_h r h = bind_res r (\<lambda>x. Inr (x, h))"

definition bind_h :: "'a heap_res \<Rightarrow> ('a \<Rightarrow> 'b heap_res) \<Rightarrow> 'b heap_res" where
  "bind_h c f h = bind_res (c h) (\<lambda>(x, h). f x h)"

fun fold_h :: "('a \<Rightarrow> 's \<Rightarrow> 's heap_res) \<Rightarrow> 'a list \<Rightarrow> 's \<Rightarrow> 's heap_res" where
  "fold_h f [] s = return_h s"
| "fold_h f (x # xs) s = bind_h (f x s) (fold_h f xs)"

fun find_h :: "('a \<Rightarrow> bool heap_res) \<Rightarrow> 'a list \<Rightarrow> 'a option heap_res" where
  "find_h p [] = return_h None"
| "find_h p (x # xs) = bind_h (p x) (\<lambda>b. if b then return_h (Some x) else find_h p xs)"

fun find_map_h :: "('a \<Rightarrow> 'b option heap_res) \<Rightarrow> 'a list \<Rightarrow> 'b option heap_res" where
  "find_map_h f [] = return_h None"
| "find_map_h f (x # xs) =
     bind_h (f x) (\<lambda>r. case r of None \<Rightarrow> find_map_h f xs | Some y \<Rightarrow> return_h (Some y))"

definition acquire :: "(nat \<Rightarrow> resource) \<Rightarrow> resource heap_res" where
  "acquire kind h =
     (let r = kind (next_number h)
      in Inr (r, h\<lparr>live := insert r (live h), next_number := next_number h + 1\<rparr>))"

definition release :: "resource \<Rightarrow> unit heap_res" where
  "release r h = (if r \<in> live h then Inr ((), h\<lparr>live := live h - {r}\<rparr>) else Inl BadFree)"

text \<open>Following a pointer into a block.\<close>

definition access :: "resource \<Rightarrow> unit heap_res" where
  "access r h = (if r \<in> live h then Inr ((), h) else Inl UseAfterFree)"

text \<open>
  Pointers that may be \<open>NULL\<close>: \<open>free\<close> ignores it; \<open>realloc\<close> of it is \<open>malloc\<close>; and \<open>realloc\<close> to
  size 0 frees the block and returns it (glibc). \<open>moved\<close> is whether \<open>realloc\<close> finds a new place.
\<close>

definition free_h :: "resource option \<Rightarrow> unit heap_res" where
  "free_h p = (case p of None \<Rightarrow> return_h () | Some r \<Rightarrow> release r)"

definition realloc_h :: "bool \<Rightarrow> resource option \<Rightarrow> nat \<Rightarrow> resource option heap_res" where
  "realloc_h moved p n =
     (case p of
        None \<Rightarrow> bind_h (acquire Block) (\<lambda>r. return_h (Some r))
      | Some r \<Rightarrow>
          if n = 0 then bind_h (release r) (\<lambda>_. return_h None)
          else if moved then bind_h (release r) (\<lambda>_. bind_h (acquire Block) (\<lambda>r. return_h (Some r)))
          else bind_h (access r) (\<lambda>_. return_h (Some r)))"

section \<open>Triples\<close>

definition heap_ok :: "heap \<Rightarrow> bool" where
  "heap_ok h \<longleftrightarrow> (\<forall>r \<in> live h. number r < next_number h)"

definition holds :: "resource set \<Rightarrow> resource multiset \<Rightarrow> heap \<Rightarrow> bool" where
  "holds B R h \<longleftrightarrow> heap_ok h \<and> live h = B \<union> set_mset R \<and> B \<inter> set_mset R = {} \<and> (\<forall>r. count R r \<le> 1)"

definition triple :: "resource multiset \<Rightarrow> 'a heap_res \<Rightarrow> ('a \<Rightarrow> resource multiset \<Rightarrow> bool) \<Rightarrow> bool" where
  "triple R c Q \<longleftrightarrow> (\<forall>B h. holds B R h \<longrightarrow> (\<exists>x h' R'. c h = Inr (x, h') \<and> Q x R' \<and> holds B R' h'))"

lemma tripleD: "triple R c Q \<Longrightarrow> holds B R h \<Longrightarrow> \<exists>x h' R'. c h = Inr (x, h') \<and> Q x R' \<and> holds B R' h'"
  by (simp add: triple_def)

lemma triple_return: "Q x R \<Longrightarrow> triple R (return_h x) Q"
  by (auto simp: triple_def return_h_def)

lemma triple_lift: "op = Inr x \<Longrightarrow> Q x R \<Longrightarrow> triple R (lift_h op) Q"
  by (auto simp: triple_def lift_h_def)

lemma triple_bind:
  assumes "triple R c P" and "\<And>x S. P x S \<Longrightarrow> triple S (f x) Q"
  shows "triple R (bind_h c f) Q"
  unfolding triple_def
proof (intro allI impI)
  fix B h assume "holds B R h"
  then obtain x h1 S where c: "c h = Inr (x, h1)" "P x S" "holds B S h1" using tripleD [OF assms(1)] by blast
  from tripleD [OF assms(2) [OF c(2)] c(3)]
  show "\<exists>x h' R'. bind_h c f h = Inr (x, h') \<and> Q x R' \<and> holds B R' h'" by (auto simp: bind_h_def c(1))
qed

lemma triple_weaken: "triple R c P \<Longrightarrow> (\<And>x S. P x S \<Longrightarrow> Q x S) \<Longrightarrow> triple R c Q"
  unfolding triple_def by blast

lemma holds_frame:
  "holds B (R + F) h \<longleftrightarrow> holds (B \<union> set_mset F) R h \<and> B \<inter> set_mset F = {} \<and> (\<forall>r. count F r \<le> 1)"
proof
  assume h: "holds B (R + F) h"
  have "set_mset F \<inter> set_mset R = {}"
  proof (rule ccontr)
    assume "set_mset F \<inter> set_mset R \<noteq> {}"
    then obtain r where "r \<in># F" "r \<in># R" by blast
    then have "1 \<le> count F r" "1 \<le> count R r" by (simp_all add: Suc_leI)
    moreover have "count R r + count F r \<le> 1" using h by (simp add: holds_def)
    ultimately show False by linarith
  qed
  moreover have "count R r \<le> 1 \<and> count F r \<le> 1" for r
  proof -
    have "count (R + F) r \<le> 1" using h unfolding holds_def by blast
    then show ?thesis by auto
  qed
  ultimately show "holds (B \<union> set_mset F) R h \<and> B \<inter> set_mset F = {} \<and> (\<forall>r. count F r \<le> 1)"
    using h by (auto simp: holds_def)
next
  assume h: "holds (B \<union> set_mset F) R h \<and> B \<inter> set_mset F = {} \<and> (\<forall>r. count F r \<le> 1)"
  have "count R r + count F r \<le> 1" for r
  proof (cases "r \<in># R")
    case True
    then have "r \<notin># F" using h by (auto simp: holds_def)
    then show ?thesis using h by (simp add: holds_def not_in_iff)
  next
    case False
    then show ?thesis using h by (simp add: not_in_iff)
  qed
  then show "holds B (R + F) h" using h by (auto simp: holds_def)
qed

lemma triple_frame: "triple R c Q \<Longrightarrow> triple (R + F) c (\<lambda>x S. \<exists>T. S = T + F \<and> Q x T)"
  unfolding triple_def
proof (intro allI impI)
  fix B h assume t: "\<forall>B h. holds B R h \<longrightarrow> (\<exists>x h' R'. c h = Inr (x, h') \<and> Q x R' \<and> holds B R' h')"
    and "holds B (R + F) h"
  then obtain x h' T where "c h = Inr (x, h')" "Q x T" "holds (B \<union> set_mset F) T h'"
    and "B \<inter> set_mset F = {} \<and> (\<forall>r. count F r \<le> 1)"
    by (metis holds_frame)
  then show "\<exists>x h' R'. c h = Inr (x, h') \<and> (\<exists>T. R' = T + F \<and> Q x T) \<and> holds B R' h'"
    using holds_frame by metis
qed

lemma triple_acquire: "triple R (acquire kind) (\<lambda>r S. S = add_mset r R)"
  if kind: "\<And>n. number (kind n) = n"
  unfolding triple_def
proof (intro allI impI)
  fix B h assume h: "holds B R h"
  have "number r < next_number h" if "r \<in> live h" for r using h that by (simp add: holds_def heap_ok_def)
  from this [of "kind (next_number h)"] have "kind (next_number h) \<notin> live h" by (auto simp: kind)
  then have fresh: "kind (next_number h) \<notin> B" "kind (next_number h) \<notin># R" using h by (auto simp: holds_def)
  have "holds B (add_mset (kind (next_number h)) R)
      (h\<lparr>live := insert (kind (next_number h)) (live h), next_number := next_number h + 1\<rparr>)"
    using h fresh kind by (auto simp: holds_def heap_ok_def not_in_iff less_Suc_eq)
  then show "\<exists>x h' R'. acquire kind h = Inr (x, h') \<and> R' = add_mset x R \<and> holds B R' h'"
    by (simp add: acquire_def Let_def)
qed

lemma triple_release: "triple (add_mset r R) (release r) (\<lambda>_ S. S = R)"
  unfolding triple_def
proof (intro allI impI)
  fix B h assume h: "holds B (add_mset r R) h"
  have "count (add_mset r R) r \<le> 1" using h by (simp only: holds_def)
  then have "r \<notin># R" by (simp add: not_in_iff)
  moreover have "count R s \<le> 1" for s
  proof -
    have "count (add_mset r R) s \<le> 1" using h unfolding holds_def by blast
    then show ?thesis by (simp split: if_splits)
  qed
  ultimately have "holds B R (h\<lparr>live := live h - {r}\<rparr>)" using h by (auto simp: holds_def heap_ok_def)
  moreover have "r \<in> live h" using h by (simp add: holds_def)
  ultimately show "\<exists>x h' R'. release r h = Inr (x, h') \<and> R' = R \<and> holds B R' h'" by (simp add: release_def)
qed

lemma triple_access: "r \<in># R \<Longrightarrow> triple R (access r) (\<lambda>_ S. S = R)"
  by (auto simp: triple_def access_def holds_def)

lemma bind_h_assoc: "bind_h (bind_h c f) g = bind_h c (\<lambda>x. bind_h (f x) g)"
  by (auto simp: bind_h_def fun_eq_iff bind_res_def split: sum.splits prod.splits)

lemma bind_return_h [simp]: "bind_h (return_h x) f = f x"
  by (simp add: bind_h_def return_h_def fun_eq_iff)

text \<open>The same for sequences, with the first step worked off.\<close>

lemma lift_then: "op = Inr x \<Longrightarrow> triple R (f x) Q \<Longrightarrow> triple R (bind_h (lift_h op) f) Q"
  by (rule triple_bind [OF triple_lift [where Q = "\<lambda>y S. y = x \<and> S = R"]]) auto

lemma acquire_then:
  "(\<And>r. triple (add_mset r R) (f r) Q) \<Longrightarrow> triple R (bind_h (acquire Block) f) Q"
  "(\<And>r. triple (add_mset r R) (f r) Q) \<Longrightarrow> triple R (bind_h (acquire File) f) Q"
  "(\<And>r. triple (add_mset r R) (f r) Q) \<Longrightarrow> triple R (bind_h (acquire Mapping) f) Q"
  by (rule triple_bind [OF triple_acquire]; simp)+

lemma release_then:
  assumes "r \<in># S" and "triple (S - {#r#}) (f ()) Q"
  shows "triple S (bind_h (release r) f) Q"
proof -
  have "triple S (release r) (\<lambda>u T. T = S - {#r#})" using triple_release [of r "S - {#r#}"] assms(1) by simp
  then show ?thesis by (rule triple_bind) (use assms(2) in simp)
qed

lemma release_last: "r \<in># S \<Longrightarrow> Q () (S - {#r#}) \<Longrightarrow> triple S (release r) Q"
  using release_then [of r S "\<lambda>u. return_h ()" Q] triple_release [of r "S - {#r#}"]
  by (auto elim: triple_weaken)

lemma access_then: "r \<in># R \<Longrightarrow> triple R (f ()) Q \<Longrightarrow> triple R (bind_h (access r) f) Q"
  by (rule triple_bind [OF triple_access]) auto

section \<open>Pointers that may be null\<close>

definition of_pointer :: "resource option \<Rightarrow> resource multiset" where
  "of_pointer p = (case p of None \<Rightarrow> {#} | Some r \<Rightarrow> {#r#})"

lemma of_pointer_simps [simp]: "of_pointer None = {#}" "of_pointer (Some r) = {#r#}"
  by (simp_all add: of_pointer_def)

lemma triple_free: "triple (of_pointer p + R) (free_h p) (\<lambda>_ S. S = R)"
  by (cases p) (simp_all add: free_h_def triple_return triple_release)

definition realloced :: "bool \<Rightarrow> resource option \<Rightarrow> nat \<Rightarrow> resource option \<Rightarrow> bool" where
  "realloced moved p n q \<longleftrightarrow> (n \<noteq> 0 \<longrightarrow> q \<noteq> None) \<and> (n \<noteq> 0 \<and> \<not> moved \<and> p \<noteq> None \<longrightarrow> q = p)"

lemma triple_realloc: "triple (of_pointer p + R) (realloc_h moved p n) (\<lambda>q S. S = of_pointer q + R \<and> realloced moved p n q)"
proof (cases p)
  case None
  then show ?thesis by (auto simp: realloc_h_def realloced_def intro!: acquire_then triple_return)
next
  case (Some r)
  then show ?thesis
    by (auto simp: realloc_h_def realloced_def intro!: release_then acquire_then access_then triple_return)
qed

lemma free_then: "of_pointer p \<subseteq># S \<Longrightarrow> triple (S - of_pointer p) (f ()) Q \<Longrightarrow> triple S (bind_h (free_h p) f) Q"
  using triple_free [of p "S - of_pointer p"] by (auto intro: triple_bind)

lemma realloc_then:
  assumes "of_pointer p \<subseteq># S" and "\<And>q. realloced moved p n q \<Longrightarrow> triple (of_pointer q + (S - of_pointer p)) (f q) Q"
  shows "triple S (bind_h (realloc_h moved p n) f) Q"
  using triple_realloc [of p "S - of_pointer p" moved n] assms by (auto intro: triple_bind)

text \<open>
  A loop that is run next to the loop for the values: a relation of the number of rounds,
  of both states and of what is held is kept by every round.
\<close>

lemma triple_fold:
  assumes "fold_res f xs s = Inr s'" and "I 0 s t R"
    and "\<And>k s s1 t R. k < length xs \<Longrightarrow> f (xs ! k) s = Inr s1 \<Longrightarrow> I k s t R \<Longrightarrow> triple R (f_h (xs ! k) t) (I (Suc k) s1)"
  shows "triple R (fold_h f_h xs t) (I (length xs) s')"
  using assms
proof (induction xs arbitrary: s t R I)
  case Nil
  then show ?case by (simp add: triple_return)
next
  case (Cons x xs)
  from Cons.prems(1) obtain s1 where s1: "f x s = Inr s1" "fold_res f xs s1 = Inr s'" by (auto simp: bind_res_Inr_iff)
  have first: "triple R (f_h x t) (I (Suc 0) s1)" using Cons.prems(3) [of 0 s s1 t R] Cons.prems(2) s1(1) by simp
  have "triple S (fold_h f_h xs u) (I (Suc (length xs)) s')" if "I (Suc 0) s1 u S" for u S
    using s1(2) that
    by (rule Cons.IH [where I = "\<lambda>k. I (Suc k)"]) (use Cons.prems(3) [of "Suc _"] in simp)
  with first show ?case by (auto intro: triple_bind)
qed

text \<open>A loop with no values of its own.\<close>

lemma triple_upto:
  assumes "I 0 t R" and "\<And>k t R. k < n \<Longrightarrow> I k t R \<Longrightarrow> triple R (f_h k t) (I (Suc k))"
  shows "triple R (fold_h f_h [0..<n] t) (I n)"
proof -
  have ok: "fold_res (\<lambda>k u. Inr u) ks () = Inr ()" for ks :: "nat list" by (induction ks) auto
  have "triple R (fold_h f_h [0..<n] t) ((\<lambda>k (u :: unit). I k) (length [0..<n]) ())"
    by (rule triple_fold [OF ok]) (use assms in auto)
  then show ?thesis by simp
qed

text \<open>From a state of the heap.\<close>

lemma triple_keeps_live:
  assumes "triple {#} c (\<lambda>y S. y = x \<and> S = {#})" and "heap_ok h"
  shows "\<exists>h'. c h = Inr (x, h') \<and> heap_ok h' \<and> live h' = live h"
proof -
  have "holds (live h) {#} h" using assms(2) by (simp add: holds_def)
  from tripleD [OF assms(1) this] show ?thesis by (auto simp: holds_def)
qed

section \<open>Operations that give back what they take\<close>

locale balanced =
  fixes op :: "'a res" and op_h :: "'a heap_res"
  assumes runs: "op = Inr x \<Longrightarrow> triple R op_h (\<lambda>y S. y = x \<and> S = R)"
begin

lemma runs_ensures: "op = Inr x \<Longrightarrow> Q x R \<Longrightarrow> triple R op_h Q"
  by (rule triple_weaken [OF runs]) auto

text \<open>From a state of the heap: the same value, and the same resources held.\<close>

lemma keeps_live: "op = Inr x \<Longrightarrow> heap_ok h \<Longrightarrow> \<exists>h'. op_h h = Inr (x, h') \<and> heap_ok h' \<and> live h' = live h"
  by (rule triple_keeps_live [OF runs])

end

lemma balanced_return: "balanced (Inr x) (return_h x)"
  by unfold_locales (auto intro: triple_return)

lemma balanced_lift: "balanced op (lift_h op)"
  by unfold_locales (auto intro: triple_lift)

lemma balanced_bind:
  "balanced op op_h \<Longrightarrow> (\<And>x. balanced (f x) (f_h x)) \<Longrightarrow> balanced (bind_res op f) (bind_h op_h f_h)"
proof unfold_locales
  fix y R
  assume op: "balanced op op_h" and f: "\<And>x. balanced (f x) (f_h x)" and "bind_res op f = Inr y"
  then obtain x where x: "op = Inr x" "f x = Inr y" by (auto simp: bind_res_Inr_iff)
  show "triple R (bind_h op_h f_h) (\<lambda>z S. z = y \<and> S = R)"
    by (rule triple_bind [OF balanced.runs [OF op x(1)]]) (use balanced.runs [OF f x(2)] in simp)
qed

lemma balanced_if: "balanced a a_h \<Longrightarrow> balanced b b_h \<Longrightarrow> balanced (if P then a else b) (if P then a_h else b_h)"
  by simp

lemma balanced_find:
  assumes "\<And>x. balanced (p x) (p_h x)"
  shows "balanced (find_res p xs) (find_h p_h xs)"
proof (induction xs)
  case (Cons x xs)
  have "balanced (if b then Inr (Some x) else find_res p xs) (if b then return_h (Some x) else find_h p_h xs)" for b
    using Cons by (auto intro: balanced_return)
  then show ?case unfolding find_res.simps find_h.simps by (rule balanced_bind [OF assms])
qed (simp add: balanced_return)

lemma balanced_find_map:
  assumes "\<And>x. balanced (f x) (f_h x)"
  shows "balanced (find_map_res f xs) (find_map_h f_h xs)"
proof (induction xs)
  case (Cons x xs)
  have "balanced (case r of None \<Rightarrow> find_map_res f xs | Some y \<Rightarrow> Inr (Some y))
      (case r of None \<Rightarrow> find_map_h f_h xs | Some y \<Rightarrow> return_h (Some y))" for r
    using Cons by (auto intro: balanced_return split: option.split)
  then show ?case unfolding find_map_res.simps find_map_h.simps by (rule balanced_bind [OF assms])
qed (simp add: balanced_return)

end
