(* ===== verification/Elf_Resources.thy ===== *)
theory Elf_Resources
  imports Elf Resources
begin

text \<open>
  \<open>utils.c\<close> once more, with the blocks, files and mappings it takes and gives back. Every
  search maps the executable, unmaps it on each of its ways out, and leaves nothing open;
  \<open>get_sym_start\<close> does so while it maps the file again for each symbol. The file is there
  whenever it was there before, so \<open>free_header\<close> opens it again.
\<close>

section \<open>The mapping\<close>

definition get_binary_path_h :: "os \<Rightarrow> (string \<times> resource) heap_res" where
  "get_binary_path_h os =
     bind_h (acquire Block) (\<lambda>buff.
     bind_h (lift_h (get_binary_path os)) (\<lambda>path.
     return_h (path, buff)))"

definition get_elf_header_h :: "os \<Rightarrow> (u8 list \<times> resource) heap_res" where
  "get_elf_header_h os =
     bind_h (get_binary_path_h os) (\<lambda>(path, bin_name).
     case files os path of
       None \<Rightarrow> bind_h (release bin_name) (\<lambda>_. lift_h (Inl (Segfault (- 1))))
     | Some img \<Rightarrow>
         bind_h (acquire File) (\<lambda>fd.
         bind_h (release bin_name) (\<lambda>_.
         bind_h (acquire Mapping) (\<lambda>data.
         bind_h (release fd) (\<lambda>_.
         return_h (img, data))))))"

text \<open>A file that cannot be opened has no size, and \<open>munmap\<close> with this size does nothing.\<close>

definition free_header_h :: "os \<Rightarrow> resource \<Rightarrow> unit heap_res" where
  "free_header_h os elf =
     bind_h (get_binary_path_h os) (\<lambda>(path, bin_name).
     case files os path of
       None \<Rightarrow> release bin_name
     | Some img \<Rightarrow>
         bind_h (acquire File) (\<lambda>fd.
         bind_h (release bin_name) (\<lambda>_.
         bind_h (release elf) (\<lambda>_.
         release fd))))"

section \<open>The searches\<close>

definition get_addr_h :: "os \<Rightarrow> string \<Rightarrow> u64 heap_res" where
  "get_addr_h os section_name =
     bind_h (get_elf_header_h os) (\<lambda>(img, elf).
     bind_h (lift_h (e_shstrndx img)) (\<lambda>strndx.
     bind_h (lift_h (sh_offset img (unat strndx))) (\<lambda>strtab.
     bind_h (lift_h (e_shnum img)) (\<lambda>shnum.
     bind_h (lift_h (find_res
       (\<lambda>i. bind_res (sh_name img i) (\<lambda>nm.
              strcmp_eq (c_bytes section_name) (drop (unat strtab + unat nm) img)))
       [0..<unat shnum])) (\<lambda>hit.
     case hit of
       Some i \<Rightarrow> bind_h (lift_h (sh_addr img i)) (\<lambda>a. bind_h (free_header_h os elf) (\<lambda>_. return_h a))
     | None \<Rightarrow> bind_h (free_header_h os elf) (\<lambda>_. return_h 0))))))"

definition search_symbols_h :: "u8 list \<Rightarrow> (u64 \<Rightarrow> nat \<Rightarrow> u64 option heap_res) \<Rightarrow> u64 option heap_res" where
  "search_symbols_h img test =
     bind_h (lift_h (e_shstrndx img)) (\<lambda>strndx.
     bind_h (lift_h (sh_offset img (unat strndx))) (\<lambda>strtab.
     bind_h (lift_h (e_shnum img)) (\<lambda>shnum.
     find_map_h (\<lambda>i.
       bind_h (lift_h (sh_type img i)) (\<lambda>ty.
       if ty = 2 then
         bind_h (lift_h (sh_offset img i)) (\<lambda>stab.
         bind_h (lift_h (sh_size img i)) (\<lambda>sz.
         find_map_h (test stab) [0..<symbol_count sz]))
       else return_h None))
     [0..<unat shnum])))"

definition get_sym_end_h :: "os \<Rightarrow> u64 \<Rightarrow> u64 heap_res" where
  "get_sym_end_h os start_addr =
     bind_h (get_elf_header_h os) (\<lambda>(img, elf).
     bind_h (search_symbols_h img
       (\<lambda>stab k. bind_h (lift_h (st_value img stab k)) (\<lambda>v.
          if v = start_addr then
            bind_h (lift_h (st_size img stab k)) (\<lambda>s. return_h (Some (start_addr + s)))
          else return_h None))) (\<lambda>hit.
     bind_h (free_header_h os elf) (\<lambda>_.
     return_h (case hit of Some a \<Rightarrow> a | None \<Rightarrow> 0))))"

definition get_sym_start_h :: "os \<Rightarrow> u64 \<Rightarrow> u64 heap_res" where
  "get_sym_start_h os addr =
     bind_h (get_elf_header_h os) (\<lambda>(img, elf).
     bind_h (search_symbols_h img
       (\<lambda>stab k. bind_h (lift_h (st_value img stab k)) (\<lambda>v.
          bind_h (get_sym_end_h os v) (\<lambda>end_addr.
          return_h (if v \<le> addr \<and> addr < end_addr then Some v else None))))) (\<lambda>hit.
     bind_h (free_header_h os elf) (\<lambda>_.
     return_h (case hit of Some a \<Rightarrow> a | None \<Rightarrow> 0))))"

section \<open>Nothing is left\<close>

lemma path_runs: "get_binary_path os = Inr path \<Longrightarrow>
    triple R (get_binary_path_h os) (\<lambda>(p, buff) S. p = path \<and> S = add_mset buff R)"
  by (auto simp: get_binary_path_h_def intro!: acquire_then lift_then triple_return)

lemma header_runs:
  assumes "get_elf_header os = Inr img"
  shows "triple R (get_elf_header_h os) (\<lambda>(i, elf) S. i = img \<and> S = add_mset elf R)"
proof -
  from assms obtain path where path: "get_binary_path os = Inr path" "files os path = Some img"
    by (auto simp: get_elf_header_def bind_res_Inr_iff split: option.splits)
  show ?thesis
    unfolding get_elf_header_h_def
    by (rule triple_bind [OF path_runs [OF path(1)]])
      (auto simp: path(2) add_mset_commute intro!: acquire_then release_then triple_return)
qed

lemma free_header_runs:
  assumes "get_elf_header os = Inr img"
  shows "triple (add_mset elf R) (free_header_h os elf) (\<lambda>u S. S = R)"
proof -
  from assms obtain path where path: "get_binary_path os = Inr path" "files os path = Some img"
    by (auto simp: get_elf_header_def bind_res_Inr_iff split: option.splits)
  show ?thesis
    unfolding free_header_h_def
    by (rule triple_bind [OF path_runs [OF path(1)]])
      (auto simp: path(2) add_mset_commute intro!: acquire_then release_then release_last)
qed

lemma search_balanced:
  assumes "\<And>stab k. balanced (test stab k) (test_h stab k)"
  shows "balanced (search_symbols img test) (search_symbols_h img test_h)"
  unfolding search_symbols_def search_symbols_h_def
  by (intro balanced_bind balanced_lift balanced_find_map balanced_if balanced_return assms)

text \<open>A search between mapping and unmapping, and the three functions.\<close>

lemma mapped_search:
  assumes search: "\<And>img. balanced (op img) (op_h img)"
  shows "balanced (bind_res (get_elf_header os) (\<lambda>img. bind_res (op img) (\<lambda>hit. bind_res (free_header os) (\<lambda>u. Inr (g hit)))))
    (bind_h (get_elf_header_h os) (\<lambda>(img, elf). bind_h (op_h img) (\<lambda>hit. bind_h (free_header_h os elf) (\<lambda>u. return_h (g hit)))))"
proof unfold_locales
  fix x R
  assume "bind_res (get_elf_header os) (\<lambda>img. bind_res (op img) (\<lambda>hit. bind_res (free_header os) (\<lambda>u. Inr (g hit)))) = Inr x"
  then obtain img hit where img: "get_elf_header os = Inr img" "op img = Inr hit" "x = g hit"
    by (auto simp: bind_res_Inr_iff)
  have body: "triple (add_mset elf R) (bind_h (op_h img) (\<lambda>hit. bind_h (free_header_h os elf) (\<lambda>u. return_h (g hit))))
      (\<lambda>y S. y = x \<and> S = R)" for elf
    by (rule triple_bind [OF balanced.runs [OF search img(2)]])
      (auto simp: img(3) intro!: triple_bind [OF free_header_runs [OF img(1)]] triple_return)
  show "triple R (bind_h (get_elf_header_h os) (\<lambda>(img, elf). bind_h (op_h img) (\<lambda>hit. bind_h (free_header_h os elf) (\<lambda>u. return_h (g hit)))))
      (\<lambda>y S. y = x \<and> S = R)"
    by (rule triple_bind [OF header_runs [OF img(1)]]) (use body in auto)
qed

interpretation sym_end: balanced "get_sym_end os a" "get_sym_end_h os a" for os a
  unfolding get_sym_end_def get_sym_end_h_def
  by (intro mapped_search search_balanced balanced_bind balanced_lift balanced_if balanced_return)

interpretation sym_start: balanced "get_sym_start os a" "get_sym_start_h os a" for os a
  unfolding get_sym_start_def get_sym_start_h_def
  by (intro mapped_search search_balanced balanced_bind balanced_lift balanced_return sym_end.balanced_axioms)

interpretation section_addr: balanced "get_addr os p n" "get_addr_h os n" for os p n
proof unfold_locales
  fix x R assume "get_addr os p n = Inr x"
  then obtain img strndx strtab shnum hit where img: "get_elf_header os = Inr img"
    and run: "e_shstrndx img = Inr strndx" "sh_offset img (unat strndx) = Inr strtab" "e_shnum img = Inr shnum"
      "find_res (\<lambda>i. bind_res (sh_name img i) (\<lambda>nm. strcmp_eq (c_bytes n) (drop (unat strtab + unat nm) img))) [0..<unat shnum] = Inr hit"
    and x: "(case hit of Some i \<Rightarrow> sh_addr img i | None \<Rightarrow> Inr 0) = Inr x"
    by (auto simp: get_addr_def bind_res_Inr_iff split: option.splits)
  have last: "triple (add_mset elf R) (bind_h (free_header_h os elf) (\<lambda>u. return_h v)) (\<lambda>y S. y = v \<and> S = R)" for elf v
    by (rule triple_bind [OF free_header_runs [OF img]]) (simp add: triple_return)
  show "triple R (get_addr_h os n) (\<lambda>y S. y = x \<and> S = R)"
    unfolding get_addr_h_def
    by (rule triple_bind [OF header_runs [OF img]])
      (use x in \<open>auto simp: run intro!: lift_then last split: option.splits\<close>)
qed

end
