(* ===== verification/Map_Resources.thy ===== *)
theory Map_Resources
  imports Lookup Elf_Resources
begin

unbundle bit_operations_syntax

text \<open>
  The blocks of \<open>stmap.c\<close>: those of the parsed stack map (\<open>stmap_create\<close>, \<open>stmap_free\<close>), and
  the results that two look-ups allocate for their caller (\<open>stmap_get_location_value\<close>,
  \<open>stmap_get_unopt_return_addr\<close>).
\<close>

section \<open>The parsed stack map\<close>

text \<open>The struct, its three arrays, and the two arrays of every map record.\<close>

record map_blocks =
  map_block :: resource
  sizes_block :: resource
  constants_block :: resource
  records_block :: resource
  record_blocks :: "(resource \<times> resource) list"

text \<open>
  \<open>stmap_create\<close> with its blocks, each taken where the code calls \<open>malloc\<close> or \<open>calloc\<close>: the two
  arrays of a record between the reads of its parts.
\<close>

definition read_map_record_h :: "mem \<Rightarrow> u64 \<Rightarrow> nat \<Rightarrow> ((stack_map_record \<times> u64) \<times> resource \<times> resource) heap_res" where
  "read_map_record_h m addr i =
     bind_h (lift_h (load_bytes m addr 16)) (\<lambda>h.
     let nloc = field 14 2 h :: u16; addr = addr + 16 in
     bind_h (acquire Block) (\<lambda>locations_b.
     bind_h (lift_h (load_array 12 decode_location m addr (unat nloc))) (\<lambda>locs.
     let addr = addr + of_nat (unat nloc * 12);
         addr = (if (unat nloc * 12) mod 8 \<noteq> 0 then addr + 4 else addr);
         addr = addr + 2 in
     bind_h (lift_h (load_u16 m addr)) (\<lambda>nlo.
     let addr = addr + 2 in
     bind_h (acquire Block) (\<lambda>liveouts_b.
     bind_h (lift_h (load_array 4 decode_liveout m addr (unat nlo))) (\<lambda>los.
     let addr = addr + of_nat (4 * unat nlo);
         addr = (if (2 * 2 + 4 * unat nlo) mod 8 \<noteq> 0 then addr + 4 else addr) in
     return_h ((\<lparr>patchpoint_id = field 0 8 h, instr_offset = field 8 4 h, rec_reserved = field 12 2 h,
           num_locations = nloc, locations = locs, num_liveouts = nlo, liveouts = los,
           rec_index = of_nat i\<rparr>, addr), locations_b, liveouts_b)))))))"

fun read_map_records_h :: "mem \<Rightarrow> u64 \<Rightarrow> nat \<Rightarrow> nat \<Rightarrow> (stack_map_record list \<times> (resource \<times> resource) list) heap_res" where
  "read_map_records_h m addr i 0 = return_h ([], [])"
| "read_map_records_h m addr i (Suc n) =
     bind_h (read_map_record_h m addr i) (\<lambda>((r, addr'), b).
     bind_h (read_map_records_h m addr' (Suc i) n) (\<lambda>(rs, bs). return_h (r # rs, b # bs)))"

definition stmap_create_h :: "mem \<Rightarrow> u64 \<Rightarrow> (stack_map \<times> map_blocks) heap_res" where
  "stmap_create_h m start_addr =
     bind_h (acquire Block) (\<lambda>map_b.
     bind_h (lift_h (load_bytes m start_addr 16)) (\<lambda>h.
     let nfunc = field 4 4 h :: u32; nconst = field 8 4 h :: u32; nrec = field 12 4 h :: u32 in
     bind_h (acquire Block) (\<lambda>sizes_b.
     bind_h (lift_h (read_size_records m (start_addr + 16) 0 (unat nfunc))) (\<lambda>(sizes, addr).
     bind_h (acquire Block) (\<lambda>constants_b.
     bind_h (lift_h (load_array 8 from_bytes m addr (unat nconst))) (\<lambda>consts.
     let addr = addr + of_nat (8 * unat nconst) in
     bind_h (acquire Block) (\<lambda>records_b.
     bind_h (read_map_records_h m addr 0 (unat nrec)) (\<lambda>(recs, bs).
     return_h (\<lparr>version = field 0 1 h, sm_reserved = field 1 1 h, sm_reserved2 = field 2 2 h,
          num_func = nfunc, num_const = nconst, num_rec = nrec, stk_size_records = sizes,
          constants = consts, stk_map_records = recs\<rparr>,
        \<lparr>map_block = map_b, sizes_block = sizes_b, constants_block = constants_b,
          records_block = records_b, record_blocks = bs\<rparr>)))))))))"

definition stmap_free_h :: "stack_map \<Rightarrow> map_blocks \<Rightarrow> unit heap_res" where
  "stmap_free_h sm mb =
     bind_h (access (map_block mb)) (\<lambda>_.
     bind_h (release (sizes_block mb)) (\<lambda>_.
     bind_h (release (constants_block mb)) (\<lambda>_.
     bind_h (fold_h (\<lambda>i _.
         bind_h (access (map_block mb)) (\<lambda>_.
         bind_h (access (records_block mb)) (\<lambda>_.
         bind_h (lift_h (index_at (record_blocks mb) i)) (\<lambda>(locations_b, liveouts_b).
         bind_h (release locations_b) (\<lambda>_.
         release liveouts_b))))) [0..<unat (num_rec sm)] ()) (\<lambda>_.
     bind_h (release (records_block mb)) (\<lambda>_.
     release (map_block mb))))))"

text \<open>The loop of \<open>stmap_print_stack_size_records\<close> reads every record and does nothing with it.\<close>

definition stmap_print_stack_size_records :: "stack_map \<Rightarrow> unit res" where
  "stmap_print_stack_size_records sm =
     fold_res (\<lambda>i _. bind_res (index_at (stk_size_records sm) i) (\<lambda>rec. Inr ())) [0..<unat (num_func sm)] ()"

lemma print_reads_all: "stmap_wf sm \<Longrightarrow> stmap_print_stack_size_records sm = Inr ()"
proof -
  assume "stmap_wf sm"
  then have "length (stk_size_records sm) = unat (num_func sm)" by (simp add: stmap_wf_def)
  moreover have loop: "fold_res (\<lambda>i _. bind_res (index_at xs i) (\<lambda>x. Inr ())) ks () = Inr ()"
    if "set ks \<subseteq> {..<length xs}" for ks and xs :: "stack_size_record list"
    using that by (induction ks) auto
  ultimately show ?thesis
    using loop [of "[0..<unat (num_func sm)]" "stk_size_records sm"]
    by (simp add: stmap_print_stack_size_records_def lessThan_atLeast0)
qed

definition pair_blocks :: "(resource \<times> resource) list \<Rightarrow> resource multiset" where
  "pair_blocks bs = mset (map fst bs) + mset (map snd bs)"

definition map_owned :: "map_blocks \<Rightarrow> resource multiset" where
  "map_owned mb = {#map_block mb, sizes_block mb, constants_block mb, records_block mb#} + pair_blocks (record_blocks mb)"

lemma pair_blocks_Nil [simp]: "pair_blocks [] = {#}"
  by (simp add: pair_blocks_def)

lemma pair_blocks_Cons [simp]: "pair_blocks ((l, v) # bs) = add_mset l (add_mset v (pair_blocks bs))"
  by (simp add: pair_blocks_def)

lemma read_map_record_runs:
  assumes "read_map_record m a i = Inr s"
  shows "triple R (read_map_record_h m a i) (\<lambda>(t, l, v) S. t = s \<and> S = add_mset v (add_mset l R))"
  using assms unfolding read_map_record_def read_map_record_h_def Let_def bind_res_Inr_iff
  by (elim exE conjE) (rule lift_then, assumption, rule acquire_then(1), rule lift_then, assumption,
    rule lift_then, assumption, rule acquire_then(1), rule lift_then, assumption, auto intro!: triple_return)

lemma read_map_records_runs:
  assumes "read_map_records m a i n = Inr rs"
  shows "triple R (read_map_records_h m a i n) (\<lambda>(t, bs) S. t = rs \<and> length bs = n \<and> S = pair_blocks bs + R)"
  using assms
proof (induction n arbitrary: a i rs R)
  case 0
  then show ?case by (auto intro: triple_return)
next
  case (Suc n)
  from Suc.prems obtain r a' rs' where r: "read_map_record m a i = Inr (r, a')"
    and rs: "read_map_records m a' (Suc i) n = Inr rs'" "rs = r # rs'" by (auto simp: bind_res_Inr_iff)
  show ?case
    unfolding read_map_records_h.simps
    by (rule triple_bind [OF read_map_record_runs [OF r]])
      (auto simp: rs(2) intro!: triple_bind [OF Suc.IH [OF rs(1)]] triple_return)
qed

lemma stmap_create_runs:
  assumes "stmap_create m a = Inr sm"
  shows "triple R (stmap_create_h m a) (\<lambda>(sm', mb) S. sm' = sm \<and> length (record_blocks mb) = unat (num_rec sm) \<and>
    S = map_owned mb + R)"
proof -
  let ?n = "\<lambda>k h. unat (field k 4 h :: u32)"
  from assms obtain h sizes a' cs recs where
    h: "load_bytes m a 16 = Inr h" and sizes: "read_size_records m (a + 16) 0 (?n 4 h) = Inr (sizes, a')"
    and cs: "load_array 8 from_bytes m a' (?n 8 h) = Inr cs"
    and recs: "read_map_records m (a' + of_nat (8 * ?n 8 h)) 0 (?n 12 h) = Inr recs"
    and sm: "sm = \<lparr>version = field 0 1 h, sm_reserved = field 1 1 h, sm_reserved2 = field 2 2 h,
          num_func = field 4 4 h, num_const = field 8 4 h, num_rec = field 12 4 h, stk_size_records = sizes,
          constants = cs, stk_map_records = recs\<rparr>"
    by (auto simp: stmap_create_def Let_def bind_res_Inr_iff)
  show ?thesis
    unfolding stmap_create_h_def Let_def
    by (rule acquire_then(1), rule lift_then [OF h], rule acquire_then(1), rule lift_then [OF sizes], unfold prod.case,
        rule acquire_then(1), rule lift_then [OF cs], rule acquire_then(1),
        rule triple_bind [OF read_map_records_runs [OF recs]])
      (auto simp: sm map_owned_def intro!: triple_return)
qed

lemma stmap_free_runs:
  assumes "length (record_blocks mb) = unat (num_rec sm)"
  shows "triple (map_owned mb + R) (stmap_free_h sm mb) (\<lambda>_ S. S = R)"
proof -
  let ?n = "unat (num_rec sm)" and ?bs = "record_blocks mb"
  let ?body = "\<lambda>i (_ :: unit). bind_h (access (map_block mb)) (\<lambda>_. bind_h (access (records_block mb)) (\<lambda>_.
         bind_h (lift_h (index_at ?bs i)) (\<lambda>(locations_b, liveouts_b).
         bind_h (release locations_b) (\<lambda>_. release liveouts_b))))"
  let ?I = "\<lambda>k (_ :: unit) S. S = {#map_block mb, records_block mb#} + pair_blocks (drop k ?bs) + R"
  have "triple ({#map_block mb, records_block mb#} + pair_blocks ?bs + R) (fold_h ?body [0..<?n] ()) (?I ?n)"
  proof (rule triple_upto [where I = ?I])
    fix k u S assume k: "k < ?n" and S: "?I k u S"
    obtain l v where b: "?bs ! k = (l, v)" by (cases "?bs ! k")
    then have d: "drop k ?bs = (l, v) # drop (Suc k) ?bs" using k assms Cons_nth_drop_Suc [of k ?bs] by simp
    show "triple S (?body k u) (?I (Suc k))"
      using k assms S by (auto simp: b d pair_blocks_def intro!: access_then lift_then release_then release_last)
  qed simp
  then have loop: "triple S (fold_h ?body [0..<?n] ()) (?I ?n)"
    if "S = {#map_block mb, records_block mb#} + pair_blocks ?bs + R" for S using that by simp
  show ?thesis
    unfolding stmap_free_h_def
    by (auto simp: map_owned_def assms intro!: access_then release_then release_last triple_bind [OF loop])
qed

section \<open>Look-ups that allocate, and look-ups that search the executable\<close>

text \<open>The block is allocated first; \<open>malloc\<close> of 0 bytes gives a block as well.\<close>

definition stmap_get_location_value_h ::
  "slack \<Rightarrow> mem \<Rightarrow> stack_map \<Rightarrow> location \<Rightarrow> u64 list \<Rightarrow> u64 \<Rightarrow> u64 \<Rightarrow> (u8 list \<times> resource) heap_res" where
  "stmap_get_location_value_h slack m sm loc regs frame_addr loc_sz =
     bind_h (acquire Block) (\<lambda>loc_value.
     bind_h (lift_h (stmap_get_location_value slack m sm loc regs frame_addr loc_sz)) (\<lambda>bs.
     return_h (bs, loc_value)))"

definition stmap_get_unopt_return_addr_h :: "stack_map \<Rightarrow> u64 \<Rightarrow> (stack_map_pos option \<times> resource option) heap_res" where
  "stmap_get_unopt_return_addr_h sm return_addr =
     bind_h (lift_h (stmap_get_unopt_return_addr sm return_addr)) (\<lambda>p.
     case p of
       None \<Rightarrow> return_h (None, None)
     | Some sm_pos \<Rightarrow> bind_h (acquire Block) (\<lambda>b. return_h (Some sm_pos, Some b)))"

definition stmap_get_map_record_after_addr_h ::
  "os \<Rightarrow> stack_map \<Rightarrow> u64 \<Rightarrow> u64 \<Rightarrow> stack_map_record option heap_res" where
  "stmap_get_map_record_after_addr_h os sm ppid addr =
     bind_h (find_h (\<lambda>i.
       let r = stk_map_records sm ! i in
       if patchpoint_id r = ppid then
         bind_h (lift_h (or_errx (stmap_get_size_record sm (of_nat i)) ''No stack map after call!. Exiting.'')) (\<lambda>f.
         bind_h (get_sym_end_h os (fun_addr f)) (\<lambda>last_addr.
         return_h (site_addr f r \<ge> addr \<and> addr \<ge> fun_addr f \<and> addr < last_addr)))
       else return_h False)
     [0..<length (stk_map_records sm)]) (\<lambda>hit.
     return_h (map_option (\<lambda>i. stk_map_records sm ! i) hit))"

interpretation record_after: balanced "stmap_get_map_record_after_addr os sm i a" "stmap_get_map_record_after_addr_h os sm i a"
  for os sm i a
  unfolding stmap_get_map_record_after_addr_def stmap_get_map_record_after_addr_h_def Let_def
  by (intro balanced_bind balanced_find balanced_if balanced_lift balanced_return sym_end.balanced_axioms)

end
