(* ===== verification/Stack_Resources.thy ===== *)
theory Stack_Resources
  imports Inlining Map_Resources
begin

unbundle bit_operations_syntax

text \<open>
  The blocks of \<open>call_stack_state.c\<close>. A call stack state is its values (\<open>Frames\<close>) and its
  blocks: the struct, the array of frames, and for each frame the block with its registers.
  A \<open>registers\<close> field that was never assigned is \<open>None\<close>; following it is \<open>NullDeref\<close> and
  freeing it \<open>BadFree\<close>. The definitions have the same steps as those for the values, which
  they run. \<open>state_owns\<close> says that the blocks fit the state.

  Whether a \<open>realloc\<close> finds a new place is a parameter: \<open>moved\<close>, for the rounds of a loop.
\<close>

section \<open>The blocks of a state\<close>

record state_blocks =
  state_block :: resource
  frames_block :: "resource option"
  register_blocks :: "resource option list"

definition pointers :: "resource option list \<Rightarrow> resource multiset" where
  "pointers ps = sum_list (map of_pointer ps)"

definition state_owned :: "state_blocks \<Rightarrow> resource multiset" where
  "state_owned sb = {#state_block sb#} + of_pointer (frames_block sb) + pointers (register_blocks sb)"

text \<open>An array of \<open>n\<close> frames whose \<open>registers\<close> are all there.\<close>

definition blocks_ok :: "nat \<Rightarrow> resource option \<Rightarrow> resource option list \<Rightarrow> bool" where
  "blocks_ok n frames_b regs_b \<longleftrightarrow>
     length regs_b = n \<and> list_all (\<lambda>p. p \<noteq> None) regs_b \<and> (n \<noteq> 0 \<longrightarrow> frames_b \<noteq> None)"

definition state_owns :: "call_stack_state \<Rightarrow> state_blocks \<Rightarrow> bool" where
  "state_owns st sb \<longleftrightarrow> blocks_ok (unat (depth st)) (frames_block sb) (register_blocks sb)"

lemma pointers_simps [simp]:
  "pointers [] = {#}" "pointers (p # ps) = of_pointer p + pointers ps" "pointers (ps @ qs) = pointers ps + pointers qs"
  by (simp_all add: pointers_def)

lemma pointers_None [simp]: "pointers (replicate n None) = {#}"
  by (induction n) auto

lemma pointers_Some [simp]: "pointers (map Some bs) = mset bs"
  by (induction bs) auto

lemma pointers_take_drop: "pointers (take i ps) + pointers (drop i ps) = pointers ps"
  by (simp flip: pointers_simps(3))

lemma in_pointers: "Some b \<in> set ps \<Longrightarrow> b \<in># pointers ps"
  by (induction ps) auto

lemma blocks_ok_nth: "blocks_ok n fb rb \<Longrightarrow> i < n \<Longrightarrow> \<exists>b. rb ! i = Some b \<and> b \<in># pointers rb"
  by (auto simp: blocks_ok_def list_all_length intro!: in_pointers nth_mem)
    (metis nth_mem option.exhaust_sel in_pointers option.collapse)

lemma blocks_ok_snoc: "blocks_ok n fb rb \<Longrightarrow> gb \<noteq> None \<Longrightarrow> blocks_ok (Suc n) gb (rb @ [Some b])"
  by (auto simp: blocks_ok_def)

text \<open>Following \<open>state->frames\<close>, and \<open>state->frames[i].registers\<close>.\<close>

definition touch :: "resource option \<Rightarrow> unit heap_res" where
  "touch p = bind_h (lift_h (deref p)) access"

definition touch_frames :: "state_blocks \<Rightarrow> unit heap_res" where
  "touch_frames sb = bind_h (access (state_block sb)) (\<lambda>_. touch (frames_block sb))"

definition touch_registers :: "state_blocks \<Rightarrow> nat \<Rightarrow> unit heap_res" where
  "touch_registers sb i =
     bind_h (touch_frames sb) (\<lambda>_. bind_h (lift_h (index_at (register_blocks sb) i)) touch)"

lemma touch_then: "b \<in># R \<Longrightarrow> triple R (f ()) Q \<Longrightarrow> triple R (bind_h (touch (Some b)) f) Q"
  unfolding touch_def bind_h_assoc by (intro lift_then access_then) simp_all

lemma touch_frames_then:
  assumes "state_owned sb \<subseteq># S" and "frames_block sb \<noteq> None" and "triple S (f ()) Q"
  shows "triple S (bind_h (touch_frames sb) f) Q"
proof -
  obtain b where b: "frames_block sb = Some b" using assms(2) by blast
  have "state_block sb \<in># state_owned sb" and "b \<in># state_owned sb" by (simp_all add: state_owned_def b)
  then have "state_block sb \<in># S" and "b \<in># S" using mset_subset_eqD [OF assms(1)] by blast+
  then show ?thesis
    unfolding touch_frames_def bind_h_assoc b using assms(3) by (intro access_then touch_then) simp_all
qed

lemma touch_registers_then:
  assumes "state_owned sb \<subseteq># S" and "state_owns st sb" and "i < unat (depth st)" and "triple S (f ()) Q"
  shows "triple S (bind_h (touch_registers sb i) f) Q"
proof -
  from assms(2,3) obtain b where b: "register_blocks sb ! i = Some b" "b \<in># pointers (register_blocks sb)"
    using blocks_ok_nth unfolding state_owns_def by blast
  have i: "index_at (register_blocks sb) i = Inr (Some b)" "frames_block sb \<noteq> None"
    using assms(2,3) b(1) by (auto simp: state_owns_def blocks_ok_def)
  have "b \<in># state_owned sb" using b(2) by (simp add: state_owned_def)
  then have "b \<in># S" using mset_subset_eqD [OF assms(1)] by blast
  then show ?thesis
    unfolding touch_registers_def bind_h_assoc
    using assms(4) by (intro touch_frames_then [OF assms(1) i(2)] lift_then [OF i(1)] touch_then)
qed

section \<open>Building a state\<close>

definition get_registers_h :: "unw_frame \<Rightarrow> (u64 list \<times> resource) heap_res" where
  "get_registers_h u = bind_h (acquire Block) (\<lambda>b. return_h (get_registers u, b))"

fun unwind_h :: "mem \<Rightarrow> (nat \<Rightarrow> frame) \<Rightarrow> (nat \<Rightarrow> bool) \<Rightarrow> nat \<Rightarrow> unw_frame list \<Rightarrow>
    resource option \<times> resource option list \<Rightarrow> (frame list \<times> resource option \<times> resource option list) heap_res" where
  "unwind_h m junk moved i [] (frames_b, regs_b) = return_h ([], frames_b, regs_b)"
| "unwind_h m junk moved i (u # us) (frames_b, regs_b) =
     (if unw_ip u = 0 then return_h ([], frames_b, regs_b)
      else
        bind_h (realloc_h (moved i) frames_b (Suc i)) (\<lambda>frames_b.
        bind_h (get_registers_h u) (\<lambda>(regs, b).
        let rbp = regs ! unw_num RBP; regs_b = regs_b @ [Some b] in
        bind_h (lift_h (load_u64 m (rbp + 8))) (\<lambda>stored.
        let fr = (junk i)\<lparr>registers := regs, ret_addr := rbp + 8, stored_ret_addr := stored,
                          bp := rbp, real_bp := rbp, inlined := False\<rparr> in
        if take 127 (unw_proc_name u) = ''main'' then return_h ([fr], frames_b, regs_b)
        else bind_h (unwind_h m junk moved (Suc i) us (frames_b, regs_b)) (\<lambda>(rest, bs).
          return_h (fr # rest, bs))))))"

definition get_call_stack_state_h :: "(nat \<Rightarrow> frame) \<Rightarrow> (nat \<Rightarrow> bool) \<Rightarrow> unw_frame list \<Rightarrow> mem \<Rightarrow>
    (call_stack_state \<times> state_blocks) heap_res" where
  "get_call_stack_state_h junk moved cursor m =
     bind_h (acquire Block) (\<lambda>state_b.
     bind_h (unwind_h m junk moved 0 cursor (None, [])) (\<lambda>(fs, frames_b, regs_b).
     return_h (\<lparr>frames = fs, depth = of_nat (length fs)\<rparr>,
       \<lparr>state_block = state_b, frames_block = frames_b, register_blocks = regs_b\<rparr>)))"

lemma unwind_runs:
  assumes "unwind m junk i us = Inr fs" and "blocks_ok i frames_b regs_b"
  shows "triple (of_pointer frames_b + pointers regs_b + R) (unwind_h m junk moved i us (frames_b, regs_b))
    (\<lambda>(fs', fb, rb) S. fs' = fs \<and> blocks_ok (i + length fs) fb rb \<and> S = of_pointer fb + pointers rb + R)"
  using assms
proof (induction us arbitrary: i frames_b regs_b fs)
  case Nil
  then show ?case by (auto intro: triple_return)
next
  case (Cons u us)
  show ?case
  proof (cases "unw_ip u = 0")
    case True
    then show ?thesis using Cons.prems by (auto intro: triple_return)
  next
    case False
    let ?regs = "get_registers u" let ?rbp = "?regs ! unw_num RBP"
    from Cons.prems(1) False obtain stored where stored: "load_u64 m (?rbp + 8) = Inr stored"
      by (auto simp: Let_def bind_res_Inr_iff)
    define fr where "fr = (junk i)\<lparr>registers := ?regs, ret_addr := ?rbp + 8, stored_ret_addr := stored,
        bp := ?rbp, real_bp := ?rbp, inlined := False\<rparr>"
    let ?main = "take 127 (unw_proc_name u) = ''main''"
    let ?Q = "\<lambda>(fs', fb, rb) S. fs' = fs \<and> blocks_ok (i + length fs) fb rb \<and> S = of_pointer fb + pointers rb + R"
    have later: "triple (add_mset b (of_pointer fb + (pointers regs_b + R)))
        (if ?main then return_h ([fr], fb, regs_b @ [Some b])
         else bind_h (unwind_h m junk moved (Suc i) us (fb, regs_b @ [Some b])) (\<lambda>(rest, bs). return_h (fr # rest, bs))) ?Q"
      if fb: "fb \<noteq> None" for fb b
    proof (cases ?main)
      case main: True
      have "fs = [fr]" using Cons.prems(1) False main stored by (simp add: Let_def fr_def)
      then show ?thesis using main blocks_ok_snoc [OF Cons.prems(2) fb, of b] by (auto intro!: triple_return)
    next
      case main: False
      with Cons.prems(1) False obtain rest where rest: "unwind m junk (Suc i) us = Inr rest" "fs = fr # rest"
        using stored by (auto simp: Let_def fr_def bind_res_Inr_iff)
      have "triple (of_pointer fb + pointers (regs_b @ [Some b]) + R)
          (bind_h (unwind_h m junk moved (Suc i) us (fb, regs_b @ [Some b])) (\<lambda>(rest, bs). return_h (fr # rest, bs))) ?Q"
        by (rule triple_bind [OF Cons.IH [OF rest(1) blocks_ok_snoc [OF Cons.prems(2) fb]]])
          (auto simp: rest(2) intro!: triple_return)
      then show ?thesis using main by (simp add: ac_simps)
    qed
    show ?thesis
      unfolding unwind_h.simps if_not_P [OF False] add.assoc [of "of_pointer frames_b"]
    proof (rule triple_bind [OF triple_realloc], elim conjE, hypsubst)
      fix fb assume "realloced (moved i) frames_b (Suc i) fb"
      then have "fb \<noteq> None" by (simp add: realloced_def)
      note later = later [OF this]
      show "triple (of_pointer fb + (pointers regs_b + R)) (bind_h (get_registers_h u) (\<lambda>(regs, b).
          let rbp = regs ! unw_num RBP; regs_b = regs_b @ [Some b] in
          bind_h (lift_h (load_u64 m (rbp + 8))) (\<lambda>stored.
          let fr = (junk i)\<lparr>registers := regs, ret_addr := rbp + 8, stored_ret_addr := stored,
                            bp := rbp, real_bp := rbp, inlined := False\<rparr> in
          if ?main then return_h ([fr], fb, regs_b)
          else bind_h (unwind_h m junk moved (Suc i) us (fb, regs_b)) (\<lambda>(rest, bs). return_h (fr # rest, bs))))) ?Q"
        unfolding get_registers_h_def bind_h_assoc
        by (rule acquire_then)
          (use later in \<open>auto simp: Let_def fr_def simp del: unw_num.simps intro!: lift_then [OF stored]\<close>)
    qed
  qed
qed

text \<open>The number of frames fits the 32 bits of \<open>depth\<close>.\<close>

lemma get_call_stack_state_runs:
  assumes "get_call_stack_state junk cursor m = Inr st" and "length (frames st) < 2 ^ 32"
  shows "triple R (get_call_stack_state_h junk moved cursor m)
    (\<lambda>(st', sb) S. st' = st \<and> state_owns st sb \<and> S = state_owned sb + R)"
proof -
  from assms(1) obtain fs where fs: "unwind m junk 0 cursor = Inr fs" "st = \<lparr>frames = fs, depth = of_nat (length fs)\<rparr>"
    by (auto simp: get_call_stack_state_def bind_res_Inr_iff)
  have d: "unat (depth st) = length fs" using assms(2) fs(2) by (simp add: unat_of_nat)
  have none: "blocks_ok 0 None []" by (simp add: blocks_ok_def)
  have loop: "triple S (unwind_h m junk moved 0 cursor (None, []))
      (\<lambda>(fs', fb, rb) T. fs' = fs \<and> blocks_ok (length fs) fb rb \<and> T = of_pointer fb + pointers rb + S)" for S
    using unwind_runs [OF fs(1) none, of S moved] by simp
  show ?thesis
    unfolding get_call_stack_state_h_def
    by (intro acquire_then triple_bind [OF loop])
      (use d in \<open>auto simp: fs(2) state_owns_def state_owned_def intro!: triple_return\<close>)
qed

section \<open>Releasing a state\<close>

text \<open>\<open>free\<close> of a field that may never have been assigned, and the body of the loops that free registers.\<close>

definition free_pointer :: "resource option \<Rightarrow> unit heap_res" where
  "free_pointer p = (case p of None \<Rightarrow> lift_h (Inl BadFree) | Some b \<Rightarrow> release b)"

definition free_registers :: "resource option \<Rightarrow> resource option list \<Rightarrow> nat \<Rightarrow> unit heap_res" where
  "free_registers frames_b regs_b i =
     bind_h (touch frames_b) (\<lambda>_. bind_h (lift_h (index_at regs_b i)) free_pointer)"

definition free_call_stack_state_h :: "call_stack_state \<Rightarrow> state_blocks \<Rightarrow> unit heap_res" where
  "free_call_stack_state_h st sb =
     bind_h (access (state_block sb)) (\<lambda>_.
     bind_h (fold_h (\<lambda>i _.
         bind_h (access (state_block sb)) (\<lambda>_.
         free_registers (frames_block sb) (register_blocks sb) i)) [0..<unat (depth st)] ()) (\<lambda>_.
     bind_h (free_h (frames_block sb)) (\<lambda>_.
     release (state_block sb))))"

definition free_frames_h :: "resource \<Rightarrow> resource option list \<Rightarrow> nat \<Rightarrow> unit heap_res" where
  "free_frames_h frames_b regs_b num_frames =
     bind_h (fold_h (\<lambda>i _. free_registers (Some frames_b) regs_b i) [0..<num_frames] ()) (\<lambda>_.
     release frames_b)"

lemma free_registers_runs:
  assumes "blocks_ok n fb rb" and "k < n"
  shows "triple (of_pointer fb + pointers (drop k rb) + R) (free_registers fb rb k)
    (\<lambda>_ S. S = of_pointer fb + pointers (drop (Suc k) rb) + R)"
proof -
  from assms obtain f b where f: "fb = Some f" and b: "rb ! k = Some b" "k < length rb"
    using blocks_ok_nth [OF assms] by (auto simp: blocks_ok_def)
  then have d: "drop k rb = Some b # drop (Suc k) rb" using Cons_nth_drop_Suc [of k rb] by simp
  show ?thesis
    unfolding free_registers_def f d
    using b by (auto simp: free_pointer_def intro!: touch_then lift_then release_last)
qed

lemma free_call_stack_state_runs:
  assumes "state_owns st sb"
  shows "triple (state_owned sb + R) (free_call_stack_state_h st sb) (\<lambda>_ S. S = R)"
proof -
  let ?n = "unat (depth st)"
  let ?body = "\<lambda>i (_ :: unit). bind_h (access (state_block sb)) (\<lambda>_.
         free_registers (frames_block sb) (register_blocks sb) i)"
  let ?I = "\<lambda>k (_ :: unit) S. S = of_pointer (frames_block sb) + pointers (drop k (register_blocks sb)) + add_mset (state_block sb) R"
  note ok = assms [unfolded state_owns_def]
  have "triple (of_pointer (frames_block sb) + pointers (register_blocks sb) + add_mset (state_block sb) R)
      (fold_h ?body [0..<?n] ()) (?I ?n)"
    by (rule triple_upto [where I = ?I])
      (auto intro!: access_then free_registers_runs [OF ok, where R = "add_mset (state_block sb) R", simplified])
  then have loop: "triple S (fold_h ?body [0..<?n] ()) (?I ?n)"
    if "S = of_pointer (frames_block sb) + pointers (register_blocks sb) + add_mset (state_block sb) R" for S
    using that by simp
  have all: "drop ?n (register_blocks sb) = []" using ok by (simp add: blocks_ok_def)
  show ?thesis
    unfolding free_call_stack_state_h_def
    by (intro access_then triple_bind [OF loop])
      (auto simp: state_owned_def all intro!: free_then release_last)
qed

lemma free_frames_runs:
  assumes "blocks_ok n (Some f) rb"
  shows "triple (add_mset f (pointers rb) + R) (free_frames_h f rb n) (\<lambda>_ S. S = R)"
proof -
  let ?I = "\<lambda>k (_ :: unit) S. S = of_pointer (Some f) + pointers (drop k rb) + R"
  have loop: "triple (of_pointer (Some f) + pointers rb + R) (fold_h (\<lambda>i _. free_registers (Some f) rb i) [0..<n] ()) (?I n)"
    by (rule triple_upto [where I = ?I]) (use free_registers_runs [OF assms] in auto)
  have "drop n rb = []" using assms by (simp add: blocks_ok_def)
  then show ?thesis
    unfolding free_frames_h_def
    using triple_bind [OF loop, of "\<lambda>_. release f" "\<lambda>_ S. S = R"] by (simp add: release_last)
qed

section \<open>Editing a state\<close>

text \<open>The new struct; its \<open>frames\<close> pointer is that of the state.\<close>

definition get_state_copy_h :: "state_blocks \<Rightarrow> state_blocks heap_res" where
  "get_state_copy_h sb =
     bind_h (acquire Block) (\<lambda>b. bind_h (access (state_block sb)) (\<lambda>_. return_h (sb\<lparr>state_block := b\<rparr>)))"

text \<open>The frames \<open>fs\<close> are in the array \<open>src_b\<close>, with registers in \<open>src_regs\<close>.\<close>

definition insert_frames_h :: "bool \<Rightarrow> call_stack_state \<Rightarrow> state_blocks \<Rightarrow> nat \<Rightarrow> frame list \<Rightarrow> resource option \<Rightarrow>
    resource option list \<Rightarrow> nat \<Rightarrow> (call_stack_state \<times> state_blocks) heap_res" where
  "insert_frames_h moved st sb index fs src_b src_regs num_frames =
     bind_h (lift_h (insert_frames st index fs num_frames)) (\<lambda>st'.
     bind_h (access (state_block sb)) (\<lambda>_.
     bind_h (realloc_h moved (frames_block sb) (unat (depth st'))) (\<lambda>frames_b.
     bind_h (fold_h (\<lambda>i new.
         bind_h (acquire Block) (\<lambda>b.
         bind_h (touch src_b) (\<lambda>_.
         bind_h (bind_h (lift_h (index_at src_regs i)) touch) (\<lambda>_.
         return_h (new @ [Some b]))))) [0..<num_frames] []) (\<lambda>new.
     return_h (st', sb\<lparr>frames_block := frames_b,
       register_blocks := take index (register_blocks sb) @ new @ drop index (register_blocks sb)\<rparr>)))))"

definition alloc_empty_frames_h :: "nat \<Rightarrow> (frame list \<times> resource \<times> resource option list) heap_res" where
  "alloc_empty_frames_h num_frames =
     bind_h (acquire Block) (\<lambda>frames_b.
     bind_h (fold_h (\<lambda>i regs_b. bind_h (acquire Block) (\<lambda>b. return_h (regs_b @ [Some b]))) [0..<num_frames] [])
       (\<lambda>regs_b.
     return_h (alloc_empty_frames num_frames, frames_b, regs_b)))"

lemma alloc_empty_frames_runs:
  "triple R (alloc_empty_frames_h n) (\<lambda>(fs, f, rb) S. fs = alloc_empty_frames n \<and> blocks_ok n (Some f) rb \<and>
    S = add_mset f (pointers rb) + R)"
proof -
  have loop: "triple S (fold_h (\<lambda>i rb. bind_h (acquire Block) (\<lambda>b. return_h (rb @ [Some b]))) [0..<n] [])
      (\<lambda>rb T. blocks_ok n (Some f) rb \<and> T = pointers rb + S)" for S f
    by (rule triple_upto [where I = "\<lambda>k rb T. blocks_ok k (Some f) rb \<and> T = pointers rb + S"])
      (auto simp: blocks_ok_def intro!: acquire_then triple_return)
  show ?thesis
    unfolding alloc_empty_frames_h_def by (intro acquire_then triple_bind [OF loop]) (auto intro!: triple_return)
qed

lemma insert_frames_depth:
  assumes "insert_frames st index fs n = Inr st'"
  shows "index \<le> unat (depth st)" and "unat (depth st') = unat (depth st) + n"
proof -
  have i: "index \<le> unat (depth st)" "unat (depth st) + n < 2 ^ 32" "depth st' = depth st + of_nat n"
    using assms by (auto simp: insert_frames_def split: if_splits)
  moreover have "unat (of_nat n :: u32) = n" using i(2) by (simp add: unat_of_nat)
  ultimately show "index \<le> unat (depth st)" "unat (depth st') = unat (depth st) + n"
    by (simp_all add: unat_add_lem [THEN iffD1])
qed

lemma insert_frames_runs:
  assumes run: "insert_frames st index fs n = Inr st'" and owns: "state_owns st sb"
    and src: "blocks_ok n src_b src_regs" "of_pointer src_b + pointers src_regs \<subseteq># R"
  shows "triple (state_owned sb + R) (insert_frames_h moved st sb index fs src_b src_regs n)
    (\<lambda>(t, sb') S. t = st' \<and> state_owns st' sb' \<and> state_block sb' = state_block sb \<and>
      realloced moved (frames_block sb) (unat (depth st')) (frames_block sb') \<and> S = state_owned sb' + R)"
proof -
  let ?rb = "register_blocks sb" and ?n = "unat (depth st')"
  let ?body = "\<lambda>i new. bind_h (acquire Block) (\<lambda>b. bind_h (touch src_b) (\<lambda>_.
         bind_h (bind_h (lift_h (index_at src_regs i)) touch) (\<lambda>_. return_h (new @ [Some b]))))"
  note d = insert_frames_depth [OF run]
  have loop: "triple S (fold_h ?body [0..<n] []) (\<lambda>new T. length new = n \<and> list_all (\<lambda>p. p \<noteq> None) new \<and> T = pointers new + S)"
    if "R \<subseteq># S" for S
  proof (rule triple_upto [where I = "\<lambda>k new T. length new = k \<and> list_all (\<lambda>p. p \<noteq> None) new \<and> T = pointers new + S"])
    fix k new T assume k: "k < n" and T: "length new = k \<and> list_all (\<lambda>p. p \<noteq> None) new \<and> T = pointers new + S"
    obtain a b where a: "src_b = Some a" and b: "src_regs ! k = Some b" "b \<in># pointers src_regs" "k < length src_regs"
      using blocks_ok_nth [OF src(1) k] src(1) k by (auto simp: blocks_ok_def)
    have "a \<in># R" "b \<in># R" using b(2) mset_subset_eqD [OF src(2)] by (auto simp: a)
    then have "a \<in># S" "b \<in># S" using mset_subset_eqD [OF that] by blast+
    then show "triple T (?body k new) (\<lambda>new T. length new = Suc k \<and> list_all (\<lambda>p. p \<noteq> None) new \<and> T = pointers new + S)"
      unfolding a bind_h_assoc using b T
      by (intro acquire_then touch_then lift_then [where x = "Some b"] triple_return) auto
  qed simp
  have parts: "state_owned sb + R = of_pointer (frames_block sb) + ({#state_block sb#} + pointers ?rb + R)"
    by (simp add: state_owned_def ac_simps)
  have len: "length ?rb = unat (depth st)" "list_all (\<lambda>p. p \<noteq> None) ?rb" using owns by (auto simp: state_owns_def blocks_ok_def)
  have all: "list_all (\<lambda>p. p \<noteq> None) (take index ?rb) \<and> list_all (\<lambda>p. p \<noteq> None) (drop index ?rb)"
    using len(2) by (metis append_take_drop_id list_all_append)
  show ?thesis
    unfolding insert_frames_h_def parts
  proof (intro lift_then [OF run] access_then triple_bind [OF triple_realloc], goal_cases)
    case 1
    then show ?case by simp
  next
    case (2 fb S)
    then have S: "S = of_pointer fb + ({#state_block sb#} + pointers ?rb + R)" "realloced moved (frames_block sb) ?n fb" by auto
    have sub: "R \<subseteq># S" by (simp add: S(1) subset_mset.add_increasing)
    have fb: "?n \<noteq> 0 \<Longrightarrow> fb \<noteq> None" using S(2) by (simp add: realloced_def)
    show ?case
      by (rule triple_bind [OF loop [OF sub]])
        (use d len all S fb pointers_take_drop [of index ?rb] in
          \<open>auto simp: state_owns_def blocks_ok_def state_owned_def ac_simps intro!: triple_return\<close>)
  qed
qed

section \<open>Rebuilding inlined frames\<close>

text \<open>A new frame has no \<open>registers\<close> yet.\<close>

fun restored_loop_h :: "nat \<Rightarrow> os \<Rightarrow> stack_map \<Rightarrow> (nat \<Rightarrow> frame) \<Rightarrow> (nat \<Rightarrow> bool) \<Rightarrow> u64 \<Rightarrow> u64 \<Rightarrow> u64 \<Rightarrow>
    frame list \<Rightarrow> state_blocks \<Rightarrow> (frame list \<times> state_blocks) heap_res" where
  "restored_loop_h 0 os sm junk moved start_addr ppid opt_ret_addr fs sb = lift_h (Inl NoReturn)"
| "restored_loop_h (Suc n) os sm junk moved start_addr ppid opt_ret_addr fs sb =
     bind_h (lift_h (stmap_first_rec_after_addr sm opt_ret_addr)) (\<lambda>p.
     case p of
       None \<Rightarrow> return_h (fs, sb)
     | Some r \<Rightarrow>
         bind_h (lift_h (or_errx (stmap_get_size_record sm (rec_index r)) ''Size record not found'')) (\<lambda>f.
         bind_h (lift_h (deref (stmap_get_map_record sm (NOT (patchpoint_id r))))) (\<lambda>u.
         bind_h (lift_h (deref (stmap_get_size_record sm (rec_index u)))) (\<lambda>uf.
         bind_h (access (state_block sb)) (\<lambda>_.
         bind_h (realloc_h (moved (length fs)) (frames_block sb) (Suc (length fs))) (\<lambda>frames_b.
         bind_h (stmap_get_map_record_after_addr_h os sm (patchpoint_id r) start_addr) (\<lambda>real_opt.
         bind_h (lift_h (deref real_opt)) (\<lambda>real_rec.
         let fs' = fs @ [(junk (length fs))\<lparr>ret_addr := site_addr uf u + 13,
                           frame_size := stack_size uf, frame_record := r,
                           real_record := real_rec, inlined := True\<rparr>];
             sb' = sb\<lparr>frames_block := frames_b, register_blocks := register_blocks sb @ [None]\<rparr> in
         if patchpoint_id r \<noteq> ppid
         then restored_loop_h n os sm junk moved start_addr ppid (site_addr f r + 1) fs' sb'
         else return_h (fs', sb')))))))))"

definition get_restored_state_h :: "os \<Rightarrow> stack_map \<Rightarrow> (nat \<Rightarrow> frame) \<Rightarrow> (nat \<Rightarrow> bool) \<Rightarrow> u64 \<Rightarrow> u64 \<Rightarrow>
    (call_stack_state \<times> state_blocks) heap_res" where
  "get_restored_state_h os sm junk moved start_addr ppid =
     bind_h (acquire Block) (\<lambda>b.
     bind_h (restored_loop_h (length (stk_map_records sm) + 1) os sm junk moved start_addr ppid start_addr []
         \<lparr>state_block = b, frames_block = None, register_blocks = []\<rparr>) (\<lambda>(fs, sb).
     return_h (\<lparr>frames = fs, depth = of_nat (length fs)\<rparr>, sb)))"

text \<open>
  The loop of both callers that gives every restored frame a copy of the registers in the
  block that \<open>outer\<close> follows.
\<close>

definition adopt_registers_h :: "unit heap_res \<Rightarrow> call_stack_state \<Rightarrow> state_blocks \<Rightarrow> state_blocks heap_res" where
  "adopt_registers_h outer st sb =
     bind_h (fold_h (\<lambda>j regs.
         bind_h (touch_frames sb) (\<lambda>_.
         bind_h (acquire Block) (\<lambda>b.
         bind_h (lift_h (update_at regs j (Some b))) (\<lambda>regs.
         bind_h outer (\<lambda>_.
         return_h regs))))) [0..<unat (depth st)] (register_blocks sb)) (\<lambda>regs.
     return_h (sb\<lparr>register_blocks := regs\<rparr>))"

text \<open>A state with no registers yet.\<close>

definition bare :: "nat \<Rightarrow> state_blocks \<Rightarrow> bool" where
  "bare n sb \<longleftrightarrow> register_blocks sb = replicate n None \<and> (n \<noteq> 0 \<longrightarrow> frames_block sb \<noteq> None)"

lemma restored_loop_runs:
  assumes "restored_loop n os sm junk a ppid opt fs = Inr fs'" and "bare (length fs) sb"
  shows "triple (state_owned sb + R) (restored_loop_h n os sm junk moved a ppid opt fs sb)
    (\<lambda>(gs, sb') S. gs = fs' \<and> bare (length fs') sb' \<and> S = state_owned sb' + R)"
  using assms
proof (induction n arbitrary: opt fs sb)
  case 0
  then show ?case by simp
next
  case (Suc n)
  from Suc.prems(1) obtain p where p: "stmap_first_rec_after_addr sm opt = Inr p" by (auto simp: bind_res_Inr_iff)
  show ?case
  proof (cases p)
    case None
    then show ?thesis using Suc.prems p by (auto intro!: lift_then triple_return)
  next
    case (Some r)
    from Suc.prems(1) p Some obtain f u uf real_rec where
      look: "stmap_get_size_record sm (rec_index r) = Some f" "stmap_get_map_record sm (NOT (patchpoint_id r)) = Some u"
        "stmap_get_size_record sm (rec_index u) = Some uf"
      and real: "stmap_get_map_record_after_addr os sm (patchpoint_id r) a = Inr (Some real_rec)"
      by (auto simp: bind_res_Inr_iff)
    define gs where "gs = fs @ [(junk (length fs))\<lparr>ret_addr := site_addr uf u + 13,
        frame_size := stack_size uf, frame_record := r, real_record := real_rec, inlined := True\<rparr>]"
    let ?sb = "\<lambda>fb. sb\<lparr>frames_block := fb, register_blocks := register_blocks sb @ [None]\<rparr>"
    let ?Q = "\<lambda>(gs, sb') S. gs = fs' \<and> bare (length fs') sb' \<and> S = state_owned sb' + R"
    have next_step: "(if patchpoint_id r \<noteq> ppid then restored_loop n os sm junk a ppid (site_addr f r + 1) gs else Inr gs) = Inr fs'"
      using Suc.prems(1) by (simp add: p Some look real gs_def Let_def split: if_splits)
    have later: "triple S
        (if patchpoint_id r \<noteq> ppid then restored_loop_h n os sm junk moved a ppid (site_addr f r + 1) gs (?sb fb)
         else return_h (gs, ?sb fb)) ?Q" if "fb \<noteq> None" "S = state_owned (?sb fb) + R" for fb S
    proof -
      have bare: "bare (length gs) (?sb fb)"
        using Suc.prems(2) that(1) by (simp add: bare_def gs_def replicate_append_same)
      show ?thesis
        unfolding that(2) using next_step bare by (auto intro: Suc.IH triple_return split: if_splits)
    qed
    have steps: "or_errx (stmap_get_size_record sm (rec_index r)) ''Size record not found'' = Inr f"
      "deref (stmap_get_map_record sm (NOT (patchpoint_id r))) = Inr u"
      "deref (stmap_get_size_record sm (rec_index u)) = Inr uf" "deref (Some real_rec) = Inr real_rec"
      by (simp_all add: look)
    show ?thesis
      unfolding restored_loop_h.simps
    proof (rule lift_then [OF p], unfold Some option.case,
        intro lift_then [OF steps(1)] lift_then [OF steps(2)] lift_then [OF steps(3)] access_then realloc_then, goal_cases)
      case (3 fb)
      then have fb: "fb \<noteq> None" by (simp add: realloced_def)
      show ?case
        by (rule triple_bind [OF record_after.runs [OF real]], elim conjE, hypsubst, rule lift_then [OF steps(4)],
            unfold Let_def gs_def [symmetric], rule later [OF fb])
          (simp add: state_owned_def)
    qed (simp_all add: state_owned_def)
  qed
qed

lemma get_restored_state_runs:
  assumes "get_restored_state os sm junk a ppid = Inr st" and "length (frames st) < 2 ^ 32"
  shows "triple R (get_restored_state_h os sm junk moved a ppid)
    (\<lambda>(t, sb) S. t = st \<and> bare (unat (depth st)) sb \<and> S = state_owned sb + R)"
proof -
  from assms(1) obtain fs where fs: "restored_loop (length (stk_map_records sm) + 1) os sm junk a ppid a [] = Inr fs"
    "st = \<lparr>frames = fs, depth = of_nat (length fs)\<rparr>"
    by (auto simp: get_restored_state_def bind_res_Inr_iff)
  have d: "unat (depth st) = length fs" using assms(2) fs(2) by (simp add: unat_of_nat)
  show ?thesis
    unfolding get_restored_state_h_def
  proof (rule acquire_then)
    fix b
    let ?sb = "\<lparr>state_block = b, frames_block = None, register_blocks = []\<rparr>"
    have "bare (length []) ?sb" and own: "add_mset b R = state_owned ?sb + R" by (simp_all add: bare_def state_owned_def)
    note loop = restored_loop_runs [OF fs(1) this(1), of R moved]
    show "triple (add_mset b R) (bind_h (restored_loop_h (length (stk_map_records sm) + 1) os sm junk moved a ppid a [] ?sb)
        (\<lambda>(fs, sb). return_h (\<lparr>frames = fs, depth = of_nat (length fs)\<rparr>, sb)))
      (\<lambda>(t, sb) S. t = st \<and> bare (unat (depth st)) sb \<and> S = state_owned sb + R)"
      unfolding own by (rule triple_bind [OF loop]) (use d in \<open>auto simp: fs(2) simp del: unsigned_of_nat intro!: triple_return\<close>)
  qed
qed

lemma adopt_registers_runs:
  assumes bare: "bare (unat (depth st)) sb"
    and outer: "\<And>S f (Q :: resource option list \<Rightarrow> resource multiset \<Rightarrow> bool).
      R \<subseteq># S \<Longrightarrow> triple S (f ()) Q \<Longrightarrow> triple S (bind_h outer f) Q"
  shows "triple (state_owned sb + R) (adopt_registers_h outer st sb)
    (\<lambda>sb' S. state_owns st sb' \<and> S = state_owned sb' + R)"
proof -
  let ?n = "unat (depth st)"
  let ?body = "\<lambda>j regs. bind_h (touch_frames sb) (\<lambda>_. bind_h (acquire Block) (\<lambda>b.
         bind_h (lift_h (update_at regs j (Some b))) (\<lambda>regs. bind_h outer (\<lambda>_. return_h regs))))"
  let ?I = "\<lambda>k regs S. \<exists>bs. length bs = k \<and> regs = map Some bs @ replicate (?n - k) None \<and>
      S = mset bs + (state_owned sb + R)"
  have loop: "triple (state_owned sb + R) (fold_h ?body [0..<?n] (register_blocks sb)) (?I ?n)"
  proof (rule triple_upto [where I = ?I])
    show "?I 0 (register_blocks sb) (state_owned sb + R)" using bare by (simp add: bare_def)
  next
    fix k regs S assume k: "k < ?n" and "?I k regs S"
    then obtain bs where bs: "length bs = k" "regs = map Some bs @ replicate (?n - k) None"
      "S = mset bs + (state_owned sb + R)" by blast
    have fb: "frames_block sb \<noteq> None" using bare k by (auto simp: bare_def)
    have upd: "update_at regs k (Some b) = Inr (map Some (bs @ [b]) @ replicate (?n - Suc k) None)" for b
    proof -
      have "replicate (?n - k) None = (None :: resource option) # replicate (?n - Suc k) None"
        using k by (simp add: Suc_diff_Suc flip: replicate_Suc)
      then show ?thesis using k bs(1) by (simp add: bs(2) update_at_Inr_iff list_update_append)
    qed
    show "triple S (?body k regs) (?I (Suc k))"
    proof (intro touch_frames_then fb acquire_then lift_then [OF upd] outer triple_return, goal_cases)
      case (3 b)
      show ?case by (intro exI [of _ "bs @ [b]"]) (simp add: bs(1,3))
    qed (auto simp: bs(3) subset_mset.add_increasing intro: subset_mset.order_trans [OF _ mset_subset_eq_add_right])
  qed
  have none: "register_blocks sb = replicate ?n None" using bare by (simp add: bare_def)
  show ?thesis
    unfolding adopt_registers_h_def
  proof (rule triple_bind [OF loop], elim exE conjE, hypsubst, rule triple_return, goal_cases)
    case (1 regs S bs)
    then show ?case
      using bare by (auto simp: state_owns_def blocks_ok_def bare_def state_owned_def list_all_iff ac_simps)
  qed
qed

section \<open>Matching frames with records\<close>

definition collect_map_record_h :: "os \<Rightarrow> stack_map \<Rightarrow> state_blocks \<Rightarrow> nat \<Rightarrow> frame list \<times> mem \<Rightarrow>
    (frame list \<times> mem) heap_res" where
  "collect_map_record_h os sm sb i = (\<lambda>(fs, m).
     bind_h (touch_frames sb) (\<lambda>_.
     bind_h (lift_h (index_at fs i)) (\<lambda>fr.
     bind_h (lift_h (load_u64 m (ret_addr fr))) (\<lambda>ra.
     bind_h (stmap_get_unopt_return_addr_h sm ra) (\<lambda>(p, pos_b).
     bind_h (lift_h (deref p)) (\<lambda>sm_pos.
     bind_h (touch pos_b) (\<lambda>_.
     bind_h (lift_h (index_at (stk_size_records sm) (unat (stk_size_record_index sm_pos)))) (\<lambda>usz.
     bind_h (lift_h (index_at (stk_map_records sm) (unat (stk_map_record_index sm_pos)))) (\<lambda>urec.
     let unopt_ret_addr = fun_addr usz + ucast (instr_offset urec) + 13 in
     bind_h (get_sym_start_h os (stored_ret_addr fr)) (\<lambda>fun_start_addr.
     let ppid = NOT (patchpoint_id urec) in
     bind_h (stmap_get_map_record_after_addr_h os sm ppid (stored_ret_addr fr)) (\<lambda>real_opt.
     let opt = stmap_get_map_record sm (NOT (patchpoint_id urec)) in
     bind_h (lift_h (store_u64 m (ret_addr fr) unopt_ret_addr)) (\<lambda>m'.
     bind_h (lift_h (deref opt)) (\<lambda>opt_rec.
     bind_h (lift_h (deref real_opt)) (\<lambda>real_rec.
     bind_h (lift_h (deref (stmap_get_size_record sm (rec_index opt_rec)))) (\<lambda>osz.
     bind_h (free_h pos_b) (\<lambda>_.
     return_h (fs[i := fr\<lparr>frame_record := opt_rec, real_record := real_rec,
                   frame_size := stack_size osz\<rparr>], m')))))))))))))))))"

definition collect_map_records_h :: "os \<Rightarrow> stack_map \<Rightarrow> call_stack_state \<Rightarrow> state_blocks \<Rightarrow> mem \<Rightarrow>
    (call_stack_state \<times> mem) heap_res" where
  "collect_map_records_h os sm st sb m =
     bind_h (fold_h (collect_map_record_h os sm sb) (call_indices st) (frames st, m)) (\<lambda>(fs, m').
     return_h (st\<lparr>frames := fs\<rparr>, m'))"

lemma collect_map_record_runs:
  assumes run: "collect_map_record os sm i s = Inr s'" and "state_owned sb \<subseteq># R" and "frames_block sb \<noteq> None"
  shows "triple R (collect_map_record_h os sm sb i s) (\<lambda>t S. t = s' \<and> S = R)"
proof -
  obtain fs m where s: "s = (fs, m)" by (cases s)
  from run obtain ra pos usz urec fsa real_rec opt_rec osz m' where
    steps: "index_at fs i = Inr (fs ! i)" "load_u64 m (ret_addr (fs ! i)) = Inr ra"
      "stmap_get_unopt_return_addr sm ra = Inr (Some pos)" "deref (Some pos) = Inr pos"
      "index_at (stk_size_records sm) (unat (stk_size_record_index pos)) = Inr usz"
      "index_at (stk_map_records sm) (unat (stk_map_record_index pos)) = Inr urec"
      "get_sym_start os (stored_ret_addr (fs ! i)) = Inr fsa"
      "stmap_get_map_record_after_addr os sm (NOT (patchpoint_id urec)) (stored_ret_addr (fs ! i)) = Inr (Some real_rec)"
      "store_u64 m (ret_addr (fs ! i)) (fun_addr usz + ucast (instr_offset urec) + 13) = Inr m'"
      "deref (stmap_get_map_record sm (NOT (patchpoint_id urec))) = Inr opt_rec" "deref (Some real_rec) = Inr real_rec"
      "deref (stmap_get_size_record sm (rec_index opt_rec)) = Inr osz"
    and s': "s' = (fs[i := (fs ! i)\<lparr>frame_record := opt_rec, real_record := real_rec, frame_size := stack_size osz\<rparr>], m')"
    by (auto simp: s collect_map_record_def bind_res_Inr_iff Let_def index_at_Inr_iff)
  have sub: "state_owned sb \<subseteq># add_mset b R" for b using assms(2) subset_mset.order_trans by fastforce
  show ?thesis
    unfolding collect_map_record_h_def Let_def stmap_get_unopt_return_addr_h_def bind_h_assoc
    using steps
    by (auto simp: s s' bind_h_assoc simp del: index_at_less intro!: touch_frames_then [OF assms(2,3)] lift_then acquire_then
      touch_then free_then triple_bind [OF sym_start.runs [OF steps(7)]]
      triple_bind [OF record_after.runs [OF steps(8)]] triple_return)
qed

lemma collect_map_records_runs:
  assumes run: "collect_map_records os sm st m = Inr (st', m')" and owns: "state_owns st sb"
    and owned: "state_owned sb \<subseteq># R"
  shows "triple R (collect_map_records_h os sm st sb m) (\<lambda>t S. t = (st', m') \<and> S = R)"
proof -
  from run obtain fs where f: "fold_res (collect_map_record os sm) (call_indices st) (frames st, m) = Inr (fs, m')"
    and st': "st' = st\<lparr>frames := fs\<rparr>"
    by (auto simp: collect_map_records_def bind_res_Inr_iff)
  have "triple R (fold_h (collect_map_record_h os sm sb) (call_indices st) (frames st, m)) (\<lambda>t S. t = (fs, m') \<and> S = R)"
  proof (rule triple_fold [OF f, where I = "\<lambda>k s t S. t = s \<and> S = R"])
    fix k s s1 t S
    assume k: "k < length (call_indices st)" and step: "collect_map_record os sm (call_indices st ! k) s = Inr s1"
      and t: "t = s \<and> S = R"
    have "frames_block sb \<noteq> None" using owns k by (auto simp: state_owns_def blocks_ok_def call_indices_def)
    then show "triple S (collect_map_record_h os sm sb (call_indices st ! k) t) (\<lambda>t S. t = s1 \<and> S = R)"
      using collect_map_record_runs [OF step owned] t by simp
  qed simp
  then show ?thesis
    unfolding collect_map_records_h_def by (rule triple_bind) (auto simp: st' intro!: triple_return)
qed

section \<open>Inserting the frames of inlined calls\<close>

text \<open>
  The body of the loop. \<open>copy\<close> is \<open>state_copy\<close>, whose \<open>frames\<close> pointer is what it was at the
  start; as long as that block is there it is the array of \<open>state\<close> as well. \<open>moves i\<close> is
  whether the \<open>realloc\<close> of \<open>insert_frames\<close> moves it, \<open>moved i\<close> are the ones of \<open>get_restored_state\<close>.
\<close>

definition collect_inlined_frame_h :: "os \<Rightarrow> stack_map \<Rightarrow> (nat \<Rightarrow> frame) \<Rightarrow> (nat \<Rightarrow> bool) \<Rightarrow> (nat \<Rightarrow> nat \<Rightarrow> bool) \<Rightarrow>
    state_blocks \<Rightarrow> nat \<Rightarrow> call_stack_state \<times> bool \<times> state_blocks \<Rightarrow> (call_stack_state \<times> bool \<times> state_blocks) heap_res" where
  "collect_inlined_frame_h os sm junk moves moved copy i = (\<lambda>(st, inl, sb).
     bind_h (touch_frames copy) (\<lambda>_.
     bind_h (lift_h (index_at (frames st) i)) (\<lambda>fr.
     let r = frame_record fr in
     bind_h (lift_h (deref (stmap_get_size_record sm (rec_index r)))) (\<lambda>f.
     bind_h (get_sym_end_h os (fun_addr f)) (\<lambda>end_addr.
     let ra = stored_ret_addr fr in
     if \<not> (ra \<ge> fun_addr f \<and> ra < end_addr) then
       let next_addr = ra + 13 + 1 in
       bind_h (get_sym_start_h os next_addr) (\<lambda>s.
       bind_h (lift_h (deref (stmap_get_size_record_in_func sm s))) (\<lambda>real_f.
       let inlined_patchpoint_addr = fun_addr real_f + ucast (instr_offset r) in
       bind_h (lift_h (get_next_patchpoint sm inlined_patchpoint_addr real_f)) (\<lambda>last_ppid.
       bind_h (get_restored_state_h os sm junk (moved i) next_addr last_ppid) (\<lambda>(res_state, res_b).
       bind_h (lift_h (index_at (frames st) (Suc i))) (\<lambda>outer.
       bind_h (adopt_registers_h (touch_registers (copy\<lparr>register_blocks := register_blocks sb\<rparr>) (Suc i))
           res_state res_b) (\<lambda>res_b.
       bind_h (insert_frames_h (moves i) st sb (Suc i)
           (map (adopt (real_bp outer) (registers outer)) (frames res_state))
           (frames_block res_b) (register_blocks res_b) (unat (depth res_state))) (\<lambda>(st', sb').
       bind_h (free_call_stack_state_h res_state res_b) (\<lambda>_.
       return_h (st', True, sb')))))))))
     else return_h (st, inl, sb))))))"

definition collect_inlined_frames_h :: "os \<Rightarrow> stack_map \<Rightarrow> (nat \<Rightarrow> frame) \<Rightarrow> (nat \<Rightarrow> bool) \<Rightarrow> (nat \<Rightarrow> nat \<Rightarrow> bool) \<Rightarrow>
    call_stack_state \<Rightarrow> state_blocks \<Rightarrow> (call_stack_state \<times> bool \<times> state_blocks) heap_res" where
  "collect_inlined_frames_h os sm junk moves moved st sb =
     bind_h (get_state_copy_h sb) (\<lambda>copy.
     bind_h (fold_h (collect_inlined_frame_h os sm junk moves moved copy) (call_indices st) (st, False, sb)) (\<lambda>(st', inl, sb').
     bind_h (release (state_block copy)) (\<lambda>_.
     return_h (st', inl, sb'))))"

lemma restored_loop_length:
  "restored_loop n os sm junk a ppid opt fs = Inr gs \<Longrightarrow> length gs \<le> length fs + n"
proof (induction n arbitrary: opt fs)
  case (Suc n)
  then show ?case
    by (auto simp: bind_res_Inr_iff Let_def split: option.splits if_splits dest!: Suc.IH)
qed simp

lemma restored_state_length:
  "get_restored_state os sm junk a ppid = Inr st \<Longrightarrow> length (frames st) \<le> Suc (length (stk_map_records sm))"
  by (auto simp: get_restored_state_def bind_res_Inr_iff simp del: restored_loop.simps dest!: restored_loop_length)

text \<open>How the loop for the values and this one go together.\<close>

definition inlining_blocks :: "state_blocks \<Rightarrow> resource multiset \<Rightarrow> call_stack_state \<times> bool \<times> bool \<Rightarrow>
    call_stack_state \<times> bool \<times> state_blocks \<Rightarrow> resource multiset \<Rightarrow> bool" where
  "inlining_blocks copy R = (\<lambda>(st, inl, stale) (st', inl', sb) S. st' = st \<and> inl' = inl \<and> state_ok st \<and>
     state_owns st sb \<and> S = state_owned sb + add_mset (state_block copy) R \<and>
     (\<not> stale \<longrightarrow> frames_block copy = frames_block sb))"

lemma collect_inlined_frame_runs:
  assumes few: "Suc (length (stk_map_records sm)) < 2 ^ 32"
    and run: "collect_inlined_frame os sm junk moves i s = Inr s'" and inv: "inlining_blocks copy R s t S"
  shows "triple S (collect_inlined_frame_h os sm junk moves moved copy i t) (inlining_blocks copy R s')"
proof -
  obtain st inl stale where s: "s = (st, inl, stale)" by (cases s)
  obtain sb where t: "t = (st, inl, sb)" using inv by (cases t) (auto simp: s inlining_blocks_def)
  have ok: "state_ok st" and owns: "state_owns st sb" and S: "S = state_owned sb + add_mset (state_block copy) R"
    using inv by (auto simp: s t inlining_blocks_def)
  have d: "unat (depth st) = length (frames st)" using ok by (simp add: state_ok_def)
  let ?fr = "frames st ! i"
  let ?r = "frame_record ?fr" and ?ra = "stored_ret_addr ?fr"
  from run have fresh: "\<not> stale" by (auto simp: s collect_inlined_frame_def)
  with run obtain f end_addr where first: "i < length (frames st)"
    "deref (stmap_get_size_record sm (rec_index ?r)) = Inr f" "get_sym_end os (fun_addr f) = Inr end_addr"
    by (auto simp: s collect_inlined_frame_def bind_res_Inr_iff Let_def index_at_Inr_iff)
  let ?here = "?ra \<ge> fun_addr f \<and> ?ra < end_addr"
  have same: "frames_block copy = frames_block sb" using inv fresh by (auto simp: s t inlining_blocks_def)
  have fb: "frames_block sb \<noteq> None" using owns first(1) d by (auto simp: state_owns_def blocks_ok_def)
  let ?cp = "copy\<lparr>register_blocks := register_blocks sb\<rparr>"
  have sub: "state_owned ?cp \<subseteq># S" by (simp add: S state_owned_def same)
  have cp: "state_owns st ?cp" using owns by (simp add: state_owns_def same)
  have touch: "touch_frames copy = touch_frames ?cp" by (simp add: touch_frames_def)
  have fb: "frames_block ?cp \<noteq> None" using owns first(1) d by (auto simp: state_owns_def blocks_ok_def same)
  show ?thesis
  proof (cases ?here)
    case True
    then have "s' = (st, inl, stale)" using run fresh first by (simp add: s collect_inlined_frame_def Let_def)
    then show ?thesis
      using True first inv sub fb unfolding t collect_inlined_frame_h_def Let_def touch
      by (auto simp: s t intro!: touch_frames_then lift_then triple_bind [OF sym_end.runs [OF first(3)]] triple_return)
  next
    case False
    with run fresh first obtain sa real_f last_ppid res st1 where steps:
      "get_sym_start os (?ra + 13 + 1) = Inr sa" "deref (stmap_get_size_record_in_func sm sa) = Inr real_f"
      "get_next_patchpoint sm (fun_addr real_f + ucast (instr_offset ?r)) real_f = Inr last_ppid"
      "get_restored_state os sm junk (?ra + 13 + 1) last_ppid = Inr res" "Suc i < length (frames st)"
      and ins: "insert_frames st (Suc i) (map (adopt (real_bp (frames st ! Suc i)) (registers (frames st ! Suc i))) (frames res))
        (unat (depth res)) = Inr st1"
      and s': "s' = (st1, True, moves i)"
      by (auto simp: s collect_inlined_frame_def bind_res_Inr_iff Let_def index_at_Inr_iff simp del: deref_Inr_iff split: if_splits)
    have len: "length (frames res) < 2 ^ 32" using restored_state_length [OF steps(4)] few by simp
    note build = get_restored_state_runs [OF steps(4) len, where R = S and moved = "moved i"]
    have outer: "triple T (bind_h (touch_registers ?cp (Suc i)) g) Q"
      if "S \<subseteq># T" "triple T (g ()) Q" for T g and Q :: "'a \<Rightarrow> resource multiset \<Rightarrow> bool"
      by (rule touch_registers_then [OF subset_mset.order_trans [OF sub that(1)] cp]) (use that steps(5) d in auto)
    have stop: "triple T (bind_h (free_call_stack_state_h res rb) (\<lambda>_. return_h (st1, True, sb'))) (inlining_blocks copy R s')"
      if "T = state_owned sb' + (state_owned rb + add_mset (state_block copy) R)" "state_owns res rb" "state_owns st1 sb'"
        "realloced (moves i) (frames_block sb) (unat (depth st1)) (frames_block sb')" for T rb sb'
    proof -
      have "state_ok st1" using collect_inlined_frame_ok [OF ok] run by (simp add: s s')
      have "unat (depth st) \<le> unat (depth st1)" using insert_frames_depth [OF ins] by simp
      then have keep: "\<not> moves i \<longrightarrow> frames_block copy = frames_block sb'"
        using that(4) fb same steps(5) d by (auto simp: realloced_def)
      have T: "T = state_owned rb + (state_owned sb' + add_mset (state_block copy) R)" by (simp add: that(1) ac_simps)
      show ?thesis
        unfolding T by (rule triple_bind [OF free_call_stack_state_runs [OF that(2)]])
          (use that(3) keep \<open>state_ok st1\<close> in \<open>auto simp: s' inlining_blocks_def intro!: triple_return\<close>)
    qed
    have insert: "triple T (bind_h (insert_frames_h (moves i) st sb (Suc i)
           (map (adopt (real_bp (frames st ! Suc i)) (registers (frames st ! Suc i))) (frames res))
           (frames_block rb) (register_blocks rb) (unat (depth res))) (\<lambda>(st', sb').
         bind_h (free_call_stack_state_h res rb) (\<lambda>_. return_h (st', True, sb')))) (inlining_blocks copy R s')"
      if "T = state_owned rb + S" "state_owns res rb" for T rb
    proof -
      have T: "T = state_owned sb + (state_owned rb + add_mset (state_block copy) R)" by (simp add: that(1) S ac_simps)
      have "of_pointer (frames_block rb) + pointers (register_blocks rb) \<subseteq># state_owned rb + add_mset (state_block copy) R"
        by (simp add: state_owned_def add.assoc)
      from insert_frames_runs [OF ins owns that(2) [unfolded state_owns_def] this, of "moves i"] show ?thesis
        unfolding T by (rule triple_bind) (auto intro!: stop that(2))
    qed
    show ?thesis
      unfolding t collect_inlined_frame_h_def Let_def touch prod.case
      by (rule touch_frames_then [OF sub fb], rule lift_then [OF index_at_less [OF first(1)]], rule lift_then [OF first(2)],
          rule triple_bind [OF sym_end.runs [OF first(3)]], elim conjE, hypsubst, unfold if_P [OF False],
          rule triple_bind [OF sym_start.runs [OF steps(1)]], elim conjE, hypsubst,
          rule lift_then [OF steps(2)], rule lift_then [OF steps(3)],
          rule triple_bind [OF build], unfold split_paired_all prod.case, elim conjE, hypsubst,
          rule lift_then [OF index_at_less [OF steps(5)]],
          rule triple_bind [OF adopt_registers_runs [OF _ outer]])
        (auto intro: insert)
  qed
qed

lemma collect_inlined_frames_runs:
  assumes few: "Suc (length (stk_map_records sm)) < 2 ^ 32" and ok: "state_ok st" and owns: "state_owns st sb"
    and run: "collect_inlined_frames os sm junk moves st = Inr (st', inl)"
  shows "triple (state_owned sb + R) (collect_inlined_frames_h os sm junk moves moved st sb)
    (\<lambda>(t, inl', sb') S. t = st' \<and> inl' = inl \<and> state_owns st' sb' \<and> S = state_owned sb' + R)"
proof -
  from run obtain stale where f: "fold_res (collect_inlined_frame os sm junk moves) (call_indices st) (st, False, False) =
      Inr (st', inl, stale)"
    by (auto simp: collect_inlined_frames_def get_state_copy_def Let_def bind_res_Inr_iff)
  have loop: "triple S (fold_h (collect_inlined_frame_h os sm junk moves moved copy) (call_indices st) (st, False, sb))
      (inlining_blocks copy R (st', inl, stale))"
    if copy: "frames_block copy = frames_block sb" "S = add_mset (state_block copy) (state_owned sb + R)" for copy S
  proof (rule triple_fold [OF f, where I = "\<lambda>k. inlining_blocks copy R"])
    show "inlining_blocks copy R (st, False, False) (st, False, sb) S"
      using ok owns copy by (simp add: inlining_blocks_def)
  qed (rule collect_inlined_frame_runs [OF few])
  have "state_block sb \<in># state_owned sb" by (simp add: state_owned_def)
  then show ?thesis
    unfolding collect_inlined_frames_h_def get_state_copy_h_def bind_h_assoc
    by (intro acquire_then access_then)
      (auto simp: inlining_blocks_def intro!: triple_bind [OF loop] release_then triple_return)
qed

end
