(* ===== verification/Value_Resources.thy ===== *)
theory Value_Resources
  imports Live_Values Stack_Resources
begin

unbundle bit_operations_syntax

text \<open>
  The blocks of \<open>get_locations\<close>, \<open>free_locations\<close> and \<open>restore_unopt_stack\<close>: the array of
  pointers, grown by \<open>realloc\<close> for every frame, and the blocks of the values and sizes that
  its entries point to. Next to the array of values runs the list of the blocks; an entry
  that was never written is \<open>None\<close> in both.
\<close>

section \<open>get_locations\<close>

text \<open>The array \<open>locs\<close> points to, and its entries.\<close>

record location_blocks =
  locs_block :: "resource option"
  value_blocks :: "resource option list"

definition locations_owned :: "location_blocks \<Rightarrow> resource multiset" where
  "locations_owned lb = of_pointer (locs_block lb) + pointers (value_blocks lb)"

definition get_location_entry_h :: "slack \<Rightarrow> mem \<Rightarrow> stack_map \<Rightarrow> state_blocks \<Rightarrow> nat \<Rightarrow> stack_map_record \<Rightarrow> u64 list \<Rightarrow> u64 \<Rightarrow>
    nat \<Rightarrow> (u8 list option list \<times> nat) \<times> location_blocks \<Rightarrow> ((u8 list option list \<times> nat) \<times> location_blocks) heap_res" where
  "get_location_entry_h slack m sm sb i opt_rec regs outer_bp j = (\<lambda>((locs, loc_index), lb).
     bind_h (lift_h (index_at (locations opt_rec) (Suc j))) (\<lambda>size_loc.
     bind_h (touch_registers sb i) (\<lambda>_.
     bind_h (stmap_get_location_value_h slack m sm size_loc regs outer_bp 8) (\<lambda>(size_block, size_b).
     bind_h (lift_h (index_at (locations opt_rec) j)) (\<lambda>loc.
     bind_h (access size_b) (\<lambda>_.
     bind_h (stmap_get_location_value_h slack m sm loc regs outer_bp (from_bytes size_block)) (\<lambda>(value, value_b).
     bind_h (touch (locs_block lb)) (\<lambda>_.
     bind_h (lift_h (update_at locs loc_index (Some value))) (\<lambda>locs.
     bind_h (lift_h (update_at (value_blocks lb) loc_index (Some value_b))) (\<lambda>bs.
     bind_h (lift_h (update_at locs (loc_index + 1) (Some size_block))) (\<lambda>locs.
     bind_h (lift_h (update_at bs (loc_index + 1) (Some size_b))) (\<lambda>bs.
     return_h ((locs, loc_index + 2), lb\<lparr>value_blocks := bs\<rparr>)))))))))))))"

definition get_frame_locations_h :: "slack \<Rightarrow> mem \<Rightarrow> stack_map \<Rightarrow> (nat \<Rightarrow> bool) \<Rightarrow> call_stack_state \<Rightarrow> state_blocks \<Rightarrow> nat \<Rightarrow>
    (u8 list option list \<times> nat) \<times> location_blocks \<Rightarrow> ((u8 list option list \<times> nat) \<times> location_blocks) heap_res" where
  "get_frame_locations_h slack m sm moved st sb i = (\<lambda>((locs, loc_index), lb).
     bind_h (touch_frames sb) (\<lambda>_.
     bind_h (lift_h (index_at (frames st) i)) (\<lambda>fr.
     let opt_rec = real_record fr in
     bind_h (lift_h (deref (stmap_get_map_record sm (NOT (patchpoint_id opt_rec))))) (\<lambda>unopt_rec.
     if num_locations opt_rec \<noteq> num_locations unopt_rec then lift_h (Inl AssertFail)
     else
       bind_h (lift_h (index_at (frames st) (Suc i))) (\<lambda>next.
       bind_h (realloc_h (moved i) (locs_block lb) (length locs + unat (num_locations unopt_rec))) (\<lambda>locs_b.
       let n = unat (num_locations unopt_rec) in
       fold_h (get_location_entry_h slack m sm sb i opt_rec (registers fr) (real_bp next))
         (pair_indices (num_locations opt_rec))
         ((locs @ replicate n None, loc_index),
          \<lparr>locs_block = locs_b, value_blocks = value_blocks lb @ replicate n None\<rparr>)))))))"

definition get_locations_h :: "slack \<Rightarrow> mem \<Rightarrow> stack_map \<Rightarrow> (nat \<Rightarrow> bool) \<Rightarrow> call_stack_state \<Rightarrow> state_blocks \<Rightarrow>
    (u8 list option list \<times> location_blocks) heap_res" where
  "get_locations_h slack m sm moved st sb =
     bind_h (fold_h (get_frame_locations_h slack m sm moved st sb) (call_indices st)
         (([], 0), \<lparr>locs_block = None, value_blocks = []\<rparr>)) (\<lambda>((locs, loc_index), lb).
     return_h (locs, lb))"

text \<open>
  Written entries come first, \<open>loc_index\<close> of them, and each owns its block.
\<close>

definition locations_ok :: "u8 list option list \<Rightarrow> location_blocks \<Rightarrow> bool" where
  "locations_ok locs lb \<longleftrightarrow> list_all2 (\<lambda>l b. l = None \<longleftrightarrow> b = None) locs (value_blocks lb) \<and>
     (locs \<noteq> [] \<longrightarrow> locs_block lb \<noteq> None)"

definition location_blocks_at :: "resource multiset \<Rightarrow> u8 list option list \<times> nat \<Rightarrow>
    (u8 list option list \<times> nat) \<times> location_blocks \<Rightarrow> resource multiset \<Rightarrow> bool" where
  "location_blocks_at R s = (\<lambda>(t, lb) S. t = s \<and> locations_ok (fst s) lb \<and> snd s \<le> length (fst s) \<and>
     drop (snd s) (fst s) = replicate (length (fst s) - snd s) None \<and> S = locations_owned lb + R)"

lemma pointers_update:
  "k < length ps \<Longrightarrow> ps ! k = None \<Longrightarrow> pointers (ps[k := Some b]) = add_mset b (pointers ps)"
proof (induction ps arbitrary: k)
  case (Cons p ps)
  then show ?case by (cases k) auto
qed simp

lemma drop_NoneD: "drop k xs = replicate n None \<Longrightarrow> k \<le> i \<Longrightarrow> i < length xs \<Longrightarrow> xs ! i = None"
proof -
  assume a: "drop k xs = replicate n None" "k \<le> i" "i < length xs"
  have "length xs - k = n" using arg_cong [OF a(1), of length] by simp
  then have none: "replicate n None ! (i - k) = None" using a(2,3) by (intro nth_replicate) linarith
  have "xs ! i = drop k xs ! (i - k)" using a(2,3) by simp
  also have "... = None" unfolding a(1) by (rule none)
  finally show ?thesis .
qed

lemma location_pair_steps:
  assumes "location_pair slack m sm opt_rec regs b j = Inr (v, s)"
  obtains size_loc loc where "index_at (locations opt_rec) (Suc j) = Inr size_loc"
    "stmap_get_location_value slack m sm size_loc regs b 8 = Inr s" "index_at (locations opt_rec) j = Inr loc"
    "stmap_get_location_value slack m sm loc regs b (from_bytes s) = Inr v"
  using assms by (auto simp: location_pair_def bind_res_Inr_iff)

lemma get_location_entry_runs:
  assumes run: "get_location_entry slack m sm opt_rec regs outer_bp j s = Inr s'"
    and inv: "location_blocks_at R s t S" and owns: "state_owns st sb" "i < unat (depth st)" "state_owned sb \<subseteq># R"
  shows "triple S (get_location_entry_h slack m sm sb i opt_rec regs outer_bp j t) (location_blocks_at R s')"
proof -
  obtain locs k where s: "s = (locs, k)" by (cases s)
  obtain lb where t: "t = ((locs, k), lb)" using inv by (cases t) (auto simp: s location_blocks_at_def)
  have ok: "locations_ok locs lb" "k \<le> length locs" "drop k locs = replicate (length locs - k) None"
    and S: "S = locations_owned lb + R" using inv by (auto simp: s t location_blocks_at_def)
  from run obtain v z where pair: "location_pair slack m sm opt_rec regs outer_bp j = Inr (v, z)"
    and k: "Suc k < length locs" and s': "s' = (locs[k := Some v, Suc k := Some z], k + 2)"
    by (auto simp: s get_location_entry_def bind_res_Inr_iff update_at_Inr_iff)
  have len: "length (value_blocks lb) = length locs" and arr: "locs_block lb \<noteq> None"
    using ok(1) k by (auto simp: locations_ok_def dest: list_all2_lengthD)
  then obtain a where a: "locs_block lb = Some a" by blast
  have free: "value_blocks lb ! k = None" "value_blocks lb ! Suc k = None"
    using drop_NoneD [OF ok(3), of k] drop_NoneD [OF ok(3), of "Suc k"] k ok(1)
    by (auto simp: locations_ok_def list_all2_conv_all_nth)
  have sub: "state_owned sb \<subseteq># T" if "R \<subseteq># T" for T using subset_mset.order_trans [OF owns(3) that] .
  let ?locs = "locs[k := Some v, Suc k := Some z]"
  have later: "triple T (bind_h (lift_h (update_at locs k (Some v))) (\<lambda>locs.
      bind_h (lift_h (update_at (value_blocks lb) k (Some value_b))) (\<lambda>bs.
      bind_h (lift_h (update_at locs (k + 1) (Some z))) (\<lambda>locs.
      bind_h (lift_h (update_at bs (k + 1) (Some size_b))) (\<lambda>bs.
      return_h ((locs, k + 2), lb\<lparr>value_blocks := bs\<rparr>)))))) (location_blocks_at R s')"
    if T: "T = add_mset value_b (add_mset size_b S)" for T value_b size_b
  proof -
    let ?bs = "(value_blocks lb)[k := Some value_b, Suc k := Some size_b]"
    have "drop (k + 2) ?locs = replicate (length ?locs - (k + 2)) None"
      using arg_cong [OF ok(3), of "drop 2"] by (simp add: drop_update_swap)
    moreover have "pointers ?bs = add_mset value_b (add_mset size_b (pointers (value_blocks lb)))"
      using k len free by (simp add: pointers_update add_mset_commute)
    moreover have "locations_ok ?locs (lb\<lparr>value_blocks := ?bs\<rparr>)"
      using ok(1) by (auto simp: locations_ok_def intro!: list_all2_update_cong)
    ultimately show ?thesis
      using k len
      by (auto simp: T S s' location_blocks_at_def locations_owned_def intro!: lift_then triple_return)
  qed
  from pair obtain size_loc loc where steps: "index_at (locations opt_rec) (Suc j) = Inr size_loc"
    "stmap_get_location_value slack m sm size_loc regs outer_bp 8 = Inr z" "index_at (locations opt_rec) j = Inr loc"
    "stmap_get_location_value slack m sm loc regs outer_bp (from_bytes z) = Inr v"
    by (rule location_pair_steps)
  have "R \<subseteq># S" by (simp add: S)
  note sub' = sub [OF this]
  show ?thesis
    unfolding t get_location_entry_h_def prod.case stmap_get_location_value_h_def bind_h_assoc bind_return_h
    by (intro lift_then [OF steps(1)] touch_registers_then [OF sub' owns(1,2)] acquire_then(1),
        intro lift_then [OF steps(2)] lift_then [OF steps(3)] access_then acquire_then(1) lift_then [OF steps(4)],
        simp, unfold a, rule touch_then, simp add: S locations_owned_def a, rule later, simp)
qed

lemma locations_ok_extend:
  assumes "locations_ok locs lb" and "0 < length locs + n \<Longrightarrow> a \<noteq> None"
  shows "locations_ok (locs @ replicate n None) \<lparr>locs_block = a, value_blocks = value_blocks lb @ replicate n None\<rparr>"
proof -
  have "list_all2 (\<lambda>l b. l = None \<longleftrightarrow> b = None) (replicate n None) (replicate n None)"
    by (simp add: list_all2_conv_all_nth)
  then show ?thesis using assms by (auto simp: locations_ok_def intro!: list_all2_appendI)
qed

lemma get_frame_locations_runs:
  assumes run: "get_frame_locations slack m sm st i s = Inr s'" and inv: "location_blocks_at R s t S"
    and owns: "state_owns st sb" "state_ok st" "Suc i < unat (depth st)" "state_owned sb \<subseteq># R"
  shows "triple S (get_frame_locations_h slack m sm moved st sb i t) (location_blocks_at R s')"
proof -
  obtain locs k where s: "s = (locs, k)" by (cases s)
  obtain lb where t: "t = ((locs, k), lb)" using inv by (cases t) (auto simp: s location_blocks_at_def)
  have ok: "locations_ok locs lb" "k \<le> length locs" "drop k locs = replicate (length locs - k) None"
    and S: "S = locations_owned lb + R" using inv by (auto simp: s t location_blocks_at_def)
  let ?fr = "frames st ! i" and ?next = "frames st ! Suc i"
  have fb: "frames_block sb \<noteq> None" using owns(1,3) by (auto simp: state_owns_def blocks_ok_def)
  have i: "index_at (frames st) i = Inr ?fr" "index_at (frames st) (Suc i) = Inr ?next"
    using owns(2,3) by (auto simp: state_ok_def)
  from run obtain u where u: "deref (stmap_get_map_record sm (NOT (patchpoint_id (real_record ?fr)))) = Inr u"
    and eq: "num_locations (real_record ?fr) = num_locations u"
    and loop: "fold_res (get_location_entry slack m sm (real_record ?fr) (registers ?fr) (real_bp ?next))
         (pair_indices (num_locations (real_record ?fr))) (locs @ replicate (unat (num_locations u)) None, k) = Inr s'"
    by (auto simp: s get_frame_locations_def i bind_res_Inr_iff Let_def split: if_splits)
  let ?n = "unat (num_locations u)"
  have body: "triple (of_pointer a + pointers (value_blocks lb) + R)
      (fold_h (get_location_entry_h slack m sm sb i (real_record ?fr) (registers ?fr) (real_bp ?next))
         (pair_indices (num_locations (real_record ?fr)))
         ((locs @ replicate ?n None, k), \<lparr>locs_block = a, value_blocks = value_blocks lb @ replicate ?n None\<rparr>))
      (location_blocks_at R s')"
    if a: "realloced (moved i) (locs_block lb) (length locs + ?n) a" for a
  proof (rule triple_fold [OF loop, where I = "\<lambda>k. location_blocks_at R"])
    have "drop k (locs @ replicate ?n None) = replicate (length locs + ?n - k) None"
      using ok(2,3) by (simp flip: replicate_add)
    moreover have "locations_ok (locs @ replicate ?n None) \<lparr>locs_block = a, value_blocks = value_blocks lb @ replicate ?n None\<rparr>"
      by (rule locations_ok_extend [OF ok(1)]) (use a in \<open>simp add: realloced_def\<close>)
    ultimately show "location_blocks_at R (locs @ replicate ?n None, k)
        ((locs @ replicate ?n None, k), \<lparr>locs_block = a, value_blocks = value_blocks lb @ replicate ?n None\<rparr>)
        (of_pointer a + pointers (value_blocks lb) + R)"
      using ok(2) by (simp add: location_blocks_at_def locations_owned_def)
  qed (rule get_location_entry_runs, use owns in auto)
  have same: "\<not> num_locations (real_record ?fr) \<noteq> num_locations u" by (simp add: eq)
  have "R \<subseteq># S" by (simp add: S)
  then have sub: "state_owned sb \<subseteq># S" using subset_mset.order_trans [OF owns(4)] by blast
  show ?thesis
    unfolding t get_frame_locations_h_def prod.case Let_def
  proof (rule touch_frames_then [OF sub fb], rule lift_then [OF i(1)], rule lift_then [OF u],
      unfold if_not_P [OF same], rule lift_then [OF i(2)], rule realloc_then)
    show "of_pointer (locs_block lb) \<subseteq># S" by (simp add: S locations_owned_def add.assoc)
    fix a assume a: "realloced (moved i) (locs_block lb) (length locs + ?n) a"
    have "of_pointer a + (S - of_pointer (locs_block lb)) = of_pointer a + pointers (value_blocks lb) + R"
      by (simp add: S locations_owned_def add.assoc)
    then show "triple (of_pointer a + (S - of_pointer (locs_block lb)))
        (fold_h (get_location_entry_h slack m sm sb i (real_record ?fr) (registers ?fr) (real_bp ?next))
         (pair_indices (num_locations (real_record ?fr)))
         ((locs @ replicate ?n None, k), \<lparr>locs_block = a, value_blocks = value_blocks lb @ replicate ?n None\<rparr>))
        (location_blocks_at R s')"
      using body [OF a] by (simp add: add.assoc)
  qed
qed

lemma get_locations_runs:
  assumes run: "get_locations slack m sm st = Inr locs"
    and owns: "state_owns st sb" "state_ok st" "state_owned sb \<subseteq># R"
  shows "triple R (get_locations_h slack m sm moved st sb)
    (\<lambda>(ls, lb) S. ls = locs \<and> locations_ok locs lb \<and> S = locations_owned lb + R)"
proof -
  from run obtain k where f: "fold_res (get_frame_locations slack m sm st) (call_indices st) ([], 0) = Inr (locs, k)"
    by (auto simp: get_locations_def bind_res_Inr_iff)
  have "triple R (fold_h (get_frame_locations_h slack m sm moved st sb) (call_indices st)
      (([], 0), \<lparr>locs_block = None, value_blocks = []\<rparr>)) (location_blocks_at R (locs, k))"
  proof (rule triple_fold [OF f, where I = "\<lambda>k. location_blocks_at R"])
    show "location_blocks_at R ([], 0) (([], 0), \<lparr>locs_block = None, value_blocks = []\<rparr>) R"
      by (simp add: location_blocks_at_def locations_ok_def locations_owned_def)
  qed (rule get_frame_locations_runs, use owns in \<open>auto simp: call_indices_def\<close>)
  then show ?thesis
    unfolding get_locations_h_def by (rule triple_bind) (auto simp: location_blocks_at_def intro!: triple_return)
qed

section \<open>restore_unopt_stack\<close>

text \<open>The \<open>memcpy\<close> calls read the value's block, and for a register write the frame's registers.\<close>

definition restore_location_h :: "slack \<Rightarrow> state_blocks \<Rightarrow> nat \<Rightarrow> u64 \<Rightarrow> location \<Rightarrow> u8 list option \<Rightarrow> resource option \<Rightarrow> u64 \<Rightarrow>
    frame list \<times> mem \<Rightarrow> (frame list \<times> mem) heap_res" where
  "restore_location_h slack sb i frame_bp loc value value_b sz s =
     (case location_type_of (loc_kind loc) of
        Some DIRECT \<Rightarrow> bind_h (touch value_b) (\<lambda>_. lift_h (restore_location slack i frame_bp loc value sz s))
      | Some REGISTER \<Rightarrow>
          bind_h (touch_registers sb i) (\<lambda>_. bind_h (touch value_b) (\<lambda>_.
          lift_h (restore_location slack i frame_bp loc value sz s)))
      | _ \<Rightarrow> lift_h (restore_location slack i frame_bp loc value sz s))"

definition restore_entry_h :: "slack \<Rightarrow> state_blocks \<Rightarrow> u8 list option list \<Rightarrow> location_blocks \<Rightarrow> stack_map_record \<Rightarrow> nat \<Rightarrow> u64 \<Rightarrow> nat \<Rightarrow>
    (frame list \<times> mem) \<times> nat \<Rightarrow> ((frame list \<times> mem) \<times> nat) heap_res" where
  "restore_entry_h slack sb locs lb unopt_rec i frame_bp j = (\<lambda>(s, loc_index).
     bind_h (lift_h (index_at (locations unopt_rec) j)) (\<lambda>loc.
     bind_h (touch (locs_block lb)) (\<lambda>_.
     bind_h (lift_h (index_at locs loc_index)) (\<lambda>value.
     bind_h (lift_h (index_at (value_blocks lb) loc_index)) (\<lambda>value_b.
     bind_h (lift_h (index_at locs (loc_index + 1))) (\<lambda>size_ptr.
     bind_h (bind_h (lift_h (index_at (value_blocks lb) (loc_index + 1))) touch) (\<lambda>_.
     bind_h (lift_h (deref size_ptr)) (\<lambda>size_block.
     bind_h (restore_location_h slack sb i frame_bp loc value value_b (from_bytes size_block) s) (\<lambda>s.
     return_h (s, loc_index + 2))))))))))"

definition restore_frame_h :: "slack \<Rightarrow> stack_map \<Rightarrow> state_blocks \<Rightarrow> u8 list option list \<Rightarrow> location_blocks \<Rightarrow> nat \<Rightarrow>
    (frame list \<times> mem) \<times> nat \<Rightarrow> ((frame list \<times> mem) \<times> nat) heap_res" where
  "restore_frame_h slack sm sb locs lb i = (\<lambda>((fs, m), loc_index).
     bind_h (touch_frames sb) (\<lambda>_.
     bind_h (lift_h (index_at fs i)) (\<lambda>fr.
     bind_h (lift_h (deref (stmap_get_map_record sm (NOT (patchpoint_id (frame_record fr)))))) (\<lambda>unopt_rec.
     fold_h (restore_entry_h slack sb locs lb unopt_rec i (bp fr)) (pair_indices (num_locations unopt_rec))
       ((fs, m), loc_index)))))"

text \<open>\<open>free\<close> of an entry; one that was never written is harmless when its bytes are a null pointer.\<close>

definition free_entry :: "slack \<Rightarrow> nat \<Rightarrow> resource option \<Rightarrow> unit heap_res" where
  "free_entry slack k p = (if p = None \<and> null_entry slack k then return_h () else free_pointer p)"

definition free_locations_h :: "slack \<Rightarrow> location_blocks \<Rightarrow> unit heap_res" where
  "free_locations_h slack lb =
     bind_h (fold_h (\<lambda>k _.
         bind_h (touch (locs_block lb)) (\<lambda>_.
         bind_h (lift_h (index_at (value_blocks lb) k)) (free_entry slack k))) [0..<length (value_blocks lb)] ()) (\<lambda>_.
     free_h (locs_block lb))"

definition restore_unopt_stack_h :: "slack \<Rightarrow> stack_map \<Rightarrow> (nat \<Rightarrow> bool) \<Rightarrow> call_stack_state \<Rightarrow> state_blocks \<Rightarrow> mem \<Rightarrow>
    (call_stack_state \<times> mem) heap_res" where
  "restore_unopt_stack_h slack sm moved st sb m =
     bind_h (get_locations_h slack m sm moved st sb) (\<lambda>(locs, lb).
     bind_h (fold_h (restore_frame_h slack sm sb locs lb) (call_indices st) ((frames st, m), 0))
       (\<lambda>((fs, m), loc_index).
     bind_h (free_locations_h slack lb) (\<lambda>_.
     return_h (st\<lparr>frames := fs\<rparr>, m))))"

text \<open>What the restoring loops need: the state and the entries, with their blocks.\<close>

definition reads_ok :: "call_stack_state \<Rightarrow> state_blocks \<Rightarrow> u8 list option list \<Rightarrow> location_blocks \<Rightarrow> resource multiset \<Rightarrow> bool" where
  "reads_ok st sb locs lb S \<longleftrightarrow> state_owns st sb \<and> state_owned sb \<subseteq># S \<and> locations_ok locs lb \<and> locations_owned lb \<subseteq># S"

lemma reads_entry:
  assumes "reads_ok st sb locs lb S" and "k < length locs" and "locs ! k \<noteq> None"
  shows "\<exists>b. index_at (value_blocks lb) k = Inr (Some b) \<and> b \<in># S"
proof -
  have k: "k < length (value_blocks lb)" "value_blocks lb ! k \<noteq> None"
    using assms by (auto simp: reads_ok_def locations_ok_def list_all2_conv_all_nth)
  then obtain b where b: "value_blocks lb ! k = Some b" by blast
  then have "b \<in># locations_owned lb" using k(1) by (auto simp: locations_owned_def intro!: in_pointers) (metis nth_mem)
  then show ?thesis using assms(1) b k(1) by (auto simp: reads_ok_def dest: mset_subset_eqD)
qed

lemma reads_array:
  assumes "reads_ok st sb locs lb S" and "k < length locs"
  shows "\<exists>a. locs_block lb = Some a \<and> a \<in># S"
proof -
  obtain a where a: "locs_block lb = Some a" using assms by (auto simp: reads_ok_def locations_ok_def)
  then have "a \<in># locations_owned lb" by (simp add: locations_owned_def)
  then show ?thesis using assms(1) a by (auto simp: reads_ok_def dest: mset_subset_eqD)
qed

lemma restore_location_runs:
  assumes run: "restore_location slack i frame_bp loc value sz s = Inr s'"
    and reads: "reads_ok st sb locs lb S" and i: "i < unat (depth st)"
    and k: "k < length locs" "locs ! k = value" "index_at (value_blocks lb) k = Inr value_b"
  shows "triple S (restore_location_h slack sb i frame_bp loc value value_b sz s) (\<lambda>t T. t = s' \<and> T = S)"
proof -
  obtain fs m where s: "s = (fs, m)" by (cases s)
  have touch: "triple S (bind_h (touch value_b) f) Q" if "value \<noteq> None" "triple S (f ()) Q"
    for f and Q :: "'a \<Rightarrow> resource multiset \<Rightarrow> bool"
    using reads_entry [OF reads k(1)] k that by (auto intro: touch_then)
  have regs: "triple S (bind_h (touch_registers sb i) f) Q" if "triple S (f ()) Q"
    for f and Q :: "'a \<Rightarrow> resource multiset \<Rightarrow> bool"
    using reads i that unfolding reads_ok_def by (blast intro: touch_registers_then)
  show ?thesis
  proof (cases "location_type_of (loc_kind loc)")
    case (Some ty)
    then show ?thesis
      using run by (cases ty) (auto simp: s restore_location_h_def restore_location_def bind_res_Inr_iff
        intro!: regs touch triple_lift)
  qed (use run in \<open>simp add: restore_location_h_def triple_lift\<close>)
qed

lemma restore_entry_runs:
  assumes run: "restore_entry slack locs unopt_rec i frame_bp j s = Inr s'"
    and reads: "reads_ok st sb locs lb S" and i: "i < unat (depth st)"
  shows "triple S (restore_entry_h slack sb locs lb unopt_rec i frame_bp j s) (\<lambda>t T. t = s' \<and> T = S)"
proof -
  obtain u k where s: "s = (u, k)" by (cases s)
  from run obtain loc x z u' where steps: "index_at (locations unopt_rec) j = Inr loc" "index_at locs k = Inr x"
    "index_at locs (k + 1) = Inr (Some z)" "restore_location slack i frame_bp loc x (from_bytes z) u = Inr u'"
    and s': "s' = (u', k + 2)"
    by (auto simp: s restore_entry_def bind_res_Inr_iff)
  have k: "k < length locs" "locs ! k = x" "k + 1 < length locs" "locs ! (k + 1) = Some z"
    using steps(2,3) by (auto simp: index_at_Inr_iff)
  obtain a where a: "locs_block lb = Some a" "a \<in># S" using reads_array [OF reads k(1)] by blast
  have "k < length (value_blocks lb)" using reads k(1) by (auto simp: reads_ok_def locations_ok_def dest: list_all2_lengthD)
  then have v: "index_at (value_blocks lb) k = Inr (value_blocks lb ! k)" by simp
  obtain b where b: "index_at (value_blocks lb) (k + 1) = Inr (Some b)" "b \<in># S"
    using reads_entry [OF reads k(3)] k(4) by auto
  show ?thesis
    unfolding s restore_entry_h_def prod.case bind_h_assoc a(1)
    by (rule lift_then [OF steps(1)], rule touch_then [OF a(2)], rule lift_then [OF steps(2)], rule lift_then [OF v],
        rule lift_then [OF steps(3)], rule lift_then [OF b(1)], rule touch_then [OF b(2)], rule lift_then,
        rule deref_simps, rule triple_bind [OF restore_location_runs [OF steps(4) reads i k(1,2) v]])
      (auto simp: s' intro!: triple_return)
qed

lemma restore_frame_runs:
  assumes run: "restore_frame slack sm locs i s = Inr s'"
    and reads: "reads_ok st sb locs lb S" and i: "i < unat (depth st)"
  shows "triple S (restore_frame_h slack sm sb locs lb i s) (\<lambda>t T. t = s' \<and> T = S)"
proof -
  obtain fs m k where s: "s = ((fs, m), k)" by (metis prod.collapse)
  from run obtain u where steps: "index_at fs i = Inr (fs ! i)"
    "deref (stmap_get_map_record sm (NOT (patchpoint_id (frame_record (fs ! i))))) = Inr u"
    and loop: "fold_res (restore_entry slack locs u i (bp (fs ! i))) (pair_indices (num_locations u)) ((fs, m), k) = Inr s'"
    by (auto simp: s restore_frame_def bind_res_Inr_iff index_at_Inr_iff)
  have "triple S (fold_h (restore_entry_h slack sb locs lb u i (bp (fs ! i))) (pair_indices (num_locations u)) ((fs, m), k))
      (\<lambda>t T. t = s' \<and> T = S)"
    by (rule triple_fold [OF loop, where I = "\<lambda>k s t T. t = s \<and> T = S"])
      (use restore_entry_runs [OF _ reads i] in auto)
  moreover have "state_owned sb \<subseteq># S" "frames_block sb \<noteq> None"
    using reads i by (auto simp: reads_ok_def state_owns_def blocks_ok_def)
  ultimately show ?thesis
    unfolding s restore_frame_h_def prod.case
    by (intro touch_frames_then lift_then [OF steps(1)] lift_then [OF steps(2)])
qed

lemma free_entry_runs:
  assumes "k < length bs" and "bs ! k \<noteq> None \<or> null_entry slack k"
  shows "triple (pointers (drop k bs) + R) (free_entry slack k (bs ! k)) (\<lambda>_ S. S = pointers (drop (Suc k) bs) + R)"
proof -
  have d: "drop k bs = bs ! k # drop (Suc k) bs" using assms(1) by (rule Cons_nth_drop_Suc [symmetric])
  show ?thesis
    using assms(2) unfolding d
    by (cases "bs ! k") (auto simp: free_entry_def free_pointer_def intro!: triple_return release_last)
qed

lemma free_locations_runs:
  assumes ok: "locations_ok locs lb" and free: "free_locations slack locs = Inr ()"
  shows "triple (locations_owned lb + R) (free_locations_h slack lb) (\<lambda>_ S. S = R)"
proof -
  let ?bs = "value_blocks lb"
  let ?a = "of_pointer (locs_block lb)"
  have len: "length ?bs = length locs" using ok by (auto simp: locations_ok_def dest: list_all2_lengthD)
  have entry: "?bs ! k \<noteq> None \<or> null_entry slack k" if "k < length ?bs" for k
    using free ok that len
    by (auto simp: free_locations_def list_all_iff locations_ok_def list_all2_conv_all_nth
      simp del: not_None_eq split: if_splits)
  have step: "triple S (bind_h (touch (locs_block lb)) (\<lambda>_. bind_h (lift_h (index_at ?bs k)) (free_entry slack k)))
      (\<lambda>_ S. S = pointers (drop (Suc k) ?bs) + (?a + R))"
    if k: "k < length ?bs" and S: "S = pointers (drop k ?bs) + (?a + R)" for k S
  proof -
    obtain a where a: "locs_block lb = Some a" using ok k len by (auto simp: locations_ok_def)
    have i: "index_at ?bs k = Inr (?bs ! k)" using k by (simp add: index_at_Inr_iff)
    show ?thesis
      unfolding a
    proof (rule touch_then, simp add: S a, rule lift_then [OF i])
      show "triple S (free_entry slack k (?bs ! k)) (\<lambda>_ S. S = pointers (drop (Suc k) ?bs) + (of_pointer (Some a) + R))"
        unfolding S a by (rule free_entry_runs [OF k entry [OF k]])
    qed
  qed
  have "triple (locations_owned lb + R) (fold_h (\<lambda>k _. bind_h (touch (locs_block lb)) (\<lambda>_.
      bind_h (lift_h (index_at ?bs k)) (free_entry slack k))) [0..<length ?bs] ())
      (\<lambda>_ S. S = pointers (drop (length ?bs) ?bs) + (?a + R))"
    by (rule triple_upto [where I = "\<lambda>k (_ :: unit) S. S = pointers (drop k ?bs) + (?a + R)"])
      (use step in \<open>auto simp: locations_owned_def ac_simps\<close>)
  then show ?thesis
    unfolding free_locations_h_def by (rule triple_bind) (auto intro: triple_free)
qed

lemma restore_unopt_stack_runs:
  assumes run: "restore_unopt_stack slack sm st m = Inr (st', m')"
    and owns: "state_owns st sb" "state_ok st" "state_owned sb \<subseteq># R"
  shows "triple R (restore_unopt_stack_h slack sm moved st sb m) (\<lambda>t S. t = (st', m') \<and> S = R)"
proof -
  from run obtain locs fs k where locs: "get_locations slack m sm st = Inr locs"
    and loop: "fold_res (restore_frame slack sm locs) (call_indices st) ((frames st, m), 0) = Inr ((fs, m'), k)"
    and free: "free_locations slack locs = Inr ()" and st': "st' = st\<lparr>frames := fs\<rparr>"
    by (auto simp: restore_unopt_stack_def bind_res_Inr_iff)
  have restore: "triple S (fold_h (restore_frame_h slack sm sb locs lb) (call_indices st) ((frames st, m), 0))
      (\<lambda>t T. t = ((fs, m'), k) \<and> T = S)" if "reads_ok st sb locs lb S" for lb S
    by (rule triple_fold [OF loop, where I = "\<lambda>k s t T. t = s \<and> T = S"])
      (use restore_frame_runs [OF _ that] in \<open>auto simp: call_indices_def\<close>)
  have "reads_ok st sb locs lb (locations_owned lb + R)" if "locations_ok locs lb" for lb
    using that owns by (simp add: reads_ok_def subset_mset.add_increasing)
  note restore = restore [OF this]
  show ?thesis
    unfolding restore_unopt_stack_h_def
    by (rule triple_bind [OF get_locations_runs [OF locs owns]])
      (auto simp: st' intro!: triple_bind [OF restore] triple_bind [OF free_locations_runs [OF _ free]] triple_return)
qed

end
