(* ===== verification/Handler_Resources.thy ===== *)
theory Handler_Resources
  imports Stages Value_Resources
begin

unbundle bit_operations_syntax

text \<open>
  The guard failure handler with everything it takes and gives back: the path of the
  executable, the parsed stack map, the call stack state, the frame of the failed guard, the
  restored states, the live values, and the segment of the new stack. The theorem at the end
  composes the components: a run of the handler that ends in a jump gives back every block,
  file and mapping exactly once, and follows no pointer to a block it has given back.
\<close>

section \<open>Where memory may move\<close>

text \<open>The calls of \<open>realloc\<close>, in the order of the code. Those of \<open>insert_frames\<close> in \<open>collect_inlined_frames\<close> are \<open>env_moves\<close>.\<close>

record reallocs =
  in_unwind :: "nat \<Rightarrow> bool"
  in_restored :: "nat \<Rightarrow> nat \<Rightarrow> bool"
  in_fail_restored :: "nat \<Rightarrow> bool"
  in_fail_insert :: "bool \<times> bool"
  in_locations :: "nat \<Rightarrow> bool"

section \<open>The frame of the failed guard\<close>

definition insert_fail_frame_h :: "env \<Rightarrow> reallocs \<Rightarrow> stack_map \<Rightarrow> stack_map_record \<Rightarrow> stack_size_record \<Rightarrow>
    stack_size_record \<Rightarrow> call_stack_state \<times> bool \<times> state_blocks \<Rightarrow> (call_stack_state \<times> bool \<times> state_blocks) heap_res" where
  "insert_fail_frame_h e ra sm opt_rec opt_size_rec unopt_size_rec = (\<lambda>(st, inl, sb).
     bind_h (get_sym_end_h (env_os e) (fun_addr opt_size_rec)) (\<lambda>end_addr.
     bind_h (alloc_empty_frames_h 1) (\<lambda>(empty, fail_b, fail_regs).
     bind_h (lift_h (index_at (frames st) 0)) (\<lambda>first.
     bind_h (touch_registers sb 0) (\<lambda>_.
     let callback_ret_addr = env_ret_addr e;
         fail_frame = make_fail_frame opt_rec opt_size_rec unopt_size_rec first in
     if callback_ret_addr \<ge> fun_addr opt_size_rec \<and> callback_ret_addr < end_addr then
       bind_h (insert_frames_h (fst (in_fail_insert ra)) st sb 0 [fail_frame] (Some fail_b) fail_regs 1) (\<lambda>(st, sb).
       bind_h (free_frames_h fail_b fail_regs 1) (\<lambda>_.
       return_h (st, inl, sb)))
     else
       bind_h (get_sym_start_h (env_os e) callback_ret_addr) (\<lambda>s.
       bind_h (lift_h (deref (stmap_get_size_record_in_func sm s))) (\<lambda>real_size_rec.
       bind_h (lift_h (get_next_patchpoint sm callback_ret_addr real_size_rec)) (\<lambda>next_ppid.
       bind_h (get_restored_state_h (env_os e) sm (env_restored_junk e) (in_fail_restored ra) callback_ret_addr next_ppid)
         (\<lambda>(restored, rb).
       bind_h (adopt_registers_h (bind_h (touch (Some fail_b)) (\<lambda>_. bind_h (lift_h (index_at fail_regs 0)) touch))
         restored rb) (\<lambda>rb.
       bind_h (insert_frames_h (fst (in_fail_insert ra)) st sb 0
         (map (adopt (bp fail_frame) (registers fail_frame)) (frames restored))
         (frames_block rb) (register_blocks rb) (unat (depth restored))) (\<lambda>(st, sb).
       bind_h (free_call_stack_state_h restored rb) (\<lambda>_.
       bind_h (insert_frames_h (snd (in_fail_insert ra)) st sb 0 [fail_frame\<lparr>inlined := True\<rparr>] (Some fail_b) fail_regs 1) (\<lambda>(st, sb).
       bind_h (free_frames_h fail_b fail_regs 1) (\<lambda>_.
       return_h (st, True, sb)))))))))))))))"

lemma insert_fail_frame_runs:
  assumes few: "Suc (length (stk_map_records sm)) < 2 ^ 32" and ok: "state_ok st" and owns: "state_owns st sb"
    and run: "insert_fail_frame e sm opt_rec opt_size unopt_size (st, inl) = Inr (st', inl')"
  shows "triple (state_owned sb + R) (insert_fail_frame_h e ra sm opt_rec opt_size unopt_size (st, inl, sb))
    (\<lambda>(t, inl'', sb') S. t = st' \<and> inl'' = inl' \<and> state_owns st' sb' \<and> S = state_owned sb' + R)"
proof -
  let ?Q = "\<lambda>(t, inl'', sb') S. t = st' \<and> inl'' = inl' \<and> state_owns st' sb' \<and> S = state_owned sb' + R"
  from run obtain end_addr where first: "get_sym_end (env_os e) (fun_addr opt_size) = Inr end_addr"
    "index_at (frames st) 0 = Inr (frames st ! 0)" "0 < length (frames st)"
    by (auto simp: insert_fail_frame_def bind_res_Inr_iff index_at_Inr_iff)
  define ff where "ff = make_fail_frame opt_rec opt_size unopt_size (frames st ! 0)"
  let ?here = "env_ret_addr e \<ge> fun_addr opt_size \<and> env_ret_addr e < end_addr"
  have d: "0 < unat (depth st)" using ok first(3) by (simp add: state_ok_def)
  text \<open>The last steps of both branches.\<close>
  have finish: "triple T (bind_h (insert_frames_h mv t sb1 0 [f] (Some fail_b) fail_regs 1) (\<lambda>(st, sb).
       bind_h (free_frames_h fail_b fail_regs 1) (\<lambda>_. return_h (st, inl', sb)))) ?Q"
    if "insert_frames t 0 [f] 1 = Inr st'" "state_owns t sb1" "blocks_ok 1 (Some fail_b) fail_regs"
      "T = state_owned sb1 + (add_mset fail_b (pointers fail_regs) + R)" for T mv t sb1 f fail_b fail_regs
  proof -
    have "of_pointer (Some fail_b) + pointers fail_regs \<subseteq># add_mset fail_b (pointers fail_regs) + R" by simp
    note ins = insert_frames_runs [OF that(1-3) this, of mv]
    have "triple (state_owned sb' + (add_mset fail_b (pointers fail_regs) + R)) (bind_h (free_frames_h fail_b fail_regs 1) (\<lambda>_. return_h (st', inl', sb'))) ?Q"
      if "state_owns st' sb'" for sb'
    proof -
      have eq: "state_owned sb' + (add_mset fail_b (pointers fail_regs) + R) = add_mset fail_b (pointers fail_regs) + (state_owned sb' + R)"
        by (simp add: ac_simps)
      show ?thesis
        unfolding eq by (rule triple_bind [OF free_frames_runs [OF \<open>blocks_ok 1 (Some fail_b) fail_regs\<close>]])
          (use that in \<open>auto intro!: triple_return\<close>)
    qed
    then show ?thesis unfolding that(4) by (intro triple_bind [OF ins]) auto
  qed
  show ?thesis
  proof (cases ?here)
    case True
    then have ins: "insert_frames st 0 [ff] 1 = Inr st'" and inl: "inl' = inl"
      using run by (auto simp: insert_fail_frame_def first ff_def Let_def bind_res_Inr_iff)
    show ?thesis
      unfolding insert_fail_frame_h_def Let_def prod.case
      by (rule triple_bind [OF sym_end.runs [OF first(1)]], elim conjE, hypsubst, rule triple_bind [OF alloc_empty_frames_runs],
          unfold split_paired_all prod.case, elim conjE, hypsubst, rule lift_then [OF first(2)],
          rule touch_registers_then [OF _ owns d], simp, unfold if_P [OF True] ff_def [symmetric] inl [symmetric],
          rule finish [OF ins owns]) (simp_all add: ac_simps)
  next
    case False
    with run obtain s real_f next_ppid res st1 where steps: "get_sym_start (env_os e) (env_ret_addr e) = Inr s"
      "deref (stmap_get_size_record_in_func sm s) = Inr real_f"
      "get_next_patchpoint sm (env_ret_addr e) real_f = Inr next_ppid"
      "get_restored_state (env_os e) sm (env_restored_junk e) (env_ret_addr e) next_ppid = Inr res"
      and ins1: "insert_frames st 0 (map (adopt (bp ff) (registers ff)) (frames res)) (unat (depth res)) = Inr st1"
      and ins2: "insert_frames st1 0 [ff\<lparr>inlined := True\<rparr>] 1 = Inr st'" and inl: "inl' = True"
      by (auto simp: insert_fail_frame_def first ff_def Let_def bind_res_Inr_iff simp del: deref_Inr_iff)
    have len: "length (frames res) < 2 ^ 32" using restored_state_length [OF steps(4)] few by simp
    have rest: "triple T (bind_h (adopt_registers_h (bind_h (touch (Some fail_b)) (\<lambda>_. bind_h (lift_h (index_at fail_regs 0)) touch)) res rb) (\<lambda>rb.
        bind_h (insert_frames_h (fst (in_fail_insert ra)) st sb 0 (map (adopt (bp ff) (registers ff)) (frames res))
          (frames_block rb) (register_blocks rb) (unat (depth res))) (\<lambda>(st, sb).
        bind_h (free_call_stack_state_h res rb) (\<lambda>_.
        bind_h (insert_frames_h (snd (in_fail_insert ra)) st sb 0 [ff\<lparr>inlined := True\<rparr>] (Some fail_b) fail_regs 1) (\<lambda>(st, sb).
        bind_h (free_frames_h fail_b fail_regs 1) (\<lambda>_. return_h (st, inl', sb))))))) ?Q"
      if fail: "blocks_ok 1 (Some fail_b) fail_regs" and bare: "bare (unat (depth res)) rb"
        and T: "T = state_owned rb + (add_mset fail_b (pointers fail_regs) + (state_owned sb + R))" for T fail_b fail_regs rb
    proof -
      let ?F = "add_mset fail_b (pointers fail_regs)"
      obtain b where b: "index_at fail_regs 0 = Inr (Some b)" "b \<in># pointers fail_regs"
        using blocks_ok_nth [OF fail, of 0] fail by (auto simp: blocks_ok_def)
      have outer: "triple S (bind_h (bind_h (touch (Some fail_b)) (\<lambda>_. bind_h (lift_h (index_at fail_regs 0)) touch)) f) Q"
        if "?F + (state_owned sb + R) \<subseteq># S" "triple S (f ()) Q" for S f and Q :: "'a \<Rightarrow> resource multiset \<Rightarrow> bool"
      proof -
        have "fail_b \<in># S" "b \<in># S" using mset_subset_eqD [OF that(1)] b(2) by auto
        then show ?thesis unfolding bind_h_assoc by (intro touch_then lift_then [OF b(1)] that(2))
      qed
      have free: "triple S (bind_h (free_call_stack_state_h res rb) (\<lambda>_.
          bind_h (insert_frames_h (snd (in_fail_insert ra)) st1 sb1 0 [ff\<lparr>inlined := True\<rparr>] (Some fail_b) fail_regs 1) (\<lambda>(st, sb).
          bind_h (free_frames_h fail_b fail_regs 1) (\<lambda>_. return_h (st, inl', sb))))) ?Q"
        if "state_owns res rb" "state_owns st1 sb1" "S = state_owned sb1 + (state_owned rb + (?F + R))" for S rb sb1
      proof -
        have S: "S = state_owned rb + (state_owned sb1 + (?F + R))" by (simp add: that(3) ac_simps)
        show ?thesis unfolding S
          by (rule triple_bind [OF free_call_stack_state_runs [OF that(1)]], hypsubst, rule finish [OF ins2 that(2) fail refl])
      qed
      have insert: "triple S (bind_h (insert_frames_h (fst (in_fail_insert ra)) st sb 0 (map (adopt (bp ff) (registers ff)) (frames res))
          (frames_block rb) (register_blocks rb) (unat (depth res))) (\<lambda>(st, sb).
          bind_h (free_call_stack_state_h res rb) (\<lambda>_.
          bind_h (insert_frames_h (snd (in_fail_insert ra)) st sb 0 [ff\<lparr>inlined := True\<rparr>] (Some fail_b) fail_regs 1) (\<lambda>(st, sb).
          bind_h (free_frames_h fail_b fail_regs 1) (\<lambda>_. return_h (st, inl', sb)))))) ?Q"
        if "state_owns res rb" "S = state_owned rb + (?F + (state_owned sb + R))" for S rb
      proof -
        have S: "S = state_owned sb + (state_owned rb + (?F + R))" by (simp add: that(2) ac_simps)
        have "of_pointer (frames_block rb) + pointers (register_blocks rb) \<subseteq># state_owned rb + (?F + R)"
          by (simp add: state_owned_def add.assoc)
        from insert_frames_runs [OF ins1 owns that(1) [unfolded state_owns_def] this, of "fst (in_fail_insert ra)"]
        show ?thesis
          unfolding S by (rule triple_bind, unfold split_paired_all prod.case, elim conjE, hypsubst, intro free that(1) refl)
      qed
      show ?thesis
        unfolding T by (rule triple_bind [OF adopt_registers_runs [OF bare outer]]) (assumption, assumption, elim conjE, rule insert)
    qed
    show ?thesis
      unfolding insert_fail_frame_h_def Let_def prod.case
      by (rule triple_bind [OF sym_end.runs [OF first(1)]], elim conjE, hypsubst, rule triple_bind [OF alloc_empty_frames_runs],
          unfold split_paired_all prod.case, elim conjE, hypsubst, rule lift_then [OF first(2)],
          rule touch_registers_then [OF _ owns d], simp, unfold if_not_P [OF False] ff_def [symmetric] inl,
          rule triple_bind [OF sym_start.runs [OF steps(1)]], elim conjE, hypsubst, rule lift_then [OF steps(2)],
          rule lift_then [OF steps(3)], rule triple_bind [OF get_restored_state_runs [OF steps(4) len]],
          unfold split_paired_all prod.case, elim conjE, hypsubst, rule rest [unfolded inl]) (simp_all add: ac_simps)
  qed
qed

section \<open>The jump\<close>

text \<open>
  The \<open>else\<close> branch of \<open>jump_inlined\<close>: the state is given back after the loop that links the
  frames, the segment after it has been copied and zeroed.
\<close>

definition place_stack_h :: "call_stack_state \<Rightarrow> state_blocks \<Rightarrow> restored_segment \<Rightarrow> resource \<Rightarrow> u64 \<Rightarrow> mem \<Rightarrow> globals \<Rightarrow>
    (globals \<times> mem) heap_res" where
  "place_stack_h st sb seg seg_b main_bp m g =
     bind_h (touch_frames sb) (\<lambda>_.
     bind_h (lift_h (index_at (frames st) 0)) (\<lambda>first.
     let first_size = frame_size first - 8;
         rbp = main_bp + first_size in
     bind_h (lift_h (fold_res (relink_frame (frames st)) [1..<unat (depth st) - 1] (rbp, m))) (\<lambda>(cur_bp, m).
     bind_h (free_call_stack_state_h st sb) (\<lambda>_.
     bind_h (access seg_b) (\<lambda>_.
     bind_h (lift_h (memcpy m main_bp (seg_start_addr seg) (unat (seg_total_size seg)))) (\<lambda>m.
     bind_h (access seg_b) (\<lambda>_.
     bind_h (lift_h (memset m (seg_start_addr seg) 0 (unat (seg_total_size seg)))) (\<lambda>m.
     bind_h (release seg_b) (\<lambda>_.
     return_h (g\<lparr>g_restored_stack_size := first_size, g_restored_bp := rbp,
             g_restored_start_addr := seg_start_addr seg,
             g_restored_total_size := seg_total_size seg\<rparr>, m))))))))))"

fun jump_inlined_h :: "nat \<Rightarrow> (u64 \<Rightarrow> u8 list) \<Rightarrow> call_stack_state \<Rightarrow> state_blocks \<Rightarrow> restored_segment \<Rightarrow> resource \<Rightarrow> u64 \<Rightarrow>
    mem \<Rightarrow> globals \<Rightarrow> (globals \<times> mem) heap_res" where
  "jump_inlined_h 0 call_image st sb seg seg_b real_rsp m g = lift_h (Inl NoReturn)"
| "jump_inlined_h (Suc n) call_image st sb seg seg_b real_rsp m g =
     bind_h (lift_h (index_at (frames st) (unat (depth st - 1)))) (\<lambda>main_frame.
     bind_h (touch_registers sb (unat (depth st - 1))) (\<lambda>_.
     bind_h (lift_h (index_at (registers main_frame) (unw_num RBP))) (\<lambda>main_bp.
     if main_bp - seg_total_size seg < real_rsp then
       let bs = call_image real_rsp; rsp = real_rsp - of_nat (length bs) in
       bind_h (lift_h (store_bytes m rsp bs)) (\<lambda>m. jump_inlined_h n call_image st sb seg seg_b rsp m g)
     else place_stack_h st sb seg seg_b main_bp m g)))"

lemma place_stack_runs:
  assumes run: "place_stack st seg b m g = Inr r" and owns: "state_owns st sb" "0 < unat (depth st)"
  shows "triple (state_owned sb + add_mset seg_b R) (place_stack_h st sb seg seg_b b m g) (\<lambda>t S. t = r \<and> S = R)"
proof -
  from run obtain c m1 m2 m3 where steps: "index_at (frames st) 0 = Inr (frames st ! 0)"
    "fold_res (relink_frame (frames st)) [1..<unat (depth st) - 1] (b + (frame_size (frames st ! 0) - 8), m) = Inr (c, m1)"
    "memcpy m1 b (seg_start_addr seg) (unat (seg_total_size seg)) = Inr m2"
    "memset m2 (seg_start_addr seg) 0 (unat (seg_total_size seg)) = Inr m3"
    and r: "r = (g\<lparr>g_restored_stack_size := frame_size (frames st ! 0) - 8, g_restored_bp := b + (frame_size (frames st ! 0) - 8),
             g_restored_start_addr := seg_start_addr seg, g_restored_total_size := seg_total_size seg\<rparr>, m3)"
    by (auto simp: place_stack_def bind_res_Inr_iff Let_def index_at_Inr_iff)
  have fb: "frames_block sb \<noteq> None" using owns by (auto simp: state_owns_def blocks_ok_def)
  show ?thesis
    unfolding place_stack_h_def Let_def
    by (rule touch_frames_then [OF _ fb], simp, rule lift_then [OF steps(1)], rule lift_then [OF steps(2)], unfold prod.case,
        rule triple_bind [OF free_call_stack_state_runs [OF owns(1)]], hypsubst, rule access_then, simp,
        rule lift_then [OF steps(3)], rule access_then, simp, rule lift_then [OF steps(4)], rule release_then)
      (auto simp: r intro!: triple_return)
qed

lemma jump_inlined_runs:
  assumes "jump_inlined n ci st seg rsp m g = Inr r" and owns: "state_owns st sb" "state_ok st"
  shows "triple (state_owned sb + add_mset seg_b R) (jump_inlined_h n ci st sb seg seg_b rsp m g) (\<lambda>t S. t = r \<and> S = R)"
  using assms(1)
proof (induction n arbitrary: rsp m)
  case (Suc n)
  let ?k = "unat (depth st - 1)"
  from Suc.prems obtain b where steps: "index_at (frames st) ?k = Inr (frames st ! ?k)" "?k < length (frames st)"
    "index_at (registers (frames st ! ?k)) (unw_num RBP) = Inr b"
    by (auto simp: bind_res_Inr_iff index_at_Inr_iff)
  have d: "?k < unat (depth st)" using owns(2) steps(2) by (simp add: state_ok_def)
  show ?case
  proof (cases "b - seg_total_size seg < rsp")
    case True
    let ?rsp = "rsp - of_nat (length (ci rsp))"
    from Suc.prems True obtain m1 where m1: "store_bytes m ?rsp (ci rsp) = Inr m1" "jump_inlined n ci st seg ?rsp m1 g = Inr r"
      unfolding jump_inlined.simps steps bind_res_simps if_P [OF True] Let_def by (auto simp: bind_res_Inr_iff)
    show ?thesis
      unfolding jump_inlined_h.simps
      by (rule lift_then [OF steps(1)], rule touch_registers_then [OF _ owns(1) d], simp, rule lift_then [OF steps(3)],
          unfold if_P [OF True] Let_def, rule lift_then [OF m1(1)], rule Suc.IH [OF m1(2)])
  next
    case False
    from Suc.prems have place: "place_stack st seg b m g = Inr r"
      unfolding jump_inlined.simps steps bind_res_simps if_not_P [OF False] .
    have "0 < unat (depth st)" using d by simp
    note place = place_stack_runs [OF place owns(1) this]
    show ?thesis
      unfolding jump_inlined_h.simps
      by (rule lift_then [OF steps(1)], rule touch_registers_then [OF _ owns(1) d], simp, rule lift_then [OF steps(3)],
          unfold if_not_P [OF False], rule place)
  qed
qed simp

section \<open>The handler\<close>

text \<open>
  The records point into the blocks of the stack map: \<open>addr\<close> is computed before \<open>stmap_free\<close>.
\<close>

definition resume_unopt_h :: "env \<Rightarrow> reallocs \<Rightarrow> stack_map \<Rightarrow> map_blocks \<Rightarrow> stack_map_record \<Rightarrow> stack_size_record \<Rightarrow>
    call_stack_state \<times> bool \<times> state_blocks \<Rightarrow> mem \<Rightarrow> globals \<Rightarrow> (jump_label \<times> globals \<times> mem) heap_res" where
  "resume_unopt_h e ra sm mb unopt_rec unopt_size_rec = (\<lambda>(st, inl, sb) m g.
     bind_h
       (if inl then
          bind_h (lift_h (get_total_stack_size st)) (\<lambda>sz.
          bind_h (acquire Block) (\<lambda>seg_b.
          let seg = \<lparr>seg_start_addr = env_malloc e sz, seg_total_size = sz\<rparr> in
          bind_h (touch_frames sb) (\<lambda>_.
          bind_h (lift_h (insert_real_addresses st seg m)) (\<lambda>(st, m).
          return_h (st, Some (seg, seg_b), m)))))
        else return_h (st, None, m)) (\<lambda>(st, seg, m).
     bind_h (restore_unopt_stack_h (env_slack e) sm (in_locations ra) st sb m) (\<lambda>(st, m).
     bind_h (touch_registers sb 0) (\<lambda>_.
     bind_h (lift_h (restore_register_state st)) (\<lambda>regs.
     bind_h (access (sizes_block mb)) (\<lambda>_.
     bind_h (access (records_block mb)) (\<lambda>_.
     let g = g\<lparr>g_r := regs, g_addr := site_addr unopt_size_rec unopt_rec\<rparr> in
     bind_h (stmap_free_h sm mb) (\<lambda>_.
     case seg of
       Some (seg, seg_b) \<Rightarrow>
         bind_h (jump_inlined_h (env_fuel e) (env_call_image e) st sb seg seg_b (env_rsp e) m g) (\<lambda>(g, m).
         return_h (Restore_inlined, g, m))
     | None \<Rightarrow> bind_h (free_call_stack_state_h st sb) (\<lambda>_. return_h (Jmp_to_addr, g, m))))))))))"

definition handle_failure_h :: "env \<Rightarrow> reallocs \<Rightarrow> stack_map \<Rightarrow> map_blocks \<Rightarrow> stack_map_record \<Rightarrow> stack_map_record \<Rightarrow>
    stack_size_record \<Rightarrow> stack_size_record \<Rightarrow> mem \<Rightarrow> globals \<Rightarrow> (jump_label \<times> globals \<times> mem) heap_res" where
  "handle_failure_h e ra sm mb unopt_rec opt_rec unopt_size_rec opt_size_rec m g =
     bind_h (get_call_stack_state_h (env_junk e) (in_unwind ra) (env_cursor e) m) (\<lambda>(st, sb).
     bind_h (collect_map_records_h (env_os e) sm st sb m) (\<lambda>(st, m).
     bind_h (collect_inlined_frames_h (env_os e) sm (env_restored_junk e) (env_moves e) (in_restored ra) st sb) (\<lambda>s.
     bind_h (insert_fail_frame_h e ra sm opt_rec opt_size_rec unopt_size_rec s) (\<lambda>s.
     resume_unopt_h e ra sm mb unopt_rec unopt_size_rec s m g))))"

definition guard_failure_h :: "env \<Rightarrow> reallocs \<Rightarrow> u64 \<Rightarrow> mem \<Rightarrow> globals \<Rightarrow> (jump_label \<times> globals \<times> mem) heap_res" where
  "guard_failure_h e ra sm_id m g =
     bind_h (get_binary_path_h (env_os e)) (\<lambda>(binary_path, path_b).
     bind_h (get_addr_h (env_os e) ''.llvm_stackmaps'') (\<lambda>stack_map_addr.
     bind_h (release path_b) (\<lambda>_.
     if stack_map_addr = 0 then lift_h (Inl (Errx ''.llvm_stackmaps section not found. Exiting.''))
     else
       bind_h (stmap_create_h m stack_map_addr) (\<lambda>(sm, mb).
       case (stmap_get_map_record sm (NOT sm_id), stmap_get_map_record sm sm_id) of
         (Some unopt_rec, Some opt_rec) \<Rightarrow>
           (case (stmap_get_size_record sm (rec_index unopt_rec), stmap_get_size_record sm (rec_index opt_rec)) of
              (Some unopt_size_rec, Some opt_size_rec) \<Rightarrow>
                handle_failure_h e ra sm mb unopt_rec opt_rec unopt_size_rec opt_size_rec m g
            | _ \<Rightarrow> lift_h (Inl (Errx ''Record not found.'')))
       | _ \<Rightarrow> lift_h (Inl (Errx ''Stack map record not found. Exiting.''))))))"

lemma same_depth: "state_ok st \<Longrightarrow> state_ok st' \<Longrightarrow> map frame_size (frames st') = map frame_size (frames st) \<Longrightarrow>
    state_owns st sb \<Longrightarrow> state_owns st' sb"
  by (auto simp: state_owns_def state_ok_def dest: map_eq_imp_length_eq)

text \<open>From the moved values to the jump.\<close>

lemma restore_runs:
  assumes run: "bind_res (restore_unopt_stack (env_slack e) sm st m) (\<lambda>(st, m).
     bind_res (restore_register_state st) (\<lambda>regs.
     let g = g\<lparr>g_r := regs, g_addr := site_addr uf u\<rparr> in
     case map_option fst seg of
       Some seg \<Rightarrow>
         bind_res (jump_inlined (env_fuel e) (env_call_image e) st seg (env_rsp e) m g) (\<lambda>(g, m). Inr (Restore_inlined, g, m))
     | None \<Rightarrow> Inr (Jmp_to_addr, g, m))) = Inr r"
    and owns: "state_owns st sb" "state_ok st" and mb: "length (record_blocks mb) = unat (num_rec sm)"
    and T: "T = state_owned sb + (map_owned mb + (of_pointer (map_option snd seg) + R))"
  shows "triple T (bind_h (restore_unopt_stack_h (env_slack e) sm moved st sb m) (\<lambda>(st, m).
     bind_h (touch_registers sb 0) (\<lambda>_.
     bind_h (lift_h (restore_register_state st)) (\<lambda>regs.
     bind_h (access (sizes_block mb)) (\<lambda>_.
     bind_h (access (records_block mb)) (\<lambda>_.
     let g = g\<lparr>g_r := regs, g_addr := site_addr uf u\<rparr> in
     bind_h (stmap_free_h sm mb) (\<lambda>_.
     case seg of
       Some (seg, seg_b) \<Rightarrow>
         bind_h (jump_inlined_h (env_fuel e) (env_call_image e) st sb seg seg_b (env_rsp e) m g) (\<lambda>(g, m).
         return_h (Restore_inlined, g, m))
     | None \<Rightarrow> bind_h (free_call_stack_state_h st sb) (\<lambda>_. return_h (Jmp_to_addr, g, m))))))))) (\<lambda>t S. t = r \<and> S = R)"
proof -
  from run obtain st1 m1 regs where steps: "restore_unopt_stack (env_slack e) sm st m = Inr (st1, m1)"
    "restore_register_state st1 = Inr regs"
    by (auto simp: bind_res_Inr_iff)
  have ok1: "state_ok st1" and owns1: "state_owns st1 sb"
    using restore_unopt_stack_keeps [OF owns(2) steps(1)] same_depth owns by blast+
  have "0 < length (frames st1)" using steps(2) by (auto simp: restore_register_state_def bind_res_Inr_iff index_at_Inr_iff)
  then have d: "0 < unat (depth st1)" using ok1 by (simp add: state_ok_def)
  let ?g = "g\<lparr>g_r := regs, g_addr := site_addr uf u\<rparr>"
  have T': "T = map_owned mb + (state_owned sb + (of_pointer (map_option snd seg) + R))" by (simp add: T ac_simps)
  have jump: "triple (state_owned sb + (of_pointer (map_option snd seg) + R))
     (case seg of
       Some (seg, seg_b) \<Rightarrow>
         bind_h (jump_inlined_h (env_fuel e) (env_call_image e) st1 sb seg seg_b (env_rsp e) m1 ?g) (\<lambda>(g, m).
         return_h (Restore_inlined, g, m))
     | None \<Rightarrow> bind_h (free_call_stack_state_h st1 sb) (\<lambda>_. return_h (Jmp_to_addr, ?g, m1))) (\<lambda>t S. t = r \<and> S = R)"
  proof (cases seg)
    case None
    then have "r = (Jmp_to_addr, ?g, m1)" using run by (simp add: steps)
    then show ?thesis using None by (auto intro!: triple_bind [OF free_call_stack_state_runs [OF owns1]] triple_return)
  next
    case (Some p)
    obtain s b where p: "p = (s, b)" by (cases p)
    from run Some p obtain g2 m2 where j: "jump_inlined (env_fuel e) (env_call_image e) st1 s (env_rsp e) m1 ?g = Inr (g2, m2)"
      and r: "r = (Restore_inlined, g2, m2)"
      by (auto simp: steps bind_res_Inr_iff)
    show ?thesis
      using triple_bind [OF jump_inlined_runs [OF j owns1 ok1, of b R], of "\<lambda>(g, m). return_h (Restore_inlined, g, m)" "\<lambda>t S. t = r \<and> S = R"]
      by (simp add: Some p r triple_return)
  qed
  show ?thesis
    unfolding T
    by (rule triple_bind [OF restore_unopt_stack_runs [OF steps(1) owns]], simp, elim conjE, hypsubst, unfold prod.case,
        rule touch_registers_then [OF _ owns1 d], simp, rule lift_then [OF steps(2)],
        rule access_then, simp add: map_owned_def, rule access_then, simp add: map_owned_def,
        unfold Let_def T [symmetric] T', rule triple_bind [OF stmap_free_runs [OF mb]], hypsubst, rule jump)
qed

lemma resume_unopt_runs:
  assumes run: "resume_unopt e sm u uf (st, inl) m g = Inr r"
    and owns: "state_owns st sb" "state_ok st" and mb: "length (record_blocks mb) = unat (num_rec sm)"
  shows "triple (state_owned sb + (map_owned mb + R)) (resume_unopt_h e ra sm mb u uf (st, inl, sb) m g) (\<lambda>t S. t = r \<and> S = R)"
proof (cases inl)
  case False
  show ?thesis
    unfolding resume_unopt_h_def prod.case if_not_P [OF False] bind_return_h
    by (rule restore_runs [OF _ owns mb]) (use run False in \<open>simp_all add: resume_unopt_def\<close>)
next
  case True
  with run obtain sz st1 m1 where steps: "get_total_stack_size st = Inr sz"
    "insert_real_addresses st \<lparr>seg_start_addr = env_malloc e sz, seg_total_size = sz\<rparr> m = Inr (st1, m1)"
    by (auto simp: resume_unopt_def bind_res_Inr_iff Let_def)
  let ?seg = "\<lparr>seg_start_addr = env_malloc e sz, seg_total_size = sz\<rparr>"
  have ok1: "state_ok st1" and owns1: "state_owns st1 sb"
    using insert_real_addresses_ok [OF owns(2) steps(2)] same_depth owns by blast+
  have "frames st \<noteq> []" using steps(2) by (auto simp: insert_real_addresses_def bind_res_Inr_iff index_at_Inr_iff)
  then have fb: "frames_block sb \<noteq> None" using owns by (auto simp: state_owns_def blocks_ok_def state_ok_def unat_eq_0)
  show ?thesis
    unfolding resume_unopt_h_def prod.case if_P [OF True] bind_h_assoc Let_def [of ?seg] bind_return_h
    by (rule lift_then [OF steps(1)], rule acquire_then, unfold Let_def [of "\<lparr>seg_start_addr = _, seg_total_size = _\<rparr>"] bind_h_assoc,
        rule touch_frames_then [OF _ fb], simp add: subset_mset.add_increasing, rule lift_then [OF steps(2)],
        unfold prod.case bind_return_h, rule restore_runs [OF _ owns1 ok1 mb])
      (use run True steps in \<open>simp_all add: resume_unopt_def\<close>)
qed

text \<open>What a stack map and the unwound stack have to satisfy: counts that add up, and 32 bits for a depth.\<close>

lemma handle_failure_runs:
  assumes run: "handle_failure e sm u r uf f m g = Inr out" and cur: "length (env_cursor e) < 2 ^ 32"
    and sm: "stmap_ok sm" "Suc (length (stk_map_records sm)) < 2 ^ 32" and mb: "length (record_blocks mb) = unat (num_rec sm)"
  shows "triple (map_owned mb + R) (handle_failure_h e ra sm mb u r uf f m g) (\<lambda>t S. t = out \<and> S = R)"
proof -
  from run obtain st st2 m2 st3 inl st4 inl4 where
    a: "get_call_stack_state (env_junk e) (env_cursor e) m = Inr st"
    and b: "collect_map_records (env_os e) sm st m = Inr (st2, m2)"
    and c: "collect_inlined_frames (env_os e) sm (env_restored_junk e) (env_moves e) st2 = Inr (st3, inl)"
    and d: "insert_fail_frame e sm r f uf (st3, inl) = Inr (st4, inl4)"
    and last: "resume_unopt e sm u uf (st4, inl4) m2 g = Inr out"
    by (auto simp: handle_failure_def bind_res_Inr_iff)
  have ok: "state_ok st" "state_ok st2" "state_ok st3" "state_ok st4"
    using get_call_stack_state_ok [OF a cur] collect_map_records_frames(1) [OF sm(1) b]
      collect_inlined_frames_ok [OF _ c] insert_fail_frame_ok [OF _ d] by blast+
  have len: "length (frames st) < 2 ^ 32"
    using ok(1) unsigned_less [of "depth st", where 'a = nat] by (simp add: state_ok_def)
  have owns: "state_owns st2 sb" if "state_owns st sb" for sb
    using that ok(1,2) collect_map_records_frames(2) [OF sm(1) b ok(1)] by (simp add: state_owns_def state_ok_def)
  have later: "triple (state_owned sb + (map_owned mb + R))
      (bind_h (collect_inlined_frames_h (env_os e) sm (env_restored_junk e) (env_moves e) (in_restored ra) st2 sb) (\<lambda>s.
       bind_h (insert_fail_frame_h e ra sm r f uf s) (\<lambda>s. resume_unopt_h e ra sm mb u uf s m2 g))) (\<lambda>t S. t = out \<and> S = R)"
    if "state_owns st2 sb" for sb
    by (rule triple_bind [OF collect_inlined_frames_runs [OF sm(2) ok(2) that c]], unfold split_paired_all prod.case,
        elim conjE, hypsubst, rule triple_bind [OF insert_fail_frame_runs [OF sm(2) ok(3) _ d]], assumption,
        unfold split_paired_all prod.case, elim conjE, hypsubst, rule resume_unopt_runs [OF last _ ok(4) mb])
  show ?thesis
    unfolding handle_failure_h_def
    by (rule triple_bind [OF get_call_stack_state_runs [OF a len]], unfold split_paired_all prod.case, elim conjE, hypsubst,
        rule triple_bind [OF collect_map_records_runs [OF b]], assumption, simp, unfold split_paired_all prod.case,
        elim conjE Pair_inject, hypsubst, rule later [OF owns])
qed

lemma guard_failure_runs:
  assumes run: "guard_failure e sm_id m g = Inr r" and cur: "length (env_cursor e) < 2 ^ 32"
    and sm: "get_addr (env_os e) p ''.llvm_stackmaps'' = Inr a" "stmap_create m a = Inr sm" "stmap_ok sm"
      "Suc (length (stk_map_records sm)) < 2 ^ 32"
  shows "triple R (guard_failure_h e ra sm_id m g) (\<lambda>t S. t = r \<and> S = R)"
proof -
  obtain l g' m' where r: "r = (l, g', m')" by (cases r)
  from run obtain p' a' sm' u o' uf f where steps: "get_binary_path (env_os e) = Inr p'"
    "get_addr (env_os e) p' ''.llvm_stackmaps'' = Inr a'" "stmap_create m a' = Inr sm'" "a' \<noteq> 0"
    "stmap_get_map_record sm' (NOT sm_id) = Some u" "stmap_get_map_record sm' sm_id = Some o'"
    "stmap_get_size_record sm' (rec_index u) = Some uf" "stmap_get_size_record sm' (rec_index o') = Some f"
    "handle_failure e sm' u o' uf f m g = Inr r"
    unfolding r by (rule guard_failure_InrD)
  have "get_addr (env_os e) p ''.llvm_stackmaps'' = get_addr (env_os e) p' ''.llvm_stackmaps''"
    by (simp add: get_addr_def)
  then have same: "a' = a" "sm' = sm" using sm(1,2) steps(2,3) by auto
  note last = handle_failure_runs [OF steps(9) [unfolded same] cur sm(3,4)]
  show ?thesis
    unfolding guard_failure_h_def
    by (rule triple_bind [OF path_runs [OF steps(1)]], unfold split_paired_all prod.case, elim conjE, hypsubst,
        rule triple_bind [OF section_addr.runs [OF sm(1)]], elim conjE, hypsubst, rule release_then, simp,
        unfold if_not_P [OF steps(4) [unfolded same]], simp, rule triple_bind [OF stmap_create_runs [OF sm(2)]],
        unfold split_paired_all prod.case, elim conjE, hypsubst)
      (simp add: steps(5-8) [unfolded same] last)
qed

end
