(* ===== verification/Moved_Frames.thy ===== *)
theory Moved_Frames
  imports Stack_Resources
begin

unbundle bit_operations_syntax

text \<open>
  When \<open>realloc\<close> moves the array of frames, the copy of the state that
  \<open>collect_inlined_frames\<close> iterates over points to the freed array. The value model has a
  flag for it; here the failure follows from the heap: what has been given back is never
  held again (\<open>keeps_dead\<close>), so the next read through the copy is \<open>UseAfterFree\<close>.
\<close>

section \<open>What is given back stays away\<close>

definition keeps_dead :: "'a heap_res \<Rightarrow> bool" where
  "keeps_dead c \<longleftrightarrow> (\<forall>h x h'. c h = Inr (x, h') \<longrightarrow> next_number h \<le> next_number h' \<and>
     (\<forall>d. number d < next_number h \<and> d \<notin> live h \<longrightarrow> d \<notin> live h'))"

lemma keeps_deadD:
  assumes "keeps_dead c" and "c h = Inr (x, h')"
  shows "next_number h \<le> next_number h'" and "number d < next_number h \<Longrightarrow> d \<notin> live h \<Longrightarrow> d \<notin> live h'"
  using assms unfolding keeps_dead_def by blast+

lemma keeps_dead_bind:
  assumes c: "keeps_dead c" and f: "\<And>x. keeps_dead (f x)"
  shows "keeps_dead (bind_h c f)"
  unfolding keeps_dead_def
proof (intro allI impI)
  fix h x h' assume "bind_h c f h = Inr (x, h')"
  then obtain y h1 where "c h = Inr (y, h1)" "f y h1 = Inr (x, h')" by (auto simp: bind_h_def bind_res_Inr_iff)
  then show "next_number h \<le> next_number h' \<and> (\<forall>d. number d < next_number h \<and> d \<notin> live h \<longrightarrow> d \<notin> live h')"
    using keeps_deadD [OF c] keeps_deadD [OF f] by (meson order.strict_trans2 order.trans)
qed

lemma keeps_dead_basic: "keeps_dead (return_h x)" "keeps_dead (lift_h op)" "keeps_dead (release r)" "keeps_dead (access r)"
  by (auto simp: keeps_dead_def return_h_def lift_h_def release_def access_def bind_res_Inr_iff split: if_splits)

lemma keeps_dead_acquire: "keeps_dead (acquire Block)" "keeps_dead (acquire File)" "keeps_dead (acquire Mapping)"
  by (auto simp: keeps_dead_def acquire_def Let_def)

lemma keeps_dead_if: "keeps_dead a \<Longrightarrow> keeps_dead b \<Longrightarrow> keeps_dead (if P then a else b)"
  by simp

lemma keeps_dead_option: "keeps_dead a \<Longrightarrow> (\<And>x. keeps_dead (f x)) \<Longrightarrow> keeps_dead (case p of None \<Rightarrow> a | Some x \<Rightarrow> f x)"
  by (simp split: option.split)

lemma keeps_dead_pair: "(\<And>x y. keeps_dead (f x y)) \<Longrightarrow> keeps_dead (case p of (x, y) \<Rightarrow> f x y)"
  by (simp split: prod.split)

lemma keeps_dead_fold: "(\<And>x s. keeps_dead (f x s)) \<Longrightarrow> keeps_dead (fold_h f xs s)"
  by (induction xs arbitrary: s) (auto intro: keeps_dead_bind keeps_dead_basic)

lemma keeps_dead_find: "(\<And>x. keeps_dead (p x)) \<Longrightarrow> keeps_dead (find_h p xs)"
  by (induction xs) (auto intro!: keeps_dead_bind keeps_dead_basic keeps_dead_if)

lemma keeps_dead_find_map: "(\<And>x. keeps_dead (f x)) \<Longrightarrow> keeps_dead (find_map_h f xs)"
  by (induction xs) (auto intro!: keeps_dead_bind keeps_dead_basic keeps_dead_option)

lemmas keeps_dead = keeps_dead_bind keeps_dead_basic keeps_dead_acquire keeps_dead_if keeps_dead_option keeps_dead_pair
  keeps_dead_fold keeps_dead_find keeps_dead_find_map

lemma keeps_dead_pointers: "keeps_dead (free_h p)" "keeps_dead (realloc_h moved p n)" "keeps_dead (touch p)"
    "keeps_dead (free_pointer p)" "keeps_dead (touch_frames sb)" "keeps_dead (touch_registers sb i)"
  unfolding free_h_def realloc_h_def touch_def free_pointer_def touch_frames_def touch_registers_def by (intro keeps_dead)+

lemma keeps_dead_search: "keeps_dead (get_sym_end_h os a)" "keeps_dead (get_sym_start_h os a)"
    "keeps_dead (stmap_get_map_record_after_addr_h os sm i a)"
  unfolding get_sym_end_h_def get_sym_start_h_def stmap_get_map_record_after_addr_h_def get_elf_header_h_def
    free_header_h_def get_binary_path_h_def search_symbols_h_def Let_def
  by (intro keeps_dead)+

lemma keeps_dead_restored: "keeps_dead (restored_loop_h n os sm junk moved a ppid opt fs sb)"
  by (induction n arbitrary: opt fs sb)
    (auto simp: Let_def intro!: keeps_dead keeps_dead_pointers keeps_dead_search simp del: bind_return_h)

lemma keeps_dead_state: "keeps_dead (get_restored_state_h os sm junk moved a ppid)" "keeps_dead (free_call_stack_state_h st sb)"
  unfolding get_restored_state_h_def free_call_stack_state_h_def free_registers_def
  by (intro keeps_dead keeps_dead_pointers keeps_dead_restored)+

lemma keeps_dead_adopt: "keeps_dead outer \<Longrightarrow> keeps_dead (adopt_registers_h outer st sb)"
  unfolding adopt_registers_h_def by (intro keeps_dead keeps_dead_pointers)

section \<open>The array that was moved\<close>

lemma bind_h_InrE:
  assumes "bind_h c f h = Inr (x, h')"
  obtains y h1 where "c h = Inr (y, h1)" and "f y h1 = Inr (x, h')"
  using assms by (auto simp: bind_h_def bind_res_Inr_iff)

lemma lift_h_Inr_iff [simp]: "lift_h op h = Inr (x, h') \<longleftrightarrow> op = Inr x \<and> h' = h"
  by (auto simp: lift_h_def bind_res_Inr_iff)

text \<open>An operation after which \<open>b\<close> is not held, if its value satisfies \<open>P\<close>.\<close>

definition loses :: "resource \<Rightarrow> ('a \<Rightarrow> bool) \<Rightarrow> 'a heap_res \<Rightarrow> bool" where
  "loses b P c \<longleftrightarrow> (\<forall>h x h'. c h = Inr (x, h') \<and> number b < next_number h \<and> P x \<longrightarrow> b \<notin> live h' \<and> number b < next_number h')"

lemma losesD: "loses b P c \<Longrightarrow> c h = Inr (x, h') \<Longrightarrow> number b < next_number h \<Longrightarrow> P x \<Longrightarrow> b \<notin> live h' \<and> number b < next_number h'"
  unfolding loses_def by blast

lemma loses_later:
  assumes c: "keeps_dead c" and f: "\<And>x. loses b P (f x)"
  shows "loses b P (bind_h c f)"
  unfolding loses_def
proof (intro allI impI, elim conjE)
  fix h x h' assume "bind_h c f h = Inr (x, h')" and b: "number b < next_number h" "P x"
  then obtain y h1 where h1: "c h = Inr (y, h1)" "f y h1 = Inr (x, h')" by (auto elim: bind_h_InrE)
  show "b \<notin> live h' \<and> number b < next_number h'"
    by (rule losesD [OF f h1(2) less_le_trans [OF b(1) keeps_deadD(1) [OF c h1(1)]] b(2)])
qed

lemma loses_first:
  assumes c: "loses b (\<lambda>_. True) c" and f: "\<And>x. keeps_dead (f x)"
  shows "loses b P (bind_h c f)"
  unfolding loses_def
proof (intro allI impI, elim conjE)
  fix h x h' assume "bind_h c f h = Inr (x, h')" and b: "number b < next_number h"
  then obtain y h1 where h1: "c h = Inr (y, h1)" "f y h1 = Inr (x, h')" by (auto elim: bind_h_InrE)
  have b1: "b \<notin> live h1 \<and> number b < next_number h1" using losesD [OF c h1(1) b] by simp
  then show "b \<notin> live h' \<and> number b < next_number h'"
    using keeps_deadD [OF f h1(2)] less_le_trans by blast
qed

lemma loses_if: "loses b P c \<Longrightarrow> loses b P d \<Longrightarrow> loses b P (if Q then c else d)"
  by simp

lemma loses_return: "\<not> P x \<Longrightarrow> loses b P (return_h x)"
  by (simp add: loses_def return_h_def)

lemma loses_pair: "(\<And>x y. loses b P (f x y)) \<Longrightarrow> loses b P (case p of (x, y) \<Rightarrow> f x y)"
  by (simp split: prod.split)

lemma loses_fact: "(\<And>x. op = Inr x \<Longrightarrow> loses b P (f x)) \<Longrightarrow> loses b P (bind_h (lift_h op) f)"
  unfolding loses_def by (auto elim!: bind_h_InrE)

lemma realloc_loses: "n \<noteq> 0 \<Longrightarrow> loses b P (realloc_h True (Some b) n)"
  by (auto simp: loses_def realloc_h_def return_h_def release_def acquire_def Let_def elim!: bind_h_InrE split: if_splits)

lemma insert_frames_loses:
  assumes "frames_block sb = Some b" and "unat (depth st) \<noteq> 0" and "mv"
  shows "loses b P (insert_frames_h mv st sb i fs src_b src_regs n)"
proof -
  have mv: "mv = True" using assms(3) by simp
  show ?thesis
    unfolding insert_frames_h_def assms(1) mv
    by (intro loses_fact loses_later [OF keeps_dead_basic(4)] loses_first [OF realloc_loses] keeps_dead keeps_dead_pointers)
      (use assms(2) insert_frames_depth(2) in fastforce)
qed

lemma collect_inlined_frame_loses:
  assumes "moves i" and "frames_block sb = Some b" and "unat (depth st) \<noteq> 0"
  shows "loses b (\<lambda>(st', inl, sb'). inl) (collect_inlined_frame_h os sm junk moves moved copy i (st, False, sb))"
  unfolding collect_inlined_frame_h_def prod.case Let_def
  by (intro loses_if loses_return loses_pair loses_later [OF keeps_dead_pointers(5)] loses_later [OF keeps_dead_basic(2)]
      loses_later [OF keeps_dead_search(1)] loses_later [OF keeps_dead_search(2)] loses_later [OF keeps_dead_state(1)]
      loses_later [OF keeps_dead_adopt [OF keeps_dead_pointers(6)]] loses_first [OF insert_frames_loses [where mv = "moves i", OF assms(2,3,1)]]
      keeps_dead keeps_dead_state(2)) simp

section \<open>The next read through the copy\<close>

lemma fold_h_append: "fold_h f (xs @ ys) s = bind_h (fold_h f xs s) (fold_h f ys)"
proof (induction xs arbitrary: s)
  case (Cons x xs)
  have "fold_h f (xs @ ys) = (\<lambda>s. bind_h (fold_h f xs s) (fold_h f ys))" by (rule ext) (rule Cons.IH)
  then show ?case by (simp add: bind_h_assoc)
qed simp

lemma stale_read:
  assumes few: "Suc (length (stk_map_records sm)) < 2 ^ 32" and ok: "state_ok st" and owns: "state_owns st sb"
    and h: "holds B (state_owned sb + R) h" and i: "i + 2 < length (frames st)"
    and before: "\<And>k. k < i \<Longrightarrow> returns_in_own os sm (frames st ! k)"
    and step: "collect_inlined_frame os sm junk moves i (st, False, False) = Inr (st', True, True)"
  shows "collect_inlined_frames_h os sm junk moves moved st sb h = Inl UseAfterFree"
proof -
  have d: "unat (depth st) = length (frames st)" using ok by (simp add: state_ok_def)
  have "triple (state_owned sb + R) (get_state_copy_h sb)
      (\<lambda>copy S. frames_block copy = frames_block sb \<and> S = state_owned sb + add_mset (state_block copy) R)"
    unfolding get_state_copy_h_def
    by (rule acquire_then, rule access_then) (auto simp: state_owned_def intro!: triple_return)
  from tripleD [OF this h] obtain copy h1 where h1: "get_state_copy_h sb h = Inr (copy, h1)"
    "frames_block copy = frames_block sb" "holds B (state_owned sb + add_mset (state_block copy) R) h1" by blast
  let ?f = "collect_inlined_frame_h os sm junk moves moved copy"
  have "fold_res (collect_inlined_frame os sm junk moves) [0..<i] (st, False, False) = Inr (st, False, False)"
    using before i by (intro collect_inlined_prefix) auto
  then have "triple (state_owned sb + add_mset (state_block copy) R) (fold_h ?f [0..<i] (st, False, sb))
      (inlining_blocks copy R (st, False, False))"
  proof (rule triple_fold [where I = "\<lambda>k. inlining_blocks copy R"])
    show "inlining_blocks copy R (st, False, False) (st, False, sb) (state_owned sb + add_mset (state_block copy) R)"
      using ok owns h1(2) by (simp add: inlining_blocks_def)
  qed (rule collect_inlined_frame_runs [OF few])
  from tripleD [OF this h1(3)] obtain t h2 S where h2: "fold_h ?f [0..<i] (st, False, sb) h1 = Inr (t, h2)"
    "inlining_blocks copy R (st, False, False) t S" "holds B S h2" by blast
  then obtain sb2 where t: "t = (st, False, sb2)" and S: "S = state_owned sb2 + add_mset (state_block copy) R"
    and sb2: "state_owns st sb2" "frames_block copy = frames_block sb2"
    by (cases t) (auto simp: inlining_blocks_def)
  obtain b where b: "frames_block sb2 = Some b" using sb2(1) i d by (auto simp: state_owns_def blocks_ok_def)
  have "b \<in> live h2" using h2(3) by (auto simp: holds_def S state_owned_def b)
  then have num: "number b < next_number h2" using h2(3) by (simp add: holds_def heap_ok_def)
  from tripleD [OF collect_inlined_frame_runs [OF few step h2(2)] h2(3)] obtain u h3 T where
    h3: "?f i t h2 = Inr (u, h3)" "inlining_blocks copy R (st', True, True) u T" "holds B T h3" by blast
  then obtain sb3 where u: "u = (st', True, sb3)" and T: "T = state_owned sb3 + add_mset (state_block copy) R"
    by (cases u) (auto simp: inlining_blocks_def)
  have "moves i" using step by (auto simp: collect_inlined_frame_def bind_res_Inr_iff Let_def split: if_splits)
  then have "b \<notin> live h3"
    using losesD [OF collect_inlined_frame_loses [OF _ b, of moves i st] h3(1) [unfolded t] num] i d u by fastforce
  moreover have "state_block copy \<in> live h3" using h3(3) by (auto simp: holds_def T)
  ultimately have read: "?f (Suc i) u h3 = Inl UseAfterFree"
    by (simp add: u collect_inlined_frame_h_def touch_frames_def touch_def bind_h_def lift_h_def access_def sb2(2) b)
  have "[0..<length (frames st) - 1] = [0..<i] @ [i..<length (frames st) - 1]"
    using upt_add_eq_append [of 0 i "length (frames st) - 1 - i"] i by simp
  also have "[i..<length (frames st) - 1] = i # Suc i # [i + 2..<length (frames st) - 1]"
    using i by (simp add: upt_conv_Cons numeral_2_eq_2)
  finally have "call_indices st = [0..<i] @ i # Suc i # [i + 2..<length (frames st) - 1]"
    by (simp add: call_indices_def d)
  then show ?thesis
    by (simp add: collect_inlined_frames_h_def bind_h_def [of "get_state_copy_h sb"] h1(1) fold_h_append)
      (simp add: bind_h_def h2(1) h3(1) read)
qed

end
