(* ===== verification/Resource_Properties.thy ===== *)
theory Resource_Properties
  imports Handler_Resources Moved_Frames Stack_Properties Example_Run
begin

unbundle bit_operations_syntax

text \<open>
  What the runtime promises about blocks, files and mappings: the handler gives back
  everything it takes, the stack map is released once, and the searches of the symbol table
  leave nothing mapped or open.
\<close>

section \<open>The handler\<close>

text \<open>C5: A run of \<open>__guard_failure\<close> that reaches its jump has freed every block it allocated exactly
  once, closed every file and unmapped every mapping, and has never followed a pointer into a
  block after freeing it, wherever \<open>realloc\<close> moves the arrays it grows: run with the heap it has
  the same result, and the same resources are held as on entry.\<close>

theorem guard_failure_gives_back:
  assumes "guard_failure e sm_id m g = Inr r" and "heap_ok h" and "length (env_cursor e) < 2 ^ 32"
    and "get_addr (env_os e) p ''.llvm_stackmaps'' = Inr a" and "stmap_create m a = Inr sm" and "stmap_ok sm"
    and "Suc (length (stk_map_records sm)) < 2 ^ 32"
  shows "\<exists>h'. guard_failure_h e ra sm_id m g h = Inr (r, h') \<and> heap_ok h' \<and> live h' = live h"
  by (rule triple_keeps_live [OF guard_failure_runs [OF assms(1,3-7)] assms(2)])

definition ex_reallocs :: reallocs where
  "ex_reallocs = \<lparr>in_unwind = even, in_restored = (\<lambda>_ _. True), in_fail_restored = odd,
     in_fail_insert = (True, False), in_locations = (\<lambda>_. True)\<rparr>"

definition ex_heap :: heap where
  "ex_heap = \<lparr>live = {Block 0, File 3}, next_number = 7\<rparr>"

theorem guard_failure_gives_back_witness:
  "\<exists>r h'. guard_failure_h ex_env ex_reallocs 1 ex_run_ram ex_globals ex_heap = Inr (r, h') \<and> live h' = {Block 0, File 3}"
proof -
  from ex_run obtain g' m' where run: "guard_failure ex_env 1 ex_run_ram ex_globals = Inr (Jmp_to_addr, g', m')" by blast
  have e: "env_os ex_env = ex_os" by (simp add: ex_env_def)
  have "length (env_cursor ex_env) < 2 ^ 32" by (simp add: ex_env_def ex_run_cursor_def)
  moreover have "heap_ok ex_heap" by (simp add: heap_ok_def ex_heap_def)
  moreover have "Suc (length (stk_map_records ex_sm)) < 2 ^ 32" by (simp add: ex_sm_def)
  ultimately show ?thesis
    using guard_failure_gives_back [OF run, of ex_heap "[]" "0x400000" ex_sm ex_reallocs]
    by (auto simp: e ex_get_addr ex_run_parse ex_ok ex_heap_def)
qed

section \<open>The array that is moved\<close>

text \<open>C22: \<open>collect_inlined_frames\<close> keeps iterating over a copy of the state that shares its frame
  array. When the first iteration that inserts frames makes \<open>realloc\<close> move the array and another
  frame that makes a call follows, the next iteration reads a block that was given back: the
  run on the heap, started with all blocks of the state held, is \<open>UseAfterFree\<close>.\<close>

theorem moved_frames_read:
  assumes "Suc (length (stk_map_records sm)) < 2 ^ 32" and "state_ok st" and "state_owns st sb"
    and "holds B (state_owned sb) h" and "i + 2 < length (frames st)"
    and "\<And>k. k < i \<Longrightarrow> returns_in_own os sm (frames st ! k)"
    and "collect_inlined_frame os sm junk moves i (st, False, False) = Inr (st', True, True)"
  shows "collect_inlined_frames_h os sm junk moves moved st sb h = Inl UseAfterFree"
  using stale_read [OF assms(1-3) _ assms(5-7), of B "{#}" h] assms(4) by simp

definition ex_blocks :: state_blocks where
  "ex_blocks = \<lparr>state_block = Block 1, frames_block = Some (Block 2), register_blocks = map (\<lambda>n. Some (Block n)) [3, 4, 5]\<rparr>"

definition ex_call_heap :: heap where
  "ex_call_heap = \<lparr>live = {Block 1, Block 2, Block 3, Block 4, Block 5}, next_number = 6\<rparr>"

theorem moved_frames_read_witness:
  "collect_inlined_frames_h ex_os ex_sm (\<lambda>_. empty_frame) (\<lambda>_. True) (\<lambda>_ _. True) ex_inlined_call
    ex_blocks ex_call_heap = Inl UseAfterFree"
proof -
  obtain st' where step: "collect_inlined_frame ex_os ex_sm (\<lambda>_. empty_frame) (\<lambda>_. True) 0 (ex_inlined_call, False, False) =
    Inr (st', True, True)"
    using ex_inlined_step by blast
  have "state_owned ex_blocks = {#Block 1, Block 2, Block 3, Block 4, Block 5#}"
    by (simp add: state_owned_def ex_blocks_def)
  then have "holds {} (state_owned ex_blocks) ex_call_heap"
    by (auto simp: holds_def heap_ok_def ex_call_heap_def)
  moreover have "Suc (length (stk_map_records ex_sm)) < 2 ^ 32" by (simp add: ex_sm_def)
  moreover have "state_owns ex_inlined_call ex_blocks"
    by (simp add: state_owns_def blocks_ok_def ex_inlined_call_def ex_blocks_def)
  ultimately show ?thesis
    by (intro moved_frames_read [OF _ ex_inlined_call_ok _ _ _ _ step]) (simp_all add: ex_inlined_call_def)
qed

section \<open>The stack map\<close>

text \<open>C28: \<open>stmap_create\<close> allocates four blocks and two for each map record; \<open>stmap_free\<close> of its result
  frees exactly these, and a second \<open>stmap_free\<close> reads a freed block.\<close>

theorem stmap_freed_once:
  assumes "stmap_create m a = Inr sm" and "heap_ok h"
  shows "\<exists>mb h1 h2. stmap_create_h m a h = Inr ((sm, mb), h1) \<and>
    live h1 = live h \<union> set_mset (map_owned mb) \<and> live h \<inter> set_mset (map_owned mb) = {} \<and>
    card (set_mset (map_owned mb)) = 4 + 2 * unat (num_rec sm) \<and>
    stmap_free_h sm mb h1 = Inr ((), h2) \<and> live h2 = live h \<and> stmap_free_h sm mb h2 = Inl UseAfterFree"
proof -
  have "holds (live h) {#} h" using assms(2) by (simp add: holds_def)
  from tripleD [OF stmap_create_runs [OF assms(1)] this] obtain mb h1 where
    c: "stmap_create_h m a h = Inr ((sm, mb), h1)" "length (record_blocks mb) = unat (num_rec sm)"
    and h1: "holds (live h) (map_owned mb) h1" by auto
  have "triple (map_owned mb) (stmap_free_h sm mb) (\<lambda>_ S. S = {#})" using stmap_free_runs [OF c(2), of "{#}"] by simp
  from tripleD [OF this h1] obtain h2 where h2: "stmap_free_h sm mb h1 = Inr ((), h2)" "live h2 = live h"
    by (auto simp: holds_def)
  have "map_block mb \<in># map_owned mb" by (simp add: map_owned_def)
  then have "map_block mb \<notin> live h2" using h1 h2(2) by (auto simp: holds_def)
  then have "stmap_free_h sm mb h2 = Inl UseAfterFree" by (simp add: stmap_free_h_def bind_h_def access_def)
  moreover have "card (set_mset (map_owned mb)) = 4 + 2 * unat (num_rec sm)"
  proof -
    have "count (map_owned mb) x = (if x \<in># map_owned mb then 1 else 0)" for x
      using h1 unfolding holds_def by (metis One_nat_def Suc_leI count_greater_zero_iff le_antisym not_in_iff)
    then have "map_owned mb = mset_set (set_mset (map_owned mb))"
      by (intro multiset_eqI) (simp add: count_mset_set')
    then have "card (set_mset (map_owned mb)) = size (map_owned mb)" by (metis size_mset_set)
    then show ?thesis by (simp add: map_owned_def pair_blocks_def c(2))
  qed
  ultimately show ?thesis using c(1) h1 h2 by (auto simp: holds_def)
qed

theorem stmap_freed_once_witness:
  "\<exists>mb h1 h2. stmap_create_h ex_run_ram 0x400000 ex_heap = Inr ((ex_sm, mb), h1) \<and>
    stmap_free_h ex_sm mb h1 = Inr ((), h2) \<and> live h2 = live ex_heap \<and> stmap_free_h ex_sm mb h2 = Inl UseAfterFree"
proof -
  have "heap_ok ex_heap" by (simp add: heap_ok_def ex_heap_def)
  from stmap_freed_once [OF ex_run_parse this] show ?thesis by blast
qed

section \<open>The symbol table\<close>

text \<open>C33: \<open>get_sym_start\<close>, which maps the executable and calls \<open>get_sym_end\<close>, with a mapping of its own, for
  every symbol it looks at, leaves no mapping, open file or path behind, whichever symbol ends
  the search.\<close>

theorem symbol_search_unmaps:
  assumes "get_sym_start os addr = Inr x" and "heap_ok h"
  shows "\<exists>h'. get_sym_start_h os addr h = Inr (x, h') \<and> heap_ok h' \<and> live h' = live h"
  using assms by (rule sym_start.keeps_live)

theorem symbol_search_unmaps_witness:
  "\<exists>h'. get_sym_start_h ex_os 0x1015 ex_heap = Inr (0x1000, h') \<and> live h' = {Block 0, File 3}"
proof -
  have "heap_ok ex_heap" by (simp add: heap_ok_def ex_heap_def)
  moreover have "get_sym_start ex_os 0x1015 = Inr 0x1000"
    by (simp add: get_sym_start_list [OF ex_exe_symbols] ex_syms_def sym_start_of_def sym_end_of_def)
  ultimately show ?thesis using symbol_search_unmaps [of ex_os "0x1015" "0x1000" ex_heap] by (auto simp: ex_heap_def)
qed

end
