(* ===== verification/Twin_Records.thy ===== *)
theory Twin_Records
  imports Pipeline Guard
begin

unbundle bit_operations_syntax

text \<open>
  Where the compiler passes and the runtime meet: the identifiers that the passes put into a
  module are the ones the handler looks up in the stack map. In between LLVM optimizes the
  module and emits the stack map; what is relied on is \<open>emitted\<close>. Inlining may repeat or
  drop calls of optimized functions, so nothing is said about how many records these have.
\<close>

text \<open>
  Every record has an identifier of the module, and every call that makes records in an
  unoptimized function, which LLVM neither inlines nor optimizes, has one record.
\<close>

definition module_ids_of :: "ir_module \<Rightarrow> u64 list" where
  "module_ids_of md = concat (map (\<lambda>g. ppids (concat (body g))) md)"

definition records_of :: "stack_map \<Rightarrow> u64 \<Rightarrow> stack_map_record list" where
  "records_of sm i = filter (\<lambda>r. patchpoint_id r = i) (stk_map_records sm)"

definition emitted :: "ir_module \<Rightarrow> stack_map \<Rightarrow> bool" where
  "emitted md sm \<longleftrightarrow>
     list_all (\<lambda>r. patchpoint_id r \<in> set (module_ids_of md)) (stk_map_records sm) \<and>
     list_all (\<lambda>g. is_unopt (fun_name g) \<longrightarrow> list_all (\<lambda>i. length (records_of sm i) = 1) (ppids (concat (body g)))) md"

lemma module_id_function:
  "distinct (module_ids_of md) \<Longrightarrow> g \<in> set md \<Longrightarrow> u \<in> set md \<Longrightarrow>
    i \<in> set (ppids (concat (body g))) \<Longrightarrow> i \<in> set (ppids (concat (body u))) \<Longrightarrow> g = u"
proof (induction md)
  case (Cons f md)
  have d: "distinct (module_ids_of md)" "set (ppids (concat (body f))) \<inter> set (module_ids_of md) = {}"
    using Cons.prems(1) by (simp_all add: module_ids_of_def del: distinct_concat_iff)
  have sub: "set (ppids (concat (body h))) \<subseteq> set (module_ids_of md)" if "h \<in> set md" for h
    using that by (auto simp: module_ids_of_def)
  show ?case
  proof (cases "g \<in> set md \<and> u \<in> set md")
    case True
    then show ?thesis using Cons.IH [OF d(1)] Cons.prems(4,5) by blast
  next
    case False
    then show ?thesis using Cons.prems(2-5) d(2) sub [of g] sub [of u] by fastforce
  qed
qed simp

lemma record_of_unopt:
  assumes "emitted md sm" and "u \<in> set md" and "is_unopt (fun_name u)" and "i \<in> set (ppids (concat (body u)))"
  shows "\<exists>r. stmap_get_map_record sm i = Some r \<and> records_of sm i = [r]"
proof -
  have "length (records_of sm i) = 1" using assms by (auto simp: emitted_def list_all_iff)
  then obtain r where r: "records_of sm i = [r]" by (auto simp: length_Suc_conv)
  have "find q xs = Some x" if "filter q xs = [x]" for q and xs :: "stack_map_record list" and x
    using that by (induction xs) (auto split: if_splits)
  from this [OF r [unfolded records_of_def]] show ?thesis using r by (simp add: stmap_get_map_record_def)
qed

lemma compiled_twin_record:
  assumes plain: "plain_module md" "guard_fun_name \<notin> set (map fun_name md)"
    and source: "list_all (\<lambda>f. list_all (list_all no_intrinsic) (body f)) md"
    and copies: "add_unopt_copies uniq (declare_guard md) = Inr md2"
    and fits: "next_base 1 (site_counts md2 (declare_guard md)) \<le> 2 ^ 63"
    and run: "module_passes dominates alloc_size uniq md = Inr (out, sms)"
    and f: "f \<in> set md" "\<not> is_declaration f"
    and f': "f' \<in> set out" "fun_name f' = fun_name f" "i \<in> set (ppids (concat (body f')))"
    and sm: "emitted out sm"
  shows "\<exists>u' r. u' \<in> set out \<and> fun_name u' = unopt_prefix @ fun_name f \<and> NOT i \<in> set (ppids (concat (body u'))) \<and>
    (\<forall>g \<in> set out. NOT i \<in> set (ppids (concat (body g))) \<longrightarrow> g = u') \<and>
    stmap_get_map_record sm (NOT i) = Some r \<and> records_of sm (NOT i) = [r]"
proof -
  note names = plain_names(1) [OF plain_declared [OF plain] copies] and ids = module_passes_ids [OF plain source copies fits run]
  have "\<not> is_unopt (fun_name f)" "\<not> available_externally f" using plain(1) f(1) by (auto simp: plain_module_def list_all_iff)
  then have "plain_copy f \<in> set md2" using f by (auto simp: names declare_guard_def to_copy_def)
  then obtain k where k: "k < length md2" "md2 ! k = plain_copy f" by (auto simp: in_set_conv_nth)
  define u' where "u' = out ! k"
  have u': "u' \<in> set out" "fun_name u' = unopt_prefix @ fun_name f"
    using list_all2_nthD [OF ids(2) k(1)] list_all2_lengthD [OF ids(2)] k by (simp_all add: u'_def plain_copy_def)
  note twins = module_passes_twins(2) [OF plain source copies fits run f f'(1,2) u']
  then have twin: "NOT i \<in> set (ppids (concat (body u')))" using f'(3) by simp
  moreover obtain r where "stmap_get_map_record sm (NOT i) = Some r" "records_of sm (NOT i) = [r]"
    using record_of_unopt [OF sm u'(1) _ twin] u'(2) by auto
  moreover have "g = u'" if "g \<in> set out" "NOT i \<in> set (ppids (concat (body g)))" for g
    using module_id_function [OF ids(3) [folded module_ids_of_def] that(1) u'(1) that(2) twin] .
  ultimately show ?thesis using u' by blast
qed

text \<open>The handler on such a program, for a guard whose own record is there.\<close>

lemma compiled_guard:
  assumes "stmap_get_map_record sm (NOT i) = Some u" and "r0 \<in> set (stk_map_records sm)" and "patchpoint_id r0 = i"
    and "get_binary_path (env_os e) = Inr p" and "get_addr (env_os e) p ''.llvm_stackmaps'' = Inr a" and "a \<noteq> 0"
    and "stmap_create m a = Inr sm" and "stmap_ok sm"
  shows "\<exists>r uf rf. patchpoint_id r = i \<and> stmap_get_size_record sm (rec_index u) = Some uf \<and>
    stmap_get_size_record sm (rec_index r) = Some rf \<and> guard_failure e i m g = handle_failure e sm u r uf rf m g"
proof -
  have "stmap_get_map_record sm i \<noteq> None" using assms(2,3) by (auto simp: stmap_get_map_record_def find_None_iff)
  then obtain r where r: "stmap_get_map_record sm i = Some r" by blast
  obtain uf rf where "stmap_get_size_record sm (rec_index u) = Some uf" "stmap_get_size_record sm (rec_index r) = Some rf"
    using record_has_function [OF assms(8)] assms(1) r by blast
  moreover have "patchpoint_id r = i" using r by (auto simp: stmap_get_map_record_def dest: find_SomeD)
  ultimately show ?thesis using guard_failure_record [OF assms(4-8), of i g] assms(1) r by auto
qed

end
