(* ===== verification/Recorded_Frames.thy ===== *)
theory Recorded_Frames
  imports Twin_Records Stages Call_Shapes
begin

unbundle bit_operations_syntax

text \<open>
  The live values of a compiled program. In every stage of the handler from \<open>collect_map_records\<close>
  on, the frames that make calls have records of the stack map with the same identifier, and a
  twin. When LLVM gives a record as many locations as the call has values to record
  (\<open>counted\<close>), the passes make this number even; so the transfer of live values, which fails on
  odd numbers, is the simultaneous assignment it is meant to be.
\<close>

section \<open>Frames with records\<close>

definition recorded_frame :: "stack_map \<Rightarrow> frame \<Rightarrow> bool" where
  "recorded_frame sm f \<longleftrightarrow>
     real_record f \<in> set (stk_map_records sm) \<and> patchpoint_id (frame_record f) = patchpoint_id (real_record f) \<and>
     stmap_get_map_record sm (NOT (patchpoint_id (real_record f))) \<noteq> None"

definition recorded_frames :: "stack_map \<Rightarrow> frame list \<Rightarrow> bool" where
  "recorded_frames sm fs \<longleftrightarrow> list_all (recorded_frame sm) (butlast fs)"

lemma recorded_frames_nth: "recorded_frames sm fs \<longleftrightarrow> (\<forall>i. Suc i < length fs \<longrightarrow> recorded_frame sm (fs ! i))"
  by (auto simp: recorded_frames_def list_all_length nth_butlast)

lemma recorded_frame_update [simp]:
  "recorded_frame sm (f\<lparr>registers := regs\<rparr>) = recorded_frame sm f"
  "recorded_frame sm (f\<lparr>bp := b, ret_addr := a\<rparr>) = recorded_frame sm f"
  "recorded_frame sm (f\<lparr>inlined := i\<rparr>) = recorded_frame sm f"
  "recorded_frame sm (adopt b regs f) = recorded_frame sm f"
  by (simp_all add: recorded_frame_def adopt_def)

lemma record_after_addrD:
  assumes "stmap_get_map_record_after_addr os sm ppid a = Inr (Some r)"
  shows "r \<in> set (stk_map_records sm)" and "patchpoint_id r = ppid"
proof -
  from assms obtain i where "find_res (\<lambda>i.
       let r = stk_map_records sm ! i in
       if patchpoint_id r = ppid then
         bind_res (or_errx (stmap_get_size_record sm (of_nat i)) ''No stack map after call!. Exiting.'') (\<lambda>f.
         bind_res (get_sym_end os (fun_addr f)) (\<lambda>last_addr.
         Inr (site_addr f r \<ge> a \<and> a \<ge> fun_addr f \<and> a < last_addr)))
       else Inr False) [0..<length (stk_map_records sm)] = Inr (Some i)" and r: "r = stk_map_records sm ! i"
    by (auto simp: stmap_get_map_record_after_addr_def bind_res_Inr_iff)
  from find_res_SomeD [OF this(1)] obtain ys zs where split: "[0..<length (stk_map_records sm)] = ys @ i # zs"
    and id: "patchpoint_id (stk_map_records sm ! i) = ppid"
    by (auto simp: Let_def split: if_splits)
  have "i \<in> set [0..<length (stk_map_records sm)]" unfolding split by simp
  then show "r \<in> set (stk_map_records sm)" and "patchpoint_id r = ppid" using id by (simp_all add: r)
qed

lemma matched_recorded:
  assumes "matched os sm fr fr'"
  shows "recorded_frame sm fr'"
proof -
  have "stmap_get_map_record_after_addr os sm (patchpoint_id (frame_record fr')) (stored_ret_addr fr) = Inr (Some (real_record fr'))"
    and u: "unopt_return sm (frame_record fr') \<noteq> None"
    using assms by (simp_all add: matched_def)
  note rec = record_after_addrD [OF this(1)]
  have "stmap_get_map_record sm (NOT (patchpoint_id (frame_record fr'))) \<noteq> None"
    using u by (auto simp: unopt_return_def split: option.splits)
  then show ?thesis using rec by (simp add: recorded_frame_def)
qed

lemma restored_state_recorded:
  assumes "stmap_ok sm" and "get_restored_state os sm junk a ppid = Inr st"
  shows "list_all (recorded_frame sm) (frames st)"
proof -
  from assms(2) obtain fs where "restored_loop (length (stk_map_records sm) + 1) os sm junk a ppid a [] = Inr fs" "frames st = fs"
    by (auto simp: get_restored_state_def bind_res_Inr_iff)
  from restored_loop_walk [OF assms(1) this(1)] this(2) obtain ps where ps: "list_all2 (restored_frame os sm a) ps (frames st)" by auto
  have "recorded_frame sm fr" if "restored_frame os sm a p fr" for p fr
  proof -
    have rec: "frame_record fr = fst p" "stmap_get_map_record sm (NOT (patchpoint_id (fst p))) \<noteq> None"
      "stmap_get_map_record_after_addr os sm (patchpoint_id (fst p)) a = Inr (Some (real_record fr))"
      using that by (auto simp: restored_frame_def split: prod.splits)
    show ?thesis using rec(1,2) record_after_addrD [OF rec(3)] by (simp add: recorded_frame_def)
  qed
  then show ?thesis using ps unfolding list_all2_conv_all_nth list_all_length by metis
qed

lemma insert_frames_recorded:
  assumes "insert_frames st i fs n = Inr st'" and "list_all (recorded_frame sm) fs"
    and "recorded_frames sm (frames st)" and "i < length (frames st)"
  shows "recorded_frames sm (frames st')"
proof -
  from assms(1) have "frames st' = take i (frames st) @ map (\<lambda>f. f\<lparr>registers := take 16 (registers f)\<rparr>) (take n fs) @ drop i (frames st)"
    by (auto simp: insert_frames_def split: if_splits)
  moreover have "list_all (recorded_frame sm) (take i (frames st))" "list_all (recorded_frame sm) (butlast (drop i (frames st)))"
    using assms(3,4) by (auto simp: recorded_frames_nth list_all_length nth_butlast)
  ultimately show ?thesis
    using assms(2,4) by (auto simp: recorded_frames_def butlast_append list_all_iff dest: in_set_takeD)
qed

section \<open>Through the stages\<close>

lemma collect_map_records_recorded:
  assumes "stmap_ok sm" and "collect_map_records os sm st m = Inr (st', m')" and "state_ok st"
  shows "recorded_frames sm (frames st')"
  using collect_map_records_frames [OF assms] by (auto simp: recorded_frames_nth intro: matched_recorded)

lemma collect_inlined_frame_recorded:
  assumes sm: "stmap_ok sm" and st: "recorded_frames sm (frames st)"
    and run: "collect_inlined_frame os sm junk moves i (st, inl, stale) = Inr (st', inl', stale')"
  shows "recorded_frames sm (frames st')"
proof (cases "st' = st")
  case False
  with run obtain outer :: frame and a p and res :: call_stack_state where o: "index_at (frames st) (Suc i) = Inr outer"
    and res: "get_restored_state os sm junk a p = Inr res"
    and ins: "insert_frames st (Suc i) (map (adopt (real_bp outer) (registers outer)) (frames res)) (unat (depth res)) = Inr st'"
    by (auto simp: collect_inlined_frame_def bind_res_Inr_iff Let_def split: if_splits)
  show ?thesis
    using insert_frames_recorded [OF ins _ st] restored_state_recorded [OF sm res] o
    by (simp add: list.pred_map comp_def index_at_Inr_iff)
qed (use st in simp)

lemma collect_inlined_frames_recorded:
  assumes sm: "stmap_ok sm" and st: "recorded_frames sm (frames st)"
    and run: "collect_inlined_frames os sm junk moves st = Inr (st', inl)"
  shows "recorded_frames sm (frames st')"
proof -
  from run obtain stale where "fold_res (collect_inlined_frame os sm junk moves) (call_indices st) (st, False, False) =
      Inr (st', inl, stale)"
    by (auto simp: collect_inlined_frames_def get_state_copy_def Let_def bind_res_Inr_iff)
  then have "recorded_frames sm (frames (fst (st', inl, stale)))"
  proof (rule fold_res_invariant)
    fix i u v
    assume "recorded_frames sm (frames (fst u))" and "collect_inlined_frame os sm junk moves i u = Inr v"
    then show "recorded_frames sm (frames (fst v))" by (cases u; cases v) (auto intro: collect_inlined_frame_recorded [OF sm])
  qed (simp add: st)
  then show ?thesis by simp
qed

lemma insert_fail_frame_recorded:
  assumes sm: "stmap_ok sm" and st: "recorded_frames sm (frames st)"
    and r: "r \<in> set (stk_map_records sm)" "stmap_get_map_record sm (NOT (patchpoint_id r)) \<noteq> None"
    and run: "insert_fail_frame e sm r f uf (st, inl) = Inr (st', inl')"
  shows "recorded_frames sm (frames st')"
proof -
  from run obtain first where first: "index_at (frames st) 0 = Inr first"
    by (auto simp: insert_fail_frame_def bind_res_Inr_iff)
  then have pos: "0 < length (frames st)" by (simp add: index_at_Inr_iff)
  let ?ff = "make_fail_frame r f uf first"
  have ff: "recorded_frame sm ?ff" using r by (simp add: make_fail_frame_def recorded_frame_def)
  from run first consider "insert_frames st 0 [?ff] 1 = Inr st'"
    | (inl) a p and res :: call_stack_state and st2 :: call_stack_state where
      "get_restored_state (env_os e) sm (env_restored_junk e) a p = Inr res"
      "insert_frames st 0 (map (adopt (bp ?ff) (registers ?ff)) (frames res)) (unat (depth res)) = Inr st2"
      "insert_frames st2 0 [?ff\<lparr>inlined := True\<rparr>] 1 = Inr st'"
    by (auto simp: insert_fail_frame_def bind_res_Inr_iff Let_def split: if_splits)
  then show ?thesis
  proof cases
    case 1
    from insert_frames_recorded [OF 1 _ st pos] show ?thesis using ff by simp
  next
    case inl
    have st2: "recorded_frames sm (frames st2)"
      by (rule insert_frames_recorded [OF inl(2) _ st pos])
        (use restored_state_recorded [OF sm inl(1)] in \<open>simp add: list.pred_map comp_def\<close>)
    have "0 < length (frames st2)" using inl(2) pos by (auto simp: insert_frames_def split: if_splits)
    from insert_frames_recorded [OF inl(3) _ st2 this] show ?thesis using ff by simp
  qed
qed

lemma insert_real_addresses_recorded:
  assumes st: "recorded_frames sm (frames st)" and run: "insert_real_addresses st seg m = Inr (st', m')"
  shows "recorded_frames sm (frames st')"
proof -
  from run obtain c fs x t where
    loop: "fold_res insert_real_address (call_indices st) (frames st, c, m) = Inr (fs, x, t)"
    and st': "st' = st\<lparr>frames := fs\<rparr>"
    by (auto simp: insert_real_addresses_def bind_res_Inr_iff)
  from loop have "recorded_frames sm (fst (fs, x, t))"
  proof (rule fold_res_invariant)
    show "recorded_frames sm (fst (frames st, c, m))" using st by simp
    fix i and r s :: "frame list \<times> u64 \<times> mem" assume P: "recorded_frames sm (fst r)" and "insert_real_address i r = Inr s"
    then obtain fr b a where fr: "index_at (fst r) i = Inr fr" and s: "fst s = (fst r)[i := fr\<lparr>bp := b, ret_addr := a\<rparr>]"
      by (cases r; cases s) (auto simp: insert_real_address_def bind_res_Inr_iff)
    then show "recorded_frames sm (fst s)"
      using P by (auto simp: recorded_frames_nth nth_list_update index_at_Inr_iff)
  qed
  then show ?thesis by (simp add: st')
qed

text \<open>The stage in which the values are moved.\<close>

fun stage_recorded :: "stack_map \<Rightarrow> stage \<Rightarrow> bool" where
  "stage_recorded sm (Matched st m) = recorded_frames sm (frames st)"
| "stage_recorded sm (Spliced st inl m) = recorded_frames sm (frames st)"
| "stage_recorded sm (Framed st inl m) = recorded_frames sm (frames st)"
| "stage_recorded sm (Restacked st seg m) = recorded_frames sm (frames st)"
| "stage_recorded sm s = True"

lemma stage_step_recorded:
  assumes "stage_step e sm u r uf f g s t" and "stmap_ok sm" and "length (env_cursor e) < 2 ^ 32"
    and "r \<in> set (stk_map_records sm)" "stmap_get_map_record sm (NOT (patchpoint_id r)) \<noteq> None"
    and "stage_ok m0 (site_addr uf u) s" and "stage_recorded sm s"
  shows "stage_recorded sm t"
  using assms
proof (induction rule: stage_step.induct)
  case (match st m st' m')
  then show ?case by (auto intro: collect_map_records_recorded)
next
  case (splice st st' inl m)
  then show ?case by (auto intro: collect_inlined_frames_recorded)
next
  case (add st inl st' inl' m)
  then show ?case by (auto intro: insert_fail_frame_recorded)
next
  case (restack st sz m st' m')
  then show ?case by (auto intro: insert_real_addresses_recorded)
qed simp_all

lemma stages_recorded:
  assumes "(stage_step e sm u r uf f g)\<^sup>*\<^sup>* (Entered m) s" and "stmap_ok sm" and "length (env_cursor e) < 2 ^ 32"
    and "r \<in> set (stk_map_records sm)" "stmap_get_map_record sm (NOT (patchpoint_id r)) \<noteq> None"
  shows "stage_recorded sm s"
  using assms(1)
proof (induction rule: rtranclp_induct)
  case (step s t)
  then show ?case using stage_step_recorded [OF step(2) assms(2-5) stages_ok [OF step(1) assms(2,3)]] by simp
qed simp

section \<open>Numbers of locations\<close>

text \<open>
  What LLVM says of a record: it has one location for each value of the call with its
  identifier, behind the fixed arguments.
\<close>

definition counted :: "ir_module \<Rightarrow> stack_map \<Rightarrow> bool" where
  "counted md sm \<longleftrightarrow>
     list_all (\<lambda>r.
       list_ex (\<lambda>g. list_ex (list_ex (\<lambda>it. ppid_of it = Some (patchpoint_id r) \<and>
         (case recorded_values it of Some vs \<Rightarrow> length vs = unat (num_locations r) | None \<Rightarrow> False))) (body g)) md)
     (stk_map_records sm)"

lemma counted_even:
  assumes "counted md sm" and "\<And>g. g \<in> set md \<Longrightarrow> list_all (list_all paired) (body g)" and "r \<in> set (stk_map_records sm)"
  shows "even (unat (num_locations r))"
proof -
  from assms(1,3) obtain g b it vs where g: "g \<in> set md" "b \<in> set (body g)" "it \<in> set b"
    and vs: "recorded_values it = Some vs" "length vs = unat (num_locations r)"
    by (fastforce simp: counted_def list_all_iff list_ex_iff split: option.splits)
  have "\<not> no_intrinsic it"
    using vs(1) by (auto simp: recorded_values_def no_intrinsic_def split: operation.splits callee.splits option.splits if_splits)
  moreover have "paired it" using assms(2) [OF g(1)] g(2,3) by (simp add: list_all_iff)
  ultimately have "is_flat vs" using vs(1) by (simp add: paired_def)
  then show ?thesis using is_flat_even vs(2) by metis
qed

definition counts_agree :: "stack_map \<Rightarrow> frame \<Rightarrow> bool" where
  "counts_agree sm f =
     (case stmap_get_map_record sm (NOT (patchpoint_id (real_record f))) of
        None \<Rightarrow> False
      | Some u \<Rightarrow> num_locations (real_record f) = num_locations u)"

lemma fold_res_each: "fold_res f xs s = Inr t \<Longrightarrow> x \<in> set xs \<Longrightarrow> \<exists>u v. f x u = Inr v"
  by (induction xs arbitrary: s) (auto simp: bind_res_Inr_iff)

lemma restored_counts:
  assumes st: "state_ok st" and run: "restore_unopt_stack slack sm st m = Inr r"
  shows "list_all (counts_agree sm) (butlast (frames st))"
proof -
  have "counts_agree sm (frames st ! i)" if "Suc i < length (frames st)" for i
  proof -
    from run obtain s where "fold_res (get_frame_locations slack m sm st) (call_indices st) ([], 0) = Inr s"
      by (auto simp: restore_unopt_stack_def get_locations_def bind_res_Inr_iff)
    moreover have "i \<in> set (call_indices st)" using st that by (simp add: call_indices_less state_ok_def)
    ultimately have "\<exists>u v. get_frame_locations slack m sm st i u = Inr v" by (rule fold_res_each)
    then obtain u v where "get_frame_locations slack m sm st i u = Inr v" by blast
    then show ?thesis
      by (cases u) (auto simp: get_frame_locations_def counts_agree_def bind_res_Inr_iff index_at_Inr_iff Let_def split: if_splits)
  qed
  then show ?thesis by (simp add: list_all_length nth_butlast)
qed

lemma recorded_transfers:
  assumes sm: "stmap_ok sm" and even: "\<And>r. r \<in> set (stk_map_records sm) \<Longrightarrow> even (unat (num_locations r))"
    and st: "recorded_frames sm (frames st)" "list_all (counts_agree sm) (butlast (frames st))"
  shows "transfers_ok sm st"
proof -
  have "transfer_ok sm f" if f: "recorded_frame sm f" "counts_agree sm f" for f
  proof -
    obtain u where u: "stmap_get_map_record sm (NOT (patchpoint_id (real_record f))) = Some u"
      and n: "num_locations (real_record f) = num_locations u"
      using f(2) by (auto simp: counts_agree_def split: option.splits)
    have "u \<in> set (stk_map_records sm)" using u by (auto simp: stmap_get_map_record_def dest: find_SomeD)
    then have "length (locations u) = unat (num_locations u)"
      using stmap_okD(1) [OF sm] by (auto simp: stmap_wf_def map_record_wf_def list_all_iff in_set_conv_nth)
    moreover have "even (unat (num_locations u))" using even [of "real_record f"] f(1) n by (simp add: recorded_frame_def)
    ultimately show ?thesis using f(1) u n by (simp add: transfer_ok_def recorded_frame_def)
  qed
  then show ?thesis using st by (simp add: transfers_ok_def recorded_frames_def list_all_iff)
qed

lemma counted_moves:
  assumes "counted md sm" and "\<And>g. g \<in> set md \<Longrightarrow> list_all (list_all paired) (body g)"
    and sm: "stmap_ok sm" and cur: "length (env_cursor e) < 2 ^ 32"
    and r: "r \<in> set (stk_map_records sm)" "stmap_get_map_record sm (NOT (patchpoint_id r)) \<noteq> None"
    and run: "(stage_step e sm u r uf f g)\<^sup>*\<^sup>* (Entered m) (Restacked st seg m1)"
  shows "state_ok st" and "list_all (counts_agree sm) (butlast (frames st)) \<Longrightarrow> transfers_ok sm st"
    and "restore_unopt_stack slack sm st m1 = Inr (st', m') \<Longrightarrow> list_all (counts_agree sm) (butlast (frames st)) \<and>
      (\<exists>pss. map_res (frame_pairs slack m1 sm st) (call_indices st) = Inr pss \<and> restored slack sm st pss m1 st' m')"
proof -
  have st: "recorded_frames sm (frames st)" using stages_recorded [OF run sm cur r] by simp
  show ok: "state_ok st" using stages_ok [OF run sm cur] by simp
  have even: "even (unat (num_locations r))" if "r \<in> set (stk_map_records sm)" for r
    by (rule counted_even [OF assms(1,2) that])
  show t: "transfers_ok sm st" if "list_all (counts_agree sm) (butlast (frames st))"
    by (rule recorded_transfers [OF sm even st that])
  show "list_all (counts_agree sm) (butlast (frames st)) \<and>
      (\<exists>pss. map_res (frame_pairs slack m1 sm st) (call_indices st) = Inr pss \<and> restored slack sm st pss m1 st' m')"
    if moved: "restore_unopt_stack slack sm st m1 = Inr (st', m')"
    using restored_counts [OF ok moved] restore_unopt_stack_effect [OF ok t moved] by blast
qed

end
