(* ===== verification/Live_Groups.thy ===== *)
theory Live_Groups
  imports Live_Graphs
begin

unbundle bit_operations_syntax

text \<open>
  Functions whose positions fall into groups, one for each instruction of a source function. One
  position of a group holds its value, uses of the others stay in the group, and a group that
  makes a record has it behind everything that could matter. Then the numbers of values that
  \<open>LiveVariablesPass\<close> records depend on the uses between groups only; so they are the same for
  all functions that come from the same source.
\<close>

section \<open>Groups\<close>

definition grouped :: "(nat \<Rightarrow> nat \<Rightarrow> bool) \<Rightarrow> (nat \<times> nat) set \<Rightarrow> (nat \<times> nat) set \<Rightarrow> (nat \<times> nat \<Rightarrow> nat \<times> nat) \<Rightarrow>
    (nat \<times> nat \<Rightarrow> nat \<times> nat) \<Rightarrow> (nat \<times> nat) set \<Rightarrow> (nat \<times> nat \<Rightarrow> nat \<times> nat) \<Rightarrow> (nat \<times> nat \<Rightarrow> nat \<times> nat \<Rightarrow> bool) \<Rightarrow> bool" where
  "grouped bdom P Q grp holder R A U \<longleftrightarrow> inj_on grp R \<and>
     (\<forall>p \<in> P. grp p \<in> Q) \<and> (\<forall>q \<in> Q. holder q \<in> P \<and> grp (holder q) = q) \<and>
     (\<forall>p \<in> P. \<forall>r \<in> P. grp p \<noteq> grp r \<longrightarrow> before bdom p r = before bdom (grp p) (grp r)) \<and>
     (\<forall>r \<in> R. r \<in> P \<and> A r \<in> P \<and> grp (A r) = grp r \<and> \<not> before bdom r (A r) \<and> \<not> before bdom (holder (grp r)) (A r)) \<and>
     (\<forall>p \<in> P. \<forall>y \<in> P. U p y \<and> p \<noteq> holder (grp p) \<longrightarrow>
        grp y = grp p \<and> (\<forall>r \<in> R. grp r = grp p \<longrightarrow> \<not> before bdom p (A r))) \<and>
     (\<forall>p \<in> P. \<forall>y \<in> P. \<forall>r \<in> R. U p y \<and> grp y = grp r \<longrightarrow> \<not> before bdom y (A r))"

definition group_use :: "(nat \<times> nat) set \<Rightarrow> (nat \<times> nat \<Rightarrow> nat \<times> nat) \<Rightarrow> (nat \<times> nat \<Rightarrow> nat \<times> nat) \<Rightarrow>
    (nat \<times> nat \<Rightarrow> nat \<times> nat \<Rightarrow> bool) \<Rightarrow> nat \<times> nat \<Rightarrow> nat \<times> nat \<Rightarrow> bool" where
  "group_use P grp holder U q q' \<longleftrightarrow> (\<exists>y \<in> P. U (holder q) y \<and> grp y = q')"

lemma groupedD:
  assumes "grouped bdom P Q grp holder R A U"
  shows "p \<in> P \<Longrightarrow> grp p \<in> Q" and "q \<in> Q \<Longrightarrow> holder q \<in> P \<and> grp (holder q) = q"
    and "p \<in> P \<Longrightarrow> r \<in> P \<Longrightarrow> grp p \<noteq> grp r \<Longrightarrow> before bdom p r = before bdom (grp p) (grp r)"
    and "r \<in> R \<Longrightarrow> r \<in> P \<and> A r \<in> P \<and> grp (A r) = grp r \<and> \<not> before bdom r (A r) \<and> \<not> before bdom (holder (grp r)) (A r)"
    and "p \<in> P \<Longrightarrow> y \<in> P \<Longrightarrow> U p y \<Longrightarrow> p \<noteq> holder (grp p) \<Longrightarrow> grp y = grp p"
    and "p \<in> P \<Longrightarrow> y \<in> P \<Longrightarrow> U p y \<Longrightarrow> p \<noteq> holder (grp p) \<Longrightarrow> r \<in> R \<Longrightarrow> grp r = grp p \<Longrightarrow> \<not> before bdom p (A r)"
    and "p \<in> P \<Longrightarrow> y \<in> P \<Longrightarrow> r \<in> R \<Longrightarrow> U p y \<Longrightarrow> grp y = grp r \<Longrightarrow> \<not> before bdom y (A r)"
    and "inj_on grp R"
  using assms unfolding grouped_def by blast+

text \<open>A value is live at a record exactly if its group is, in the graph of the groups.\<close>

lemma live_group:
  assumes g: "grouped bdom P Q grp holder R A U" and p: "p \<in> P" and r: "r \<in> R"
  shows "live_in bdom P U p (A r) \<longleftrightarrow>
    p = holder (grp p) \<and> live_in bdom Q (group_use P grp holder U) (grp p) (grp r)" (is "?l \<longleftrightarrow> ?r")
proof
  note D = groupedD [OF g]
  have a: "A r \<in> P" "grp (A r) = grp r" using D(4) [OF r] by auto
  assume ?l
  then obtain y where l: "before bdom p (A r)" "y \<in> P" "U p y" "\<not> before bdom y (A r)" by (auto simp: live_in_def)
  have hold: "p = holder (grp p)"
  proof (rule ccontr)
    assume n: "p \<noteq> holder (grp p)"
    have "grp y = grp p" by (rule D(5) [OF p l(2,3) n])
    moreover have "grp r \<noteq> grp p" using D(6) [OF p l(2,3) n r] l(1) by blast
    ultimately show False using D(3) [OF p a(1)] D(3) [OF l(2) a(1)] a(2) l(1,4) by simp
  qed
  then have ne: "grp p \<noteq> grp r" using D(4) [OF r] l(1) by metis
  then have "before bdom (grp p) (grp r)" using D(3) [OF p a(1)] a(2) l(1) by simp
  moreover have "\<not> before bdom (grp y) (grp r)" using D(3) [OF l(2) a(1)] a(2) l(4) by (cases "grp y = grp r") auto
  moreover have "group_use P grp holder U (grp p) (grp y)" using l(2,3) hold by (auto simp: group_use_def)
  ultimately show ?r using hold D(1) [OF l(2)] by (auto simp: live_in_def)
next
  note D = groupedD [OF g]
  have a: "A r \<in> P" "grp (A r) = grp r" using D(4) [OF r] by auto
  assume ?r
  then obtain y where p': "p = holder (grp p)" "before bdom (grp p) (grp r)" and y: "y \<in> P" "U p y" "\<not> before bdom (grp y) (grp r)"
    by (auto simp: live_in_def group_use_def)
  have "grp p \<noteq> grp r" using p'(2) by auto
  then have "before bdom p (A r)" using D(3) [OF p a(1)] a(2) p'(2) by simp
  moreover have "\<not> before bdom y (A r)" using D(7) [OF p y(1) r y(2)] D(3) [OF y(1) a(1)] a(2) y(3) by (cases "grp y = grp r") auto
  ultimately show ?l using y(1,2) by (auto simp: live_in_def)
qed

lemma live_groups_card:
  assumes g: "grouped bdom P Q grp holder R A U" and r: "r \<in> R"
  shows "card {p \<in> P. live_in bdom P U p (A r)} = card {q \<in> Q. live_in bdom Q (group_use P grp holder U) q (grp r)}"
proof -
  note D = groupedD [OF g]
  have "{p \<in> P. live_in bdom P U p (A r)} = holder ` {q \<in> Q. live_in bdom Q (group_use P grp holder U) q (grp r)}"
  proof (intro equalityI subsetI)
    fix p assume "p \<in> {p \<in> P. live_in bdom P U p (A r)}"
    then show "p \<in> holder ` {q \<in> Q. live_in bdom Q (group_use P grp holder U) q (grp r)}"
      using live_group [OF g _ r] D(1) by blast
  next
    fix p assume "p \<in> holder ` {q \<in> Q. live_in bdom Q (group_use P grp holder U) q (grp r)}"
    then obtain q where q: "p = holder q" "q \<in> Q" "live_in bdom Q (group_use P grp holder U) q (grp r)" by blast
    then show "p \<in> {p \<in> P. live_in bdom P U p (A r)}" using live_group [OF g _ r, of p] D(2) [OF q(2)] by simp
  qed
  moreover have "inj_on holder Q" using D(2) by (metis inj_on_inverseI)
  ultimately show ?thesis by (simp add: card_image inj_on_subset [of _ Q])
qed

text \<open>Recording adds the same edges to both graphs.\<close>

lemma grouped_step:
  assumes g: "grouped bdom P Q grp holder R A U" and r: "r \<in> R"
  shows "grouped bdom P Q grp holder R A (add_live bdom P (A r) r U)"
    and "same_uses Q (group_use P grp holder (add_live bdom P (A r) r U))
      (add_live bdom Q (grp r) (grp r) (group_use P grp holder U))"
proof -
  note D = groupedD [OF g]
  let ?U = "add_live bdom P (A r) r U"
  have new: "?U p y \<longleftrightarrow> U p y \<or> (y = r \<and> p = holder (grp p) \<and> live_in bdom Q (group_use P grp holder U) (grp p) (grp r))"
    if "p \<in> P" for p y
    using live_group [OF g that r] by (simp add: add_live_def)
  have same: "r' = r" if "r' \<in> R" "grp r' = grp r" for r' using D(8) r that by (auto dest: inj_onD)
  show "grouped bdom P Q grp holder R A ?U"
    unfolding grouped_def
  proof (intro conjI ballI impI)
    fix p y assume py: "p \<in> P" "y \<in> P" "?U p y \<and> p \<noteq> holder (grp p)"
    then have u: "U p y" "p \<noteq> holder (grp p)" using new by blast+
    show "grp y = grp p" by (rule D(5) [OF py(1,2) u])
    show "\<not> before bdom p (A r')" if "r' \<in> R" "grp r' = grp p" for r' by (rule D(6) [OF py(1,2) u that])
  next
    fix p y r' assume pyr: "p \<in> P" "y \<in> P" "r' \<in> R" "?U p y \<and> grp y = grp r'"
    show "\<not> before bdom y (A r')"
    proof (cases "U p y")
      case True
      then show ?thesis using D(7) pyr by blast
    next
      case False
      then have "y = r" using new [OF pyr(1)] pyr(4) by blast
      moreover have "r' = r" using same [OF pyr(3)] pyr(4) calculation by simp
      ultimately show ?thesis using D(4) [OF r] by simp
    qed
  qed (use D in blast)+
  show "same_uses Q (group_use P grp holder ?U) (add_live bdom Q (grp r) (grp r) (group_use P grp holder U))"
    unfolding same_uses_def
  proof (intro ballI)
    fix q q' assume q: "q \<in> Q" "q' \<in> Q"
    have h: "holder q \<in> P" "grp (holder q) = q" using D(2) [OF q(1)] by auto
    have "r \<in> P" using D(4) [OF r] by blast
    then show "group_use P grp holder ?U q q' = add_live bdom Q (grp r) (grp r) (group_use P grp holder U) q q'"
      using new [OF h(1)] h(2) by (auto simp: group_use_def add_live_def)
  qed
qed

lemma grouped_graph:
  "grouped bdom P Q grp holder R A U \<Longrightarrow> set rs \<subseteq> R \<Longrightarrow>
    grouped bdom P Q grp holder R A (live_graph bdom P A rs U) \<and>
    same_uses Q (group_use P grp holder (live_graph bdom P A rs U))
      (live_graph bdom Q (\<lambda>q. q) (map grp rs) (group_use P grp holder U))"
proof (induction rs arbitrary: U)
  case (Cons r rs)
  have r: "r \<in> R" "set rs \<subseteq> R" using Cons.prems(2) by auto
  note step = grouped_step [OF Cons.prems(1) r(1)]
  have "same_uses Q (live_graph bdom Q (\<lambda>q. q) (map grp rs) (group_use P grp holder (add_live bdom P (A r) r U)))
      (live_graph bdom Q (\<lambda>q. q) (map grp rs) (add_live bdom Q (grp r) (grp r) (group_use P grp holder U)))"
    by (rule same_uses_graph [OF step(2)])
  then show ?case using Cons.IH [OF step(1) r(2)] by (auto intro: same_uses_trans)
qed (simp add: same_uses_def)

text \<open>The number of values live at the next record, from the source function alone.\<close>

lemma grouped_count:
  assumes g: "grouped bdom P Q grp holder R A U" and rs: "set rs \<subseteq> R" and r: "r \<in> R"
    and W: "same_uses Q (group_use P grp holder U) W"
  shows "card {p \<in> P. live_in bdom P (live_graph bdom P A rs U) p (A r)} =
    card {q \<in> Q. live_in bdom Q (live_graph bdom Q (\<lambda>q. q) (map grp rs) W) q (grp r)}"
proof -
  note graph = grouped_graph [OF g rs]
  have "same_uses Q (group_use P grp holder (live_graph bdom P A rs U)) (live_graph bdom Q (\<lambda>q. q) (map grp rs) W)"
    using graph same_uses_graph [OF W] same_uses_trans by blast
  then have "{q \<in> Q. live_in bdom Q (group_use P grp holder (live_graph bdom P A rs U)) q (grp r)} =
      {q \<in> Q. live_in bdom Q (live_graph bdom Q (\<lambda>q. q) (map grp rs) W) q (grp r)}"
    using same_uses_live by blast
  then show ?thesis using live_groups_card [OF conjunct1 [OF graph] r] by simp
qed

end
