(* ===== verification/Checkpoint_Groups.thy ===== *)
theory Checkpoint_Groups
  imports Live_Groups
begin

unbundle bit_operations_syntax

text \<open>
  The output of \<open>CheckPointPass\<close> in groups, one for each instruction of the source: the
  instruction alone; a guard and the return; an \<open>asm\<close>, the call and its \<open>stackmap\<close>; or an
  \<open>asm\<close>, the \<open>patchpoint\<close> and the conversions of its result.
\<close>

section \<open>Passes over nested lists\<close>

lemma mapfold_res_append:
  "mapfold_res F (xs @ ys) s =
     bind_res (mapfold_res F xs s) (\<lambda>(us, s). bind_res (mapfold_res F ys s) (\<lambda>(vs, s). Inr (us @ vs, s)))"
  by (induction xs arbitrary: s) (simp_all add: bind_res_assoc case_prod_unfold)

lemma mapfold_res_length: "mapfold_res F xs s = Inr (ys, t) \<Longrightarrow> length ys = length xs"
  by (induction xs arbitrary: s ys) (auto simp: bind_res_Inr_iff)

text \<open>A pass over the instructions of all blocks, in one list.\<close>

lemma mapfold_blocks:
  assumes "mapfold_res (\<lambda>b s. bind_res (mapfold_res F b s) (\<lambda>(cs, s). Inr (concat cs, s))) bss s = Inr (bs, t)"
  shows "\<exists>outs. bs = map concat outs \<and> map length outs = map length bss \<and> mapfold_res F (concat bss) s = Inr (concat outs, t)"
  using assms
proof (induction bss arbitrary: s bs)
  case (Cons b bss)
  from Cons.prems obtain cs s1 bs1 where cs: "mapfold_res F b s = Inr (cs, s1)"
    and rest: "mapfold_res (\<lambda>b s. bind_res (mapfold_res F b s) (\<lambda>(cs, s). Inr (concat cs, s))) bss s1 = Inr (bs1, t)"
    and bs: "bs = concat cs # bs1"
    by (auto simp: bind_res_Inr_iff)
  obtain outs where outs: "bs1 = map concat outs" "map length outs = map length bss" "mapfold_res F (concat bss) s1 = Inr (concat outs, t)"
    using Cons.IH [OF rest] by blast
  show ?case
    using outs cs bs by (intro exI [of _ "cs # outs"]) (simp add: mapfold_res_append mapfold_res_length [OF cs])
qed simp

text \<open>A pass over a list that was put together from groups, group by group.\<close>

lemma mapfold_regroup:
  assumes "mapfold_res F (concat L) s = Inr (cs, t)"
  shows "\<exists>Gs. concat cs = concat Gs \<and> mapfold_res (\<lambda>G s. bind_res (mapfold_res F G s) (\<lambda>(cs, s). Inr (concat cs, s))) L s = Inr (Gs, t)"
  using assms
proof (induction L arbitrary: s cs)
  case (Cons G L)
  from Cons.prems obtain us s1 vs where us: "mapfold_res F G s = Inr (us, s1)" and vs: "mapfold_res F (concat L) s1 = Inr (vs, t)"
    and cs: "cs = us @ vs"
    by (auto simp: mapfold_res_append bind_res_Inr_iff)
  obtain Gs where "concat vs = concat Gs"
    "mapfold_res (\<lambda>G s. bind_res (mapfold_res F G s) (\<lambda>(cs, s). Inr (concat cs, s))) L s1 = Inr (Gs, t)"
    using Cons.IH [OF vs] by blast
  then show ?case using us cs by (intro exI [of _ "concat us # Gs"]) simp
qed simp

lemma insert_asm_groups:
  assumes "mapfold_res (insert_asm_block calls) (map concat Ls) n = Inr (bs, n')"
  shows "\<exists>gs. bs = map concat gs \<and> map length gs = map length Ls \<and>
    mapfold_res (insert_asm_block calls) (concat Ls) n = Inr (concat gs, n')"
  using assms
proof (induction Ls arbitrary: n bs)
  case (Cons L Ls)
  from Cons.prems obtain c n1 bs1 where c: "insert_asm_block calls (concat L) n = Inr (c, n1)"
    and rest: "mapfold_res (insert_asm_block calls) (map concat Ls) n1 = Inr (bs1, n')" and bs: "bs = c # bs1"
    by (auto simp: bind_res_Inr_iff)
  obtain cs where "mapfold_res (insert_asm calls) (concat L) n = Inr (cs, n1)" "c = concat cs"
    using c by (auto simp: insert_asm_block_def bind_res_Inr_iff)
  with mapfold_regroup obtain Gs where Gs: "c = concat Gs" "mapfold_res (insert_asm_block calls) L n = Inr (Gs, n1)"
    unfolding insert_asm_block_def [abs_def] by metis
  obtain gs where gs: "bs1 = map concat gs" "map length gs = map length Ls"
    "mapfold_res (insert_asm_block calls) (concat Ls) n1 = Inr (concat gs, n')"
    using Cons.IH [OF rest] by blast
  show ?case
    using Gs gs bs by (intro exI [of _ "Gs # gs"]) (simp add: mapfold_res_append mapfold_res_length [OF Gs(2)])
qed simp

text \<open>The whole pass: a pass over all instructions, the replaced values, and the \<open>asm\<close> blocks.\<close>

lemma checkpoint_flat:
  assumes "checkpoint_function md f sms = Inr (g, sms')"
  obtains outs st gs where
    "mapfold_res (checkpoint_inst md (fun_name f)) (concat (body f))
       \<lparr>cp_maps = sms, cp_fresh = fresh_id f, cp_calls = [], cp_subst = []\<rparr> = Inr (outs, st)"
    and "mapfold_res (insert_asm_block (cp_calls st)) (map (map (replace_uses (cp_subst st))) outs) (cp_fresh st) =
       Inr (concat gs, fresh_id g)"
    and "body g = map concat gs" and "map length gs = map length (body f)" and "fun_name g = fun_name f"
proof -
  from assms obtain bs st bs' n where
    blocks: "mapfold_res (checkpoint_block md (fun_name f)) (body f)
       \<lparr>cp_maps = sms, cp_fresh = fresh_id f, cp_calls = [], cp_subst = []\<rparr> = Inr (bs, st)"
    and asm: "mapfold_res (insert_asm_block (cp_calls st)) (map (map (replace_uses (cp_subst st))) bs) (cp_fresh st) = Inr (bs', n)"
    and g: "g = f\<lparr>body := bs', fresh_id := n\<rparr>"
    by (auto simp: checkpoint_function_def bind_res_Inr_iff)
  obtain outs where outs: "bs = map concat outs" "map length outs = map length (body f)"
    "mapfold_res (checkpoint_inst md (fun_name f)) (concat (body f))
       \<lparr>cp_maps = sms, cp_fresh = fresh_id f, cp_calls = [], cp_subst = []\<rparr> = Inr (concat outs, st)"
    using mapfold_blocks [OF blocks [unfolded checkpoint_block_def [abs_def]]] by blast
  let ?L = "map (map (map (replace_uses (cp_subst st)))) outs"
  have "map (map (replace_uses (cp_subst st))) bs = map concat ?L" by (simp add: outs(1) map_concat)
  then obtain gs where gs: "bs' = map concat gs" "map length gs = map length ?L"
    "mapfold_res (insert_asm_block (cp_calls st)) (concat ?L) (cp_fresh st) = Inr (concat gs, n)"
    using insert_asm_groups asm by metis
  have "concat ?L = map (map (replace_uses (cp_subst st))) (concat outs)" by (simp add: map_concat)
  then show ?thesis using that [of "concat outs" st gs] outs gs g by (simp add: comp_def)
qed

section \<open>One instruction\<close>

text \<open>A chain of conversions, each of the one before it.\<close>

fun conversions :: "nat \<Rightarrow> inst list \<Rightarrow> bool" where
  "conversions n [] \<longleftrightarrow> True"
| "conversions n (c # cs) \<longleftrightarrow> (\<exists>v \<in> {TruncOrBitCast (InstVal n), IntToPtr (InstVal n), Load (InstVal n)}. inst_op c = v) \<and>
     conversions (inst_id c) cs"

definition constants_only :: "ir_value list \<Rightarrow> bool" where
  "constants_only vs \<longleftrightarrow> list_all is_constant vs"

text \<open>
  What \<open>checkpoint_inst\<close> makes of \<open>x\<close>, a site or not, with new numbers from \<open>lo\<close> to \<open>hi\<close>: the
  instructions, the values to replace, and the calls that get an \<open>asm\<close>.
\<close>

inductive made_of :: "bool \<Rightarrow> nat \<Rightarrow> nat \<Rightarrow> inst \<Rightarrow> inst list \<Rightarrow> (nat \<times> ir_value) list \<Rightarrow> nat list \<Rightarrow> bool" where
  alone: "made_of False lo lo x [x] [] []"
| guard: "isReturnInst (inst_op x) \<Longrightarrow> constants_only args \<Longrightarrow>
    made_of True lo (lo + 1) x [\<lparr>inst_id = lo, inst_type = VoidTy, inst_op = Call (Direct patchpoint_void_name) args\<rparr>, x] [] []"
| opt_call: "isCallInst (inst_op x) \<Longrightarrow> constants_only args \<Longrightarrow>
    made_of True lo (lo + 1) x [x, \<lparr>inst_id = lo, inst_type = VoidTy, inst_op = Call (Direct stackmap_name) args\<rparr>] [] [inst_id x]"
| unopt_call: "inst_op x = Call (Direct g) call_args \<Longrightarrow> constants_only args \<Longrightarrow> n \<in> {patchpoint_void_name, patchpoint_i64_name} \<Longrightarrow>
    conversions lo conv \<Longrightarrow> map inst_id conv = [Suc lo..<hi] \<Longrightarrow> hi = Suc (lo + length conv) \<Longrightarrow>
    made_of True lo hi x (\<lparr>inst_id = lo, inst_type = t, inst_op = Call (Direct n) (args @ call_args)\<rparr> # conv)
      [(inst_id x, InstVal (hi - 1))] [lo]"

inductive_cases made_ofE: "made_of site lo hi x out add calls"

lemma converted_conversions:
  assumes "converted (Suc n) c r (InstVal n) = (conv, v)"
  shows "conversions n conv \<and> map inst_id conv = [Suc n..<Suc (n + length conv)] \<and> v = InstVal (n + length conv)"
proof -
  consider "conv = []" "v = InstVal n"
    | c1 where "conv = [c1]" "inst_id c1 = Suc n" "inst_op c1 = TruncOrBitCast (InstVal n)" "v = InstVal (Suc n)"
    | c1 c2 where "conv = [c1, c2]" "inst_id c1 = Suc n" "inst_op c1 = IntToPtr (InstVal n)"
        "inst_id c2 = Suc (Suc n)" "inst_op c2 = Load (InstVal (Suc n))" "v = InstVal (Suc (Suc n))"
  proof (cases c)
    case (IntTy w)
    then show ?thesis using assms that(1) that(2) by (cases "r = IntTy 64") (auto simp: converted_def)
  qed (use assms that(3) in \<open>auto simp: converted_def\<close>)
  then show ?thesis
  proof cases
    case 2
    then show ?thesis by (simp add: upt_conv_Cons)
  next
    case 3
    then show ?thesis by (simp add: upt_conv_Cons)
  qed simp
qed

lemma checkpoint_inst_made:
  assumes run: "checkpoint_inst md funName x st = Inr (out, st')"
  shows "\<exists>add calls. made_of (is_site md funName x) (cp_fresh st) (cp_fresh st') x out add calls \<and>
    cp_subst st' = cp_subst st @ add \<and> cp_calls st' = cp_calls st @ calls"
proof -
  consider (guard) "isReturnInst (inst_op x)" "is_site md funName x" "guard_site funName x st = Inr (out, st')"
    | (opt) "isCallInst (inst_op x)" "is_site md funName x" "opt_call_site funName x st = Inr (out, st')"
    | (unopt) g args where "inst_op x = Call (Direct g) args" "is_site md funName x" "unopt_call_site md funName g args x st = Inr (out, st')"
    | (same) "out = [x]" "\<not> is_site md funName x" "st' = st"
  proof (cases "suffix ''more_indirection'' funName \<and> isReturnInst (inst_op x)")
    case True
    then show ?thesis using run that(1) by (simp add: checkpoint_inst_def is_site_def)
  next
    case False
    then have rest: "(case inst_op x of
        Call c args \<Rightarrow>
          (case c of AsmText t \<Rightarrow> Inr ([x], st) | Via v \<Rightarrow> Inl NullDeref
          | Direct g \<Rightarrow>
              if has_body md g then (if is_unopt funName then unopt_call_site md funName g args x st else opt_call_site funName x st)
              else Inr ([x], st))
      | _ \<Rightarrow> Inr ([x], st)) = Inr (out, st')"
      using run unfolding checkpoint_inst_def if_not_P [OF False] by simp
    have site: "is_site md funName x \<longleftrightarrow> (case getCalledFunction (inst_op x) of Some g \<Rightarrow> has_body md g | None \<Rightarrow> False)"
      using False by (auto simp: is_site_def)
    show ?thesis
    proof (cases "inst_op x")
      case (Call c args)
      show ?thesis
      proof (cases c)
        case (Direct g)
        show ?thesis
        proof (cases "has_body md g")
          case True
          then show ?thesis using rest that(2,3) site by (cases "is_unopt funName") (simp_all add: Call Direct)
        qed (use rest that(4) site in \<open>simp add: Call Direct\<close>)
      qed (use rest that(4) site in \<open>simp_all add: Call\<close>)
    qed (use rest that(4) site in simp_all)
  qed
  then show ?thesis
  proof cases
    case guard
    then show ?thesis
      by (auto simp: guard_site_def bind_res_Inr_iff Let_def constants_only_def intro!: made_of.guard [simplified])
  next
    case opt
    then show ?thesis
      by (auto simp: opt_call_site_def bind_res_Inr_iff Let_def constants_only_def intro!: made_of.opt_call [simplified])
  next
    case (unopt g args)
    from unopt(3) obtain sms p cf old where
      run: "getNextPatchpointID funName (cp_maps st) = Inr (sms, p)"
      "deref (getFunction md (if \<not> is_unopt g then getTwinName g else g)) = Inr cf" "deref (getFunction md g) = Inr old"
      by (auto simp: unopt_call_site_def bind_res_Inr_iff)
    let ?void = "ret_type cf = VoidTy" and ?n = "cp_fresh st"
    obtain conv v where conv: "(if ?void then ([], InstVal ?n) else converted (?n + 1) (ret_type cf) (ret_type old) (InstVal ?n)) = (conv, v)"
      by (metis surj_pair)
    have c: "conversions ?n conv" "map inst_id conv = [Suc ?n..<Suc (?n + length conv)]" "v = InstVal (?n + length conv)"
      using conv converted_conversions [of ?n "ret_type cf" "ret_type old" conv v] by (auto split: if_splits)
    have out: "out = \<lparr>inst_id = ?n, inst_type = (if ?void then VoidTy else IntTy 64),
        inst_op = Call (Direct (if ?void then patchpoint_void_name else patchpoint_i64_name))
          ([I64 p, I32 13, FunVal (fun_name cf), I32 (of_nat (length args))] @ args)\<rparr> # conv"
      and st': "st' = st\<lparr>cp_maps := sms, cp_fresh := Suc (?n + length conv), cp_calls := cp_calls st @ [?n],
        cp_subst := cp_subst st @ [(inst_id x, v)]\<rparr>"
      using unopt(3) run conv by (simp_all add: unopt_call_site_def Let_def)
    have "made_of True ?n (Suc (?n + length conv)) x out [(inst_id x, InstVal (Suc (?n + length conv) - 1))] [?n]"
      unfolding out by (rule made_of.unopt_call [OF unopt(1)]) (use c in \<open>auto simp: constants_only_def\<close>)
    then show ?thesis using unopt(2) st' c(3) by auto
  next
    case same
    then show ?thesis using made_of.alone by force
  qed
qed

text \<open>The numbers in what an instruction becomes.\<close>

lemma made_of_all:
  assumes "made_of site lo hi x out add calls"
  shows "lo \<le> hi \<and> inst_id ` set out \<subseteq> insert (inst_id x) {lo..<hi} \<and> set calls \<subseteq> insert (inst_id x) {lo..<hi} \<and>
    (inst_id x < lo \<longrightarrow> distinct (map inst_id out)) \<and> (add = [] \<or> add = [(inst_id x, InstVal (hi - 1))] \<and> lo < hi)"
  using assms
proof cases
  case (unopt_call g call_args args n conv t)
  have "inst_id ` set conv = {Suc lo..<hi}" unfolding set_map [symmetric] unopt_call(9) by simp
  moreover have "distinct (map inst_id conv)" by (simp add: unopt_call(9))
  moreover have "lo < hi" using unopt_call(10) by simp
  ultimately show ?thesis using unopt_call(1-4) by auto
qed auto

lemma made_of_numbers:
  assumes "made_of site lo hi x out add calls"
  shows "lo \<le> hi" and "y \<in> set out \<Longrightarrow> inst_id y = inst_id x \<or> lo \<le> inst_id y \<and> inst_id y < hi"
    and "c \<in> set calls \<Longrightarrow> c = inst_id x \<or> lo \<le> c \<and> c < hi"
    and "inst_id x < lo \<Longrightarrow> distinct (map inst_id out)"
    and "add = [] \<or> add = [(inst_id x, InstVal (hi - 1))] \<and> lo < hi"
  using made_of_all [OF assms] by fastforce+

lemma mapfold_res_nth:
  assumes "mapfold_res F xs s = Inr (ys, t)"
  shows "\<exists>ss. ss 0 = s \<and> ss (length xs) = t \<and> (\<forall>i < length xs. F (xs ! i) (ss i) = Inr (ys ! i, ss (Suc i)))"
  using assms
proof (induction xs arbitrary: s ys)
  case (Cons x xs)
  from Cons.prems obtain y s1 ys1 where y: "F x s = Inr (y, s1)" "ys = y # ys1" and rest: "mapfold_res F xs s1 = Inr (ys1, t)"
    by (auto simp: bind_res_Inr_iff)
  obtain ss where ss: "ss 0 = s1" "ss (length xs) = t" "\<forall>i < length xs. F (xs ! i) (ss i) = Inr (ys1 ! i, ss (Suc i))"
    using Cons.IH [OF rest] by blast
  show ?case
    using y ss by (intro exI [of _ "\<lambda>i. case i of 0 \<Rightarrow> s | Suc j \<Rightarrow> ss j"]) (auto simp: less_Suc_eq_0_disj)
qed (auto intro: exI [of _ "\<lambda>_. s"])

text \<open>The whole function: numbers are given out in order.\<close>

lemma checkpoint_numbers:
  assumes run: "mapfold_res (checkpoint_inst md fn) xs st = Inr (outs, st')" and empty: "cp_subst st = []" "cp_calls st = []"
  obtains lo add calls where "lo 0 = cp_fresh st" and "lo (length xs) = cp_fresh st'" and "mono_on {..length xs} lo"
    and "\<And>i. i < length xs \<Longrightarrow> made_of (is_site md fn (xs ! i)) (lo i) (lo (Suc i)) (xs ! i) (outs ! i) (add i) (calls i)"
    and "cp_subst st' = concat (map add [0..<length xs])" and "cp_calls st' = concat (map calls [0..<length xs])"
proof -
  obtain ss where ss: "ss 0 = st" "ss (length xs) = st'"
    "\<And>i. i < length xs \<Longrightarrow> checkpoint_inst md fn (xs ! i) (ss i) = Inr (outs ! i, ss (Suc i))"
    using mapfold_res_nth [OF run] by blast
  have "\<exists>add calls. made_of (is_site md fn (xs ! i)) (cp_fresh (ss i)) (cp_fresh (ss (Suc i))) (xs ! i) (outs ! i) add calls \<and>
      cp_subst (ss (Suc i)) = cp_subst (ss i) @ add \<and> cp_calls (ss (Suc i)) = cp_calls (ss i) @ calls" if "i < length xs" for i
    by (rule checkpoint_inst_made [OF ss(3) [OF that]])
  then obtain add calls where made: "\<And>i. i < length xs \<Longrightarrow>
      made_of (is_site md fn (xs ! i)) (cp_fresh (ss i)) (cp_fresh (ss (Suc i))) (xs ! i) (outs ! i) (add i) (calls i) \<and>
      cp_subst (ss (Suc i)) = cp_subst (ss i) @ add i \<and> cp_calls (ss (Suc i)) = cp_calls (ss i) @ calls i"
    by metis
  have "k \<le> length xs \<Longrightarrow> cp_subst (ss k) = concat (map add [0..<k]) \<and> cp_calls (ss k) = concat (map calls [0..<k])" for k
    using made by (induction k) (simp_all add: ss(1) empty)
  moreover have "mono_on {..length xs} (\<lambda>i. cp_fresh (ss i))"
  proof (rule mono_onI)
    fix i j assume "j \<in> {..length xs}" and "i \<le> j"
    then show "cp_fresh (ss i) \<le> cp_fresh (ss j)"
    proof (induction j)
      case (Suc j)
      then have "cp_fresh (ss j) \<le> cp_fresh (ss (Suc j))" using made [of j] made_of_numbers(1) by auto
      then show ?case using Suc by (cases "i = Suc j") auto
    qed simp
  qed
  ultimately show ?thesis using that [of "\<lambda>i. cp_fresh (ss i)" add calls] made ss by auto
qed

section \<open>All instructions\<close>

text \<open>Every number belongs to one instruction of the source.\<close>

definition belongs :: "(nat \<Rightarrow> nat) \<Rightarrow> inst list \<Rightarrow> nat \<Rightarrow> nat \<Rightarrow> bool" where
  "belongs lo xs i n \<longleftrightarrow> n = inst_id (xs ! i) \<or> lo i \<le> n \<and> n < lo (Suc i)"

definition source_numbers :: "(nat \<Rightarrow> nat) \<Rightarrow> inst list \<Rightarrow> bool" where
  "source_numbers lo xs \<longleftrightarrow> distinct (map inst_id xs) \<and> (\<forall>x \<in> set xs. inst_id x < lo 0) \<and> mono_on {..length xs} lo"

lemma source_numbersD:
  assumes "source_numbers lo xs"
  shows "i \<le> j \<Longrightarrow> j \<le> length xs \<Longrightarrow> lo i \<le> lo j" and "i < length xs \<Longrightarrow> inst_id (xs ! i) < lo 0"
  using assms by (auto simp: source_numbers_def mono_on_def)

lemma belongs_unique:
  assumes xs: "source_numbers lo xs" and i: "i < length xs" and j: "j < length xs" and n: "belongs lo xs i n" "belongs lo xs j n"
  shows "i = j"
proof -
  note D = source_numbersD [OF xs]
  have small: "m < lo 0 \<Longrightarrow> k < length xs \<Longrightarrow> belongs lo xs k m \<Longrightarrow> m = inst_id (xs ! k)" for k m
    using D(1) [of 0 k] by (auto simp: belongs_def)
  show ?thesis
  proof (cases "n < lo 0")
    case True
    then have "inst_id (xs ! i) = inst_id (xs ! j)" using small i j n by metis
    moreover have "distinct (map inst_id xs)" using xs by (simp add: source_numbers_def)
    ultimately show ?thesis using i j by (metis distinct_conv_nth length_map nth_map)
  next
    case False
    then have "lo i \<le> n" "n < lo (Suc i)" "lo j \<le> n" "n < lo (Suc j)" using n D(2) i j by (auto simp: belongs_def)
    then show ?thesis using D(1) [of "Suc i" j] D(1) [of "Suc j" i] i j by (cases i j rule: linorder_cases) auto
  qed
qed

lemma distinct_numbers:
  assumes "\<And>i. i < length ys \<Longrightarrow> distinct (map inst_id (ys ! i))"
    and "\<And>i j. i < j \<Longrightarrow> j < length ys \<Longrightarrow> inst_id ` set (ys ! i) \<inter> inst_id ` set (ys ! j) = {}"
  shows "distinct (map inst_id (concat ys))"
  using assms
proof (induction ys)
  case (Cons y ys)
  have "inst_id ` set y \<inter> inst_id ` set z = {}" if z: "z \<in> set ys" for z
  proof -
    obtain j where "j < length ys" "ys ! j = z" using z unfolding in_set_conv_nth by blast
    then show ?thesis using Cons.prems(2) [of 0 "Suc j"] by simp
  qed
  then have "inst_id ` set y \<inter> inst_id ` set (concat ys) = {}" by auto
  moreover have "distinct (map inst_id y)" using Cons.prems(1) [of 0] by simp
  moreover have "distinct (map inst_id (concat ys))"
  proof (rule Cons.IH)
    show "distinct (map inst_id (ys ! i))" if "i < length ys" for i using Cons.prems(1) [of "Suc i"] that by simp
    show "inst_id ` set (ys ! i) \<inter> inst_id ` set (ys ! j) = {}" if "i < j" "j < length ys" for i j
      using Cons.prems(2) [of "Suc i" "Suc j"] that by simp
  qed
  ultimately show ?case by (simp del: set_concat)
qed simp

lemma made_numbers:
  assumes xs: "source_numbers lo xs" and len: "length outs = length xs"
    and made: "\<forall>i < length xs. made_of (S i) (lo i) (lo (Suc i)) (xs ! i) (outs ! i) (add i) (calls i)"
  shows "i < length xs \<Longrightarrow> y \<in> set (outs ! i) \<Longrightarrow>
      inst_id y \<in> set (concat (map calls [0..<length xs])) \<longleftrightarrow> inst_id y \<in> set (calls i)"
    and "i < length xs \<Longrightarrow> map_of (concat (map add [0..<length xs])) (inst_id (xs ! i)) = map_of (add i) (inst_id (xs ! i))"
    and "(m, v) \<in> set (concat (map add [0..<length xs])) \<Longrightarrow>
      \<exists>i < length xs. m = inst_id (xs ! i) \<and> v = InstVal (lo (Suc i) - 1) \<and> lo i < lo (Suc i)"
    and "distinct (map inst_id (concat outs))" and "y \<in> set (concat outs) \<Longrightarrow> inst_id y < lo (length xs)"
proof -
  note D = source_numbersD [OF xs] and M = made_of_numbers [OF made [rule_format]]
  have own: "belongs lo xs i (inst_id y)" if "i < length xs" "y \<in> set (outs ! i)" for i y
    using M(2) [OF that] by (simp add: belongs_def)
  have own_call: "belongs lo xs i c" if "i < length xs" "c \<in> set (calls i)" for i c
    using M(3) [OF that] by (simp add: belongs_def)
  show "inst_id y \<in> set (concat (map calls [0..<length xs])) \<longleftrightarrow> inst_id y \<in> set (calls i)"
    if i: "i < length xs" "y \<in> set (outs ! i)" for i y
  proof
    assume "inst_id y \<in> set (concat (map calls [0..<length xs]))"
    then obtain j where j: "j < length xs" "inst_id y \<in> set (calls j)" by auto
    then show "inst_id y \<in> set (calls i)" using belongs_unique [OF xs i(1) j(1) own [OF i] own_call [OF j]] by simp
  qed (use i(1) in auto)
  have key: "\<exists>i < length xs. m = inst_id (xs ! i) \<and> v = InstVal (lo (Suc i) - 1) \<and> lo i < lo (Suc i) \<and> (m, v) \<in> set (add i)"
    if mv: "(m, v) \<in> set (concat (map add [0..<length xs]))" for m v
  proof -
    obtain i where i: "i < length xs" "(m, v) \<in> set (add i)" using mv by auto
    then show ?thesis using M(5) [OF i(1)] by auto
  qed
  then show "\<exists>i < length xs. m = inst_id (xs ! i) \<and> v = InstVal (lo (Suc i) - 1) \<and> lo i < lo (Suc i)"
    if "(m, v) \<in> set (concat (map add [0..<length xs]))" for m v using that by blast
  have "distinct (map inst_id xs)" using xs by (simp add: source_numbers_def)
  then have idx: "i = j" if "i < length xs" "j < length xs" "inst_id (xs ! i) = inst_id (xs ! j)" for i j
    using that by (metis distinct_conv_nth length_map nth_map)
  show "map_of (concat (map add [0..<length xs])) (inst_id (xs ! i)) = map_of (add i) (inst_id (xs ! i))" if i: "i < length xs" for i
  proof (cases "add i = []")
    case True
    have "map_of (concat (map add [0..<length xs])) (inst_id (xs ! i)) = None"
    proof (rule ccontr)
      assume "map_of (concat (map add [0..<length xs])) (inst_id (xs ! i)) \<noteq> None"
      then obtain v where "(inst_id (xs ! i), v) \<in> set (concat (map add [0..<length xs]))" by (meson map_of_SomeD not_None_eq)
      from key [OF this] obtain j where j: "j < length xs" "inst_id (xs ! i) = inst_id (xs ! j)" "(inst_id (xs ! i), v) \<in> set (add j)" by blast
      have "j = i" by (rule sym) (rule idx [OF i j(1,2)])
      then show False using j(3) True by simp
    qed
    then show ?thesis by (simp add: True)
  next
    case False
    then have a: "add i = [(inst_id (xs ! i), InstVal (lo (Suc i) - 1))]" using M(5) [OF i] by blast
    have "map_of (concat (map add [0..<length xs])) (inst_id (xs ! i)) = Some v" if "(inst_id (xs ! i), v) \<in> set (add i)" for v
    proof -
      have "(inst_id (xs ! i), v) \<in> set (concat (map add [0..<length xs]))" using that i by auto
      then have "map_of (concat (map add [0..<length xs])) (inst_id (xs ! i)) \<noteq> None"
        using weak_map_of_SomeI by fastforce
      then obtain w where w: "map_of (concat (map add [0..<length xs])) (inst_id (xs ! i)) = Some w" by blast
      from key [OF map_of_SomeD [OF w]]
      obtain j where j: "j < length xs" "inst_id (xs ! i) = inst_id (xs ! j)" "(inst_id (xs ! i), w) \<in> set (add j)" by blast
      have "j = i" by (rule sym) (rule idx [OF i j(1,2)])
      then have "(inst_id (xs ! i), w) \<in> set (add i)" using j(3) by (simp only:)
      then have "w = v" using that unfolding a by simp
      then show ?thesis using w by (simp only:)
    qed
    then show ?thesis unfolding a by simp
  qed
  show "inst_id y < lo (length xs)" if y: "y \<in> set (concat outs)" for y
  proof -
    obtain ys where "ys \<in> set outs" "y \<in> set ys" using y by auto
    then obtain i where i: "i < length xs" "y \<in> set (outs ! i)" using len in_set_conv_nth [of ys outs] by auto
    then show ?thesis using M(2) [OF i] D(2) [OF i(1)] D(1) [of 0 "length xs"] D(1) [of "Suc i" "length xs"] by auto
  qed
  have "inst_id (xs ! i) < lo i" if "i < length xs" for i using D(2) [OF that] D(1) [of 0 i] that by simp
  then have each: "distinct (map inst_id (outs ! i))" if "i < length xs" for i using M(4) [OF that] that by blast
  have apart: "inst_id ` set (outs ! i) \<inter> inst_id ` set (outs ! j) = {}" if ij: "i < length xs" "j < length xs" "i \<noteq> j" for i j
  proof (rule ccontr)
    assume "inst_id ` set (outs ! i) \<inter> inst_id ` set (outs ! j) \<noteq> {}"
    then obtain y z where yz: "y \<in> set (outs ! i)" "z \<in> set (outs ! j)" "inst_id y = inst_id z" by auto
    have "belongs lo xs j (inst_id y)" using own [OF ij(2) yz(2)] yz(3) by simp
    then show False using belongs_unique [OF xs ij(1,2) own [OF ij(1) yz(1)]] ij(3) by blast
  qed
  show "distinct (map inst_id (concat outs))"
  proof (rule distinct_numbers)
    show "distinct (map inst_id (outs ! i))" if "i < length outs" for i using each that len by simp
    show "inst_id ` set (outs ! i) \<inter> inst_id ` set (outs ! j) = {}" if "i < j" "j < length outs" for i j
      using apart [of i j] that len by simp
  qed
qed

end
