(* ===== verification/Checkpoint_Shapes.thy ===== *)
theory Checkpoint_Shapes
  imports Checkpoint_Groups
begin

unbundle bit_operations_syntax

text \<open>
  What the groups look like when \<open>CheckPointPass\<close> is done: which of their instructions holds the
  value of the source instruction, which makes a record and where the recorded values have to be
  live, and which values they use.
\<close>

section \<open>The asm blocks\<close>

lemma insert_asm_block_Cons:
  "insert_asm_block C (y # ys) n = bind_res (insert_asm_block C ys (if inst_id y \<in> set C then n + 1 else n)) (\<lambda>(cs, n').
     Inr ((if inst_id y \<in> set C then [asm_block n, y] else [y]) @ cs, n'))"
  by (simp add: insert_asm_block_def insert_asm_def bind_res_assoc case_prod_unfold)

lemma insert_asm_block_Nil [simp]: "insert_asm_block C [] n = Inr ([], n)"
  by (simp add: insert_asm_block_def)

lemma insert_asm_block_none: "(\<And>y. y \<in> set ys \<Longrightarrow> inst_id y \<notin> set C) \<Longrightarrow> insert_asm_block C ys n = Inr (ys, n)"
  by (induction ys) (simp_all add: insert_asm_block_Cons)

lemma insert_asm_flat:
  assumes "mapfold_res (insert_asm_block C) L n = Inr (Gs, n')"
  shows "insert_asm_block C (concat L) n = Inr (concat Gs, n')"
  using assms
proof (induction L arbitrary: n Gs)
  case (Cons G L)
  then obtain c n1 Gs1 where c: "insert_asm_block C G n = Inr (c, n1)" and rest: "mapfold_res (insert_asm_block C) L n1 = Inr (Gs1, n')"
    and Gs: "Gs = c # Gs1"
    by (auto simp: bind_res_Inr_iff)
  have "insert_asm_block C (us @ vs) m = bind_res (insert_asm_block C us m) (\<lambda>(cs, m). bind_res (insert_asm_block C vs m) (\<lambda>(ds, m). Inr (cs @ ds, m)))"
    for us vs m
    by (simp add: insert_asm_block_def mapfold_res_append bind_res_assoc case_prod_unfold)
  then show ?case using c Cons.IH [OF rest] by (simp add: Gs)
qed (simp add: insert_asm_block_def)

lemma insert_asm_numbers:
  assumes "insert_asm_block C ys n = Inr (G, n')" and "\<And>y. y \<in> set ys \<Longrightarrow> inst_id y < n" and "distinct (map inst_id ys)"
  shows "n \<le> n' \<and> distinct (map inst_id G) \<and> (\<forall>z \<in> set G. z \<in> set ys \<or> (\<exists>m. z = asm_block m \<and> n \<le> m \<and> m < n'))"
  using assms
proof (induction ys arbitrary: n G)
  case Nil
  then show ?case by (simp add: insert_asm_block_def)
next
  case (Cons y ys)
  let ?m = "if inst_id y \<in> set C then n + 1 else n"
  from Cons.prems(1) obtain cs where cs: "insert_asm_block C ys ?m = Inr (cs, n')"
    and G: "G = (if inst_id y \<in> set C then [asm_block n, y] else [y]) @ cs"
    by (auto simp: insert_asm_block_Cons bind_res_Inr_iff)
  have "n \<le> ?m" by simp
  then have IH: "?m \<le> n' \<and> distinct (map inst_id cs) \<and> (\<forall>z \<in> set cs. z \<in> set ys \<or> (\<exists>m. z = asm_block m \<and> ?m \<le> m \<and> m < n'))"
    using Cons.prems(2,3) by (intro Cons.IH [OF cs]) (auto simp: less_SucI)
  have "inst_id z \<in> inst_id ` set ys \<or> ?m \<le> inst_id z" if "z \<in> set cs" for z
    using IH that by (auto simp: asm_block_def)
  moreover have "inst_id y \<notin> inst_id ` set ys" "n \<notin> inst_id ` set ys" "inst_id y < n" using Cons.prems(2,3) by auto
  ultimately show ?case
    using IH unfolding G by (auto simp: asm_block_def image_iff split: if_splits)
qed

section \<open>Groups\<close>

text \<open>
  The group \<open>G\<close> of \<open>x\<close>: its value is held at \<open>k\<close>; if \<open>x\<close> is a site, the record is made at \<open>r\<close>, of
  the values live at \<open>a\<close>. From \<open>a\<close> on the group uses what \<open>x\<close> used, and itself.
\<close>

definition group_shape :: "(nat \<times> ir_value) list \<Rightarrow> bool \<Rightarrow> inst \<Rightarrow> inst list \<Rightarrow> nat \<Rightarrow> nat \<Rightarrow> nat \<Rightarrow> bool" where
  "group_shape rs site x G k r a \<longleftrightarrow> k < length G \<and> r < length G \<and> a \<le> k \<and> a \<le> r \<and>
     replace_value rs (InstVal (inst_id x)) = InstVal (inst_id (G ! k)) \<and>
     (\<forall>y < length G. no_intrinsic (G ! y) \<longleftrightarrow> \<not> (site \<and> y = r)) \<and>
     (site \<longrightarrow> (if getCalledFunction (inst_op (G ! r)) = Some stackmap_name then r = Suc a else r = a)) \<and>
     (\<forall>y < length G. \<forall>v \<in> set (operands (inst_op (G ! y))). is_inst_val v \<longrightarrow> a \<le> y \<and>
       (v \<in> replace_value rs ` set (operands (inst_op x)) \<or>
        (\<exists>p < y. p \<noteq> k \<and> a \<le> p \<and> v = InstVal (inst_id (G ! p))))) \<and>
     (\<forall>v \<in> set (operands (inst_op x)). \<exists>y < length G. replace_value rs v \<in> set (operands (inst_op (G ! y)))) \<and>
     (\<forall>y < length G. returns_constant (inst_op (G ! y)) \<longleftrightarrow> y = k \<and> returns_constant (inst_op x))"

text \<open>Values put in for the results of source instructions, which have small numbers.\<close>

definition small_keys :: "nat \<Rightarrow> (nat \<times> ir_value) list \<Rightarrow> bool" where
  "small_keys n rs \<longleftrightarrow> list_all (\<lambda>(i, v). i < n \<and> is_inst_val v) rs"

lemma small_keys_large: "small_keys n rs \<Longrightarrow> n \<le> i \<Longrightarrow> replace_value rs (InstVal i) = InstVal i"
  by (auto simp: small_keys_def replace_value_def list_all_iff split: option.split dest!: map_of_SomeD)

lemma small_keys_renaming: "small_keys n rs \<Longrightarrow> renaming (replace_value rs)"
  by (rule renaming_small) (auto simp: small_keys_def list_all_iff)

lemma replace_constant: "is_constant v \<Longrightarrow> replace_value rs v = v"
  by (cases v) (simp_all add: replace_value_def)

lemma replace_inst_val: "renaming h \<Longrightarrow> is_inst_val (h v) = is_inst_val v"
  unfolding renaming_def by metis

lemma replaced [simp]: "inst_id (replace_uses rs x) = inst_id x" "inst_op (replace_uses rs x) = map_operands (replace_value rs) (inst_op x)"
  by (simp_all add: replace_uses_def)

lemma conversions_nth:
  assumes "conversions n cs" and "j < length cs"
  shows "operands (inst_op (cs ! j)) = [InstVal ((n # map inst_id cs) ! j)] \<and> no_intrinsic (cs ! j) \<and> \<not> returns_constant (inst_op (cs ! j))"
  using assms
proof (induction n cs arbitrary: j rule: conversions.induct)
  case (2 n c cs)
  then show ?case by (cases j) (auto simp: no_intrinsic_def returns_constant_def)
qed simp

lemma constants_inst: "constants_only vs \<Longrightarrow> v \<in> set vs \<Longrightarrow> \<not> is_inst_val v"
  by (cases v) (auto simp: constants_only_def list_all_iff)

lemma constants_map: "constants_only vs \<Longrightarrow> map (replace_value rs) vs = vs"
  by (auto simp: constants_only_def list_all_iff replace_constant intro: map_idI)

lemma asm_parts [simp]: "inst_id (asm_block n) = n" "operands (inst_op (asm_block n)) = []" "no_intrinsic (asm_block n)"
  "\<not> returns_constant (inst_op (asm_block n))"
  by (simp_all add: asm_block_def no_intrinsic_def returns_constant_def)

lemma call_parts [simp]: "\<not> returns_constant (Call c args)"
  "no_intrinsic \<lparr>inst_id = i, inst_type = t, inst_op = Call (Direct n) args\<rparr> \<longleftrightarrow> n \<notin> record_calls"
  by (simp_all add: returns_constant_def no_intrinsic_def)

lemma unopt_shape:
  assumes P_def: "P = \<lparr>inst_id = lo, inst_type = t, inst_op = Call (Direct name) (args @ call_args)\<rparr>"
    and x: "inst_op x = Call (Direct g) call_args" and args: "constants_only args"
    and name: "name \<in> {patchpoint_void_name, patchpoint_i64_name}"
    and conv: "conversions lo conv" "map inst_id conv = [Suc lo..<hi]" "hi = Suc (lo + length conv)"
    and rs: "small_keys lo rs" "map_of rs (inst_id x) = Some (InstVal (hi - 1))"
    and C: "\<And>y. y \<in> set (P # conv) \<Longrightarrow> inst_id y \<in> set C \<longleftrightarrow> inst_id y = lo"
    and asm: "insert_asm_block C (map (replace_uses rs) (P # conv)) n = Inr (G, n')"
  shows "group_shape rs True x G (Suc (length conv)) 1 1"
proof -
  note const = returns_constant_renamed [OF small_keys_renaming [OF rs(1)]]
  have P: "inst_id P = lo" "\<not> no_intrinsic P" using name by (auto simp: P_def)
  let ?m = "length conv" and ?conv = "map (replace_uses rs) conv"
  have ids: "inst_id (conv ! j) = Suc (lo + j)" if "j < ?m" for j
    using conv(3) arg_cong [OF conv(2), of "\<lambda>xs. xs ! j"] that by (simp del: upt_Suc)
  have "inst_id y \<notin> set C" if y: "y \<in> set conv" for y
  proof -
    obtain j where "j < ?m" "conv ! j = y" using y by (auto simp: in_set_conv_nth)
    then show ?thesis using C [of y] y ids [of j] by auto
  qed
  then have none: "insert_asm_block C ?conv k = Inr (?conv, k)" for k by (intro insert_asm_block_none) auto
  have "inst_id P \<in> set C" using C [of P] P(1) by simp
  then have G: "G = [asm_block n, replace_uses rs P] @ ?conv"
    using asm none by (simp add: insert_asm_block_Cons)
  have op: "inst_op (replace_uses rs P) = Call (Direct name) (args @ map (replace_value rs) call_args)"
    using constants_map [OF args] by (simp add: P_def)
  have at: "G ! 0 = asm_block n" "G ! 1 = replace_uses rs P" "\<And>j. j < ?m \<Longrightarrow> G ! (j + 2) = replace_uses rs (conv ! j)" "length G = ?m + 2"
    by (simp_all add: G)
  have num: "inst_id (G ! (j + 1)) = lo + j" if "j \<le> ?m" for j
    using that at(2,3) ids P(1) by (cases j) auto
  have chain: "operands (inst_op (G ! (j + 2))) = [InstVal (inst_id (G ! (j + 1)))]" "no_intrinsic (G ! (j + 2))"
    "\<not> returns_constant (inst_op (G ! (j + 2)))" if j: "j < ?m" for j
  proof -
    have "(lo # map inst_id conv) ! j = lo + j" using j ids by (cases j) auto
    then have "operands (inst_op (conv ! j)) = [InstVal (lo + j)]" "no_intrinsic (conv ! j)" "\<not> returns_constant (inst_op (conv ! j))"
      using conversions_nth [OF conv(1) j] by auto
    then show "operands (inst_op (G ! (j + 2))) = [InstVal (inst_id (G ! (j + 1)))]" "no_intrinsic (G ! (j + 2))"
      "\<not> returns_constant (inst_op (G ! (j + 2)))"
      using at(3) [OF j] num [of j] j small_keys_large [OF rs(1), of "lo + j"]
      by (simp_all add: operands_map const replace_no_intrinsic)
  qed
  have idx: "(\<forall>y < length G. Q y) \<longleftrightarrow> Q 0 \<and> Q 1 \<and> (\<forall>j < ?m. Q (j + 2))" for Q
    unfolding at(4) by (metis One_nat_def add_2_eq_Suc' less_Suc_eq_0_disj)
  have hold: "replace_value rs (InstVal (inst_id x)) = InstVal (inst_id (G ! Suc ?m))"
    using rs(2) num [of ?m] conv(3) by (simp add: replace_value_def)
  have intr: "no_intrinsic (G ! y) \<longleftrightarrow> y \<noteq> 1" if "y < length G" for y
  proof -
    have "\<forall>y < length G. no_intrinsic (G ! y) \<longleftrightarrow> y \<noteq> 1"
      unfolding idx using at(1,2) chain(2) P(2) by (simp add: replace_no_intrinsic)
    then show ?thesis using that by blast
  qed
  have uses: "\<forall>y < length G. \<forall>v \<in> set (operands (inst_op (G ! y))). is_inst_val v \<longrightarrow> 1 \<le> y \<and>
      (v \<in> replace_value rs ` set call_args \<or> (\<exists>p < y. p \<noteq> Suc ?m \<and> 1 \<le> p \<and> v = InstVal (inst_id (G ! p))))"
  proof -
    have "\<exists>p < j + 2. p \<noteq> Suc ?m \<and> 1 \<le> p \<and> InstVal (inst_id (G ! (j + 1))) = InstVal (inst_id (G ! p))" if "j < ?m" for j
      using that at(4) by (intro exI [of _ "j + 1"]) simp
    then show ?thesis unfolding idx at(1,2) op using constants_inst [OF args] chain(1) by auto
  qed
  have used: "\<exists>y < length G. replace_value rs v \<in> set (operands (inst_op (G ! y)))" if "v \<in> set call_args" for v
    using that op at(2,4) by (intro exI [of _ 1]) simp
  have const: "\<forall>y < length G. \<not> returns_constant (inst_op (G ! y))"
    unfolding idx at(1,2) op using chain(3) by simp
  have "getCalledFunction (inst_op (G ! 1)) \<noteq> Some stackmap_name"
    using name unfolding at(2) op by (auto simp: intrinsic_names)
  then show ?thesis
    using x hold intr uses used const at(4) by (simp add: group_shape_def)
qed

lemma made_shape:
  assumes made: "made_of site lo hi x out add calls" and x: "no_intrinsic x" "inst_id x < lo"
    and rs: "small_keys lo rs" "map_of rs (inst_id x) = map_of add (inst_id x)"
    and C: "\<And>y. y \<in> set out \<Longrightarrow> inst_id y \<in> set C \<longleftrightarrow> inst_id y \<in> set calls"
    and asm: "insert_asm_block C (map (replace_uses rs) out) n = Inr (G, n')"
  shows "\<exists>k r a. group_shape rs site x G k r a"
  using made
proof cases
  note ren = small_keys_renaming [OF rs(1)]
  note inst_val = replace_inst_val [OF ren] and const = returns_constant_renamed [OF ren]
  let ?x = "replace_uses rs x"
  have own: "replace_value rs (InstVal (inst_id x)) = InstVal (inst_id x)" if "add = []"
    using rs(2) that by (simp add: replace_value_def)
  have intr: "no_intrinsic ?x" using x(1) by (simp add: replace_no_intrinsic)
  {
    case alone
    have "G = [?x]"
      using asm C alone by (simp add: insert_asm_block_Cons)
    then have "group_shape rs site x G 0 0 0"
      using alone intr own by (auto simp: group_shape_def operands_map const)
    then show ?thesis by blast
  next
    case (guard args)
    let ?G = "\<lparr>inst_id = lo, inst_type = VoidTy, inst_op = Call (Direct patchpoint_void_name) args\<rparr>"
    have "inst_id ?G \<notin> set C" "inst_id x \<notin> set C" using C [of ?G] C [of x] guard by auto
    then have "G = [?G, ?x]"
      using asm guard constants_map [of args rs] by (simp add: insert_asm_block_Cons replace_uses_def)
    then have "group_shape rs site x G 1 0 0"
      using guard intr own constants_inst [OF guard(7)]
      by (auto simp: group_shape_def operands_map const less_Suc_eq intrinsic_names)
    then show ?thesis by blast
  next
    case (opt_call args)
    let ?S = "\<lparr>inst_id = lo, inst_type = VoidTy, inst_op = Call (Direct stackmap_name) args\<rparr>"
    have "inst_id ?S \<notin> set C" using C [of ?S] opt_call x(2) by auto
    moreover have "inst_id x \<in> set C" using C [of x] opt_call by auto
    ultimately have "G = [asm_block n, ?x, ?S]"
      using asm opt_call constants_map [of args rs] by (simp add: insert_asm_block_Cons replace_uses_def)
    then have "group_shape rs site x G 1 2 1"
      using opt_call intr own constants_inst [OF opt_call(7)]
      by (auto simp: group_shape_def operands_map const less_Suc_eq nth_Cons')
    then show ?thesis by blast
  next
    case (unopt_call g call_args args name conv t)
    have "group_shape rs True x G (Suc (length conv)) 1 1"
      by (rule unopt_shape [OF refl unopt_call(5-10) rs(1), where C = C and n = n and n' = n'])
        (use rs(2) C asm in \<open>auto simp: unopt_call(2-4)\<close>)
    then show ?thesis using unopt_call(1) by blast
  }
qed

section \<open>A function\<close>

lemma list_all2_nested:
  "list_all2 Q (concat L) (concat M) \<Longrightarrow> map length L = map length M \<Longrightarrow> list_all2 (list_all2 Q) L M"
proof (induction L arbitrary: M)
  case (Cons l L)
  then show ?case by (cases M) (auto simp: list_all2_append)
qed simp

lemma concat_map_concat: "concat (map concat xss) = concat (concat xss)"
  by (induction xss) simp_all

text \<open>The values put in for the results of calls.\<close>

lemma replaced_values:
  assumes xs: "source_numbers lo xs"
    and rs: "\<forall>m v. (m, v) \<in> set rs \<longrightarrow> (\<exists>i < length xs. m = inst_id (xs ! i) \<and> v = InstVal (lo (Suc i) - 1) \<and> lo i < lo (Suc i))"
  shows "small_keys (lo 0) rs" and "inj_on (replace_value rs) {InstVal i | i. i < lo 0}"
    and "i < lo 0 \<Longrightarrow> replace_value rs (InstVal i) = InstVal j \<Longrightarrow> j < lo (length xs)"
proof -
  note D = source_numbersD [OF xs]
  show "small_keys (lo 0) rs"
  proof -
    have "m < lo 0 \<and> is_inst_val v" if mv: "(m, v) \<in> set rs" for m v
    proof -
      obtain i where "i < length xs" "m = inst_id (xs ! i)" "v = InstVal (lo (Suc i) - 1)" using rs mv by blast
      then show ?thesis using D(2) by simp
    qed
    then show ?thesis by (auto simp: small_keys_def list_all_iff)
  qed
  have val: "replace_value rs (InstVal i) = InstVal i \<or>
      (\<exists>m < length xs. i = inst_id (xs ! m) \<and> replace_value rs (InstVal i) = InstVal (lo (Suc m) - 1) \<and> lo m < lo (Suc m))" for i
  proof (cases "map_of rs i")
    case (Some v)
    then show ?thesis using rs map_of_SomeD [OF Some] by (fastforce simp: replace_value_def)
  qed (simp add: replace_value_def)
  have ge: "lo 0 \<le> lo (Suc m) - 1" if "m < length xs" "lo m < lo (Suc m)" for m
    using D(1) [of 0 m] that by simp
  show "j < lo (length xs)" if "i < lo 0" "replace_value rs (InstVal i) = InstVal j" for i j
    using val [of i]
  proof (elim disjE exE conjE)
    assume "replace_value rs (InstVal i) = InstVal i"
    then show ?thesis using that D(1) [of 0 "length xs"] by simp
  next
    fix m assume "m < length xs" "replace_value rs (InstVal i) = InstVal (lo (Suc m) - 1)" "lo m < lo (Suc m)"
    then show ?thesis using that D(1) [of "Suc m" "length xs"] by simp
  qed
  have "i = j" if "i < lo 0" "j < lo 0" "replace_value rs (InstVal i) = replace_value rs (InstVal j)" for i j
    using val [of i] val [of j]
  proof (elim disjE exE conjE)
    fix m m' assume m: "m < length xs" "i = inst_id (xs ! m)" "replace_value rs (InstVal i) = InstVal (lo (Suc m) - 1)" "lo m < lo (Suc m)"
      and m': "m' < length xs" "j = inst_id (xs ! m')" "replace_value rs (InstVal j) = InstVal (lo (Suc m') - 1)" "lo m' < lo (Suc m')"
    then have "lo (Suc m) - 1 = lo (Suc m') - 1" using that(3) by simp
    then have "belongs lo xs m (lo (Suc m) - 1)" "belongs lo xs m' (lo (Suc m) - 1)" using m(4) m'(4) by (auto simp: belongs_def)
    then show "i = j" using belongs_unique [OF xs m(1) m'(1)] m(2) m'(2) by blast
  next
    assume same: "replace_value rs (InstVal i) = InstVal i" "replace_value rs (InstVal j) = InstVal j"
    have "InstVal i = InstVal j" by (rule trans [OF same(1) [symmetric] trans [OF that(3) same(2)]])
    then show "i = j" by simp
  next
    fix m assume same: "replace_value rs (InstVal i) = InstVal i" and m: "m < length xs" "replace_value rs (InstVal j) = InstVal (lo (Suc m) - 1)" "lo m < lo (Suc m)"
    have "InstVal i = InstVal (lo (Suc m) - 1)" by (rule trans [OF same [symmetric] trans [OF that(3) m(2)]])
    then show "i = j" using that(1) ge [OF m(1,3)] by simp
  next
    fix m assume same: "replace_value rs (InstVal j) = InstVal j" and m: "m < length xs" "replace_value rs (InstVal i) = InstVal (lo (Suc m) - 1)" "lo m < lo (Suc m)"
    have "InstVal j = InstVal (lo (Suc m) - 1)" by (rule trans [OF same [symmetric] trans [OF that(3) [symmetric] m(2)]])
    then show "i = j" using that(2) ge [OF m(1,3)] by simp
  qed
  then show "inj_on (replace_value rs) {InstVal i | i. i < lo 0}" by (auto simp: inj_on_def)
qed

text \<open>
  The numbers in the finished function: unique, and a value used in the source is replaced by one
  value, different for different values.
\<close>

definition numbers_ok :: "ir_fun \<Rightarrow> (nat \<times> ir_value) list \<Rightarrow> ir_fun \<Rightarrow> bool" where
  "numbers_ok f rs g \<longleftrightarrow> small_keys (fresh_id f) rs \<and> inj_on (replace_value rs) {InstVal i | i. i < fresh_id f} \<and>
     (\<forall>i j. i < fresh_id f \<longrightarrow> replace_value rs (InstVal i) = InstVal j \<longrightarrow> j < fresh_id g) \<and>
     distinct (map inst_id (concat (body g))) \<and> (\<forall>y \<in> set (concat (body g)). inst_id y < fresh_id g)"

definition of_groups :: "ir_module \<Rightarrow> ir_fun \<Rightarrow> (nat \<times> ir_value) list \<Rightarrow> inst list list list \<Rightarrow> ir_fun \<Rightarrow> bool" where
  "of_groups md f rs gs g \<longleftrightarrow> fun_name g = fun_name f \<and> body g = map concat gs \<and> numbers_ok f rs g \<and>
     list_all2 (list_all2 (\<lambda>x G. \<exists>k r a. group_shape rs (is_site md (fun_name f) x) x G k r a)) (body f) gs"

lemma checkpoint_of_groups:
  assumes run: "checkpoint_function md f sms = Inr (g, sms')" and f: "well_numbered f" "list_all (list_all no_intrinsic) (body f)"
  shows "\<exists>rs gs. of_groups md f rs gs g"
proof -
  obtain outs st gs where
    outs: "mapfold_res (checkpoint_inst md (fun_name f)) (concat (body f))
       \<lparr>cp_maps = sms, cp_fresh = fresh_id f, cp_calls = [], cp_subst = []\<rparr> = Inr (outs, st)"
    and asm: "mapfold_res (insert_asm_block (cp_calls st)) (map (map (replace_uses (cp_subst st))) outs) (cp_fresh st) =
       Inr (concat gs, fresh_id g)"
    and g: "body g = map concat gs" "map length gs = map length (body f)" "fun_name g = fun_name f"
    using checkpoint_flat [OF run] .
  let ?xs = "concat (body f)" and ?C = "cp_calls st" and ?rs = "cp_subst st"
    and ?st = "\<lparr>cp_maps = sms, cp_fresh = fresh_id f, cp_calls = [], cp_subst = []\<rparr>"
  have len: "length outs = length ?xs" by (rule mapfold_res_length [OF outs])
  from outs obtain lo add calls where lo: "lo 0 = cp_fresh ?st" "lo (length ?xs) = cp_fresh st" "mono_on {..length ?xs} lo"
    and made: "\<And>i. i < length ?xs \<Longrightarrow> made_of (is_site md (fun_name f) (?xs ! i)) (lo i) (lo (Suc i)) (?xs ! i) (outs ! i) (add i) (calls i)"
    and rs: "?rs = concat (map add [0..<length ?xs])" and C: "?C = concat (map calls [0..<length ?xs])"
    by (rule checkpoint_numbers) (simp, simp, rule that)
  have src: "source_numbers lo ?xs" using f(1) lo by (auto simp: source_numbers_def well_numbered_def list_all_iff)
  have all: "\<forall>i < length ?xs. made_of (is_site md (fun_name f) (?xs ! i)) (lo i) (lo (Suc i)) (?xs ! i) (outs ! i) (add i) (calls i)"
    using made by blast
  note D = source_numbersD [OF src] and N = made_numbers [OF src len all, folded rs C]
  have lo0: "lo 0 = fresh_id f" using lo(1) by simp
  have "\<forall>m v. (m, v) \<in> set ?rs \<longrightarrow> (\<exists>i < length ?xs. m = inst_id (?xs ! i) \<and> v = InstVal (lo (Suc i) - 1) \<and> lo i < lo (Suc i))"
    using N(3) by blast
  note V = replaced_values [OF src this, unfolded lo0]
  have flat: "insert_asm_block ?C (map (replace_uses ?rs) (concat outs)) (cp_fresh st) = Inr (concat (body g), fresh_id g)"
    using insert_asm_flat [OF asm] by (simp add: g(1) map_concat concat_map_concat)
  have small: "inst_id y < cp_fresh st" if y: "y \<in> set (map (replace_uses ?rs) (concat outs))" for y
  proof -
    obtain z where "z \<in> set (concat outs)" "inst_id y = inst_id z" using y unfolding set_map by (metis imageE replaced(1))
    then show ?thesis using N(5) lo(2) by simp
  qed
  have "distinct (map inst_id (map (replace_uses ?rs) (concat outs)))" using N(4) by (simp add: comp_def)
  note nums = insert_asm_numbers [OF flat small this]
  have fresh: "cp_fresh st \<le> fresh_id g" using nums by blast
  have "inst_id y < fresh_id g" if y: "y \<in> set (concat (body g))" for y
  proof -
    have "y \<in> set (map (replace_uses ?rs) (concat outs)) \<or> (\<exists>m. y = asm_block m \<and> m < fresh_id g)" using nums y by blast
    then show ?thesis
    proof (elim disjE exE conjE)
      assume "y \<in> set (map (replace_uses ?rs) (concat outs))"
      from less_le_trans [OF small [OF this] fresh] show ?thesis .
    next
      fix m assume "y = asm_block m" "m < fresh_id g"
      then show ?thesis by simp
    qed
  qed
  moreover have "j < fresh_id g" if "i < fresh_id f" "replace_value ?rs (InstVal i) = InstVal j" for i j
    using V(3) [OF that] lo(2) fresh by simp
  moreover have "distinct (map inst_id (concat (body g)))" using nums by blast
  ultimately have "numbers_ok f ?rs g" using V(1,2) unfolding numbers_ok_def by blast
  moreover obtain ns where ns: "\<And>i. i < length outs \<Longrightarrow>
      insert_asm_block ?C (map (replace_uses ?rs) (outs ! i)) (ns i) = Inr (concat gs ! i, ns (Suc i))"
    using mapfold_res_nth [OF asm] by auto
  have "\<exists>k r a. group_shape ?rs (is_site md (fun_name f) (?xs ! i)) (?xs ! i) (concat gs ! i) k r a" if i: "i < length ?xs" for i
  proof (rule made_shape [OF made [OF i] _ _ _ N(2) [OF i] N(1) [OF i] ns])
    show "no_intrinsic (?xs ! i)" using f(2) i unfolding list_all_concat [symmetric] by (simp only: list_all_length)
    show "inst_id (?xs ! i) < lo i" using D(1) [of 0 i] D(2) [OF i] i by simp
    show "small_keys (lo i) ?rs" using V(1) D(1) [of 0 i] i lo0 by (auto simp: small_keys_def list_all_iff)
  qed (use i len in simp_all)
  then have "list_all2 (\<lambda>x G. \<exists>k r a. group_shape ?rs (is_site md (fun_name f) x) x G k r a) ?xs (concat gs)"
    using len mapfold_res_length [OF asm] by (intro list_all2_all_nthI) auto
  then have "list_all2 (list_all2 (\<lambda>x G. \<exists>k r a. group_shape ?rs (is_site md (fun_name f) x) x G k r a)) (body f) gs"
    using g(2) by (intro list_all2_nested) auto
  ultimately show ?thesis using g(1,3) unfolding of_groups_def by blast
qed

end
