(* ===== verification/Group_Positions.thy ===== *)
theory Group_Positions
  imports Checkpoint_Shapes
begin

unbundle bit_operations_syntax

text \<open>
  Where the instructions of a group are in the function: position \<open>j\<close> of the group of source
  position \<open>q\<close> is \<open>spot gs q j\<close>. Spots are ordered as the source positions are, and inside a
  group by \<open>j\<close>; so a checkpointed function is \<open>grouped\<close> by the positions of its source.
\<close>

section \<open>Spots\<close>

definition offset :: "'a list list \<Rightarrow> nat \<Rightarrow> nat" where
  "offset L k = length (concat (take k L))"

lemma offset_Suc: "k < length L \<Longrightarrow> offset L (Suc k) = offset L k + length (L ! k)"
  by (simp add: offset_def take_Suc_conv_app_nth)

lemma offset_mono: "k < k' \<Longrightarrow> k' < length L \<Longrightarrow> j < length (L ! k) \<Longrightarrow> offset L k + j < offset L k'"
proof (induction k')
  case (Suc k')
  then show ?case using offset_Suc [of k' L] by (cases "k = k'") auto
qed simp

lemma nth_concat_offset: "k < length L \<Longrightarrow> j < length (L ! k) \<Longrightarrow> concat L ! (offset L k + j) = L ! k ! j"
proof -
  assume k: "k < length L" "j < length (L ! k)"
  have "concat L = concat (take k L) @ L ! k @ concat (drop (Suc k) L)"
    using id_take_nth_drop [OF k(1)] by (metis concat.simps(2) concat_append)
  then show ?thesis using k(2) by (simp add: offset_def nth_append)
qed

lemma upt_offsets:
  "[0..<length (concat L)] = concat (map (\<lambda>k. map ((+) (offset L k)) [0..<length (L ! k)]) [0..<length L])"
proof (induction L rule: rev_induct)
  case (snoc x L)
  have "offset (L @ [x]) k = offset L k" if "k \<le> length L" for k using that by (simp add: offset_def)
  moreover have "(L @ [x]) ! k = L ! k" if "k < length L" for k using that by (simp add: nth_append)
  ultimately have init: "map (\<lambda>k. map ((+) (offset (L @ [x]) k)) [0..<length ((L @ [x]) ! k)]) [0..<length L] =
      map (\<lambda>k. map ((+) (offset L k)) [0..<length (L ! k)]) [0..<length L]" by (intro map_cong) auto
  have last: "map ((+) (offset (L @ [x]) (length L))) [0..<length ((L @ [x]) ! length L)] = map ((+) (length (concat L))) [0..<length x]"
    by (simp add: offset_def)
  have "[0..<length (concat (L @ [x]))] = [0..<length (concat L)] @ map ((+) (length (concat L))) [0..<length x]"
    by (rule nth_equalityI) (auto simp: nth_append simp del: length_concat)
  also have "\<dots> = concat (map (\<lambda>k. map ((+) (offset L k)) [0..<length (L ! k)]) [0..<length L]) @ map ((+) (length (concat L))) [0..<length x]"
    unfolding snoc ..
  also have "\<dots> = concat (map (\<lambda>k. map ((+) (offset (L @ [x]) k)) [0..<length ((L @ [x]) ! k)]) ([0..<length L] @ [length L]))"
    unfolding map_append concat_append init list.map last by simp
  finally show ?case by (simp only: length_append_singleton upt_Suc_append zero_le)
qed simp

definition spot :: "'a list list list \<Rightarrow> nat \<times> nat \<Rightarrow> nat \<Rightarrow> nat \<times> nat" where
  "spot gs = (\<lambda>(b, k) j. (b, offset (gs ! b) k + j))"

definition group_at :: "'a list list list \<Rightarrow> nat \<times> nat \<Rightarrow> 'a list" where
  "group_at gs = (\<lambda>(b, k). gs ! b ! k)"

lemma spot_positions:
  assumes g: "body g = map concat gs" and shape: "map length gs = map length (body f)"
  shows "positions g = concat (map (\<lambda>q. map (spot gs q) [0..<length (group_at gs q)]) (positions f))"
proof -
  have len: "length gs = length (body f)" using shape by (rule map_eq_imp_length_eq)
  have lens: "length (gs ! b) = length (body f ! b)" if "b < length gs" for b
    using shape that len by (metis nth_map)
  have block: "map (Pair b) [0..<length (concat (gs ! b))] =
      concat (map (\<lambda>q. map (spot gs q) [0..<length (group_at gs q)]) (map (Pair b) [0..<length (gs ! b)]))" for b
    unfolding upt_offsets map_concat list.map_comp comp_def by (simp add: spot_def group_at_def)
  have "positions g = concat (map (\<lambda>b. map (Pair b) [0..<length (concat (gs ! b))]) [0..<length gs])"
    unfolding positions_def g by (intro arg_cong [of _ _ concat] map_cong) auto
  also have "\<dots> = concat (map (\<lambda>b. concat (map (\<lambda>q. map (spot gs q) [0..<length (group_at gs q)])
      (map (Pair b) [0..<length (body f ! b)]))) [0..<length (body f)])"
    unfolding block by (intro arg_cong [of _ _ concat] map_cong) (auto simp: len lens)
  also have "\<dots> = concat (map (\<lambda>q. map (spot gs q) [0..<length (group_at gs q)]) (positions f))"
    unfolding positions_def map_concat list.map_comp comp_def concat_map_concat [symmetric] ..
  finally show ?thesis .
qed

lemma spot_in:
  assumes "body g = map concat gs" and "map length gs = map length (body f)"
    and "q \<in> set (positions f)" and "j < length (group_at gs q)"
  shows "spot gs q j \<in> set (positions g)" and "inst_at g (spot gs q j) = group_at gs q ! j"
proof -
  show "spot gs q j \<in> set (positions g)" 
    unfolding spot_positions [OF assms(1,2)] set_concat set_map using assms(3,4) by (intro UN_I [of "map (spot gs q) [0..<length (group_at gs q)]"]) auto
  obtain b k where q: "q = (b, k)" by (cases q)
  have len: "length gs = length (body f)" using assms(2) by (rule map_eq_imp_length_eq)
  moreover have b: "b < length (body f)" "k < length (body f ! b)" using assms(3) by (simp_all add: q set_positions)
  moreover have "length (gs ! b) = length (body f ! b)" using assms(2) b(1) len by (metis nth_map)
  ultimately show "inst_at g (spot gs q j) = group_at gs q ! j"
    using assms(1,4) nth_concat_offset [of k "gs ! b" j] by (simp add: q spot_def group_at_def inst_at_def)
qed

lemma before_spot:
  assumes "map length gs = map length (body f)"
    and "q \<in> set (positions f)" and "j < length (group_at gs q)" and "q' \<in> set (positions f)" and "j' < length (group_at gs q')"
  shows "before bdom (spot gs q j) (spot gs q' j') = (if q = q' then j < j' else before bdom q q')"
proof -
  obtain b k b' k' where q: "q = (b, k)" "q' = (b', k')" by (cases q; cases q')
  have len: "length (gs ! b) = length (body f ! b)" if "b < length (body f)" for b
    using assms(1) that map_eq_imp_length_eq [OF assms(1)] by (metis nth_map)
  show ?thesis
  proof (cases "b = b' \<and> k \<noteq> k'")
    case True
    then have "k < length (gs ! b)" "k' < length (gs ! b)" using assms(2,4) len by (auto simp: q set_positions)
    then show ?thesis
      using True assms(3,5) offset_mono [of k k' "gs ! b" j] offset_mono [of k' k "gs ! b" j']
      by (cases k k' rule: linorder_cases) (auto simp: q before_def spot_def group_at_def)
  qed (auto simp: q before_def spot_def)
qed

lemma spot_eq:
  assumes "map length gs = map length (body f)"
    and "q \<in> set (positions f)" and "j < length (group_at gs q)" and "q' \<in> set (positions f)" and "j' < length (group_at gs q')"
    and "spot gs q j = spot gs q' j'"
  shows "q = q' \<and> j = j'"
proof -
  let ?all = "\<lambda>_ _. True"
  have "\<not> before ?all (spot gs q j) (spot gs q' j')" "\<not> before ?all (spot gs q' j') (spot gs q j)" using assms(6) by simp_all
  then have "q = q'" using before_spot [OF assms(1-5), of ?all] before_spot [OF assms(1,4,5,2,3), of ?all]
    by (cases q; cases q') (auto simp: before_def split: if_splits)
  then show ?thesis using assms(6) by (auto simp: spot_def split: prod.splits)
qed

end
