(* ===== verification/Grouped_Functions.thy ===== *)
theory Grouped_Functions
  imports Group_Positions
begin

unbundle bit_operations_syntax

text \<open>
  A checkpointed function is \<open>grouped\<close> by the positions of its source, and the uses between its
  groups are the uses of the source.
\<close>

section \<open>Source functions\<close>

text \<open>
  What LLVM's verifier checks of a function: the operands are results of instructions; a return
  has none; a call does not use its own.
\<close>

definition source_fun :: "ir_fun \<Rightarrow> bool" where
  "source_fun f \<longleftrightarrow> well_numbered f \<and>
     list_all (\<lambda>x. list_all (\<lambda>v. case v of
         InstVal i \<Rightarrow> list_ex (\<lambda>y. inst_id y = i \<and> \<not> isReturnInst (inst_op y)) (concat (body f)) \<and>
           (isCallInst (inst_op x) \<longrightarrow> i \<noteq> inst_id x)
       | _ \<Rightarrow> True) (operands (inst_op x))) (concat (body f))"

lemma source_funD:
  assumes "source_fun f"
  shows "well_numbered f"
    and "q \<in> set (positions f) \<Longrightarrow> InstVal i \<in> set (operands (op_at f q)) \<Longrightarrow>
      \<exists>p \<in> set (positions f). inst_id (inst_at f p) = i \<and> use_at f p q \<and> \<not> isReturnInst (op_at f p)"
    and "q \<in> set (positions f) \<Longrightarrow> isCallInst (op_at f q) \<Longrightarrow> \<not> use_at f q q"
    and "p \<in> set (positions f) \<Longrightarrow> q \<in> set (positions f) \<Longrightarrow> isReturnInst (op_at f p) \<Longrightarrow> \<not> use_at f p q"
proof -
  have all: "(\<exists>p \<in> set (positions f). inst_id (inst_at f p) = i \<and> \<not> isReturnInst (op_at f p)) \<and>
      (isCallInst (op_at f q) \<longrightarrow> i \<noteq> inst_id (inst_at f q))"
    if "q \<in> set (positions f)" "InstVal i \<in> set (operands (op_at f q))" for q i
    using assms that unfolding source_fun_def concat_positions list_all_iff list_ex_iff op_at_inst by fastforce
  show wn: "well_numbered f" using assms by (simp add: source_fun_def)
  show "\<exists>p \<in> set (positions f). inst_id (inst_at f p) = i \<and> use_at f p q \<and> \<not> isReturnInst (op_at f p)"
    if "q \<in> set (positions f)" "InstVal i \<in> set (operands (op_at f q))"
    using all [OF that] that(2) by (auto simp: use_at_def)
  show "\<not> use_at f q q" if "q \<in> set (positions f)" "isCallInst (op_at f q)"
    unfolding use_at_def using all [OF that(1)] that by blast
  show "\<not> use_at f p q" if "p \<in> set (positions f)" "q \<in> set (positions f)" "isReturnInst (op_at f p)"
    unfolding use_at_def using all [OF that(2)] well_numberedD(1) [OF wn _ that(1)] that(1,3) by blast
qed

section \<open>The layout\<close>

definition grouped_fun :: "ir_module \<Rightarrow> ir_fun \<Rightarrow> (nat \<times> ir_value) list \<Rightarrow> inst list list list \<Rightarrow> ir_fun \<Rightarrow>
    (nat \<times> nat \<Rightarrow> nat) \<Rightarrow> (nat \<times> nat \<Rightarrow> nat) \<Rightarrow> (nat \<times> nat \<Rightarrow> nat) \<Rightarrow> bool" where
  "grouped_fun md f rs gs g K R A \<longleftrightarrow> source_fun f \<and> body g = map concat gs \<and> map length gs = map length (body f) \<and>
     numbers_ok f rs g \<and>
     (\<forall>q \<in> set (positions f). group_shape rs (is_site md (fun_name f) (inst_at f q)) (inst_at f q) (group_at gs q) (K q) (R q) (A q))"

lemma of_groups_grouped_fun:
  assumes "of_groups md f rs gs g" and "source_fun f"
  shows "\<exists>K R A. grouped_fun md f rs gs g K R A"
proof -
  from assms(1) have g: "body g = map concat gs" "numbers_ok f rs g"
    and each: "list_all2 (list_all2 (\<lambda>x G. \<exists>k r a. group_shape rs (is_site md (fun_name f) x) x G k r a)) (body f) gs"
    by (auto simp: of_groups_def)
  have "map length gs = map length (body f)"
    using each by (auto simp: list_all2_conv_all_nth intro!: nth_equalityI)
  moreover have "\<forall>q \<in> set (positions f). \<exists>k r a.
      group_shape rs (is_site md (fun_name f) (inst_at f q)) (inst_at f q) (group_at gs q) k r a"
    using each by (auto simp: list_all2_conv_all_nth set_positions inst_at_def group_at_def)
  then obtain K R A where "\<forall>q \<in> set (positions f).
      group_shape rs (is_site md (fun_name f) (inst_at f q)) (inst_at f q) (group_at gs q) (K q) (R q) (A q)"
    by metis
  ultimately show ?thesis using g assms(2) unfolding grouped_fun_def by blast
qed

lemma grouped_funD:
  assumes "grouped_fun md f rs gs g K R A"
  shows "source_fun f" and "body g = map concat gs" and "map length gs = map length (body f)" and "numbers_ok f rs g"
    and "q \<in> set (positions f) \<Longrightarrow> group_shape rs (is_site md (fun_name f) (inst_at f q)) (inst_at f q) (group_at gs q) (K q) (R q) (A q)"
  using assms by (auto simp: grouped_fun_def)

lemma group_shapeD:
  assumes "group_shape rs site x G k r a"
  shows "k < length G" and "r < length G" and "a \<le> k" and "a \<le> r"
    and "replace_value rs (InstVal (inst_id x)) = InstVal (inst_id (G ! k))"
    and "y < length G \<Longrightarrow> no_intrinsic (G ! y) \<longleftrightarrow> \<not> (site \<and> y = r)"
    and "site \<Longrightarrow> if getCalledFunction (inst_op (G ! r)) = Some stackmap_name then r = Suc a else r = a"
    and "y < length G \<Longrightarrow> InstVal i \<in> set (operands (inst_op (G ! y))) \<Longrightarrow> a \<le> y \<and>
       (InstVal i \<in> replace_value rs ` set (operands (inst_op x)) \<or> (\<exists>p < y. p \<noteq> k \<and> a \<le> p \<and> i = inst_id (G ! p)))"
    and "v \<in> set (operands (inst_op x)) \<Longrightarrow> \<exists>y < length G. replace_value rs v \<in> set (operands (inst_op (G ! y)))"
    and "y < length G \<Longrightarrow> returns_constant (inst_op (G ! y)) \<longleftrightarrow> y = k \<and> returns_constant (inst_op x)"
proof -
  note shape = assms [unfolded group_shape_def]
  show "k < length G" "r < length G" "a \<le> k" "a \<le> r" using shape by simp_all
  show "replace_value rs (InstVal (inst_id x)) = InstVal (inst_id (G ! k))" using shape by (elim conjE)
  show "y < length G \<Longrightarrow> no_intrinsic (G ! y) \<longleftrightarrow> \<not> (site \<and> y = r)" using shape by (elim conjE) blast
  show "site \<Longrightarrow> if getCalledFunction (inst_op (G ! r)) = Some stackmap_name then r = Suc a else r = a"
    using shape by (elim conjE) (rule mp)
  show "a \<le> y \<and> (InstVal i \<in> replace_value rs ` set (operands (inst_op x)) \<or> (\<exists>p < y. p \<noteq> k \<and> a \<le> p \<and> i = inst_id (G ! p)))"
    if y: "y < length G" and i: "InstVal i \<in> set (operands (inst_op (G ! y)))"
  proof -
    have "\<forall>y < length G. \<forall>v \<in> set (operands (inst_op (G ! y))). is_inst_val v \<longrightarrow> a \<le> y \<and>
        (v \<in> replace_value rs ` set (operands (inst_op x)) \<or> (\<exists>p < y. p \<noteq> k \<and> a \<le> p \<and> v = InstVal (inst_id (G ! p))))"
      using shape by (elim conjE)
    from this [rule_format, OF y i] show ?thesis by simp
  qed
  show "v \<in> set (operands (inst_op x)) \<Longrightarrow> \<exists>y < length G. replace_value rs v \<in> set (operands (inst_op (G ! y)))"
    using shape by (elim conjE) blast
  show "y < length G \<Longrightarrow> returns_constant (inst_op (G ! y)) \<longleftrightarrow> y = k \<and> returns_constant (inst_op x)"
    using shape by (elim conjE) blast
qed

text \<open>Numbers, uses and records by spots.\<close>

lemma spot_cases:
  assumes "grouped_fun md f rs gs g K R A" and "p \<in> set (positions g)"
  obtains q j where "q \<in> set (positions f)" and "j < length (group_at gs q)" and "p = spot gs q j"
  using assms(2) unfolding spot_positions [OF grouped_funD(2,3) [OF assms(1)]] by auto

lemma same_spot:
  assumes l: "grouped_fun md f rs gs g K R A" and q: "q \<in> set (positions f)" "j < length (group_at gs q)"
    and q': "q' \<in> set (positions f)" "j' < length (group_at gs q')"
  shows "inst_id (group_at gs q ! j) = inst_id (group_at gs q' ! j') \<longleftrightarrow> q = q' \<and> j = j'"
proof -
  note L = grouped_funD [OF l]
  note at = spot_in [OF L(2,3) q] spot_in [OF L(2,3) q']
  have "inj_on (\<lambda>p. inst_id (inst_at g p)) (set (positions g))"
    using L(4) by (simp add: numbers_ok_def concat_positions distinct_map comp_def)
  from inj_onD [OF this _ at(1,3)] show ?thesis using at(2,4) spot_eq [OF L(3) q q'] by auto
qed

lemma spot_use:
  assumes l: "grouped_fun md f rs gs g K R A" and q: "q \<in> set (positions f)" "j < length (group_at gs q)"
    and q': "q' \<in> set (positions f)" "j' < length (group_at gs q')" and use: "use_at g (spot gs q j) (spot gs q' j')"
  shows "A q' \<le> j' \<and> (j = K q \<and> use_at f q q' \<or> j \<noteq> K q \<and> q = q' \<and> j < j' \<and> A q \<le> j)"
proof -
  note L = grouped_funD [OF l] and S = group_shapeD [OF grouped_funD(5) [OF l]]
  have u: "InstVal (inst_id (group_at gs q ! j)) \<in> set (operands (inst_op (group_at gs q' ! j')))"
    using use spot_in(2) [OF L(2,3) q] spot_in(2) [OF L(2,3) q'] by (simp add: use_at_def op_at_inst)
  from S(8) [OF q' u] consider (outer) v where "v \<in> set (operands (op_at f q'))" "replace_value rs v = InstVal (inst_id (group_at gs q ! j))"
    | (inner) p where "p < j'" "p \<noteq> K q'" "A q' \<le> p" "inst_id (group_at gs q ! j) = inst_id (group_at gs q' ! p)"
    by (auto simp: op_at_inst)
  then show ?thesis
  proof cases
    case outer
    obtain i where v: "v = InstVal i" using outer(2) by (cases v) (auto simp: replace_value_def)
    obtain p where p: "p \<in> set (positions f)" "inst_id (inst_at f p) = i" "use_at f p q'"
      using source_funD(2) [OF L(1) q'(1)] outer(1) v by blast
    then have "inst_id (group_at gs q ! j) = inst_id (group_at gs p ! K p)" using S(5) [OF p(1)] outer(2) v by simp
    then have "q = p \<and> j = K p" using same_spot [OF l q p(1) S(1) [OF p(1)]] by simp
    then show ?thesis using S(8) [OF q' u] p(3) by blast
  next
    case inner
    then have "q = q' \<and> j = p" using same_spot [OF l q q'(1), of p] q'(2) by simp
    then show ?thesis using S(8) [OF q' u] inner by blast
  qed
qed

lemma use_spot:
  assumes l: "grouped_fun md f rs gs g K R A" and q: "q \<in> set (positions f)" "q' \<in> set (positions f)" and use: "use_at f q q'"
  shows "\<exists>j' < length (group_at gs q'). use_at g (spot gs q (K q)) (spot gs q' j')"
proof -
  note L = grouped_funD [OF l] and S = group_shapeD [OF grouped_funD(5) [OF l]]
  have "InstVal (inst_id (inst_at f q)) \<in> set (operands (inst_op (inst_at f q')))" using use by (simp add: use_at_def op_at_inst)
  from S(9) [OF q(2) this] S(5) [OF q(1)] obtain y where y: "y < length (group_at gs q')"
    "InstVal (inst_id (group_at gs q ! K q)) \<in> set (operands (inst_op (group_at gs q' ! y)))" by auto
  then show ?thesis
    using spot_in(2) [OF L(2,3) q(1) S(1) [OF q(1)]] spot_in(2) [OF L(2,3) q(2) y(1)] by (auto simp: use_at_def op_at_inst)
qed

lemma spot_records:
  assumes l: "grouped_fun md f rs gs g K R A" and q: "q \<in> set (positions f)" "j < length (group_at gs q)"
  shows "records_at g (spot gs q j) \<longleftrightarrow> is_site md (fun_name f) (inst_at f q) \<and> j = R q"
    and "is_site md (fun_name f) (inst_at f q) \<Longrightarrow> anchor_at g (spot gs q (R q)) = spot gs q (A q)"
    and "returns_constant (op_at g (spot gs q j)) \<longleftrightarrow> j = K q \<and> returns_constant (op_at f q)"
proof -
  note L = grouped_funD [OF l] and S = group_shapeD [OF grouped_funD(5) [OF l]]
  note at = spot_in(2) [OF L(2,3) q]
  show "records_at g (spot gs q j) \<longleftrightarrow> is_site md (fun_name f) (inst_at f q) \<and> j = R q"
    using S(6) [OF q] by (simp add: records_at_def at)
  show "returns_constant (op_at g (spot gs q j)) \<longleftrightarrow> j = K q \<and> returns_constant (op_at f q)"
    using S(10) [OF q] by (simp add: op_at_inst at)
  assume "is_site md (fun_name f) (inst_at f q)"
  then show "anchor_at g (spot gs q (R q)) = spot gs q (A q)"
    using S(7) [OF q(1)] spot_in(2) [OF L(2,3) q(1) S(2) [OF q(1)]]
    by (cases q) (auto simp: anchor_at_def op_at_inst spot_def split: if_splits)
qed

section \<open>Groups of positions\<close>

text \<open>The source position a position belongs to.\<close>

lemma spot_source:
  assumes l: "grouped_fun md f rs gs g K R A"
  shows "\<exists>grp. \<forall>q \<in> set (positions f). \<forall>j < length (group_at gs q). grp (spot gs q j) = q"
proof -
  note L = grouped_funD [OF l]
  let ?in = "\<lambda>p q. q \<in> set (positions f) \<and> (\<exists>j < length (group_at gs q). p = spot gs q j)"
  have "(THE q'. ?in (spot gs q j) q') = q" if q: "q \<in> set (positions f)" "j < length (group_at gs q)" for q j
  proof (rule the_equality)
    show "?in (spot gs q j) q" using q by blast
    fix q' assume "?in (spot gs q j) q'"
    then obtain j' where "q' \<in> set (positions f)" "j' < length (group_at gs q')" "spot gs q j = spot gs q' j'" by blast
    then show "q' = q" using spot_eq [OF L(3) q] by blast
  qed
  then show ?thesis by (intro exI [of _ "\<lambda>p. THE q. ?in p q"]) blast
qed

lemma grouped_fun_grouped:
  assumes l: "grouped_fun md f rs gs g K R A"
    and grp: "\<And>q j. q \<in> set (positions f) \<Longrightarrow> j < length (group_at gs q) \<Longrightarrow> grp (spot gs q j) = q"
  shows "grouped bdom (set (positions g)) (set (positions f)) grp (\<lambda>q. spot gs q (K q)) {p \<in> set (positions g). records_at g p}
      (anchor_at g) (use_at g)"
proof -
  note L = grouped_funD [OF l] and S = group_shapeD [OF grouped_funD(5) [OF l]]
  note before = before_spot [OF L(3)] and cases = spot_cases [OF l] and here = spot_in(1) [OF L(2,3)]
  have hold: "spot gs q (K q) \<in> set (positions g)" "grp (spot gs q (K q)) = q" if "q \<in> set (positions f)" for q
    using here [OF that S(1) [OF that]] grp [OF that S(1) [OF that]] by auto
  have rec: "grp r \<in> set (positions f) \<and> r = spot gs (grp r) (R (grp r)) \<and> anchor_at g r = spot gs (grp r) (A (grp r)) \<and>
      A (grp r) < length (group_at gs (grp r))"
    if r: "r \<in> {p \<in> set (positions g). records_at g p}" for r
  proof -
    obtain q j where q: "q \<in> set (positions f)" "j < length (group_at gs q)" "r = spot gs q j" using r cases [of r] by auto
    have site: "is_site md (fun_name f) (inst_at f q)" "j = R q" using spot_records(1) [OF l q(1,2)] r q(3) by auto
    have "grp r = q" using grp [OF q(1,2)] q(3) by simp
    moreover have "A q < length (group_at gs q)" using S(3) [OF q(1)] S(1) [OF q(1)] by simp
    ultimately show ?thesis using q(1,3) spot_records(2) [OF l q(1,2) site(1)] site(2) by simp
  qed
  show ?thesis
    unfolding grouped_def
  proof (intro conjI ballI impI)
    show "inj_on grp {p \<in> set (positions g). records_at g p}"
    proof (rule inj_onI)
      fix r r' assume r: "r \<in> {p \<in> set (positions g). records_at g p}" "r' \<in> {p \<in> set (positions g). records_at g p}" "grp r = grp r'"
      have "r = spot gs (grp r) (R (grp r))" "r' = spot gs (grp r') (R (grp r'))" using rec [OF r(1)] rec [OF r(2)] by blast+
      then show "r = r'" using r(3) by simp
    qed
  next
    fix p assume "p \<in> set (positions g)"
    then show "grp p \<in> set (positions f)" using cases [of p] grp by metis
  next
    fix q assume "q \<in> set (positions f)"
    then show "spot gs q (K q) \<in> set (positions g)" "grp (spot gs q (K q)) = q" by (rule hold)+
  next
    fix p r assume py: "p \<in> set (positions g)" "r \<in> set (positions g)" and ne: "grp p \<noteq> grp r"
    obtain q j where q: "q \<in> set (positions f)" "j < length (group_at gs q)" "p = spot gs q j" by (rule cases [OF py(1)])
    obtain q' j' where q': "q' \<in> set (positions f)" "j' < length (group_at gs q')" "r = spot gs q' j'" by (rule cases [OF py(2)])
    show "before bdom p r = before bdom (grp p) (grp r)"
      using before [OF q(1,2) q'(1,2)] grp [OF q(1,2)] grp [OF q'(1,2)] ne q(3) q'(3) by simp
  next
    fix r assume r: "r \<in> {p \<in> set (positions g). records_at g p}"
    define q where "q = grp r"
    have q: "q \<in> set (positions f)" "r = spot gs q (R q)" "anchor_at g r = spot gs q (A q)" "A q < length (group_at gs q)"
      using rec [OF r] unfolding q_def by blast+
    show "r \<in> set (positions g)" using r by blast
    show "anchor_at g r \<in> set (positions g)" "grp (anchor_at g r) = grp r"
      using here [OF q(1,4)] grp [OF q(1,4)] q(3) q_def by auto
    show "\<not> before bdom r (anchor_at g r)"
      using before [OF q(1) S(2) [OF q(1)] q(1,4)] S(4) [OF q(1)] q(2,3) by simp
    show "\<not> before bdom (spot gs (grp r) (K (grp r))) (anchor_at g r)"
      using before [OF q(1) S(1) [OF q(1)] q(1,4)] S(3) [OF q(1)] q(3) q_def by simp
  next
    fix p y assume py: "p \<in> set (positions g)" "y \<in> set (positions g)" and u: "use_at g p y \<and> p \<noteq> spot gs (grp p) (K (grp p))"
    obtain q j where q: "q \<in> set (positions f)" "j < length (group_at gs q)" "p = spot gs q j" by (rule cases [OF py(1)])
    obtain q' j' where q': "q' \<in> set (positions f)" "j' < length (group_at gs q')" "y = spot gs q' j'" by (rule cases [OF py(2)])
    have inner: "q = q' \<and> A q \<le> j" using spot_use [OF l q(1,2) q'(1,2)] u q(3) q'(3) grp [OF q(1,2)] by auto
    then show "grp y = grp p" using grp [OF q(1,2)] grp [OF q'(1,2)] q(3) q'(3) by simp
    show "\<not> before bdom p (anchor_at g r)" if r: "r \<in> {p \<in> set (positions g). records_at g p}" "grp r = grp p" for r
    proof -
      have "grp r = q" using r(2) grp [OF q(1,2)] q(3) by simp
      from rec [OF r(1), unfolded this] have "anchor_at g r = spot gs q (A q)" "A q < length (group_at gs q)" by blast+
      then show ?thesis using before [OF q(1,2) q(1), of "A q"] conjunct2 [OF inner] q(3) by simp
    qed
  next
    fix p y r assume py: "p \<in> set (positions g)" "y \<in> set (positions g)" and r: "r \<in> {p \<in> set (positions g). records_at g p}"
      and u: "use_at g p y \<and> grp y = grp r"
    obtain q j where q: "q \<in> set (positions f)" "j < length (group_at gs q)" "p = spot gs q j" by (rule cases [OF py(1)])
    obtain q' j' where q': "q' \<in> set (positions f)" "j' < length (group_at gs q')" "y = spot gs q' j'" by (rule cases [OF py(2)])
    have "A q' \<le> j'" using spot_use [OF l q(1,2) q'(1,2)] u q(3) q'(3) by auto
    moreover have "grp r = q'" using u grp [OF q'(1,2)] q'(3) by simp
    from rec [OF r, unfolded this] have "anchor_at g r = spot gs q' (A q')" "A q' < length (group_at gs q')" by blast+
    ultimately show "\<not> before bdom y (anchor_at g r)" using before [OF q'(1,2) q'(1), of "A q'"] q'(3) by simp
  qed
qed

lemma grouped_fun_uses:
  assumes l: "grouped_fun md f rs gs g K R A"
    and grp: "\<And>q j. q \<in> set (positions f) \<Longrightarrow> j < length (group_at gs q) \<Longrightarrow> grp (spot gs q j) = q"
  shows "same_uses (set (positions f)) (group_use (set (positions g)) grp (\<lambda>q. spot gs q (K q)) (use_at g)) (use_at f)"
  unfolding same_uses_def
proof (intro ballI)
  note L = grouped_funD [OF l] and S = group_shapeD [OF grouped_funD(5) [OF l]]
  fix q q' assume q: "q \<in> set (positions f)" "q' \<in> set (positions f)"
  show "group_use (set (positions g)) grp (\<lambda>q. spot gs q (K q)) (use_at g) q q' = use_at f q q'"
  proof
    assume "group_use (set (positions g)) grp (\<lambda>q. spot gs q (K q)) (use_at g) q q'"
    then obtain y where y: "y \<in> set (positions g)" "use_at g (spot gs q (K q)) y" "grp y = q'" by (auto simp: group_use_def)
    from y(1) obtain p j where p: "p \<in> set (positions f)" "j < length (group_at gs p)" "y = spot gs p j" by (rule spot_cases [OF l])
    then have "p = q'" using grp y(3) by simp
    then show "use_at f q q'" using spot_use [OF l q(1) S(1) [OF q(1)] p(1,2)] y(2) p(3) by auto
  next
    assume "use_at f q q'"
    from use_spot [OF l q this] obtain j where "j < length (group_at gs q')" "use_at g (spot gs q (K q)) (spot gs q' j)" by blast
    then show "group_use (set (positions g)) grp (\<lambda>q. spot gs q (K q)) (use_at g) q q'"
      using spot_in(1) [OF L(2,3) q(2)] grp [OF q(2)] by (auto simp: group_use_def)
  qed
qed

lemma grouped_fun_numbered:
  assumes l: "grouped_fun md f rs gs g K R A"
  shows "well_numbered g"
proof -
  note L = grouped_funD [OF l] and S = group_shapeD [OF grouped_funD(5) [OF l]]
  have num: "distinct (map inst_id (concat (body g)))" "\<forall>y \<in> set (concat (body g)). inst_id y < fresh_id g"
    "\<And>i j. i < fresh_id f \<Longrightarrow> replace_value rs (InstVal i) = InstVal j \<Longrightarrow> j < fresh_id g"
    using L(4) unfolding numbers_ok_def by blast+
  have ids: "inst_id (inst_at g p) < fresh_id g" if "p \<in> set (positions g)" for p
    using num(2) that by (simp add: concat_positions)
  have "i < fresh_id g" if p: "p \<in> set (positions g)" and i: "InstVal i \<in> set (operands (op_at g p))" for p i
  proof -
    obtain q j where q: "q \<in> set (positions f)" "j < length (group_at gs q)" "p = spot gs q j" by (rule spot_cases [OF l p])
    note at = spot_in(2) [OF L(2,3) q(1)]
    have "InstVal i \<in> set (operands (inst_op (group_at gs q ! j)))" using i q(3) at [OF q(2)] by (simp add: op_at_inst)
    from S(8) [OF q(1,2) this] consider (outer) v where "v \<in> set (operands (op_at f q))" "replace_value rs v = InstVal i"
      | (inner) m where "m < j" "i = inst_id (group_at gs q ! m)" by (auto simp: op_at_inst)
    then show ?thesis
    proof cases
      case outer
      obtain m where "v = InstVal m" using outer(2) by (cases v) (auto simp: replace_value_def)
      then show ?thesis using num(3) outer well_numberedD(3) [OF source_funD(1) [OF L(1)] q(1)] by blast
    next
      case inner
      then have m: "m < length (group_at gs q)" using q(2) by simp
      show ?thesis using ids [OF spot_in(1) [OF L(2,3) q(1) m]] at [OF m] inner(2) by simp
    qed
  qed
  then show ?thesis
    using num(1,2) by (auto simp: well_numbered_def concat_positions list_all_iff op_at_inst split: ir_value.split)
qed

lemma site_kind: "is_site md n x \<Longrightarrow> isCallInst (inst_op x) \<or> isReturnInst (inst_op x)"
  by (cases "inst_op x" rule: getCalledFunction.cases) (auto simp: is_site_def)

lemma returns_constant_return: "returns_constant x \<Longrightarrow> isReturnInst x"
  by (cases x) (auto simp: returns_constant_def)

lemma grouped_fun_graph_ok:
  assumes l: "grouped_fun md f rs gs g K R A" and dom: "blocks_dominate dominates bdom (fun_name g) (length (body g))"
  shows "graph_ok dominates bdom g"
proof -
  note L = grouped_funD [OF l]
  note F = source_funD [OF L(1)]
  have "\<not> use_at g p y" if p: "p \<in> set (positions g)" and y: "y \<in> set (positions g)" and const: "returns_constant (op_at g p)" for p y
  proof
    assume u: "use_at g p y"
    obtain q j where q: "q \<in> set (positions f)" "j < length (group_at gs q)" "p = spot gs q j" by (rule spot_cases [OF l p])
    obtain q' j' where q': "q' \<in> set (positions f)" "j' < length (group_at gs q')" "y = spot gs q' j'" by (rule spot_cases [OF l y])
    have "j = K q" "isReturnInst (op_at f q)" using spot_records(3) [OF l q(1,2)] const q(3) by (auto intro: returns_constant_return)
    then show False using spot_use [OF l q(1,2) q'(1,2)] u q(3) q'(3) F(4) [OF q(1) q'(1)] by auto
  qed
  then have "returns_unused g" by (auto simp: returns_unused_def)
  moreover have "\<not> use_at g p p" if p: "p \<in> set (positions g)" and r: "records_at g p" for p
  proof
    assume u: "use_at g p p"
    obtain q j where q: "q \<in> set (positions f)" "j < length (group_at gs q)" "p = spot gs q j" by (rule spot_cases [OF l p])
    have "isCallInst (op_at f q) \<or> isReturnInst (op_at f q)"
      using spot_records(1) [OF l q(1,2)] r q(3) site_kind by (auto simp: op_at_inst)
    then have "\<not> use_at f q q" using F(3) [OF q(1)] F(4) [OF q(1) q(1)] by blast
    then show False using spot_use [OF l q(1,2) q(1,2)] u q(3) by auto
  qed
  ultimately show ?thesis using grouped_fun_numbered [OF l] dom by (simp add: graph_ok_def)
qed

lemma grouped_fun_constants:
  assumes l: "grouped_fun md f rs gs g K R A"
  shows "card {p \<in> set (positions g). returns_constant (op_at g p)} = card {q \<in> set (positions f). returns_constant (op_at f q)}"
proof -
  note L = grouped_funD [OF l] and S = group_shapeD [OF grouped_funD(5) [OF l]]
  let ?C = "{q \<in> set (positions f). returns_constant (op_at f q)}"
  have "{p \<in> set (positions g). returns_constant (op_at g p)} = (\<lambda>q. spot gs q (K q)) ` ?C"
  proof (intro equalityI subsetI)
    fix p assume "p \<in> {p \<in> set (positions g). returns_constant (op_at g p)}"
    then have p: "p \<in> set (positions g)" "returns_constant (op_at g p)" by auto
    obtain q j where q: "q \<in> set (positions f)" "j < length (group_at gs q)" "p = spot gs q j" by (rule spot_cases [OF l p(1)])
    then show "p \<in> (\<lambda>q. spot gs q (K q)) ` ?C" using spot_records(3) [OF l q(1,2)] p(2) by auto
  next
    fix p assume "p \<in> (\<lambda>q. spot gs q (K q)) ` ?C"
    then obtain q where q: "q \<in> set (positions f)" "returns_constant (op_at f q)" "p = spot gs q (K q)" by auto
    then show "p \<in> {p \<in> set (positions g). returns_constant (op_at g p)}"
      using spot_records(3) [OF l q(1) S(1) [OF q(1)]] spot_in(1) [OF L(2,3) q(1) S(1) [OF q(1)]] by simp
  qed
  moreover have "inj_on (\<lambda>q. spot gs q (K q)) ?C"
    by (rule inj_onI) (use spot_eq [OF L(3)] S(1) in blast)
  ultimately show ?thesis by (simp add: card_image)
qed

lemma grouped_fun_sites:
  assumes l: "grouped_fun md f rs gs g K R A"
    and grp: "\<And>q j. q \<in> set (positions f) \<Longrightarrow> j < length (group_at gs q) \<Longrightarrow> grp (spot gs q j) = q"
  shows "map grp (filter (records_at g) (positions g)) = filter (\<lambda>q. is_site md (fun_name f) (inst_at f q)) (positions f)"
proof -
  note L = grouped_funD [OF l] and S = group_shapeD [OF grouped_funD(5) [OF l]]
  let ?site = "\<lambda>q. is_site md (fun_name f) (inst_at f q)"
  have one: "map grp (filter (records_at g) (map (spot gs q) [0..<length (group_at gs q)])) = (if ?site q then [q] else [])"
    if q: "q \<in> set (positions f)" for q
  proof -
    have upt: "filter (\<lambda>j. P \<and> j = r) [0..<n] = (if P then [r] else [])" if "r < n" for P and r n :: nat
      using that by (induction n) (auto simp: less_Suc_eq)
    have "filter (records_at g) (map (spot gs q) [0..<length (group_at gs q)]) =
        map (spot gs q) (filter (\<lambda>j. ?site q \<and> j = R q) [0..<length (group_at gs q)])"
      unfolding filter_map comp_def using spot_records(1) [OF l q] by (intro arg_cong [of _ _ "map (spot gs q)"] filter_cong) auto
    then show ?thesis using upt [OF S(2) [OF q]] grp [OF q S(2) [OF q]] by simp
  qed
  have "map grp (filter (records_at g) (positions g)) =
      concat (map (\<lambda>q. map grp (filter (records_at g) (map (spot gs q) [0..<length (group_at gs q)]))) (positions f))"
    unfolding spot_positions [OF L(2,3)] filter_concat map_concat list.map_comp comp_def ..
  also have "\<dots> = concat (map (\<lambda>q. if ?site q then [q] else []) (positions f))"
    using one by (intro arg_cong [of _ _ concat] map_cong) auto
  also have "concat (map (\<lambda>q. if P q then [q] else []) qs) = filter P qs" for P and qs :: "(nat \<times> nat) list" by (induction qs) auto
  finally show ?thesis .
qed

end
