(* ===== verification/Twin_Counts.thy ===== *)
theory Twin_Counts
  imports Grouped_Functions Recorded_Frames
begin

unbundle bit_operations_syntax

text \<open>
  How many values the calls of a compiled function record: a number for each site of the source,
  computed from the source alone. A function and its unoptimized copy have the same source, so at
  each site they record equally many values, and the check that \<open>restore_unopt_stack\<close> makes of the
  numbers of locations does not fail.
\<close>

section \<open>Values at the sites of a source function\<close>

definition source_sites :: "(inst \<Rightarrow> bool) \<Rightarrow> ir_fun \<Rightarrow> (nat \<times> nat) list" where
  "source_sites S f = filter (\<lambda>q. S (inst_at f q)) (positions f)"

definition site_values :: "(nat \<Rightarrow> nat \<Rightarrow> bool) \<Rightarrow> (inst \<Rightarrow> bool) \<Rightarrow> ir_fun \<Rightarrow> nat \<Rightarrow> nat" where
  "site_values bdom S f i =
     (let Q = set (positions f); qs = source_sites S f in
        card {q \<in> Q. live_in bdom Q (live_graph bdom Q (\<lambda>q. q) (take i qs) (use_at f)) q (qs ! i)} +
        card {q \<in> Q. returns_constant (op_at f q)})"

lemma length_source_sites: "length (source_sites (is_site md n) f) = sites_in md n (body f)"
  by (simp add: source_sites_def sites_in_def concat_positions filter_map comp_def)

text \<open>The numbers of values and sizes of the calls that make records, in order.\<close>

definition value_counts :: "ir_fun \<Rightarrow> nat option list" where
  "value_counts g = map (\<lambda>it. map_option length (recorded_values it)) (filter (\<lambda>it. \<not> no_intrinsic it) (concat (body g)))"

lemma nth_filter_take:
  "i < length (filter P xs) \<Longrightarrow> \<exists>j < length xs. xs ! j = filter P xs ! i \<and> P (xs ! j) \<and> filter P (take j xs) = take i (filter P xs)"
proof (induction xs arbitrary: i)
  case (Cons x xs)
  show ?case
  proof (cases "P x \<and> i = 0")
    case True
    then show ?thesis by (intro exI [of _ 0]) simp
  next
    case False
    let ?i = "if P x then i - 1 else i"
    have "?i < length (filter P xs)" using Cons.prems False by (auto split: if_splits)
    from Cons.IH [OF this] obtain j where "j < length xs" "xs ! j = filter P xs ! ?i" "P (xs ! j)" "filter P (take j xs) = take ?i (filter P xs)"
      by blast
    then show ?thesis using False by (intro exI [of _ "Suc j"]) (auto simp: nth_Cons' take_Cons')
  qed
qed simp

lemma live_values_count:
  assumes l: "grouped_fun md f rs gs g K R A" and dom: "blocks_dominate dominates bdom (fun_name g) (length (body g))"
    and bare: "list_all (list_all bare) (body g)" and live: "live_variables_function dominates alloc_size g = Inr h"
  shows "value_counts h =
    map (\<lambda>i. Some (2 * site_values bdom (is_site md (fun_name f)) f i)) [0..<length (source_sites (is_site md (fun_name f)) f)]"
proof -
  let ?P = "set (positions g)" and ?Q = "set (positions f)" and ?sites = "source_sites (is_site md (fun_name f)) f"
  let ?ps = "filter (records_at g) (positions g)"
  obtain grp where "\<forall>q \<in> ?Q. \<forall>j < length (group_at gs q). grp (spot gs q j) = q" using spot_source [OF l] by blast
  then have grp: "\<And>q j. q \<in> ?Q \<Longrightarrow> j < length (group_at gs q) \<Longrightarrow> grp (spot gs q j) = q" by blast
  have sites: "map grp ?ps = ?sites" using grouped_fun_sites [OF l grp] by (simp add: source_sites_def)
  note ok = grouped_fun_graph_ok [OF l dom]
  have "map_option length (recorded_values (inst_at h (?ps ! i))) = Some (2 * site_values bdom (is_site md (fun_name f)) f i)"
    if i: "i < length ?ps" for i
  proof -
    obtain j where j: "j < length (positions g)" "positions g ! j = ?ps ! i" "records_at g (?ps ! i)"
      "filter (records_at g) (take j (positions g)) = take i ?ps"
      using nth_filter_take [OF i] by metis
    let ?p = "?ps ! i"
    have p: "?p \<in> ?P" using j(1,2) by (metis nth_mem)
    from recorded_count [OF live ok j(1-3)] obtain n args h0 ps where
      call: "n \<in> record_calls" "op_at g ?p = Call (Direct n) args" "op_at h ?p = Call (Direct n) (map h0 args @ flat ps)" "renaming h0"
      and count: "length ps = card {x \<in> ?P. live_in bdom ?P (live_graph bdom ?P (anchor_at g) (take i ?ps) (use_at g)) x (anchor_at g ?p)} +
        card {x \<in> ?P. returns_constant (op_at g x)}"
      unfolding j(4) by blast
    have "card {x \<in> ?P. live_in bdom ?P (live_graph bdom ?P (anchor_at g) (take i ?ps) (use_at g)) x (anchor_at g ?p)} =
        card {q \<in> ?Q. live_in bdom ?Q (live_graph bdom ?Q (\<lambda>q. q) (map grp (take i ?ps)) (use_at f)) q (grp ?p)}"
      by (rule grouped_count [OF grouped_fun_grouped [OF l grp] _ _ grouped_fun_uses [OF l grp]])
        (use p j(3) in \<open>auto dest: in_set_takeD\<close>)
    also have "map grp (take i ?ps) = take i ?sites" using sites by (metis take_map)
    also have "grp ?p = ?sites ! i" using sites i by (metis nth_map)
    finally have n: "length ps = site_values bdom (is_site md (fun_name f)) f i"
      using count grouped_fun_constants [OF l] by (simp add: site_values_def Let_def)
    have "bare (inst_at g ?p)" using bare p unfolding list_all_concat [symmetric] concat_positions by (simp add: list_all_iff)
    then have "recorded_values (inst_at g ?p) = Some []" using j(3) by (simp add: bare_def records_at_def)
    from recorded_renamed [OF call(4) _ this, of "inst_at g ?p\<lparr>inst_op := Call (Direct n) (map h0 args)\<rparr>"]
    have "recorded_values (inst_at g ?p\<lparr>inst_op := Call (Direct n) (map h0 args)\<rparr>) = Some []"
      using call(2) by (simp add: op_at_inst)
    from recorded_appended [OF _ _ this] have "recorded_values (inst_at h ?p) = Some (flat ps)"
      using call(3) by (simp add: op_at_inst)
    then show ?thesis using n by simp
  qed
  moreover have "filter (\<lambda>it. \<not> no_intrinsic it) (concat (body h)) = map (inst_at h) ?ps"
  proof -
    have h: "positions h = positions g" "\<forall>x \<in> ?P. records_at h x = records_at g x"
      using record_graph [OF live [unfolded live_variables_function_def] _ ok] by auto
    have "filter (\<lambda>it. \<not> no_intrinsic it) (concat (body h)) = map (inst_at h) (filter (records_at h) (positions g))"
      by (simp add: concat_positions h(1) filter_map comp_def records_at_def [abs_def])
    also have "filter (records_at h) (positions g) = ?ps" using h(2) by (intro filter_cong) auto
    finally show ?thesis .
  qed
  ultimately show ?thesis
    using arg_cong [OF sites, of length] unfolding value_counts_def by (intro nth_equalityI) auto
qed

section \<open>Compiled functions\<close>

lemma redirect_value_counts:
  assumes run: "redirect_function md h = Inr g" and paired: "list_all (list_all paired) (body h)"
  shows "value_counts g = value_counts h"
proof (cases "is_unopt (fun_name h)")
  case True
  then obtain bs where bs: "map_res (map_res (redirect_call md)) (body h) = Inr bs" and g: "g = h\<lparr>body := bs\<rparr>"
    using run by (auto simp: redirect_function_def bind_res_Inr_iff)
  let ?F = "\<lambda>its. map (\<lambda>it. map_option length (recorded_values it)) (filter (\<lambda>it. \<not> no_intrinsic it) its)"
  have one: "no_intrinsic y = no_intrinsic x \<and> (\<not> no_intrinsic x \<longrightarrow> recorded_values y = recorded_values x)"
    if xy: "redirect_call md x = Inr y" "paired x" for x y
    using xy(2) recorded_redirected [OF xy(1)] redirect_call_row(2) [OF xy(1)] by (auto elim: pairedE)
  have "?F c = ?F b" if "map_res (redirect_call md) b = Inr c" "list_all paired b" for b c
    using that by (induction b arbitrary: c) (auto simp: bind_res_Inr_iff dest: one)
  then have "?F (concat cs) = ?F (concat bs)" if "map_res (map_res (redirect_call md)) bs = Inr cs" "list_all (list_all paired) bs" for bs cs
    using that by (induction bs arbitrary: cs) (auto simp: bind_res_Inr_iff)
  from this [OF bs paired] show ?thesis by (simp add: value_counts_def g)
qed (use run in \<open>simp add: redirect_function_def\<close>)

lemma checkpointed_counts:
  assumes cp: "checkpoint_function md f s = Inr (m, s')" and later: "later_passes dominates alloc_size md' m = Inr g"
    and f: "source_fun f" "list_all (list_all (\<lambda>it. no_intrinsic it \<and> few_arguments it)) (body f)"
    and dom: "blocks_dominate dominates bdom (fun_name f) (length (body f))"
  shows "value_counts g =
    map (\<lambda>i. Some (2 * site_values bdom (is_site md (fun_name f)) f i)) [0..<length (source_sites (is_site md (fun_name f)) f)]"
proof -
  obtain h where h: "live_variables_function dominates alloc_size m = Inr h" "redirect_function md' h = Inr g"
    using later by (auto simp: later_passes_def bind_res_Inr_iff)
  have plain: "list_all (list_all no_intrinsic) (body f)" using f(2) by (simp add: list_all_iff)
  obtain rs gs where og: "of_groups md f rs gs m"
    using checkpoint_of_groups [OF cp source_funD(1) [OF f(1)] plain] by blast
  then obtain K R A where l: "grouped_fun md f rs gs m K R A" using of_groups_grouped_fun f(1) by blast
  have bare: "list_all (list_all bare) (body m)" by (rule bare_out.function_out [OF cp refl f(2)])
  then have "list_all (list_all paired) (body m)" by (auto simp: list_all_iff intro: bare_paired)
  then have "list_all (list_all paired) (body h)" by (rule paired_later.live_out [OF h(1)])
  moreover have "blocks_dominate dominates bdom (fun_name m) (length (body m))"
    using dom og grouped_funD(2,3) [OF l] by (auto simp: of_groups_def dest: map_eq_imp_length_eq)
  ultimately show ?thesis using redirect_value_counts [OF h(2)] live_values_count [OF l _ bare h(1)] by simp
qed

text \<open>The copy has the body of the function, so it has the same sites with the same values.\<close>

lemma copy_counts:
  assumes "body u = body f"
  shows "site_values bdom S u = site_values bdom S f" and "source_sites S u = source_sites S f"
proof -
  have at: "inst_at u = inst_at f" "positions u = positions f" "op_at u = op_at f"
    using assms by (simp_all add: inst_at_def positions_def op_at_def)
  then have use: "use_at u = use_at f" by (intro ext) (simp add: use_at_def)
  show "site_values bdom S u = site_values bdom S f" "source_sites S u = source_sites S f"
    unfolding site_values_def [abs_def] source_sites_def at use by (rule refl)+
qed

lemma copy_parts [simp]: "body (plain_copy f) = body f" "fresh_id (plain_copy f) = fresh_id f"
  "fun_name (plain_copy f) = unopt_prefix @ fun_name f"
  by (simp_all add: plain_copy_def)

lemma source_fun_copy [simp]: "source_fun (plain_copy f) = source_fun f"
  unfolding source_fun_def well_numbered_def copy_parts ..

text \<open>
  Dominance in the functions of a module: given by the blocks, for a function and its copy by the
  same relation.
\<close>

definition module_dominance :: "(ir_fun \<Rightarrow> nat \<Rightarrow> nat \<Rightarrow> bool) \<Rightarrow> (string \<Rightarrow> nat \<Rightarrow> nat \<Rightarrow> bool) \<Rightarrow> ir_module \<Rightarrow> bool" where
  "module_dominance dominates bdom md \<longleftrightarrow> (\<forall>f \<in> set md. \<forall>n \<in> {fun_name f, unopt_prefix @ fun_name f}.
     blocks_dominate dominates (bdom (fun_name f)) n (length (body f)))"

lemma compiled_counts:
  assumes src: "plain_module md" "guard_fun_name \<notin> set (map fun_name md)"
    "list_all (\<lambda>f. list_all (list_all no_intrinsic) (body f)) md" "add_unopt_copies uniq (declare_guard md) = Inr md2"
    and few: "list_all (\<lambda>f. list_all (list_all few_arguments) (body f)) md"
    and funs: "list_all (\<lambda>f. is_declaration f \<or> source_fun f) md" and dom: "module_dominance dominates bdom md"
    and run: "module_passes dominates alloc_size uniq md = Inr (out, sms)"
    and f: "f \<in> set md" "\<not> is_declaration f" and g: "g \<in> set out" "fun_name g \<in> {fun_name f, unopt_prefix @ fun_name f}"
  shows "value_counts g = map (\<lambda>i. Some (2 * site_values (bdom (fun_name f)) (is_site md2 (fun_name f)) f i))
    [0..<length (source_sites (is_site md2 (fun_name f)) f)]"
proof -
  note names = plain_names [OF plain_declared [OF src(1,2)] src(4)]
  let ?h = "if fun_name g = fun_name f then f else plain_copy f"
  have pl: "\<not> is_unopt (fun_name f)" "\<not> available_externally f" using src(1) f(1) by (auto simp: plain_module_def list_all_iff)
  then have h: "?h \<in> set md2" "fun_name g = fun_name ?h" "\<not> is_declaration ?h" "body ?h = body f"
    using f g(2) by (auto simp: names(1) declare_guard_def to_copy_def plain_copy_def)
  have "mapfold_res (function_passes (later_passes dominates alloc_size md2) md2) md2 [] = Inr (out, sms)"
    using run src(4) by (simp add: module_passes_def)
  from list_all2_source [OF function_passes_runs [OF this] g(1)] obtain h' where h': "h' \<in> set md2"
    "if is_declaration h' then g = h' else \<exists>m s s'. checkpoint_function md2 h' s = Inr (m, s') \<and> later_passes dominates alloc_size md2 m = Inr g"
    by blast
  then have "fun_name g = fun_name h'"
    using both_passes.keeps_name checkpoint_function_name by (auto split: if_splits)
  then have "h' = ?h" using h(1,2) h'(1) names(2) by (metis distinct_map inj_onD)
  then obtain m s s' where m: "checkpoint_function md2 ?h s = Inr (m, s')" "later_passes dominates alloc_size md2 m = Inr g"
    using h'(2) h(3) by (auto split: if_splits)
  have "list_all (list_all (\<lambda>it. no_intrinsic it \<and> few_arguments it)) (body ?h)"
    using compiled_source(1) [OF src h(1)] compiled_source(3) [OF src h(1) few] by (simp add: list_all_iff)
  moreover have "source_fun ?h" using funs f by (auto simp: list_all_iff)
  moreover have "blocks_dominate dominates (bdom (fun_name f)) (fun_name ?h) (length (body ?h))"
    using dom f(1) by (auto simp: module_dominance_def plain_copy_def)
  moreover have "is_site md2 (fun_name ?h) = is_site md2 (fun_name f)" by (simp add: plain_copy_def is_site_unopt)
  ultimately show ?thesis using checkpointed_counts [OF m] copy_counts [OF h(4)] by metis
qed

section \<open>Records of twins\<close>

text \<open>The identifier of each call that makes a record, with the number of its values.\<close>

definition count_table :: "ir_fun \<Rightarrow> (u64 \<times> nat option) list" where
  "count_table g = zip (ppids (concat (body g))) (value_counts g)"

lemma numbered_count_table:
  assumes "list_all (list_all numbered) (body g)" and "it \<in> set (concat (body g))" and "ppid_of it = Some i" and "recorded_values it = Some vs"
  shows "(i, Some (length vs)) \<in> set (count_table g)"
proof -
  have "list_all numbered its \<Longrightarrow> it \<in> set its \<Longrightarrow>
      (i, Some (length vs)) \<in> set (zip (ppids its) (map (\<lambda>it. map_option length (recorded_values it)) (filter (\<lambda>it. \<not> no_intrinsic it) its)))"
    for "its"
  proof (induction "its")
    case (Cons x xs)
    have i: "\<not> no_intrinsic it" using assms(4) by (rule recorded_intrinsic)
    show ?case
    proof (cases "no_intrinsic x")
      case True
      then show ?thesis using Cons i no_intrinsic_ppid [OF True] by auto
    next
      case False
      then obtain j where "ppid_of x = Some j" using Cons.prems(1) by (auto simp: numbered_def)
      then show ?thesis using Cons False assms(3,4) by auto
    qed
  qed simp
  then show ?thesis using assms(1,2) by (simp add: count_table_def value_counts_def list_all_concat)
qed

text \<open>In a compiled module: the entry of a twin, for the complement of the identifier.\<close>

lemma compiled_twin_entry:
  assumes src: "plain_module md" "guard_fun_name \<notin> set (map fun_name md)"
    "list_all (\<lambda>f. list_all (list_all no_intrinsic) (body f)) md" "add_unopt_copies uniq (declare_guard md) = Inr md2"
    and few: "list_all (\<lambda>f. list_all (list_all few_arguments) (body f)) md"
    and funs: "list_all (\<lambda>f. is_declaration f \<or> source_fun f) md" and dom: "module_dominance dominates bdom md"
    and fits: "next_base 1 (site_counts md2 (declare_guard md)) \<le> 2 ^ 63"
    and run: "module_passes dominates alloc_size uniq md = Inr (out, sms)"
    and g: "g \<in> set out" and entry: "(i, c) \<in> set (count_table g)"
  shows "\<exists>t \<in> set out. (NOT i, c) \<in> set (count_table t)"
proof -
  note names = plain_names [OF plain_declared [OF src(1,2)] src(4)] and ids = module_passes_ids [OF src fits run]
  obtain h where h: "h \<in> set md2" "fun_name g = fun_name h" "ppids (concat (body g)) = (if is_declaration h then [] else ids_of sms (fun_name h))"
    using list_all2_source [OF ids(2) g] by blast
  have nd: "\<not> is_declaration h" using h(3) entry by (auto simp: count_table_def)
  have "\<exists>f \<in> set md. \<not> is_declaration f \<and> fun_name h \<in> {fun_name f, unopt_prefix @ fun_name f}"
    using h(1) nd by (auto simp: names(1) declare_guard_def to_copy_def plain_copy_def split: if_splits)
  then obtain f where f: "f \<in> set md" "\<not> is_declaration f" "fun_name g \<in> {fun_name f, unopt_prefix @ fun_name f}"
    using h(2) by auto
  have "\<not> is_unopt (fun_name f)" "\<not> available_externally f" using src(1) f(1) by (auto simp: plain_module_def list_all_iff)
  then have both: "f \<in> set md2" "plain_copy f \<in> set md2" using f(1,2) by (auto simp: names(1) declare_guard_def to_copy_def)
  have "map fun_name out = map fun_name md2"
    using ids(2) by (auto simp: list_all2_conv_all_nth intro!: nth_equalityI)
  then have "fun_name ` set out = fun_name ` set md2" by (metis list.set_map)
  then obtain f' u' where f': "f' \<in> set out" "fun_name f' = fun_name f" and u': "u' \<in> set out" "fun_name u' = unopt_prefix @ fun_name f"
    using both by (metis (no_types, lifting) copy_parts(3) image_iff)
  have "distinct (map fun_name out)" using names(2) \<open>map fun_name out = map fun_name md2\<close> by simp
  then have same: "g1 = g2" if "g1 \<in> set out" "g2 \<in> set out" "fun_name g1 = fun_name g2" for g1 g2
    using that by (metis distinct_map inj_onD)
  have counts: "value_counts f' = value_counts u'"
    using compiled_counts [OF src few funs dom run f(1,2) f'(1)] compiled_counts [OF src few funs dom run f(1,2) u'(1)] f'(2) u'(2) by simp
  note twins = module_passes_twins(2) [OF src fits run f(1,2) f' u']
  have "(NOT i, c) \<in> set (count_table u')" if "(i, c) \<in> set (count_table f')"
    using that unfolding count_table_def twins counts by (auto simp: zip_map1 intro: rev_image_eqI)
  moreover have "(NOT i, c) \<in> set (count_table f')" if "(i, c) \<in> set (count_table u')"
    using that unfolding count_table_def twins counts by (auto simp: zip_map1)
  ultimately show ?thesis using f(3) same [OF g f'(1)] same [OF g u'(1)] f' u' entry by auto
qed

section \<open>Numbers of locations\<close>

lemma compiled_numbered:
  assumes src: "plain_module md" "guard_fun_name \<notin> set (map fun_name md)"
    "list_all (\<lambda>f. list_all (list_all no_intrinsic) (body f)) md" "add_unopt_copies uniq (declare_guard md) = Inr md2"
    and run: "module_passes dominates alloc_size uniq md = Inr (out, sms)" and g: "g \<in> set out"
  shows "list_all (list_all numbered) (body g)"
proof -
  have "mapfold_res (function_passes (later_passes dominates alloc_size md2) md2) md2 [] = Inr (out, sms)"
    using run src(4) by (simp add: module_passes_def)
  from list_all2_source [OF function_passes_runs [OF this] g] obtain h where h: "h \<in> set md2"
    "if is_declaration h then g = h else \<exists>m s s'. checkpoint_function md2 h s = Inr (m, s') \<and> later_passes dominates alloc_size md2 m = Inr g"
    by blast
  have plain: "list_all (list_all no_intrinsic) (body h)" by (rule compiled_source(1) [OF src h(1)])
  show ?thesis
  proof (cases "is_declaration h")
    case True
    then show ?thesis using h(2) plain by (auto simp: list_all_iff numbered_def)
  next
    case False
    then obtain m s s' where m: "checkpoint_function md2 h s = Inr (m, s')" "later_passes dominates alloc_size md2 m = Inr g"
      using h(2) by auto
    show ?thesis by (rule both_passes.keeps_numbered [OF checkpoint_function_numbered [OF m(1) plain] m(2)])
  qed
qed

lemma distinct_rows_owner:
  "distinct (concat (map F xs)) \<Longrightarrow> x \<in> set xs \<Longrightarrow> y \<in> set xs \<Longrightarrow> i \<in> set (F x) \<Longrightarrow> i \<in> set (F y) \<Longrightarrow> x = y"
  by (induction xs) (auto simp: disjoint_iff)

lemma same_entry:
  assumes ids: "distinct (concat (map (\<lambda>g. ppids (concat (body g))) out))" and g: "g \<in> set out" "h \<in> set out"
    and i: "(i, c) \<in> set (count_table g)" "(i, d) \<in> set (count_table h)"
  shows "c = d"
proof -
  have "i \<in> set (ppids (concat (body g)))" "i \<in> set (ppids (concat (body h)))"
    using i by (auto simp: count_table_def dest: set_zip_leftD)
  then have "g = h" using distinct_rows_owner [OF ids g] by blast
  have "distinct (ppids (concat (body h)))" using ids g(2) by (induction out) auto
  then have "distinct (map fst (count_table h))" by (simp add: count_table_def map_fst_zip_take)
  then show ?thesis using i \<open>g = h\<close> by (metis eq_key_imp_eq_value)
qed

lemma counted_entry:
  assumes "counted out sm" and "\<And>g. g \<in> set out \<Longrightarrow> list_all (list_all numbered) (body g)" and "r \<in> set (stk_map_records sm)"
  shows "\<exists>g \<in> set out. (patchpoint_id r, Some (unat (num_locations r))) \<in> set (count_table g)"
proof -
  from assms(1,3) obtain g b it vs where g: "g \<in> set out" "b \<in> set (body g)" "it \<in> set b"
    and it: "ppid_of it = Some (patchpoint_id r)" "recorded_values it = Some vs" "length vs = unat (num_locations r)"
    by (fastforce simp: counted_def list_all_iff list_ex_iff split: option.splits)
  then show ?thesis using numbered_count_table [OF assms(2) [OF g(1)] _ it(1,2)] by auto
qed

text \<open>Frames with records: record and twin have equally many locations.\<close>

lemma compiled_counts_agree:
  assumes src: "plain_module md" "guard_fun_name \<notin> set (map fun_name md)"
    "list_all (\<lambda>f. list_all (list_all no_intrinsic) (body f)) md" "add_unopt_copies uniq (declare_guard md) = Inr md2"
    and few: "list_all (\<lambda>f. list_all (list_all few_arguments) (body f)) md"
    and funs: "list_all (\<lambda>f. is_declaration f \<or> source_fun f) md" and dom: "module_dominance dominates bdom md"
    and fits: "next_base 1 (site_counts md2 (declare_guard md)) \<le> 2 ^ 63"
    and run: "module_passes dominates alloc_size uniq md = Inr (out, sms)"
    and sm: "counted out sm" and fr: "recorded_frame sm fr"
  shows "counts_agree sm fr"
proof -
  let ?r = "real_record fr"
  note num = compiled_numbered [OF src run]
  obtain u where u: "stmap_get_map_record sm (NOT (patchpoint_id ?r)) = Some u" and r: "?r \<in> set (stk_map_records sm)"
    using fr by (auto simp: recorded_frame_def)
  have u': "u \<in> set (stk_map_records sm)" "patchpoint_id u = NOT (patchpoint_id ?r)"
    using u by (auto simp: stmap_get_map_record_def dest: find_SomeD)
  obtain g where g: "g \<in> set out" "(patchpoint_id ?r, Some (unat (num_locations ?r))) \<in> set (count_table g)"
    using counted_entry [OF sm num r] by blast
  obtain t where t: "t \<in> set out" "(NOT (patchpoint_id ?r), Some (unat (num_locations ?r))) \<in> set (count_table t)"
    using compiled_twin_entry [OF src few funs dom fits run g] by blast
  obtain h where h: "h \<in> set out" "(NOT (patchpoint_id ?r), Some (unat (num_locations u))) \<in> set (count_table h)"
    using counted_entry [OF sm num u'(1)] u'(2) by auto
  have "Some (unat (num_locations ?r)) = Some (unat (num_locations u))"
    by (rule same_entry [OF module_passes_ids(3) [OF src fits run] t(1) h(1) t(2) h(2)])
  then have "num_locations ?r = num_locations u" by (simp add: unsigned_word_eqI)
  then show ?thesis using u by (simp add: counts_agree_def)
qed

end
