(* ===== verification/Spec2Isabelle.thy ===== *)
theory Spec2Isabelle
  imports Map_Properties Stack_Properties Handler_Properties Pass_Properties Resource_Properties Recorded_Frames Twin_Counts
begin

text \<open>
  A model of llvm-guard-handler. A program is compiled by clang with four extra passes
  (\<open>src/passes\<close>): every function gets an unoptimized copy, every call and every guard gets
  an identifier, and the values live there are recorded in the stack map that LLVM puts
  into the executable. When a guard fails in optimized code, the runtime
  (\<open>src/stackmap_checker\<close>) looks the guard up in the stack map, rebuilds on the stack the
  frames that the unoptimized copies would have at this point, and goes on in the
  unoptimized copy. All paths below are relative to \<open>src/\<close> of the repository.

  \<^bold>\<open>The runtime\<close>

  \<^item> \<open>Prelude\<close>: machine integers, the ways a run of C code ends without a value (the type
    \<open>error\<close>; \<open>'a res\<close> is \<open>error + 'a\<close>), sequencing, loops over arrays with an early exit.
    \<open>Memory\<close>: the byte-addressed memory, in which an access to an unmapped byte is an error.
  \<^item> \<open>Stackmap\<close>: the structs of \<open>stmap.h\<close> and \<open>stmap_create\<close>. \<open>Lookup\<close>: the other functions
    of \<open>stmap.c\<close>. \<open>Elf\<close>: \<open>utils.c\<close>. A look-up is proved equal to a search in one list: the
    records with their functions (\<open>sites\<close>), the symbols of all tables (\<open>elf_symbols\<close>).
  \<^item> \<open>Frames\<close>: the structs of \<open>call_stack_state.h\<close> and the functions of \<open>call_stack_state.c\<close> that
    build and edit a call stack state. \<open>Inlining\<close>: \<open>collect_map_records\<close> and
    \<open>collect_inlined_frames\<close>, with \<open>get_next_patchpoint\<close> and \<open>get_restored_state\<close>. \<open>Restack\<close>:
    \<open>insert_real_addresses\<close>. \<open>Live_Values\<close>: \<open>restore_unopt_stack\<close> with \<open>get_locations\<close>.
  \<^item> \<open>Guard\<close>: \<open>__guard_failure\<close> and \<open>jump_inlined\<close> of \<open>guard.c\<close>. \<open>Jump\<close>: \<open>jump.s\<close> on a machine of 16
    registers and memory. \<open>Resume\<close>: both together with \<open>Restack\<close> and \<open>Live_Values\<close>. \<open>Stages\<close>:
    the handler once more, as a step relation with one rule per call it makes; its
    complete runs are proved to be the runs of the function.
  \<^item> \<open>Resources\<close>: a heap of blocks, files and mappings that are held, operations that take, use and
    give them back, and triples \<open>{held before} operation {held after}\<close>. \<open>Elf_Resources\<close>,
    \<open>Map_Resources\<close>, \<open>Stack_Resources\<close>, \<open>Value_Resources\<close> and \<open>Handler_Resources\<close> are the functions of
    \<open>utils.c\<close>, \<open>stmap.c\<close>, \<open>call_stack_state.c\<close> and \<open>guard.c\<close> once more with every \<open>malloc\<close>, \<open>calloc\<close>,
    \<open>realloc\<close>, \<open>free\<close>, \<open>open\<close>, \<open>close\<close>, \<open>mmap\<close> and \<open>munmap\<close> they make (names that end with \<open>_h\<close>), among
    them those that only give back: \<open>stmap_free\<close>, \<open>free_call_stack_state\<close>, \<open>free_frames\<close>.
    \<open>Moved_Frames\<close>: the array that \<open>realloc\<close> moves while it is iterated over.
  \<^item> \<open>Examples\<close> and \<open>Example_Run\<close>: one small program as data (stack map, ELF image, memory,
    call stack), and a run of the whole handler on it.

  The handler calls these in the order collect state, look up the guard, match frames with
  records, rebuild inlined frames, lay out the new stack, move the live values, set the
  globals of \<open>jump.s\<close>, jump. Every definition takes the state it reads and returns what it
  changed: \<open>call_stack_state\<close>, \<open>mem\<close>, \<open>globals\<close>, and, with \<open>_h\<close>, the \<open>heap\<close>.

  \<^bold>\<open>The compiler passes\<close>

  \<^item> \<open>Ir\<close>: the part of LLVM IR that the passes tell apart, and \<open>Utils\<close>. \<open>Patchpoint_Ids\<close>:
    \<open>getTwinName\<close> and \<open>getNextPatchpointID\<close> of \<open>CheckPointPass.cpp\<close>, with its static map.
  \<^item> \<open>Checkpoints\<close>: \<open>runOnFunction\<close> of \<open>CheckPointPass.cpp\<close>. \<open>Checkpoint_Output\<close>: what holds of
    every instruction it leaves. \<open>Live_Variables\<close>: \<open>LiveVariablesPass.cpp\<close>. \<open>Unopt_Copies\<close>:
    \<open>UnoptimizedCopyPass.cpp\<close>. \<open>Barriers\<close>: \<open>BarrierPass.cpp\<close> on a block. \<open>Barrier_Functions\<close>:
    the same on a function, whose new blocks are visited too. \<open>Marks\<close>: the pass of the tests.
  \<^item> \<open>Pipeline\<close>: the three function passes in the order of the Makefiles. Clang initializes all
    passes on the module (the handler is declared, the copies are made), and then runs them
    one after the other on each function with a body, in the order of the module.
    \<open>Call_Shapes\<close>: what holds of every call in the module that results.
  \<^item> \<open>Twin_Records\<close>: where both halves meet. Given that LLVM emits a record for every call of
    an unoptimized function (\<open>emitted\<close>), the identifiers of the passes are those the handler
    finds. \<open>Recorded_Frames\<close>: given that a record has a location for each value of its call
    (\<open>counted\<close>), the live values of the passes are what the handler moves.
  \<^item> \<open>Live_Graphs\<close>: \<open>LiveVariablesPass\<close> on positions instead of numbers: recording values adds
    edges to the graph of uses. \<open>Live_Records\<close>: so the operands a recording call has at the end
    are those of the given function and the values live there. \<open>Live_Groups\<close>: functions whose positions fall into groups, one
    for each instruction of a source; what is recorded depends on the uses between groups only.
    \<open>Checkpoint_Groups\<close>, \<open>Checkpoint_Shapes\<close>, \<open>Group_Positions\<close> and \<open>Grouped_Functions\<close>: the output
    of \<open>CheckPointPass\<close> is such a function: which groups it makes, where they are, and that the
    uses between them are those of the source. \<open>Twin_Counts\<close>: so a function and its copy record
    equally many values at each site, and the handler's check of these numbers does not fail.

  \<^bold>\<open>What the lemmas show\<close>

  The properties are in five theories, and those that span the passes, or both halves, are
  below; each is numbered and followed by an instance.
  \<open>Map_Properties\<close>: the parser inverts the binary layout and returns well-formed data;
  look-ups equal their reference, or the reference on the inputs where they agree.
  \<open>Stack_Properties\<close>: well-formed states, what each step does to frames and memory,
  termination of the walks, sizes and over-reads of live values, and the two inputs on which it
  may have no defined behaviour (\<open>realloc\<close> moving an array that is still read; an odd number of
  locations, which the passes do not make: then \<open>free\<close> gets what \<open>realloc\<close> left in the entries
  nobody wrote).
  \<open>Resource_Properties\<close>: the handler gives back what it takes and uses nothing that it gave back.
  \<open>Handler_Properties\<close>: a guard goes to the call site with the complement of its identifier,
  which registers, base pointer and callers the code there finds, and when \<open>jump_inlined\<close>
  ends. \<open>Pass_Properties\<close>: the identifiers of a function and of its copy are complements of
  each other throughout a module, which is what the handler relies on; the copies make no
  call of optimized code; the live values of a site and no others are recorded there, with their sizes; barriers keep a block's
  instructions, and behind them every call site is alone in its block.

  \<^bold>\<open>Interfaces\<close>

  \<open>cell_store\<close> (cells that read back what was written; provided by \<open>Memory\<close>),
  \<open>byte_codec\<close> (layouts of fixed width; the structs of the stack map), \<open>site_search\<close> (records
  found in order; \<open>Lookup\<close>), \<open>symbol_bounds\<close> (a start that was found bounds the address;
  \<open>Elf\<close>), \<open>balanced\<close> (operations that end with the resources they began with; the searches of
  the symbol table, in \<open>Elf_Resources\<close> and \<open>Map_Resources\<close>), \<open>checkpoint_output\<close> (properties of every instruction after \<open>CheckPointPass\<close>), \<open>later_output\<close> (those that the
  passes behind it keep; \<open>settled\<close> and \<open>paired\<close> in \<open>Call_Shapes\<close>), and \<open>id_preserving\<close> (passes that leave identifiers in place; \<open>LiveVariablesPass\<close>,
  \<open>UnoptimizedCopyPass\<close>, and both). Each is interpreted on the definitions of the model in
  the theory that provides it.

  \<^bold>\<open>Bounds\<close>

  \<open>get_next_patchpoint\<close> has fuel for two steps more than there are records; each step goes
  to a smaller identifier of a record, so this is enough on a stack map whose record
  counts add up. \<open>get_restored_state\<close> has one more than there are records; each step goes
  to a later call site, provided that none is at the last address (\<open>no_wrap\<close>).
  \<open>jump_inlined\<close> has as much as its caller gives (\<open>env_fuel\<close>); as many calls as there are
  bytes between stack pointer and target suffice when each takes some stack, as it does in
  the build without optimizations that the Makefile sets up. Cloning has fuel for twice the functions, and
  every function is visited once and adds at most one. \<open>BarrierPass\<close> has fuel for a visit of each
  block and two for each instruction: a block is cut at most once for each instruction, and a part
  at most once more, before the branch at its end. Running out of fuel is the error
  \<open>NoReturn\<close>, so the properties that state a result also state that the loops end.

  \<^bold>\<open>Parameters\<close>

  What is not in the repository is an argument of the definitions: the files and links of
  the operating system (\<open>os\<close>), the frames libunwind reports (\<open>unw_frame\<close>), the block
  \<open>malloc\<close> returns, whether \<open>realloc\<close> moves its block, the contents of memory that C leaves
  undefined (\<open>slack\<close>, \<open>junk\<close>; bytes behind an object, and entries that nobody wrote), the stack a recursive call uses; and, of LLVM, the dominator
  tree, the sizes of types, and the name it picks when one is taken. That LLVM runs a
  \<open>BasicBlockPass\<close> on the blocks of a function in the order of their list, and that
  \<open>splitBasicBlock\<close> puts the new block behind the one it cuts, is its documented behaviour. Where numbers of live values
  matter, dominance is assumed to be the order inside a block, and across blocks a relation that a
  function shares with its copy (\<open>module_dominance\<close>: no pass before the barriers changes an edge),
  and a source function to be what LLVM's verifier accepts (\<open>source_fun\<close>).

  \<^bold>\<open>Not modelled\<close>

  Output (\<open>fprintf\<close>, \<open>outs\<close>). Where blocks lie: a held block is a name, and its contents are the
  values of the state, so an access past the end of a block is an error of the index, or a
  parameter where the code reads on. Failing \<open>malloc\<close> and system calls other than \<open>readlink\<close>. What clang and LLVM do: their own passes, which
  run between the function passes and the barriers, the emission of the stack map
  (\<open>emitted\<close> is a hypothesis), and the translation of IR to machine code. In the IR: phi nodes, which
  \<open>splitBasicBlock\<close> updates, and the declarations of intrinsics. The registration of the passes, the
  Makefiles except for the order of the passes, and the tests.
\<close>

unbundle bit_operations_syntax

section \<open>Compiled programs\<close>

text \<open>C3: The passes and the handler agree. Let a module be compiled, let LLVM emit a stack map whose
  records have identifiers of the module, one for each call in an unoptimized function, and
  let the guard with identifier \<open>i\<close> fail in a function \<open>f\<close>. Then the complement of \<open>i\<close> is an
  identifier of the unoptimized copy of \<open>f\<close> and of no other function, the stack map has exactly one
  record for it, and the handler, which finds the map in the executable, goes on with this record.\<close>

theorem compiled_guard_finds_copy:
  assumes "plain_module md" and "guard_fun_name \<notin> set (map fun_name md)"
    and "list_all (\<lambda>f. list_all (list_all no_intrinsic) (body f)) md"
    and "add_unopt_copies uniq (declare_guard md) = Inr md2"
    and "next_base 1 (site_counts md2 (declare_guard md)) \<le> 2 ^ 63"
    and "module_passes dominates alloc_size uniq md = Inr (out, sms)"
    and "f \<in> set md" and "\<not> is_declaration f"
    and "f' \<in> set out" and "fun_name f' = fun_name f" and "i \<in> set (ppids (concat (body f')))"
    and "emitted out sm" and "r0 \<in> set (stk_map_records sm)" and "patchpoint_id r0 = i"
    and "get_binary_path (env_os e) = Inr p" and "get_addr (env_os e) p ''.llvm_stackmaps'' = Inr a" and "a \<noteq> 0"
    and "stmap_create m a = Inr sm" and "stmap_ok sm"
  shows "\<exists>u' u r uf rf. u' \<in> set out \<and> fun_name u' = unopt_prefix @ fun_name f \<and>
    (\<forall>g \<in> set out. NOT i \<in> set (ppids (concat (body g))) \<longleftrightarrow> g = u') \<and>
    records_of sm (NOT i) = [u] \<and> patchpoint_id r = i \<and> stmap_get_size_record sm (rec_index u) = Some uf \<and>
    stmap_get_size_record sm (rec_index r) = Some rf \<and> guard_failure e i m g = handle_failure e sm u r uf rf m g"
proof -
  obtain u' u where u: "u' \<in> set out" "fun_name u' = unopt_prefix @ fun_name f" "NOT i \<in> set (ppids (concat (body u')))"
    "\<forall>g \<in> set out. NOT i \<in> set (ppids (concat (body g))) \<longrightarrow> g = u'"
    "stmap_get_map_record sm (NOT i) = Some u" "records_of sm (NOT i) = [u]"
    using compiled_twin_record [OF assms(1-12)] by blast
  have "\<forall>g \<in> set out. NOT i \<in> set (ppids (concat (body g))) \<longleftrightarrow> g = u'" using u(3,4) by blast
  then show ?thesis using compiled_guard [OF u(5) assms(13-19), of g] u(1,2,6) by blast
qed

text \<open>
  The program of the example stack map: a function that gets two numbers, calls itself, uses the
  numbers, and then has a guard.
\<close>

definition ex_self :: ir_fun where
  "ex_self = ex_fun ''more_indirection'' VoidTy
     [[ex_inst 0 (IntTy 64) (Call (Direct ''get_id'') []), ex_inst 1 (IntTy 32) (Call (Direct ''get_number'') []),
       ex_inst 2 VoidTy (Call (Direct ''more_indirection'') []), ex_inst 3 VoidTy (Other 0 [InstVal 0, InstVal 1]),
       ex_inst 4 VoidTy (Return None)]] 5"

definition ex_self2 :: ir_module where
  "ex_self2 = declare_guard [ex_self] @ [plain_copy ex_self]"

lemma ex_self_source: "plain_module [ex_self]" "guard_fun_name \<notin> set (map fun_name [ex_self])"
  "list_all (\<lambda>f. list_all (list_all no_intrinsic) (body f)) [ex_self]"
  "add_unopt_copies ex_uniq (declare_guard [ex_self]) = Inr ex_self2"
  "site_counts ex_self2 (declare_guard [ex_self]) = [(''more_indirection'', 2)]" "intrinsics_declared ex_self2"
  by code_simp+

lemma ex_self_fits: "next_base 1 (site_counts ex_self2 (declare_guard [ex_self])) \<le> 2 ^ 63"
  by (simp add: ex_self_source(5))

text \<open>Dominance by blocks, and inside a block by the order of the instructions.\<close>

lemma ex_self_dominance: "module_dominance ex_order (\<lambda>_. (<)) [ex_self]"
  by (simp add: module_dominance_def blocks_dominate_def by_blocks_def ex_order_def)

lemma ex_self_fun: "list_all (\<lambda>f. is_declaration f \<or> source_fun f) [ex_self]"
  "list_all (\<lambda>f. list_all (list_all few_arguments) (body f)) [ex_self]"
  by (code_simp, simp add: ex_self_def ex_fun_def ex_inst_def few_arguments_def)

lemma ex_self_run:
  "\<exists>out sms f'. module_passes ex_order ex_size ex_uniq [ex_self] = Inr (out, sms) \<and> emitted out ex_sm \<and>
    counted out ex_sm \<and> list_ex (\<lambda>f. fun_name f = unopt_prefix @ fun_name ex_self) out \<and>
    f' \<in> set out \<and> fun_name f' = fun_name ex_self \<and> 1 \<in> set (ppids (concat (body f')))"
proof -
  have "(case mapfold_res (function_passes (later_passes ex_order ex_size ex_self2) ex_self2) ex_self2 [] of
      Inr (out, sms) \<Rightarrow> emitted out ex_sm \<and> counted out ex_sm \<and>
        list_ex (\<lambda>f. fun_name f = unopt_prefix @ fun_name ex_self) out \<and> list_ex (\<lambda>f. fun_name f = fun_name ex_self \<and> 1 \<in> set (ppids (concat (body f)))) out
    | Inl e \<Rightarrow> False)" by code_simp
  then obtain out sms where
    run: "mapfold_res (function_passes (later_passes ex_order ex_size ex_self2) ex_self2) ex_self2 [] = Inr (out, sms)"
    and out: "emitted out ex_sm" "counted out ex_sm" "list_ex (\<lambda>f. fun_name f = unopt_prefix @ fun_name ex_self) out"
      "list_ex (\<lambda>f. fun_name f = fun_name ex_self \<and> 1 \<in> set (ppids (concat (body f)))) out"
    by (auto split: sum.splits)
  have "module_passes ex_order ex_size ex_uniq [ex_self] = Inr (out, sms)"
    using run by (simp add: module_passes_def ex_self_source(4))
  then show ?thesis using out by (auto simp: list_ex_iff)
qed

theorem compiled_guard_finds_copy_witness:
  "\<exists>u r uf rf. patchpoint_id u = - 2 \<and> patchpoint_id r = 1 \<and>
    guard_failure ex_env 1 ex_run_ram ex_globals = handle_failure ex_env ex_sm u r uf rf ex_run_ram ex_globals"
proof -
  obtain out sms f' where run: "module_passes ex_order ex_size ex_uniq [ex_self] = Inr (out, sms)" "emitted out ex_sm"
    "f' \<in> set out" "fun_name f' = fun_name ex_self" "1 \<in> set (ppids (concat (body f')))"
    using ex_self_run by blast
  have f: "ex_self \<in> set [ex_self]" "\<not> is_declaration ex_self" by (simp_all add: ex_self_def ex_fun_def)
  have rec: "ex_opt1 \<in> set (stk_map_records ex_sm)" "patchpoint_id ex_opt1 = 1" by (simp_all add: ex_sm_def)
  have os: "get_binary_path (env_os ex_env) = Inr ''/a''"
    "get_addr (env_os ex_env) ''/a'' ''.llvm_stackmaps'' = Inr 0x400000" "(0x400000 :: u64) \<noteq> 0"
    by (simp_all add: ex_env_def ex_get_addr)
  obtain u r uf rf where u: "records_of ex_sm (NOT 1) = [u]" "patchpoint_id r = 1"
    "guard_failure ex_env 1 ex_run_ram ex_globals = handle_failure ex_env ex_sm u r uf rf ex_run_ram ex_globals"
    using compiled_guard_finds_copy [OF ex_self_source(1-4) ex_self_fits run(1) f run(3-5,2) rec os ex_run_parse ex_ok,
        of ex_globals] by blast
  have "u \<in> set (records_of ex_sm (NOT 1))" unfolding u(1) by simp
  then have "patchpoint_id u = - 2" by (simp add: records_of_def)
  then show ?thesis using u(2,3) by blast
qed

text \<open>C19: In a compiled program the unoptimized copies do not call back into optimized code, neither directly
  nor through a \<open>patchpoint\<close> (pointers that they hand to external functions aside): behind all
  passes their direct calls are of functions without a body in the module, and the callbacks of
  their \<open>patchpoint\<close> calls are unoptimized functions.\<close>

theorem compiled_copies_settled:
  assumes "plain_module md" and "guard_fun_name \<notin> set (map fun_name md)"
    and "list_all (\<lambda>f. list_all (list_all no_intrinsic) (body f)) md"
    and "add_unopt_copies uniq (declare_guard md) = Inr md2" and "intrinsics_declared md2"
    and "module_passes dominates alloc_size uniq md = Inr (out, sms)"
    and "u \<in> set out" and "is_unopt (fun_name u)"
  shows "list_all (list_all (settled md2)) (body u)"
  by (rule compiled_settled [OF assms])

theorem compiled_copies_settled_witness:
  "\<exists>out sms u. module_passes ex_order ex_size ex_uniq [ex_self] = Inr (out, sms) \<and> u \<in> set out \<and>
    fun_name u = ''__unopt_more_indirection'' \<and> list_all (list_all (settled ex_self2)) (body u)"
proof -
  obtain out sms where run: "module_passes ex_order ex_size ex_uniq [ex_self] = Inr (out, sms)"
    "list_ex (\<lambda>f. fun_name f = unopt_prefix @ fun_name ex_self) out"
    using ex_self_run by blast
  then obtain u where u: "u \<in> set out" "fun_name u = unopt_prefix @ fun_name ex_self" by (auto simp: list_ex_iff)
  have "fun_name u = ''__unopt_more_indirection''" by (simp add: u(2) ex_self_def ex_fun_def unopt_prefix_def)
  moreover have "is_unopt (fun_name u)" unfolding u(2) by code_simp
  ultimately show ?thesis
    using compiled_copies_settled [OF ex_self_source(1-4,6) run(1) u(1)] run(1) u(1) by blast
qed

section \<open>Live values of a compiled program\<close>

text \<open>C4: On a compiled program whose records have one location for each value of their call the live
  values are moved as they are meant to be: in every run of the handler to the stage in which
  \<open>restore_unopt_stack\<close> is called, for any guard with a twin, \<open>restore_unopt_stack\<close> is the
  simultaneous assignment, frame by frame, of the values read before. That the two records of a
  frame have the same number of locations, which the handler checks, and that the number is even,
  on which it relies, are not assumptions: they follow from the passes.\<close>

theorem compiled_values_move:
  assumes "plain_module md" and "guard_fun_name \<notin> set (map fun_name md)"
    and "list_all (\<lambda>f. list_all (list_all no_intrinsic) (body f)) md"
    and "add_unopt_copies uniq (declare_guard md) = Inr md2"
    and "list_all (\<lambda>f. list_all (list_all few_arguments) (body f)) md"
    and "list_all (\<lambda>f. is_declaration f \<or> source_fun f) md" and "module_dominance dominates bdom md"
    and "next_base 1 (site_counts md2 (declare_guard md)) \<le> 2 ^ 63"
    and "module_passes dominates alloc_size uniq md = Inr (out, sms)"
    and "counted out sm" and "stmap_ok sm" and "length (env_cursor e) < 2 ^ 32"
    and "r \<in> set (stk_map_records sm)" and "stmap_get_map_record sm (NOT (patchpoint_id r)) \<noteq> None"
    and "(stage_step e sm u r uf f g)\<^sup>*\<^sup>* (Entered m) (Restacked st seg m1)"
  shows "restore_unopt_stack (env_slack e) sm st m1 =
    bind_res (map_res (frame_pairs (env_slack e) m1 sm st) (call_indices st)) (\<lambda>pss.
    bind_res (fold_res (\<lambda>(i, ps). restore_values (env_slack e) i (bp (frames st ! i)) (zip (unopt_locations sm (frames st ! i)) ps))
      (zip (call_indices st) pss) (frames st, m1)) (\<lambda>(fs, m').
    Inr (st\<lparr>frames := fs\<rparr>, m')))"
proof -
  note moves = counted_moves [OF assms(10) compiled_paired [OF assms(1-5,9)] assms(11-15)]
  have "recorded_frames sm (frames st)" using stages_recorded [OF assms(15,11-14)] by simp
  then have "list_all (counts_agree sm) (butlast (frames st))"
    using compiled_counts_agree [OF assms(1-10)] by (simp add: recorded_frames_def list_all_iff)
  then show ?thesis using restore_unopt_stack_transfer [OF moves(1,2)] by simp
qed

text \<open>The run of the example up to this stage.\<close>

lemma ex_stages:
  "(stage_step ex_env ex_sm ex_unopt1 ex_opt1 ex_size_unopt ex_size_opt g)\<^sup>*\<^sup>* (Entered ex_run_ram)
    (Restacked ex_ready None ex_run_ram2)"
proof -
  let ?step = "stage_step ex_env ex_sm ex_unopt1 ex_opt1 ex_size_unopt ex_size_opt g"
  have e: "env_os ex_env = ex_os" by (simp add: ex_env_def)
  have "?step (Entered ex_run_ram) (Unwound ex_unwound ex_run_ram)" by (rule unwind [OF ex_unwind])
  moreover have "?step (Unwound ex_unwound ex_run_ram) (Matched ex_matched ex_run_ram2)" by (rule match) (simp add: e ex_match)
  moreover have "?step (Matched ex_matched ex_run_ram2) (Spliced ex_matched False ex_run_ram2)" by (rule splice) (simp add: e ex_not_inlined)
  moreover have "?step (Spliced ex_matched False ex_run_ram2) (Framed ex_ready False ex_run_ram2)" by (rule add [OF ex_insert])
  moreover have "?step (Framed ex_ready False ex_run_ram2) (Restacked ex_ready None ex_run_ram2)" by (rule stay)
  ultimately show ?thesis by (meson rtranclp.rtrancl_into_rtrancl rtranclp.rtrancl_refl)
qed

theorem compiled_values_move_witness:
  "bind_res (map_res (frame_pairs ex_slack ex_run_ram2 ex_sm ex_ready) (call_indices ex_ready)) (\<lambda>pss.
    bind_res (fold_res (\<lambda>(i, ps). restore_values ex_slack i (bp (frames ex_ready ! i)) (zip (unopt_locations ex_sm (frames ex_ready ! i)) ps))
      (zip (call_indices ex_ready) pss) (frames ex_ready, ex_run_ram2)) (\<lambda>(fs, m').
    Inr (ex_ready\<lparr>frames := fs\<rparr>, m'))) = restore_unopt_stack ex_slack ex_sm ex_ready ex_run_ram2 \<and>
    (\<exists>st' m'. restore_unopt_stack ex_slack ex_sm ex_ready ex_run_ram2 = Inr (st', m'))"
proof -
  obtain out sms where run: "module_passes ex_order ex_size ex_uniq [ex_self] = Inr (out, sms)" "counted out ex_sm"
    using ex_self_run by blast
  have e: "env_slack ex_env = ex_slack" "length (env_cursor ex_env) < 2 ^ 32" by (simp_all add: ex_env_def ex_run_cursor_def)
  have r: "ex_opt1 \<in> set (stk_map_records ex_sm)" "stmap_get_map_record ex_sm (NOT (patchpoint_id ex_opt1)) \<noteq> None"
    by (simp_all add: ex_sm_def, simp add: ex_sm_def [symmetric])
  show ?thesis
    using compiled_values_move [OF ex_self_source(1-4) ex_self_fun(2,1) ex_self_dominance ex_self_fits run ex_ok e(2) r ex_stages]
      ex_run_transfer by (simp add: e(1))
qed

text \<open>C6: As many values are recorded at a site in a function as in its unoptimized copy, and as many
  as the source says: behind all passes the calls that make records in a function, and those in its
  copy, are one for each site, and the call of site \<open>i\<close> has for each value that is live there in the
  source, with the uses that earlier records add, two arguments more than the fixed ones.\<close>

theorem compiled_twin_counts:
  assumes "plain_module md" and "guard_fun_name \<notin> set (map fun_name md)"
    and "list_all (\<lambda>f. list_all (list_all no_intrinsic) (body f)) md"
    and "add_unopt_copies uniq (declare_guard md) = Inr md2"
    and "list_all (\<lambda>f. list_all (list_all few_arguments) (body f)) md"
    and "list_all (\<lambda>f. is_declaration f \<or> source_fun f) md" and "module_dominance dominates bdom md"
    and "module_passes dominates alloc_size uniq md = Inr (out, sms)"
    and "f \<in> set md" and "\<not> is_declaration f"
    and "f' \<in> set out" and "fun_name f' = fun_name f" and "u' \<in> set out" and "fun_name u' = unopt_prefix @ fun_name f"
  shows "value_counts f' = map (\<lambda>i. Some (2 * site_values (bdom (fun_name f)) (is_site md2 (fun_name f)) f i))
      [0..<sites_in md2 (fun_name f) (body f)] \<and> value_counts u' = value_counts f'"
proof -
  have "length (source_sites (is_site md2 (fun_name f)) f) = sites_in md2 (fun_name f) (body f)" by (rule length_source_sites)
  then show ?thesis
    using compiled_counts [OF assms(1-11)] compiled_counts [OF assms(1-10,13)] assms(12,14) by simp
qed

theorem compiled_twin_counts_witness:
  "\<exists>out sms f' u'. module_passes ex_order ex_size ex_uniq [ex_self] = Inr (out, sms) \<and> f' \<in> set out \<and> u' \<in> set out \<and>
    fun_name f' = ''more_indirection'' \<and> fun_name u' = ''__unopt_more_indirection'' \<and>
    value_counts f' = [Some 4, Some 0] \<and> value_counts u' = value_counts f'"
proof -
  obtain out sms f' where run: "module_passes ex_order ex_size ex_uniq [ex_self] = Inr (out, sms)"
    and f': "f' \<in> set out" "fun_name f' = fun_name ex_self" and "list_ex (\<lambda>f. fun_name f = unopt_prefix @ fun_name ex_self) out"
    using ex_self_run by blast
  then obtain u' where u': "u' \<in> set out" "fun_name u' = unopt_prefix @ fun_name ex_self" by (auto simp: list_ex_iff)
  have f: "ex_self \<in> set [ex_self]" "\<not> is_declaration ex_self" by (simp_all add: ex_self_def ex_fun_def)
  have "map (\<lambda>i. Some (2 * site_values (<) (is_site ex_self2 (fun_name ex_self)) ex_self i))
      [0..<sites_in ex_self2 (fun_name ex_self) (body ex_self)] = [Some 4, Some 0]" by code_simp
  then have "value_counts f' = [Some 4, Some 0] \<and> value_counts u' = value_counts f'"
    using compiled_twin_counts [OF ex_self_source(1-4) ex_self_fun(2,1) ex_self_dominance run f f' u'] by simp
  then show ?thesis using run f' u' by (auto simp: ex_self_def ex_fun_def unopt_prefix_def)
qed

end
